(* ===== verification/Prelude.thy ===== *)
theory Prelude
  imports Main "HOL-Library.Word"
begin

section \<open>Prelude: machine types, stopping outcomes, shared lemmas\<close>

text \<open>
  Types and facts every component of the network library shares: the fixed-width integers of
  \<^verbatim>\<open>include/Types.h\<close>, the ways a call of the C++ code can stop other than by returning
  (\<open>stop\<close>), the result type \<open>res\<close> with its sequencing operator, byte-level encodings and
  the generic lemmas on lists, modular indices and words that the component proofs use.
\<close>

unbundle bit_operations_syntax

named_theorems res_simps \<open>rewriting of the result type and its sequencing\<close>
named_theorems index_simps \<open>modular index arithmetic of the ring structures\<close>
named_theorems bytes_simps \<open>byte encodings and their lengths\<close>

subsection \<open>Fixed-width integers\<close>

type_synonym u8 = "8 word"
type_synonym u16 = "16 word"
type_synonym u32 = "32 word"
type_synonym u64 = "64 word"

text \<open>
  The signed types \<^verbatim>\<open>int\<close> and \<^verbatim>\<open>long\<close> (both 32 bits with MSVC) are 32-bit words read
  by \<open>sint\<close>; the compiler's two's complement wrap-around is the word arithmetic.
\<close>

type_synonym i32 = "32 word"

subsection \<open>Outcomes that are not a return\<close>

text \<open>
  \<open>DebugBreak\<close> is \<^verbatim>\<open>__debugbreak()\<close> (and a failing \<^verbatim>\<open>ASSERT_CRASH\<close> in a debug build),
  \<open>InvalidArgument\<close> and \<open>RuntimeError\<close> are the exceptions the library throws, \<open>OutOfRange\<close> one it lets through,
  \<open>Terminate\<close> is \<^verbatim>\<open>throw;\<close> with no exception being handled (it calls
  \<^verbatim>\<open>std::terminate\<close>), \<open>OutOfBounds\<close> is an access outside an array (undefined behaviour),
  \<open>NullDeref\<close> an access through a null pointer, \<open>BadShift\<close> a shift by at least the width of its operand and \<open>OutOfFuel\<close> a loop that did not end within
  the number of iterations the model was given.
\<close>

datatype stop =
    DebugBreak
  | InvalidArgument
  | RuntimeError
  | OutOfRange
  | Terminate
  | OutOfBounds
  | NullDeref
  | BadShift
  | OutOfFuel

type_synonym 'a res = "stop + 'a"

definition bind_res :: "'a res \<Rightarrow> ('a \<Rightarrow> 'b res) \<Rightarrow> 'b res" where
  "bind_res r f = (case r of Inl e \<Rightarrow> Inl e | Inr x \<Rightarrow> f x)"

text \<open>
  \<^verbatim>\<open>ASSERT_CRASH(expr, cause)\<close> of \<^verbatim>\<open>include/Macro.h\<close>: a break in a debug build
  (\<open>dbg\<close>), nothing in a release build.
\<close>

definition ASSERT_CRASH :: "bool \<Rightarrow> bool \<Rightarrow> unit res" where
  "ASSERT_CRASH dbg expr = (if dbg \<and> \<not> expr then Inl DebugBreak else Inr ())"

lemma bind_res_simps [simp, res_simps]:
  "bind_res (Inl e) f = Inl e"
  "bind_res (Inr x) f = f x"
  by (simp_all add: bind_res_def)

lemma bind_res_InrE [elim!]:
  assumes "bind_res r f = Inr y"
  obtains x where "r = Inr x" and "f x = Inr y"
  using assms by (cases r) simp_all

lemma bind_res_assoc [res_simps]:
  "bind_res (bind_res r f) g = bind_res r (\<lambda>x. bind_res (f x) g)"
  by (cases r) simp_all

lemma ASSERT_CRASH_True [simp, res_simps]: "ASSERT_CRASH dbg True = Inr ()"
  by (simp add: ASSERT_CRASH_def)

lemma ASSERT_CRASH_release [simp, res_simps]: "ASSERT_CRASH False e = Inr ()"
  by (simp add: ASSERT_CRASH_def)

subsection \<open>Little-endian byte encodings\<close>

text \<open>Scalars are copied to and from the buffers in the machine's byte order (x86: little-endian).\<close>

definition byte_of :: "'a::len word \<Rightarrow> nat \<Rightarrow> u8" where
  "byte_of w k = ucast (drop_bit (8 * k) w)"

definition to_le :: "nat \<Rightarrow> 'a::len word \<Rightarrow> u8 list" where
  "to_le n w = map (byte_of w) [0..<n]"

fun from_le :: "u8 list \<Rightarrow> 'a::len word" where
  "from_le [] = 0"
| "from_le (b # bs) = ucast b OR push_bit 8 (from_le bs)"

lemma length_to_le [simp, bytes_simps]: "length (to_le n w) = n"
  by (simp add: to_le_def)

lemma to_le_0 [simp]: "to_le 0 w = []"
  by (simp add: to_le_def)

lemma to_le_Suc: "to_le (Suc n) w = ucast w # to_le n (drop_bit 8 w)"
proof -
  have "to_le (Suc n) w = byte_of w 0 # map (byte_of w) (map Suc [0..<n])"
    by (simp add: to_le_def upt_conv_Cons map_Suc_upt del: upt_Suc)
  also have "map (byte_of w) (map Suc [0..<n]) = to_le n (drop_bit 8 w)"
    by (simp add: to_le_def byte_of_def drop_bit_drop_bit add.commute)
  finally show ?thesis by (simp add: byte_of_def)
qed

lemma from_le_to_le_take: "from_le (to_le n w) = (take_bit (8 * n) w :: 'a::len word)"
proof (induction n arbitrary: w)
  case 0
  show ?case by simp
next
  case (Suc n)
  have "from_le (to_le (Suc n) w)
      = (ucast (ucast w :: u8) OR push_bit 8 (take_bit (8 * n) (drop_bit 8 w)) :: 'a word)"
    by (simp add: to_le_Suc Suc.IH)
  also have "\<dots> = take_bit (8 * Suc n) w"
    by (rule bit_word_eqI) (auto simp: bit_simps)
  finally show ?case .
qed

lemma from_le_to_le [simp]:
  "8 * n \<ge> LENGTH('a) \<Longrightarrow> from_le (to_le n w) = (w :: 'a::len word)"
  by (simp add: from_le_to_le_take take_bit_word_eq_self)

lemma unat_of_nat_small: "n < 2 ^ LENGTH('a) \<Longrightarrow> unat (of_nat n :: 'a::len word) = n"
  by (simp add: unat_of_nat)

text \<open>A 32-bit word below \<open>2 ^ 31\<close> reads the same signed and unsigned.\<close>

lemma sint_i32_nonneg:
  fixes w :: i32
  assumes "unat w < 2 ^ 31"
  shows "sint w = int (unat w)"
proof -
  have e: "int (unat w) = uint w" by simp
  have "int (unat w) < int (2 ^ 31)" using assms by (simp only: of_nat_less_iff)
  then have "int (unat w) < 2 ^ 31" by (simp only: of_nat_power of_nat_numeral)
  then have u: "0 \<le> uint w" "uint w < 2 ^ 31" by (simp_all only: e uint_ge_0)
  have "sint w = signed_take_bit 31 (uint w)" by (simp add: sint_uint)
  also have "\<dots> = uint w" by (rule signed_take_bit_int_eq_self) (use u in linarith)+
  finally show ?thesis by (simp only: e)
qed

lemma i32_of_nat_small:
  assumes "n < 2 ^ 31"
  shows "unat (of_nat n :: i32) = n" and "sint (of_nat n :: i32) = int n"
proof -
  show u: "unat (of_nat n :: i32) = n" using assms by (intro unat_of_nat_small) simp
  then show "sint (of_nat n :: i32) = int n" using assms by (subst sint_i32_nonneg) simp_all
qed

subsection \<open>Modular indices\<close>

lemma mod_diff_wrap [index_simps]:
  fixes a b n :: nat
  assumes "a < n" and "b < n"
  shows "(a + n - b) mod n = (if b \<le> a then a - b else n - (b - a))"
proof (cases "b \<le> a")
  case True
  then have "a + n - b = n + (a - b)" by simp
  with True assms show ?thesis by (simp add: mod_if)
next
  case False
  with assms have "a + n - b < n" and "a + n - b = n - (b - a)" by simp_all
  with False show ?thesis by simp
qed

lemma mod_add_cancel_lt:
  fixes i j n :: nat
  assumes "i < n" and "j < n" and "(c + i) mod n = (c + j) mod n"
  shows "i = j"
proof -
  have "((c + i) mod n + (n - c mod n)) mod n = ((c + j) mod n + (n - c mod n)) mod n"
    by (simp add: assms(3))
  moreover have "((c + k) mod n + (n - c mod n)) mod n = k" if "k < n" for k
  proof -
    have "((c + k) mod n + (n - c mod n)) mod n = (c mod n + k + (n - c mod n)) mod n"
      by (metis mod_add_left_eq add.assoc)
    also have "c mod n + k + (n - c mod n) = k + n"
      using that mod_less_divisor [of n c] by simp
    finally show ?thesis using that by simp
  qed
  ultimately show ?thesis using assms(1,2) by metis
qed

subsection \<open>Power-of-two arrays indexed by masked counters\<close>

text \<open>
  The ring structures keep free-running counters and mask them with \<open>N - 1\<close>, where the array size
  \<open>N\<close> is a power of two (a \<^verbatim>\<open>static_assert\<close> of each class). Since \<open>N\<close> divides the range of the
  counter, masking stays in step across the counter's own wrap-around.
\<close>

definition pow2 :: "nat \<Rightarrow> bool" where
  "pow2 n \<longleftrightarrow> (\<exists>k \<in> {0..<31}. n = 2 ^ k)"

definition masked :: "'a::len word \<Rightarrow> nat \<Rightarrow> nat" where
  "masked w n = unat (w AND (of_nat n - 1))"

lemma pow2_pos: "pow2 n \<Longrightarrow> 0 < n"
  by (auto simp: pow2_def)

lemma pow2_less: "pow2 n \<Longrightarrow> n < 2 ^ 31"
  using power_strict_increasing [of _ 31 "2 :: nat"] by (auto simp: pow2_def)

lemma masked_mod [index_simps]:
  assumes "pow2 n"
  shows "masked w n = unat w mod n"
proof -
  obtain k where k: "n = 2 ^ k" using assms by (auto simp: pow2_def)
  have "w AND (of_nat n - 1) = take_bit k w"
    by (simp add: k take_bit_eq_mask mask_eq_exp_minus_1)
  then have "masked w n = unat (take_bit k w)" by (simp only: masked_def)
  also have "\<dots> = unat w mod n"
    by (simp only: unsigned_take_bit_eq) (simp add: take_bit_eq_mod k)
  finally show ?thesis .
qed

lemma masked_less: "pow2 n \<Longrightarrow> masked w n < n"
  by (simp add: masked_mod pow2_pos)

lemma masked_add:
  fixes w :: "'a::len word"
  assumes "pow2 n" and "31 \<le> LENGTH('a)"
  shows "masked (w + of_nat j) n = (masked w n + j) mod n"
proof -
  obtain k where k: "n = 2 ^ k" "k < 31" using assms(1) by (auto simp: pow2_def)
  have "n dvd 2 ^ LENGTH('a)" using k assms(2) by (simp add: le_imp_power_dvd)
  moreover have "unat (w + of_nat j) = (unat w + j) mod 2 ^ LENGTH('a)"
    by (simp add: unat_word_ariths unat_of_nat mod_simps)
  ultimately have "unat (w + of_nat j) mod n = (unat w + j) mod n"
    by (simp add: mod_mod_cancel)
  then show ?thesis using assms(1) by (simp add: masked_mod mod_simps)
qed

lemma rotate_update:
  assumes "k < length xs"
  shows "rotate h (xs[(h + k) mod length xs := v]) = (rotate h xs)[k := v]"
proof (rule nth_equalityI)
  show "length (rotate h (xs[(h + k) mod length xs := v])) = length ((rotate h xs)[k := v])"
    by simp
next
  fix i
  assume "i < length (rotate h (xs[(h + k) mod length xs := v]))"
  then have i: "i < length xs" by simp
  then have "(h + i) mod length xs = (h + k) mod length xs \<longleftrightarrow> i = k"
    using mod_add_cancel_lt [of i "length xs" k h] assms by auto
  moreover have "(h + i) mod length xs < length xs" using i by (intro mod_less_divisor) linarith
  ultimately show "rotate h (xs[(h + k) mod length xs := v]) ! i = (rotate h xs)[k := v] ! i"
    using i assms by (auto simp: nth_rotate nth_list_update)
qed

lemma rotate_nth_offset:
  "k < length xs \<Longrightarrow> xs ! ((h + k) mod length xs) = rotate h xs ! k"
  by (simp add: nth_rotate)

lemma rotate_next: "xs \<noteq> [] \<Longrightarrow> rotate (Suc h mod length xs) xs = tl (rotate h xs) @ [hd (rotate h xs)]"
  by (metis rotate_Suc rotate_conv_mod rotate1_hd_tl rotate_is_Nil_conv)

end
