(* ===== verification/Wire.thy ===== *)
theory Wire
  imports Prelude
begin

section \<open>The wire format\<close>

text \<open>
  The packet headers of \<^verbatim>\<open>include/Protocol.h\<close> as packed structs, and the stream transformation
  that \<^verbatim>\<open>CSendBuffer::Encode\<close> applies and \<^verbatim>\<open>CRingBuffer::Decode\<close> undoes, as functions on byte
  lists. They are the specification that the in-place loops over the two buffers are shown to
  implement in the theories of those buffers.
\<close>

subsection \<open>Headers\<close>

definition dfPACKET_CODE :: u8 where
  "dfPACKET_CODE = 0x77"

record NetHeader =
  nh_code :: u8
  nh_len :: u16
  nh_randomKey :: u8
  nh_checkSum :: u8

record LANHeader =
  lh_len :: u16

definition sizeof_NetHeader :: nat where
  "sizeof_NetHeader = 5"

definition sizeof_LANHeader :: nat where
  "sizeof_LANHeader = 2"

definition offsetof_checkSum :: nat where
  "offsetof_checkSum = 4"

definition NetHeader_bytes :: "NetHeader \<Rightarrow> u8 list" where
  "NetHeader_bytes h = nh_code h # to_le 2 (nh_len h) @ [nh_randomKey h, nh_checkSum h]"

definition NetHeader_of :: "u8 list \<Rightarrow> NetHeader" where
  "NetHeader_of bs =
     \<lparr>nh_code = bs ! 0, nh_len = from_le (take 2 (drop 1 bs)),
      nh_randomKey = bs ! 3, nh_checkSum = bs ! 4\<rparr>"

definition LANHeader_bytes :: "LANHeader \<Rightarrow> u8 list" where
  "LANHeader_bytes h = to_le 2 (lh_len h)"

definition LANHeader_of :: "u8 list \<Rightarrow> LANHeader" where
  "LANHeader_of bs = \<lparr>lh_len = from_le (take 2 bs)\<rparr>"

subsection \<open>The stream transformation\<close>

text \<open>
  One step of the encoder: \<open>p\<close> and \<open>e\<close> are the previous plain-side and wire-side bytes, \<open>i\<close>
  the position counter, which starts at 1. All arithmetic is truncated to a byte by the
  assignments of the source to \<^verbatim>\<open>char\<close> variables.
\<close>

fun encode_bytes :: "u8 \<Rightarrow> u8 \<Rightarrow> u8 \<Rightarrow> u8 \<Rightarrow> u8 \<Rightarrow> u8 list \<Rightarrow> u8 list" where
  "encode_bytes key rk i p e [] = []"
| "encode_bytes key rk i p e (b # bs) =
     (let p' = b XOR (p + rk + i); e' = p' XOR (e + key + i)
      in e' # encode_bytes key rk (i + 1) p' e' bs)"

fun decode_bytes :: "u8 \<Rightarrow> u8 \<Rightarrow> u8 \<Rightarrow> u8 \<Rightarrow> u8 \<Rightarrow> u8 list \<Rightarrow> u8 list" where
  "decode_bytes key rk i oldP e [] = []"
| "decode_bytes key rk i oldP e (t # ts) =
     (let p = t XOR (e + key + i)
      in (p XOR (oldP + rk + i)) # decode_bytes key rk (i + 1) p t ts)"

definition checksum :: "u8 list \<Rightarrow> u8" where
  "checksum bs = sum_list bs"

definition fixed_randomKey :: u8 where
  "fixed_randomKey = 0x31"

text \<open>What one packet looks like on the wire, for a NET session with key \<open>key\<close> and for a LAN session.\<close>

definition net_frame :: "u8 \<Rightarrow> u8 list \<Rightarrow> u8 list" where
  "net_frame key payload =
     dfPACKET_CODE # to_le 2 (of_nat (length payload) :: u16) @
     fixed_randomKey # encode_bytes key fixed_randomKey 1 0 0 (checksum payload # payload)"

definition lan_frame :: "u8 list \<Rightarrow> u8 list" where
  "lan_frame payload = to_le 2 (of_nat (length payload) :: u16) @ payload"

subsection \<open>Facts\<close>

lemmas header_sizes [simp, bytes_simps] =
  sizeof_NetHeader_def sizeof_LANHeader_def offsetof_checkSum_def

lemma length_NetHeader_bytes [simp, bytes_simps]: "length (NetHeader_bytes h) = 5"
  by (simp add: NetHeader_bytes_def)

lemma length_LANHeader_bytes [simp, bytes_simps]: "length (LANHeader_bytes h) = 2"
  by (simp add: LANHeader_bytes_def)

lemma to_le_2: "to_le 2 (w :: u16) = [ucast w, ucast (drop_bit 8 w)]"
  by (simp add: numeral_2_eq_2 to_le_Suc)

lemma NetHeader_of_bytes [simp]: "NetHeader_of (NetHeader_bytes h @ rest) = h"
proof -
  have "take 2 (drop 1 (NetHeader_bytes h @ rest)) = to_le 2 (nh_len h)"
    by (simp add: NetHeader_bytes_def)
  then have "from_le (take 2 (drop 1 (NetHeader_bytes h @ rest))) = nh_len h"
    by simp
  moreover have "(NetHeader_bytes h @ rest) ! 3 = nh_randomKey h"
    and "(NetHeader_bytes h @ rest) ! 4 = nh_checkSum h"
    by (simp_all add: NetHeader_bytes_def to_le_2)
  ultimately show ?thesis
    by (simp add: NetHeader_of_def NetHeader_bytes_def)
qed

lemma LANHeader_of_bytes [simp]: "LANHeader_of (LANHeader_bytes h @ rest) = h"
  by (simp add: LANHeader_of_def LANHeader_bytes_def)

lemma length_encode_bytes [simp, bytes_simps]: "length (encode_bytes key rk i p e bs) = length bs"
  by (induction bs arbitrary: i p e) (simp_all add: Let_def)

lemma length_decode_bytes [simp, bytes_simps]: "length (decode_bytes key rk i p e bs) = length bs"
  by (induction bs arbitrary: i p e) (simp_all add: Let_def)

lemma word_xor_cancel [simp]: "(x XOR y) XOR y = (x :: 'a::len word)"
  by (simp add: xor.assoc)

lemma decode_encode_bytes [simp]:
  "decode_bytes key rk i p e (encode_bytes key rk i p e bs) = bs"
  by (induction bs arbitrary: i p e) (simp_all add: Let_def)

lemma encode_decode_bytes [simp]:
  "encode_bytes key rk i p e (decode_bytes key rk i p e bs) = bs"
  by (induction bs arbitrary: i p e) (simp_all add: Let_def)

lemma length_net_frame [simp, bytes_simps]: "length (net_frame key bs) = length bs + 5"
  by (simp add: net_frame_def Let_def)

lemma length_lan_frame [simp, bytes_simps]: "length (lan_frame bs) = length bs + 2"
  by (simp add: lan_frame_def)

lemma unat_of_nat_u16: "n < 65536 \<Longrightarrow> unat (of_nat n :: u16) = n"
  by (simp add: unat_of_nat)

text \<open>
  A frame starts with its header: the header read back has the packet code, the payload length and
  the fixed random key, and decoding what follows gives the checksum and the payload.
\<close>

lemma NetHeader_of_net_frame:
  "NetHeader_of (net_frame key bs @ rest) =
     \<lparr>nh_code = dfPACKET_CODE, nh_len = of_nat (length bs), nh_randomKey = fixed_randomKey,
      nh_checkSum = encode_bytes key fixed_randomKey 1 0 0 (checksum bs # bs) ! 0\<rparr>"
proof -
  let ?enc = "encode_bytes key fixed_randomKey 1 0 0 (checksum bs # bs)"
  have "?enc = ?enc ! 0 # tl ?enc" by (simp add: Let_def)
  then have "net_frame key bs @ rest =
      NetHeader_bytes \<lparr>nh_code = dfPACKET_CODE, nh_len = of_nat (length bs),
        nh_randomKey = fixed_randomKey, nh_checkSum = ?enc ! 0\<rparr> @ (tl ?enc @ rest)"
    by (simp add: net_frame_def NetHeader_bytes_def)
  then show ?thesis by simp
qed

lemma LANHeader_of_lan_frame:
  "LANHeader_of (lan_frame bs @ rest) = \<lparr>lh_len = of_nat (length bs)\<rparr>"
  by (simp add: LANHeader_of_def lan_frame_def)

end
