(* ===== verification/Ring_Buffer.thy ===== *)
theory Ring_Buffer
  imports Wire
begin

section \<open>The receive ring buffer\<close>

text \<open>
  \<^verbatim>\<open>CRingBuffer\<close> (\<^verbatim>\<open>include/CRingBuffer.h\<close>, \<^verbatim>\<open>src/CRingBuffer.cpp\<close>): a fixed array of 8192 bytes with
  two free-running 32-bit indices that are masked at every access. The model keeps the array as a
  list and the indices as 32-bit words. \<open>content\<close> is the abstraction to the byte sequence the
  buffer holds; the lemmas below show that every operation is the corresponding list operation.
\<close>

subsection \<open>State and operations\<close>

definition BUFFER_SIZE :: nat where
  "BUFFER_SIZE = 8192"

definition INDEX_MASK :: i32 where
  "INDEX_MASK = 8191"

record CRingBuffer =
  rb_buffer :: "u8 list"
  rb_front :: i32
  rb_rear :: i32

definition new_CRingBuffer :: CRingBuffer where
  "new_CRingBuffer = \<lparr>rb_buffer = replicate BUFFER_SIZE 0, rb_front = 0, rb_rear = 0\<rparr>"

definition GetIndex :: "i32 \<Rightarrow> nat" where
  "GetIndex num = unat (num AND INDEX_MASK)"

definition GetFrontIndex :: "CRingBuffer \<Rightarrow> nat" where
  "GetFrontIndex r = GetIndex (rb_front r)"

definition GetRearIndex :: "CRingBuffer \<Rightarrow> nat" where
  "GetRearIndex r = GetIndex (rb_rear r)"

definition Ring_Size :: "CRingBuffer \<Rightarrow> nat" where
  "Ring_Size r =
     (let rear = GetIndex (rb_rear r); front = GetIndex (rb_front r)
      in if rear \<ge> front then rear - front else BUFFER_SIZE - (front - rear))"

definition FreeSize :: "CRingBuffer \<Rightarrow> nat" where
  "FreeSize r = BUFFER_SIZE - Ring_Size r - 1"

definition DirectEnqueueSize :: "bool \<Rightarrow> CRingBuffer \<Rightarrow> nat res" where
  "DirectEnqueueSize dbg r =
     (let rear = GetIndex (rb_rear r); front = GetIndex (rb_front r)
      in if GetIndex (of_nat rear + 1) = front then Inr 0
         else if rear < front then
           (let result = front - rear - 1
            in bind_res (ASSERT_CRASH dbg (result > 0)) (\<lambda>_. Inr result))
         else
           (let result = (if front = 0 then BUFFER_SIZE - rear - 1 else BUFFER_SIZE - rear)
            in bind_res (ASSERT_CRASH dbg (result > 0)) (\<lambda>_. Inr result)))"

definition DirectDequeueSize :: "CRingBuffer \<Rightarrow> nat" where
  "DirectDequeueSize r =
     (let rear = GetIndex (rb_rear r); front = GetIndex (rb_front r)
      in if rear \<ge> front then rear - front else BUFFER_SIZE - front)"

definition Ring_Clear :: "CRingBuffer \<Rightarrow> CRingBuffer" where
  "Ring_Clear r = r\<lparr>rb_front := 0, rb_rear := 0\<rparr>"

definition MoveFront :: "CRingBuffer \<Rightarrow> int \<Rightarrow> CRingBuffer" where
  "MoveFront r n = r\<lparr>rb_front := rb_front r + of_int n\<rparr>"

definition MoveRear :: "CRingBuffer \<Rightarrow> int \<Rightarrow> CRingBuffer" where
  "MoveRear r n = r\<lparr>rb_rear := rb_rear r + of_int n\<rparr>"

text \<open>\<^verbatim>\<open>Dequeue\<close> returns the number of removed bytes and the new buffer.\<close>

definition Ring_Dequeue :: "CRingBuffer \<Rightarrow> int \<Rightarrow> (int \<times> CRingBuffer) res" where
  "Ring_Dequeue r deqSize =
     (if Ring_Size r = 0 then Inr (0, r)
      else if deqSize > int (Ring_Size r) then Inl DebugBreak
      else Inr (deqSize, MoveFront r deqSize))"

text \<open>
  A block copy out of the array, with the bounds check that the C++ leaves out, and the two-part copy
  of \<^verbatim>\<open>Peek\<close>. The check \<^verbatim>\<open>Size() < size\<close> compares as unsigned; both sides are never negative.
\<close>

definition copy_out :: "u8 list \<Rightarrow> nat \<Rightarrow> nat \<Rightarrow> u8 list res" where
  "copy_out buf at n = (if at + n \<le> length buf then Inr (take n (drop at buf)) else Inl OutOfBounds)"

definition Ring_Peek :: "CRingBuffer \<Rightarrow> nat \<Rightarrow> u8 list res" where
  "Ring_Peek r n =
     (let front = GetIndex (rb_front r)
      in if Ring_Size r < n then Inl Terminate
         else if DirectDequeueSize r \<ge> n then copy_out (rb_buffer r) front n
         else
           (let deqSize = DirectDequeueSize r
            in bind_res (copy_out (rb_buffer r) front deqSize) (\<lambda>a.
               bind_res (copy_out (rb_buffer r) 0 (n - deqSize)) (\<lambda>b. Inr (a @ b)))))"

text \<open>The loop of \<^verbatim>\<open>Decode\<close>: \<open>n\<close> iterations from array index \<open>start\<close>, counter \<open>i\<close>.\<close>

fun Ring_Decode_loop :: "u8 \<Rightarrow> u8 \<Rightarrow> nat \<Rightarrow> u8 list \<Rightarrow> nat \<Rightarrow> nat \<Rightarrow> u8 \<Rightarrow> u8 \<Rightarrow> u8 list" where
  "Ring_Decode_loop staticKey randomKey 0 buf start i e oldP = buf"
| "Ring_Decode_loop staticKey randomKey (Suc n) buf start i e oldP =
     (let tmp = buf ! start;
          p = tmp XOR (e + staticKey + of_nat i);
          buf' = buf[start := p XOR (oldP + randomKey + of_nat i)]
      in Ring_Decode_loop staticKey randomKey n buf' (GetIndex (of_nat start + 1)) (Suc i) tmp p)"

definition Ring_Decode :: "CRingBuffer \<Rightarrow> u8 \<Rightarrow> CRingBuffer res" where
  "Ring_Decode r staticKey =
     bind_res (Ring_Peek r sizeof_NetHeader) (\<lambda>bs.
       (let header = NetHeader_of bs;
            decodeStart = GetIndex (rb_front r + of_nat offsetof_checkSum);
            decodeLen = nh_len header + of_nat (sizeof_NetHeader - offsetof_checkSum)
        in Inr (r\<lparr>rb_buffer := Ring_Decode_loop staticKey (nh_randomKey header) (unat decodeLen)
                                 (rb_buffer r) decodeStart 1 0 0\<rparr>)))"

fun checksum_loop :: "u8 list \<Rightarrow> nat \<Rightarrow> nat \<Rightarrow> nat \<Rightarrow> u8 \<Rightarrow> u8" where
  "checksum_loop buf payloadIndex i 0 acc = acc"
| "checksum_loop buf payloadIndex i (Suc n) acc =
     checksum_loop buf payloadIndex (Suc i) n
       (acc + buf ! GetIndex (of_nat payloadIndex + of_nat i))"

definition ChecksumValid :: "CRingBuffer \<Rightarrow> bool res" where
  "ChecksumValid r =
     bind_res (Ring_Peek r sizeof_NetHeader) (\<lambda>bs.
       (let header = NetHeader_of bs;
            packetLen = unat (nh_len header);
            payloadIndex = GetIndex (rb_front r + of_nat sizeof_NetHeader);
            payloadChecksum = checksum_loop (rb_buffer r) payloadIndex 0 packetLen 0
        in Inr (payloadChecksum = nh_checkSum header)))"

text \<open>
  What the kernel does with the two blocks \<^verbatim>\<open>Session::RecvNotIncrease\<close> hands to \<^verbatim>\<open>WSARecv\<close>: it fills
  the block at the rear first (\<open>len0\<close> bytes), then the block at the start of the array.
\<close>

definition two_blocks :: "u8 list \<Rightarrow> nat \<Rightarrow> u8 list \<Rightarrow> u8 list \<Rightarrow> u8 list" where
  "two_blocks buf e a b = b @ drop (length b) (take e buf @ a @ drop (e + length a) buf)"

definition fill_blocks :: "CRingBuffer \<Rightarrow> nat \<Rightarrow> u8 list \<Rightarrow> CRingBuffer" where
  "fill_blocks r len0 bs =
     r\<lparr>rb_buffer := two_blocks (rb_buffer r) (GetIndex (rb_rear r)) (take len0 bs) (drop len0 bs)\<rparr>"

subsection \<open>Abstraction and invariant\<close>

definition ring_ok :: "CRingBuffer \<Rightarrow> bool" where
  "ring_ok r \<longleftrightarrow> length (rb_buffer r) = BUFFER_SIZE"

definition content :: "CRingBuffer \<Rightarrow> u8 list" where
  "content r = take (Ring_Size r) (rotate (GetIndex (rb_front r)) (rb_buffer r))"

subsection \<open>Index arithmetic\<close>

lemma GetIndex_mod [index_simps]: "GetIndex w = unat w mod BUFFER_SIZE"
proof -
  have "w AND INDEX_MASK = take_bit 13 w"
    by (simp add: INDEX_MASK_def take_bit_eq_mask mask_numeral)
  then show ?thesis
    by (simp add: GetIndex_def BUFFER_SIZE_def unsigned_take_bit_eq take_bit_eq_mod
        unat_mod_distrib)
qed

lemma BUFFER_SIZE_dvd: "BUFFER_SIZE dvd 2 ^ 32"
  by (simp add: BUFFER_SIZE_def)

lemma BUFFER_SIZE_pos [simp]: "0 < BUFFER_SIZE"
  by (simp add: BUFFER_SIZE_def)

lemma GetIndex_less: "GetIndex w < BUFFER_SIZE"
  by (simp add: GetIndex_mod)

lemma GetIndex_add_of_nat [index_simps]:
  "GetIndex (w + of_nat k) = (GetIndex w + k) mod BUFFER_SIZE"
proof -
  have "unat (w + of_nat k) = (unat w + k) mod 2 ^ 32"
    by (simp add: unat_word_ariths unat_of_nat mod_simps)
  then have "GetIndex (w + of_nat k) = (unat w + k) mod BUFFER_SIZE"
    by (simp add: GetIndex_mod mod_mod_cancel BUFFER_SIZE_def)
  then show ?thesis by (simp add: GetIndex_mod mod_simps)
qed

lemma GetIndex_of_nat [index_simps]: "GetIndex (of_nat k) = k mod BUFFER_SIZE"
  using GetIndex_add_of_nat [of 0 k] by (simp add: GetIndex_mod)

lemma GetIndex_of_nat_Suc [index_simps]: "GetIndex (of_nat k + 1) = Suc k mod BUFFER_SIZE"
  using GetIndex_of_nat [of "Suc k"] by (simp add: add.commute)

lemma Ring_Size_mod: "Ring_Size r = (GetIndex (rb_rear r) + BUFFER_SIZE - GetIndex (rb_front r)) mod BUFFER_SIZE"
  by (simp add: Ring_Size_def Let_def mod_diff_wrap GetIndex_less)

lemma Ring_Size_less: "Ring_Size r < BUFFER_SIZE"
  by (simp add: Ring_Size_mod)

lemma rear_index: "GetIndex (rb_rear r) = (GetIndex (rb_front r) + Ring_Size r) mod BUFFER_SIZE"
proof (cases "GetIndex (rb_rear r) \<ge> GetIndex (rb_front r)")
  case True
  then show ?thesis by (simp add: Ring_Size_def Let_def GetIndex_less)
next
  case False
  then have "GetIndex (rb_front r) + Ring_Size r = BUFFER_SIZE + GetIndex (rb_rear r)"
    unfolding Ring_Size_def Let_def using GetIndex_less [of "rb_front r"]
    by auto
  then show ?thesis by (simp add: GetIndex_less)
qed

lemma Ring_Size_eqI:
  assumes "GetIndex (rb_rear r) = (GetIndex (rb_front r) + n) mod BUFFER_SIZE" and "n < BUFFER_SIZE"
  shows "Ring_Size r = n"
  using mod_add_cancel_lt [of "Ring_Size r" BUFFER_SIZE n "GetIndex (rb_front r)"] assms rear_index [of r]
  by (simp add: Ring_Size_less)

lemma FreeSize_plus_Size: "FreeSize r + Ring_Size r = BUFFER_SIZE - 1"
  using Ring_Size_less [of r] by (auto simp: FreeSize_def)

lemma Ring_Size_le: "Ring_Size r \<le> BUFFER_SIZE"
  using Ring_Size_less less_imp_le by blast

lemma length_content [simp]: "ring_ok r \<Longrightarrow> length (content r) = Ring_Size r"
  by (simp add: content_def ring_ok_def Ring_Size_le)

lemma ring_ok_new [simp]: "ring_ok new_CRingBuffer"
  by (simp add: ring_ok_def new_CRingBuffer_def)

lemma ring_ok_Clear [simp]: "ring_ok (Ring_Clear r) = ring_ok r"
  by (simp add: ring_ok_def Ring_Clear_def)

lemma Ring_Size_Clear [simp]: "Ring_Size (Ring_Clear r) = 0"
  by (simp add: Ring_Size_def Ring_Clear_def)

lemma content_Clear [simp]: "content (Ring_Clear r) = []"
  by (simp add: content_def)

lemma ring_ok_MoveFront [simp]: "ring_ok (MoveFront r n) = ring_ok r"
  by (simp add: ring_ok_def MoveFront_def)

lemma ring_ok_MoveRear [simp]: "ring_ok (MoveRear r n) = ring_ok r"
  by (simp add: ring_ok_def MoveRear_def)

subsection \<open>Rotations\<close>

text \<open>
  The array read from an index on, all the way round, is a rotation of it. The lemmas move between
  the rotation at the front and the rotation at a later position.
\<close>

lemma rotate_le_split: "k \<le> length xs \<Longrightarrow> rotate k xs = drop k xs @ take k xs"
  by (cases "k = length xs") (simp_all add: rotate_drop_take)

lemma rotate_add_split:
  assumes "k \<le> length xs"
  shows "rotate (f + k) xs = drop k (rotate f xs) @ take k (rotate f xs)"
proof -
  have "rotate (f + k) xs = rotate k (rotate f xs)"
    by (simp only: rotate_rotate add.commute)
  also have "\<dots> = drop k (rotate f xs) @ take k (rotate f xs)"
    by (rule rotate_le_split) (simp add: assms)
  finally show ?thesis .
qed

lemma rotate_split_eq:
  assumes "drop k ys @ take k ys = zs @ take k xs" and "length ys = length xs" and "k \<le> length xs"
  shows "ys = take k xs @ zs"
proof -
  have "length (take k ys) = length (take k xs)" using assms(2) by simp
  then have "drop k ys = zs" and "take k ys = take k xs"
    using assms(1) append_eq_append_conv by blast+
  then show ?thesis by (metis append_take_drop_id)
qed

lemma rotate_mod_size: "length xs = BUFFER_SIZE \<Longrightarrow> rotate (k mod BUFFER_SIZE) xs = rotate k xs"
  by (metis rotate_conv_mod)

lemma rotate_update_first:
  assumes "s < length xs"
  shows "rotate s (xs[s := v]) = v # tl (rotate s xs)"
proof -
  have "rotate s xs = drop s xs @ take s xs" and "rotate s (xs[s := v]) = drop s (xs[s := v]) @ take s xs"
    using assms by (simp_all add: rotate_drop_take)
  moreover have "drop s (xs[s := v]) = v # drop (Suc s) xs" and "drop s xs = xs ! s # drop (Suc s) xs"
    using assms by (simp_all add: drop_update_swap Cons_nth_drop_Suc flip: Cons_nth_drop_Suc)
  ultimately show ?thesis by simp
qed

lemma rotate_first: "s < length xs \<Longrightarrow> rotate s xs = xs ! s # tl (rotate s xs)"
  using rotate_update_first [of s xs "xs ! s"] by simp

subsection \<open>Every operation is a list operation\<close>

lemma Ring_Peek_content:
  assumes "ring_ok r" and "n \<le> Ring_Size r"
  shows "Ring_Peek r n = Inr (take n (content r))"
proof -
  let ?f = "GetIndex (rb_front r)" and ?buf = "rb_buffer r" and ?d = "DirectDequeueSize r"
  have len: "length ?buf = BUFFER_SIZE" using assms(1) by (simp add: ring_ok_def)
  have f: "?f < BUFFER_SIZE" by (rule GetIndex_less)
  have rot: "rotate ?f ?buf = drop ?f ?buf @ take ?f ?buf"
    using len f by (simp add: rotate_drop_take)
  have c: "take n (content r) = take n (rotate ?f ?buf)"
    using assms(2) by (simp add: content_def min_absorb2)
  show ?thesis
  proof (cases "?d \<ge> n")
    case True
    then have "?f + n \<le> BUFFER_SIZE" using assms(2) f GetIndex_less [of "rb_rear r"]
      by (auto simp: DirectDequeueSize_def Let_def split: if_splits)
    with True assms(2) len show ?thesis
      by (simp add: Ring_Peek_def Let_def copy_out_def c rot)
  next
    case False
    with assms(2) have "GetIndex (rb_rear r) < ?f"
      by (auto simp: Ring_Size_def DirectDequeueSize_def Let_def split: if_splits)
    then have d: "?d = BUFFER_SIZE - ?f" by (simp add: DirectDequeueSize_def Let_def)
    have "n - ?d \<le> ?f" using assms(2) Ring_Size_le [of r] d by linarith
    with False assms(2) len f d show ?thesis
      by (simp add: Ring_Peek_def Let_def copy_out_def c rot)
  qed
qed

lemma Ring_Peek_short: "Ring_Size r < n \<Longrightarrow> Ring_Peek r n = Inl Terminate"
  by (simp add: Ring_Peek_def Let_def)

lemma Ring_Size_MoveFront:
  assumes "n \<le> Ring_Size r"
  shows "Ring_Size (MoveFront r (int n)) = Ring_Size r - n"
proof (rule Ring_Size_eqI)
  have "GetIndex (rb_front (MoveFront r (int n))) = (GetIndex (rb_front r) + n) mod BUFFER_SIZE"
    using GetIndex_add_of_nat [of "rb_front r" n] by (simp add: MoveFront_def)
  then show "GetIndex (rb_rear (MoveFront r (int n))) =
      (GetIndex (rb_front (MoveFront r (int n))) + (Ring_Size r - n)) mod BUFFER_SIZE"
    using assms by (simp add: MoveFront_def rear_index mod_add_left_eq add.assoc
        del: add_diff_assoc add_diff_assoc2)
qed (use Ring_Size_less [of r] in linarith)

lemma content_MoveFront:
  assumes "ring_ok r" and "n \<le> Ring_Size r"
  shows "content (MoveFront r (int n)) = drop n (content r)"
proof -
  let ?v = "rotate (GetIndex (rb_front r)) (rb_buffer r)"
  have len: "length (rb_buffer r) = BUFFER_SIZE" using assms(1) by (simp add: ring_ok_def)
  have n: "n \<le> BUFFER_SIZE" using assms(2) Ring_Size_le order.trans by blast
  have "GetIndex (rb_front r + of_nat n) = (GetIndex (rb_front r) + n) mod BUFFER_SIZE"
    by (rule GetIndex_add_of_nat)
  then have "rotate (GetIndex (rb_front (MoveFront r (int n)))) (rb_buffer r) = drop n ?v @ take n ?v"
    using len n by (simp add: MoveFront_def rotate_mod_size rotate_add_split)
  then have "content (MoveFront r (int n)) = take (Ring_Size r - n) (drop n ?v @ take n ?v)"
    using assms(2) by (simp add: content_def Ring_Size_MoveFront) (simp add: MoveFront_def)
  also have "\<dots> = drop n (content r)"
    using len Ring_Size_le [of r] by (simp add: content_def drop_take)
  finally show ?thesis .
qed

lemma Ring_Dequeue_ok:
  assumes "n \<le> Ring_Size r"
  shows "Ring_Dequeue r (int n) = Inr (int n, MoveFront r (int n))"
  using assms by (auto simp: Ring_Dequeue_def MoveFront_def)

lemma DirectEnqueueSize_min:
  "DirectEnqueueSize dbg r = Inr (min (FreeSize r) (BUFFER_SIZE - GetIndex (rb_rear r)))"
proof -
  let ?f = "GetIndex (rb_front r)" and ?e = "GetIndex (rb_rear r)"
  have b: "?f < BUFFER_SIZE" "?e < BUFFER_SIZE" by (simp_all add: GetIndex_less)
  have full: "Suc ?e mod BUFFER_SIZE = ?f \<longleftrightarrow> (if ?e = BUFFER_SIZE - 1 then ?f = 0 else ?f = Suc ?e)"
    using b by (auto simp: mod_Suc)
  show ?thesis
    using b unfolding DirectEnqueueSize_def FreeSize_def Ring_Size_def Let_def GetIndex_of_nat_Suc full
    by (auto simp: ASSERT_CRASH_def min_def)
qed

lemma two_blocks_one:
  assumes "e + length a \<le> length buf"
  shows "length (two_blocks buf e a []) = length buf"
    and "rotate e (two_blocks buf e a []) = a @ drop (length a) (rotate e buf)"
proof -
  show len: "length (two_blocks buf e a []) = length buf"
    using assms by (simp add: two_blocks_def)
  have "drop e (two_blocks buf e a []) = a @ drop (e + length a) buf"
    and "take e (two_blocks buf e a []) = take e buf"
    using assms by (simp_all add: two_blocks_def)
  then show "rotate e (two_blocks buf e a []) = a @ drop (length a) (rotate e buf)"
    using assms len by (simp add: rotate_le_split add.commute)
qed

lemma two_blocks_two:
  assumes "e + length a = length buf" and "length b \<le> e"
  shows "length (two_blocks buf e a b) = length buf"
    and "rotate e (two_blocks buf e a b) = (a @ b) @ drop (length (a @ b)) (rotate e buf)"
proof -
  have new: "two_blocks buf e a b = (b @ drop (length b) (take e buf)) @ a"
    using assms by (simp add: two_blocks_def)
  have e: "length (b @ drop (length b) (take e buf)) = e" using assms by simp
  show len: "length (two_blocks buf e a b) = length buf"
    using assms e by (simp only: new length_append)
  have "drop e (two_blocks buf e a b) = a" and "take e (two_blocks buf e a b) = b @ drop (length b) (take e buf)"
    using e by (simp_all only: new append_eq_conv_conj) (simp_all add: e)
  moreover have "rotate e (two_blocks buf e a b) = drop e (two_blocks buf e a b) @ take e (two_blocks buf e a b)"
    using len assms(1) by (intro rotate_le_split) linarith
  moreover have "drop (length (a @ b)) (rotate e buf) = drop (length b) (take e buf)"
  proof -
    have "length a = length buf - e" using assms by simp
    then show ?thesis using assms by (simp add: rotate_le_split)
  qed
  ultimately show "rotate e (two_blocks buf e a b) = (a @ b) @ drop (length (a @ b)) (rotate e buf)"
    by simp
qed

lemma fill_blocks_rotate:
  assumes "ring_ok r" and "length bs \<le> FreeSize r"
    and "len0 = min (FreeSize r) (BUFFER_SIZE - GetIndex (rb_rear r))"
  shows "ring_ok (fill_blocks r len0 bs)"
    and "rotate (GetIndex (rb_rear r)) (rb_buffer (fill_blocks r len0 bs))
       = bs @ drop (length bs) (rotate (GetIndex (rb_rear r)) (rb_buffer r))"
proof -
  let ?e = "GetIndex (rb_rear r)" and ?buf = "rb_buffer r"
  let ?a = "take len0 bs" and ?b = "drop len0 bs"
  have len: "length ?buf = BUFFER_SIZE" using assms(1) by (simp add: ring_ok_def)
  have new: "rb_buffer (fill_blocks r len0 bs) = two_blocks ?buf ?e ?a ?b"
    by (simp add: fill_blocks_def)
  have "length (two_blocks ?buf ?e ?a ?b) = length ?buf \<and>
      rotate ?e (two_blocks ?buf ?e ?a ?b) = (?a @ ?b) @ drop (length (?a @ ?b)) (rotate ?e ?buf)"
  proof (cases "len0 < length bs")
    case True
    then have l0: "len0 = BUFFER_SIZE - ?e" using assms(2,3) by (auto simp: min_def split: if_splits)
    have "length bs < BUFFER_SIZE"
      using assms(2) FreeSize_plus_Size [of r] BUFFER_SIZE_pos by linarith
    then have "?e + length ?a = length ?buf" and "length ?b \<le> ?e"
      using True len l0 GetIndex_less [of "rb_rear r"] by simp_all
    then show ?thesis using two_blocks_two by blast
  next
    case False
    then have "?b = []" and "?e + length ?a \<le> length ?buf"
      using len assms(3) GetIndex_less [of "rb_rear r"] by auto
    then show ?thesis using two_blocks_one [of ?e ?a ?buf] by simp
  qed
  then show "ring_ok (fill_blocks r len0 bs)"
    and "rotate ?e (rb_buffer (fill_blocks r len0 bs)) = bs @ drop (length bs) (rotate ?e ?buf)"
    using len by (simp_all only: ring_ok_def new append_take_drop_id)
qed

lemma content_fill_MoveRear:
  assumes "ring_ok r" and "length bs \<le> FreeSize r" and "DirectEnqueueSize dbg r = Inr len0"
  shows "content (MoveRear (fill_blocks r len0 bs) (int (length bs))) = content r @ bs"
    and "ring_ok (MoveRear (fill_blocks r len0 bs) (int (length bs)))"
proof -
  let ?q = "fill_blocks r len0 bs" and ?n = "length bs" and ?s = "Ring_Size r"
  let ?q' = "MoveRear ?q (int ?n)"
  have len0: "len0 = min (FreeSize r) (BUFFER_SIZE - GetIndex (rb_rear r))"
    using assms(3) by (simp add: DirectEnqueueSize_min)
  note fill = fill_blocks_rotate [OF assms(1,2) len0]
  show "ring_ok ?q'" using fill(1) by simp
  have lens: "length (rb_buffer r) = BUFFER_SIZE" "length (rb_buffer ?q) = BUFFER_SIZE"
    using assms(1) fill(1) by (simp_all add: ring_ok_def)
  have idx: "rb_front ?q' = rb_front r" "rb_rear ?q' = rb_rear r + of_nat ?n"
    by (simp_all add: MoveRear_def fill_blocks_def Let_def)
  have sn: "?s + ?n < BUFFER_SIZE"
    using assms(2) FreeSize_plus_Size [of r] BUFFER_SIZE_pos by linarith
  have size: "Ring_Size ?q' = ?s + ?n"
    using sn by (intro Ring_Size_eqI)
      (simp_all add: idx GetIndex_add_of_nat rear_index mod_add_left_eq add.assoc)
  let ?v = "rotate (GetIndex (rb_front r)) (rb_buffer r)"
  let ?w = "rotate (GetIndex (rb_front r)) (rb_buffer ?q)"
  have rear: "rotate (GetIndex (rb_rear r)) xs = drop ?s (rotate (GetIndex (rb_front r)) xs)
      @ take ?s (rotate (GetIndex (rb_front r)) xs)" if "length xs = BUFFER_SIZE" for xs :: "u8 list"
    using that Ring_Size_le [of r] by (simp add: rear_index rotate_mod_size rotate_add_split)
  have "drop ?s ?w @ take ?s ?w = (bs @ drop (?s + ?n) ?v) @ take ?s ?v"
    using fill(2) lens sn by (simp add: rear add.commute)
  then have "?w = take ?s ?v @ bs @ drop (?s + ?n) ?v"
    using lens sn by (intro rotate_split_eq) simp_all
  then have "content ?q' = take (?s + ?n) (take ?s ?v @ bs @ drop (?s + ?n) ?v)"
    by (simp add: content_def size idx) (simp add: MoveRear_def)
  then show "content ?q' = content r @ bs"
    using lens sn by (simp add: content_def)
qed

subsection \<open>Decoding in place and the checksum\<close>

lemma rotate_Suc_eq:
  assumes "rotate (Suc s) xs = ys @ [v]"
  shows "rotate s xs = v # ys"
  using assms by (cases "rotate s xs") (auto simp: rotate_Suc)

lemma Ring_Decode_loop_rotate:
  assumes "length buf = BUFFER_SIZE" and "start < BUFFER_SIZE" and "n \<le> BUFFER_SIZE"
  shows "length (Ring_Decode_loop key rk n buf start i e oldP) = BUFFER_SIZE \<and>
    rotate start (Ring_Decode_loop key rk n buf start i e oldP) =
      decode_bytes key rk (of_nat i) oldP e (take n (rotate start buf)) @ drop n (rotate start buf)"
  using assms
proof (induction n arbitrary: buf start i e oldP)
  case 0
  then show ?case by simp
next
  case (Suc n)
  define R where "R = tl (rotate start buf)"
  define p where "p = buf ! start XOR (e + key + of_nat i)"
  define v where "v = p XOR (oldP + rk + of_nat i)"
  define res where "res = Ring_Decode_loop key rk n (buf[start := v]) (Suc start mod BUFFER_SIZE)
      (Suc i) (buf ! start) p"
  have view: "rotate start buf = buf ! start # R"
    unfolding R_def using Suc.prems by (intro rotate_first) simp
  have lenR: "length R = BUFFER_SIZE - 1" using Suc.prems by (simp add: R_def)
  have step: "Ring_Decode_loop key rk (Suc n) buf start i e oldP = res"
    by (simp add: res_def v_def p_def Let_def GetIndex_of_nat_Suc)
  have "rotate (Suc start mod BUFFER_SIZE) (buf[start := v]) = R @ [v]"
    using Suc.prems rotate_update_first [of start buf v]
    by (simp add: rotate_mod_size rotate_Suc R_def)
  then have IH: "length res = BUFFER_SIZE" "rotate (Suc start mod BUFFER_SIZE) res =
      decode_bytes key rk (of_nat (Suc i)) p (buf ! start) (take n (R @ [v])) @ drop n (R @ [v])"
    unfolding res_def using Suc.IH [of "buf[start := v]" "Suc start mod BUFFER_SIZE" "Suc i" "buf ! start" p]
      Suc.prems by simp_all
  then have "rotate (Suc start) res =
      (decode_bytes key rk (of_nat (Suc i)) p (buf ! start) (take n R) @ drop n R) @ [v]"
    using lenR Suc.prems(3) by (simp add: rotate_mod_size)
  then have "rotate start res = v # decode_bytes key rk (of_nat (Suc i)) p (buf ! start) (take n R) @ drop n R"
    by (rule rotate_Suc_eq)
  then have "rotate start res = v # decode_bytes key rk (of_nat i + 1) p (buf ! start) (take n R) @ drop n R"
    by (simp add: add.commute)
  moreover have "decode_bytes key rk (of_nat i) oldP e (take (Suc n) (buf ! start # R)) =
      v # decode_bytes key rk (of_nat i + 1) p (buf ! start) (take n R)"
    by (simp add: Let_def p_def v_def)
  ultimately show ?case unfolding step view using IH(1) by simp
qed

lemma take_min_le: "n \<le> m \<Longrightarrow> take n (take m xs) = take n xs"
  by (simp add: min_absorb1)

text \<open>
  A complete packet at the front (\<open>5 + len\<close> bytes, \<open>len\<close> from its header) is decoded in place: the
  first four bytes stay, the checksum and the payload are decoded, what follows stays.
\<close>

lemma Ring_Decode_content:
  assumes ok: "ring_ok r" and "len = unat (nh_len (NetHeader_of (content r)))"
    and enough: "len + 5 \<le> Ring_Size r"
  defines "c \<equiv> content r"
  obtains r' where "Ring_Decode r key = Inr r'" and "ring_ok r'" and "Ring_Size r' = Ring_Size r"
    and "rb_front r' = rb_front r" and "rb_rear r' = rb_rear r"
    and "content r' = take 4 c @ decode_bytes key (nh_randomKey (NetHeader_of c)) 1 0 0
           (take (Suc len) (drop 4 c)) @ drop (len + 5) c"
proof -
  let ?h = "NetHeader_of c" and ?f = "GetIndex (rb_front r)"
  let ?v = "rotate ?f (rb_buffer r)" and ?s = "Ring_Size r"
  define st where "st = GetIndex (rb_front r + of_nat offsetof_checkSum)"
  define buf where "buf = Ring_Decode_loop key (nh_randomKey ?h) (Suc len) (rb_buffer r) st 1 0 0"
  define r' where "r' = r\<lparr>rb_buffer := buf\<rparr>"
  have sb: "?s < BUFFER_SIZE" by (rule Ring_Size_less)
  have lb: "length (rb_buffer r) = BUFFER_SIZE" using ok by (simp add: ring_ok_def)
  have h5: "NetHeader_of (take 5 c) = ?h" by (simp add: NetHeader_of_def take_min_le drop_take)
  have "len + 1 < 2 ^ 16" using enough sb by (simp add: BUFFER_SIZE_def)
  then have "unat (nh_len ?h + 1) = Suc len"
    using assms(2) by (simp add: c_def unat_word_ariths)
  then have dec: "Ring_Decode r key = Inr r'"
    using enough Ring_Peek_content [OF ok, of 5]
    by (simp add: Ring_Decode_def Let_def r'_def buf_def st_def h5 [unfolded c_def] c_def)
  have st: "st = (?f + 4) mod BUFFER_SIZE"
    using GetIndex_add_of_nat [of "rb_front r" 4] by (simp add: st_def)
  then have rst: "rotate st xs = drop 4 (rotate ?f xs) @ take 4 (rotate ?f xs)"
    if "length xs = BUFFER_SIZE" for xs :: "u8 list"
    using that enough sb by (simp add: rotate_mod_size rotate_add_split)
  have loop: "length buf = BUFFER_SIZE" "rotate st buf = decode_bytes key (nh_randomKey ?h) 1 0 0
      (take (Suc len) (rotate st (rb_buffer r))) @ drop (Suc len) (rotate st (rb_buffer r))"
    using Ring_Decode_loop_rotate [OF lb, of st "Suc len" key "nh_randomKey ?h" 1 0 0] enough sb st
    by (simp_all add: buf_def)
  let ?d = "decode_bytes key (nh_randomKey ?h) 1 0 0 (take (Suc len) (drop 4 ?v))"
  have "drop 4 (rotate ?f buf) @ take 4 (rotate ?f buf) = (?d @ drop (len + 5) ?v) @ take 4 ?v"
    using loop rst [OF lb] rst [OF loop(1)] enough sb lb by (simp add: add.commute)
  then have "rotate ?f buf = take 4 ?v @ ?d @ drop (len + 5) ?v"
    using lb loop(1) enough sb by (intro rotate_split_eq) simp_all
  moreover have "content r' = take ?s (rotate ?f buf)"
    by (simp add: content_def r'_def Ring_Size_def)
  moreover have "take (Suc len) (drop 4 c) = take (Suc len) (drop 4 ?v)" and "take 4 c = take 4 ?v"
    and "drop (len + 5) c = take (?s - (len + 5)) (drop (len + 5) ?v)"
    using enough by (simp_all add: c_def content_def take_min_le drop_take)
  ultimately have "content r' = take 4 c @ decode_bytes key (nh_randomKey ?h) 1 0 0
           (take (Suc len) (drop 4 c)) @ drop (len + 5) c"
    using enough sb lb by (simp add: add.commute)
  then show ?thesis
    using that [OF dec] loop(1) by (simp add: r'_def ring_ok_def Ring_Size_def)
qed

lemma checksum_loop_sum:
  assumes "length buf = BUFFER_SIZE" and "i + n \<le> BUFFER_SIZE"
  shows "checksum_loop buf pi i n acc = acc + checksum (take n (drop i (rotate pi buf)))"
  using assms(2)
proof (induction n arbitrary: i acc)
  case 0
  then show ?case by (simp add: checksum_def)
next
  case (Suc n)
  let ?v = "rotate pi buf"
  have "GetIndex (of_nat pi + of_nat i) = (pi + i) mod BUFFER_SIZE"
    using GetIndex_of_nat [of "pi + i"] by simp
  then have "buf ! GetIndex (of_nat pi + of_nat i) = ?v ! i"
    using Suc.prems assms(1) by (simp add: nth_rotate)
  moreover have "drop i ?v = ?v ! i # drop (Suc i) ?v"
    using Suc.prems assms(1) by (simp add: Cons_nth_drop_Suc)
  ultimately show ?case
    using Suc by (simp add: checksum_def add.assoc)
qed

lemma ChecksumValid_content:
  assumes ok: "ring_ok r" and "len = unat (nh_len (NetHeader_of (content r)))"
    and enough: "len + 5 \<le> Ring_Size r"
  shows "ChecksumValid r =
    Inr (checksum (take len (drop 5 (content r))) = nh_checkSum (NetHeader_of (content r)))"
proof -
  let ?v = "rotate (GetIndex (rb_front r)) (rb_buffer r)"
  have sb: "Ring_Size r < BUFFER_SIZE" by (rule Ring_Size_less)
  have lb: "length (rb_buffer r) = BUFFER_SIZE" using ok by (simp add: ring_ok_def)
  have h5: "NetHeader_of (take 5 (content r)) = NetHeader_of (content r)"
    by (simp add: NetHeader_of_def take_min_le drop_take)
  have "rotate (GetIndex (rb_front r + of_nat 5)) (rb_buffer r) = drop 5 ?v @ take 5 ?v"
    using lb by (simp only: GetIndex_add_of_nat rotate_mod_size)
      (simp add: rotate_add_split BUFFER_SIZE_def)
  then have "checksum_loop (rb_buffer r) (GetIndex (rb_front r + of_nat 5)) 0 len 0
      = checksum (take len (drop 5 ?v))"
    using checksum_loop_sum [OF lb, of 0 len] enough sb lb by simp
  moreover have "take len (drop 5 (content r)) = take len (drop 5 ?v)"
    using enough by (simp add: content_def drop_take take_min_le)
  ultimately show ?thesis
    using enough Ring_Peek_content [OF ok, of 5] assms(2)
    by (simp add: ChecksumValid_def Let_def h5)
qed

subsection \<open>Properties\<close>

text \<open>The ring after the first receive of a session delivered \<open>bs\<close>.\<close>

definition ring_holding :: "u8 list \<Rightarrow> CRingBuffer" where
  "ring_holding bs = MoveRear (fill_blocks new_CRingBuffer 8191 bs) (int (length bs))"

lemma new_ring_sizes:
  "FreeSize new_CRingBuffer = 8191" "DirectEnqueueSize dbg new_CRingBuffer = Inr 8191"
  "content new_CRingBuffer = []"
proof -
  have s: "Ring_Size new_CRingBuffer = 0" by (simp add: Ring_Size_def new_CRingBuffer_def)
  then show f: "FreeSize new_CRingBuffer = 8191" by (simp add: FreeSize_def BUFFER_SIZE_def)
  show "content new_CRingBuffer = []" using s by (simp add: content_def)
  have "GetIndex (rb_rear new_CRingBuffer) = 0" by (simp add: GetIndex_def new_CRingBuffer_def)
  then show "DirectEnqueueSize dbg new_CRingBuffer = Inr 8191"
    by (simp only: DirectEnqueueSize_min f) (simp add: BUFFER_SIZE_def)
qed

lemma ring_holding_ok:
  assumes "length bs \<le> 8191"
  shows "ring_ok (ring_holding bs)" and "content (ring_holding bs) = bs"
  using content_fill_MoveRear [OF ring_ok_new _ new_ring_sizes(2), of bs] assms
  by (simp_all add: ring_holding_def new_ring_sizes)

text \<open>
  Receiving into the ring: with the two blocks that \<^verbatim>\<open>RecvNotIncrease\<close> offers, a completion of
  any number of bytes up to \<^verbatim>\<open>FreeSize()\<close> appends exactly those bytes to the stored sequence, wherever
  the indices stand and however they wrap.
\<close>

theorem recv_appends:
  assumes "ring_ok r" and "length bs \<le> FreeSize r" and "DirectEnqueueSize dbg r = Inr len0"
  shows "content (MoveRear (fill_blocks r len0 bs) (int (length bs))) = content r @ bs \<and>
    ring_ok (MoveRear (fill_blocks r len0 bs) (int (length bs)))"
  using content_fill_MoveRear [OF assms] by blast

theorem recv_appends_witness:
  "content (MoveRear (fill_blocks new_CRingBuffer 8191 [7, 8, 9]) 3) = [7, 8, 9]"
  using recv_appends [of new_CRingBuffer "[7, 8, 9]" False 8191] by (simp add: new_ring_sizes)

text \<open>
  Reading from the ring: \<^verbatim>\<open>Peek\<close> of at most \<^verbatim>\<open>Size()\<close> bytes copies the front of the stored sequence
  without leaving the array, also when the bytes wrap around its end; \<^verbatim>\<open>Dequeue\<close> removes exactly those
  bytes; a longer \<^verbatim>\<open>Peek\<close> ends in \<^verbatim>\<open>std::terminate\<close>.
\<close>

theorem peek_dequeue:
  assumes "ring_ok r"
  shows "if n \<le> Ring_Size r
    then Ring_Peek r n = Inr (take n (content r)) \<and>
      (\<exists>r'. Ring_Dequeue r (int n) = Inr (int n, r') \<and> ring_ok r' \<and> content r' = drop n (content r))
    else Ring_Peek r n = Inl Terminate"
  using assms Ring_Peek_content [OF assms, of n] Ring_Peek_short [of r n] Ring_Dequeue_ok [of n r]
    content_MoveFront [OF assms, of n] by auto

theorem peek_dequeue_witness:
  "Ring_Peek (ring_holding [1, 2, 3]) 2 = Inr [1, 2]"
proof -
  note h = ring_holding_ok [of "[1, 2, 3]"]
  have "Ring_Size (ring_holding [1, 2, 3]) = 3"
    using h length_content [of "ring_holding [1, 2, 3]"] by simp
  then show ?thesis using peek_dequeue [of "ring_holding [1, 2, 3]" 2] h by simp
qed

text \<open>The calls the server makes on a ring; \<open>RRecv\<close> is a receive of \<open>bs\<close> into the blocks that \<^verbatim>\<open>RecvNotIncrease\<close> offers.\<close>

datatype ring_call =
    RPeek nat
  | RDequeue int
  | RMoveFront int
  | RMoveRear int
  | RClear
  | RDecode u8
  | RChecksumValid
  | RRecv "u8 list"

fun apply_call :: "bool \<Rightarrow> ring_call \<Rightarrow> CRingBuffer \<Rightarrow> CRingBuffer res" where
  "apply_call dbg (RPeek n) r = bind_res (Ring_Peek r n) (\<lambda>_. Inr r)"
| "apply_call dbg (RDequeue n) r = bind_res (Ring_Dequeue r n) (\<lambda>(_, r'). Inr r')"
| "apply_call dbg (RMoveFront n) r = Inr (MoveFront r n)"
| "apply_call dbg (RMoveRear n) r = Inr (MoveRear r n)"
| "apply_call dbg RClear r = Inr (Ring_Clear r)"
| "apply_call dbg (RDecode key) r = Ring_Decode r key"
| "apply_call dbg RChecksumValid r = bind_res (ChecksumValid r) (\<lambda>_. Inr r)"
| "apply_call dbg (RRecv bs) r =
     bind_res (DirectEnqueueSize dbg r) (\<lambda>len0. Inr (if length bs \<le> FreeSize r then fill_blocks r len0 bs else r))"

fun ring_calls :: "bool \<Rightarrow> ring_call list \<Rightarrow> CRingBuffer \<Rightarrow> CRingBuffer res" where
  "ring_calls dbg [] r = Inr r"
| "ring_calls dbg (c # cs) r = bind_res (apply_call dbg c r) (ring_calls dbg cs)"

lemma length_Ring_Decode_loop: "length (Ring_Decode_loop key rk n buf start i e p) = length buf"
  by (induction key rk n buf start i e p rule: Ring_Decode_loop.induct) (simp_all add: Let_def)

lemma Ring_Peek_safe: "ring_ok r \<Longrightarrow> Ring_Peek r n = Inl Terminate \<or> (\<exists>bs. Ring_Peek r n = Inr bs)"
  using Ring_Peek_content [of r n] Ring_Peek_short [of r n] by (cases "n \<le> Ring_Size r") auto

definition safe_result :: "CRingBuffer res \<Rightarrow> bool" where
  "safe_result x = (case x of Inl e \<Rightarrow> e = Terminate \<or> e = DebugBreak | Inr r \<Rightarrow> ring_ok r)"

lemma safe_result_simps [simp]:
  "safe_result (Inl e) \<longleftrightarrow> e = Terminate \<or> e = DebugBreak" "safe_result (Inr r) \<longleftrightarrow> ring_ok r"
  by (simp_all add: safe_result_def)

lemma ring_call_safe:
  assumes "ring_ok r"
  shows "safe_result (apply_call dbg c r)"
proof (cases c)
  case (RDequeue n)
  then show ?thesis using assms by (simp add: Ring_Dequeue_def)
next
  case (RDecode key)
  then show ?thesis
    using assms Ring_Peek_safe [OF assms, of 5] by (auto simp: Ring_Decode_def Let_def ring_ok_def length_Ring_Decode_loop)
next
  case RChecksumValid
  then show ?thesis using assms Ring_Peek_safe [OF assms, of 5] by (auto simp: ChecksumValid_def Let_def)
next
  case (RPeek n)
  then show ?thesis using assms Ring_Peek_safe [OF assms, of n] by auto
next
  case (RRecv bs)
  then show ?thesis using assms fill_blocks_rotate(1) [OF assms] by (simp add: DirectEnqueueSize_min)
qed (use assms in simp_all)

lemma ring_calls_safe: "ring_ok r \<Longrightarrow> safe_result (ring_calls dbg cs r)"
proof (induction cs arbitrary: r)
  case (Cons c cs)
  then show ?case using ring_call_safe [OF Cons.prems, of dbg c] by (cases "apply_call dbg c r") simp_all
qed simp

lemma blocks_inside:
  "FreeSize r + Ring_Size r = BUFFER_SIZE - 1"
  "\<exists>n. DirectEnqueueSize dbg r = Inr n \<and> n \<le> FreeSize r \<and> GetRearIndex r + n \<le> BUFFER_SIZE"
  "DirectDequeueSize r \<le> Ring_Size r \<and> GetFrontIndex r + DirectDequeueSize r \<le> BUFFER_SIZE"
proof -
  have b: "GetIndex (rb_front r) < BUFFER_SIZE" "GetIndex (rb_rear r) < BUFFER_SIZE" by (simp_all add: GetIndex_less)
  show "FreeSize r + Ring_Size r = BUFFER_SIZE - 1" by (rule FreeSize_plus_Size)
  show "\<exists>n. DirectEnqueueSize dbg r = Inr n \<and> n \<le> FreeSize r \<and> GetRearIndex r + n \<le> BUFFER_SIZE"
    using b by (simp add: DirectEnqueueSize_min GetRearIndex_def)
  show "DirectDequeueSize r \<le> Ring_Size r \<and> GetFrontIndex r + DirectDequeueSize r \<le> BUFFER_SIZE"
    using b by (auto simp: DirectDequeueSize_def Ring_Size_def GetFrontIndex_def Let_def)
qed


end
