(* ===== verification/Send_Buffer.thy ===== *)
theory Send_Buffer
  imports Wire
begin

section \<open>The serialisation buffer for outgoing packets\<close>

text \<open>
  \<^verbatim>\<open>CSendBuffer\<close> (\<^verbatim>\<open>include/CSendBuffer.h\<close>, \<^verbatim>\<open>src/CSendBuffer.cpp\<close>): room for a header followed by at
  most 2048 bytes of payload. The pointers of the class are offsets into its array. A write that
  leaves the array is the outcome \<open>OutOfBounds\<close>; the C++ does not check it.
\<close>

subsection \<open>State\<close>

definition SEND_BUFFER_SIZE :: nat where
  "SEND_BUFFER_SIZE = 2048"

record CSendBuffer =
  sb_refCount :: i32
  sb_buffer :: "u8 list"
  sb_data :: nat
  sb_head :: nat
  sb_front :: nat
  sb_rear :: nat
  sb_isEncrypt :: u8

text \<open>The constructor leaves the array uninitialised: \<open>mem\<close> is what the allocation held.\<close>

definition new_CSendBuffer :: "u8 list \<Rightarrow> CSendBuffer" where
  "new_CSendBuffer mem =
     \<lparr>sb_refCount = 0, sb_buffer = mem, sb_data = sizeof_NetHeader, sb_head = 0,
      sb_front = sizeof_NetHeader, sb_rear = sizeof_NetHeader, sb_isEncrypt = 0\<rparr>"

definition sb_Clear :: "CSendBuffer \<Rightarrow> CSendBuffer" where
  "sb_Clear b = b\<lparr>sb_head := 0, sb_front := sb_data b, sb_rear := sb_data b, sb_isEncrypt := 0\<rparr>"

definition sb_IncreaseRef :: "CSendBuffer \<Rightarrow> i32 \<times> CSendBuffer" where
  "sb_IncreaseRef b = (sb_refCount b + 1, b\<lparr>sb_refCount := sb_refCount b + 1\<rparr>)"

text \<open>\<open>sb_Release\<close> also says whether the buffer goes back to its pool.\<close>

definition sb_Release :: "CSendBuffer \<Rightarrow> bool \<times> CSendBuffer" where
  "sb_Release b = (sb_refCount b - 1 = 0, b\<lparr>sb_refCount := sb_refCount b - 1\<rparr>)"

definition sb_GetDataSize :: "CSendBuffer \<Rightarrow> u16" where
  "sb_GetDataSize b = of_int (int (sb_rear b) - int (sb_data b))"

definition sb_SendDataSize :: "CSendBuffer \<Rightarrow> u32" where
  "sb_SendDataSize b = of_int (int (sb_rear b) - int (sb_head b))"

definition sb_CanPushSize :: "CSendBuffer \<Rightarrow> int" where
  "sb_CanPushSize b = int SEND_BUFFER_SIZE - (int (sb_rear b) - int (sb_data b))"

definition sb_CanPopSize :: "CSendBuffer \<Rightarrow> int" where
  "sb_CanPopSize b = int (sb_rear b) - int (sb_front b)"

definition sb_CanPush :: "CSendBuffer \<Rightarrow> int \<Rightarrow> unit res" where
  "sb_CanPush b byteSize = (if sb_CanPushSize b < byteSize then Inl InvalidArgument else Inr ())"

definition sb_MoveWritePos :: "CSendBuffer \<Rightarrow> int \<Rightarrow> CSendBuffer" where
  "sb_MoveWritePos b n = b\<lparr>sb_rear := nat (int (sb_rear b) + n)\<rparr>"

subsection \<open>Writing\<close>

definition write_at :: "u8 list \<Rightarrow> nat \<Rightarrow> u8 list \<Rightarrow> u8 list res" where
  "write_at buf k bs =
     (if k + length bs \<le> length buf then Inr (take k buf @ bs @ drop (k + length bs) buf)
      else Inl OutOfBounds)"

text \<open>Store bytes at the rear and move it, as every \<^verbatim>\<open>operator<<\<close> does after its check.\<close>

definition sb_append :: "CSendBuffer \<Rightarrow> u8 list \<Rightarrow> CSendBuffer res" where
  "sb_append b bs =
     bind_res (write_at (sb_buffer b) (sb_rear b) bs) (\<lambda>buf.
       Inr (b\<lparr>sb_buffer := buf, sb_rear := sb_rear b + length bs\<rparr>))"

text \<open>\<^verbatim>\<open>operator<<(const T&)\<close> for a scalar whose object representation is \<open>bs\<close>.\<close>

definition sb_push :: "CSendBuffer \<Rightarrow> u8 list \<Rightarrow> CSendBuffer res" where
  "sb_push b bs = bind_res (sb_CanPush b (int (length bs))) (\<lambda>_. sb_append b bs)"

definition wchar_bytes :: "u16 list \<Rightarrow> u8 list" where
  "wchar_bytes ws = concat (map (to_le 2) ws)"

text \<open>
  \<^verbatim>\<open>SetWstr(arr, size)\<close> checks \<open>size\<close> against the free bytes and then copies \<open>size\<close> wide characters of
  two bytes each; \<^verbatim>\<open>SetCstr\<close> copies bytes. \<open>arr\<close> has at least \<open>size\<close> characters.
\<close>

definition sb_SetWstr :: "CSendBuffer \<Rightarrow> u16 list \<Rightarrow> nat \<Rightarrow> CSendBuffer res" where
  "sb_SetWstr b arr n =
     bind_res (sb_CanPush b (int n)) (\<lambda>_. sb_append b (wchar_bytes (take n arr)))"

definition sb_SetCstr :: "CSendBuffer \<Rightarrow> u8 list \<Rightarrow> nat \<Rightarrow> CSendBuffer res" where
  "sb_SetCstr b arr n = bind_res (sb_CanPush b (int n)) (\<lambda>_. sb_append b (take n arr))"

text \<open>The characters of a null-terminated wide string before its terminator.\<close>

definition wcs :: "u16 list \<Rightarrow> u16 list" where
  "wcs value = takeWhile (\<lambda>c. c \<noteq> 0) value"

definition sb_push_LPWSTR :: "CSendBuffer \<Rightarrow> u16 list \<Rightarrow> CSendBuffer res" where
  "sb_push_LPWSTR b value =
     (let strlen = length (wcs value) + 1
      in bind_res (sb_CanPush b (int strlen)) (\<lambda>_. sb_append b (wchar_bytes (wcs value @ [0]))))"

definition sb_push_LPCWSTR :: "CSendBuffer \<Rightarrow> u16 list \<Rightarrow> CSendBuffer res" where
  "sb_push_LPCWSTR b value =
     (let strlen = length (wcs value) + 1 in sb_SetWstr b (wcs value @ [0]) strlen)"

definition sb_push_String :: "CSendBuffer \<Rightarrow> u16 list \<Rightarrow> CSendBuffer res" where
  "sb_push_String b value =
     bind_res (sb_push b (to_le 2 (of_nat (length value) :: u16))) (\<lambda>b'.
       sb_SetWstr b' value (length value))"

text \<open>
  \<^verbatim>\<open>CopyData\<close>: \<^verbatim>\<open>memcpy_s\<close> to the data pointer of \<open>dst\<close>; when the source does not fit the room it is
  told about, \<^verbatim>\<open>memcpy_s\<close> clears that room instead. The write position moves in both cases.
\<close>

definition sb_CopyData :: "CSendBuffer \<Rightarrow> CSendBuffer \<Rightarrow> CSendBuffer res" where
  "sb_CopyData src dst =
     (let n = sb_CanPopSize src; room = sb_CanPushSize dst;
          bs = take (nat n) (drop (sb_front src) (sb_buffer src));
          copied = (if n \<le> room then bs else replicate (nat room) 0)
      in bind_res (write_at (sb_buffer dst) (sb_data dst) copied) (\<lambda>buf.
           Inr (sb_MoveWritePos (dst\<lparr>sb_buffer := buf\<rparr>) n)))"

subsection \<open>Headers and encoding\<close>

definition sb_WriteLanHeader :: "CSendBuffer \<Rightarrow> CSendBuffer res" where
  "sb_WriteLanHeader b =
     bind_res (write_at (sb_buffer b) (sb_front b - 2) (to_le 2 (sb_GetDataSize b))) (\<lambda>buf.
       Inr (b\<lparr>sb_buffer := buf, sb_head := sb_front b - 2\<rparr>))"

definition sb_WriteNetHeader :: "CSendBuffer \<Rightarrow> u8 \<Rightarrow> CSendBuffer res" where
  "sb_WriteNetHeader b code =
     (let len = sb_GetDataSize b;
          checkSum = sum_list (take (unat len) (drop (sb_data b) (sb_buffer b)));
          tmpHeader = \<lparr>nh_code = code, nh_len = len, nh_randomKey = 0x31, nh_checkSum = checkSum\<rparr>
      in bind_res (write_at (sb_buffer b) (sb_head b) (NetHeader_bytes tmpHeader)) (\<lambda>buf.
           Inr (b\<lparr>sb_buffer := buf\<rparr>)))"

text \<open>
  The loop of \<^verbatim>\<open>Encode\<close>. Its counter is a \<^verbatim>\<open>short\<close>; a length that would overflow it leaves the array
  long before, which is the outcome \<open>OutOfBounds\<close>.
\<close>

fun sb_Encode_loop :: "u8 \<Rightarrow> u8 \<Rightarrow> nat \<Rightarrow> u8 list \<Rightarrow> nat \<Rightarrow> nat \<Rightarrow> u8 \<Rightarrow> u8 \<Rightarrow> u8 list res" where
  "sb_Encode_loop staticKey randomKey 0 buf k i p e = Inr buf"
| "sb_Encode_loop staticKey randomKey (Suc n) buf k i p e =
     (if k < length buf then
        (let p' = buf ! k XOR (p + randomKey + of_nat i);
             e' = p' XOR (e + staticKey + of_nat i)
         in sb_Encode_loop staticKey randomKey n (buf[k := e']) (Suc k) (Suc i) p' e')
      else Inl OutOfBounds)"

definition sb_Encode :: "CSendBuffer \<Rightarrow> u8 \<Rightarrow> CSendBuffer res" where
  "sb_Encode b staticKey =
     (let head = NetHeader_of (drop (sb_head b) (sb_buffer b));
          encodeLen = unat (nh_len head) + 1
      in bind_res (sb_Encode_loop staticKey (nh_randomKey head) encodeLen (sb_buffer b)
                     (sb_head b + offsetof_checkSum) 1 0 0) (\<lambda>buf.
           Inr (b\<lparr>sb_buffer := buf, sb_isEncrypt := sb_isEncrypt b + 1\<rparr>)))"

definition sb_TryEncode :: "CSendBuffer \<Rightarrow> u8 \<Rightarrow> CSendBuffer res" where
  "sb_TryEncode b staticKey =
     (if sb_isEncrypt b = 0 then
        bind_res (sb_WriteNetHeader b dfPACKET_CODE) (\<lambda>b'. sb_Encode b' staticKey)
      else Inr b)"

text \<open>The bytes handed to \<^verbatim>\<open>WSASend\<close> (\<^verbatim>\<open>GetHead()\<close>, \<^verbatim>\<open>SendDataSize()\<close>).\<close>

definition sb_wire :: "CSendBuffer \<Rightarrow> u8 list" where
  "sb_wire b = take (sb_rear b - sb_head b) (drop (sb_head b) (sb_buffer b))"

subsection \<open>Invariant and abstraction\<close>

definition sb_ok :: "CSendBuffer \<Rightarrow> bool" where
  "sb_ok b \<longleftrightarrow>
     length (sb_buffer b) = SEND_BUFFER_SIZE + sizeof_NetHeader \<and>
     sb_data b = sizeof_NetHeader \<and> sb_front b = sizeof_NetHeader \<and>
     sizeof_NetHeader \<le> sb_rear b \<and> sb_rear b \<le> length (sb_buffer b) \<and>
     (sb_head b = 0 \<or> sb_head b = 3)"

definition payload :: "CSendBuffer \<Rightarrow> u8 list" where
  "payload b = take (sb_rear b - sb_data b) (drop (sb_data b) (sb_buffer b))"

subsection \<open>Well-formedness and the payload\<close>

lemma write_at_Inr [simp]:
  "k + length bs \<le> length buf \<Longrightarrow> write_at buf k bs = Inr (take k buf @ bs @ drop (k + length bs) buf)"
  by (simp add: write_at_def)

lemma length_wchar_bytes [simp, bytes_simps]: "length (wchar_bytes ws) = 2 * length ws"
  by (induction ws) (simp_all add: wchar_bytes_def)

lemma sb_ok_new [simp]: "length mem = 2053 \<Longrightarrow> sb_ok (new_CSendBuffer mem)"
  by (simp add: sb_ok_def new_CSendBuffer_def SEND_BUFFER_SIZE_def)

lemma sb_ok_Clear [simp]: "sb_ok b \<Longrightarrow> sb_ok (sb_Clear b) \<and> payload (sb_Clear b) = []"
  by (auto simp: sb_ok_def sb_Clear_def payload_def)

lemma length_payload: "sb_ok b \<Longrightarrow> length (payload b) = sb_rear b - 5"
  by (auto simp: sb_ok_def payload_def)

lemma length_payload_le: "sb_ok b \<Longrightarrow> length (payload b) \<le> SEND_BUFFER_SIZE"
  by (auto simp: sb_ok_def payload_def)

lemma sb_CanPushSize_payload: "sb_ok b \<Longrightarrow> sb_CanPushSize b = int SEND_BUFFER_SIZE - int (length (payload b))"
  by (auto simp: sb_CanPushSize_def sb_ok_def payload_def)

lemma sb_append_ok:
  assumes "sb_ok b" and "length (payload b) + length bs \<le> SEND_BUFFER_SIZE"
  obtains b' where "sb_append b bs = Inr b'" and "sb_ok b'" and "payload b' = payload b @ bs"
    and "sb_head b' = sb_head b" and "sb_isEncrypt b' = sb_isEncrypt b"
    and "sb_refCount b' = sb_refCount b"
proof
  let ?b' = "b\<lparr>sb_buffer := take (sb_rear b) (sb_buffer b) @ bs @
      drop (sb_rear b + length bs) (sb_buffer b), sb_rear := sb_rear b + length bs\<rparr>"
  have fits: "sb_rear b + length bs \<le> length (sb_buffer b)"
    using assms by (auto simp: sb_ok_def payload_def)
  then show "sb_append b bs = Inr ?b'" by (simp add: sb_append_def)
  show "sb_ok ?b'" using assms(1) fits by (auto simp: sb_ok_def)
  show "payload ?b' = payload b @ bs"
    using assms(1) fits by (auto simp: payload_def sb_ok_def drop_take)
qed simp_all

lemma sb_append_overflow:
  assumes "sb_ok b" and "length (payload b) + length bs > SEND_BUFFER_SIZE"
  shows "sb_append b bs = Inl OutOfBounds"
  using assms by (auto simp: sb_append_def write_at_def sb_ok_def payload_def)

lemma sb_GetDataSize_payload: "sb_ok b \<Longrightarrow> sb_GetDataSize b = of_nat (length (payload b))"
  by (auto simp: sb_GetDataSize_def length_payload sb_ok_def)

lemma unat_sb_GetDataSize: "sb_ok b \<Longrightarrow> unat (sb_GetDataSize b) = length (payload b)"
  using length_payload_le [of b]
  by (simp add: sb_GetDataSize_payload unat_of_nat_u16 SEND_BUFFER_SIZE_def)

text \<open>
  The checked appends: a scalar, a byte string. A value that does not fit throws and leaves the
  buffer as it was.
\<close>

lemma sb_push_ok:
  assumes "sb_ok b" and "length (payload b) + length bs \<le> SEND_BUFFER_SIZE"
  obtains b' where "sb_push b bs = Inr b'" and "sb_ok b'" and "payload b' = payload b @ bs"
    and "sb_head b' = sb_head b" and "sb_isEncrypt b' = sb_isEncrypt b"
    and "sb_refCount b' = sb_refCount b"
proof -
  have "sb_CanPush b (int (length bs)) = Inr ()"
    using assms by (simp add: sb_CanPush_def sb_CanPushSize_payload)
  then show ?thesis using sb_append_ok [OF assms] that by (auto simp: sb_push_def)
qed

lemma sb_push_full:
  "sb_ok b \<Longrightarrow> SEND_BUFFER_SIZE < length (payload b) + length bs \<Longrightarrow> sb_push b bs = Inl InvalidArgument"
  by (simp add: sb_push_def sb_CanPush_def sb_CanPushSize_payload)

lemma sb_SetWstr_ok:
  assumes "sb_ok b" and "length (payload b) + 2 * length ws \<le> SEND_BUFFER_SIZE"
  obtains b' where "sb_SetWstr b ws (length ws) = Inr b'" and "sb_ok b'"
    and "payload b' = payload b @ wchar_bytes ws" and "sb_head b' = sb_head b"
    and "sb_isEncrypt b' = sb_isEncrypt b" and "sb_refCount b' = sb_refCount b"
proof -
  have "sb_CanPush b (int (length ws)) = Inr ()"
    using assms by (simp add: sb_CanPush_def sb_CanPushSize_payload)
  then show ?thesis using sb_append_ok [OF assms(1), of "wchar_bytes ws"] assms(2) that
    by (auto simp: sb_SetWstr_def)
qed

text \<open>
  The check of \<^verbatim>\<open>SetWstr\<close> counts characters where the copy counts bytes: between half full and full,
  the check passes and the copy leaves the array.
\<close>

lemma sb_SetWstr_overflow:
  assumes "sb_ok b" and "length (payload b) + length ws \<le> SEND_BUFFER_SIZE"
    and "SEND_BUFFER_SIZE < length (payload b) + 2 * length ws"
  shows "sb_SetWstr b ws (length ws) = Inl OutOfBounds"
  using assms sb_append_overflow [OF assms(1), of "wchar_bytes ws"]
  by (simp add: sb_SetWstr_def sb_CanPush_def sb_CanPushSize_payload)

subsection \<open>What goes on the wire\<close>

lemma sb_Encode_loop_bytes:
  assumes "k + n \<le> length buf"
  shows "sb_Encode_loop key rk n buf k i p e =
    Inr (take k buf @ encode_bytes key rk (of_nat i) p e (take n (drop k buf)) @ drop (k + n) buf)"
  using assms
proof (induction n arbitrary: buf k i p e)
  case 0
  then show ?case by simp
next
  case (Suc n)
  define p' where "p' = buf ! k XOR (p + rk + of_nat i)"
  define e' where "e' = p' XOR (e + key + of_nat i)"
  have k: "k < length buf" using Suc.prems by simp
  have "take (Suc k) (buf[k := e']) = take k buf @ [e']"
    and "drop (Suc k) (buf[k := e']) = drop (Suc k) buf"
    and "drop (Suc (k + n)) (buf[k := e']) = drop (Suc (k + n)) buf"
    using k by (simp_all add: take_Suc_conv_app_nth)
  moreover have "sb_Encode_loop key rk (Suc n) buf k i p e =
      sb_Encode_loop key rk n (buf[k := e']) (Suc k) (Suc i) p' e'"
    using k by (simp add: Let_def p'_def e'_def)
  ultimately have "sb_Encode_loop key rk (Suc n) buf k i p e =
      Inr (take k buf @ e' # encode_bytes key rk (of_nat i + 1) p' e' (take n (drop (Suc k) buf))
           @ drop (k + Suc n) buf)"
    using Suc.IH [of "Suc k" "buf[k := e']" "Suc i" p' e'] Suc.prems by (simp add: add.commute)
  moreover have "encode_bytes key rk (of_nat i) p e (take (Suc n) (drop k buf)) =
      e' # encode_bytes key rk (of_nat i + 1) p' e' (take n (drop (Suc k) buf))"
    using k by (simp add: Let_def p'_def e'_def flip: Cons_nth_drop_Suc)
  ultimately show ?case by simp
qed

lemma sb_TryEncode_wire:
  assumes ok: "sb_ok b" and fresh: "sb_isEncrypt b = 0" "sb_head b = 0"
  obtains b' where "sb_TryEncode b key = Inr b'" and "sb_ok b'"
    and "sb_wire b' = net_frame key (payload b)" and "sb_isEncrypt b' = 1" and "sb_head b' = 0"
    and "sb_rear b' = sb_rear b" and "sb_refCount b' = sb_refCount b"
proof -
  let ?buf = "sb_buffer b" and ?n = "length (payload b)"
  let ?h = "\<lparr>nh_code = dfPACKET_CODE, nh_len = of_nat ?n, nh_randomKey = fixed_randomKey,
    nh_checkSum = checksum (payload b)\<rparr>"
  have l: "length ?buf = 2053" "sb_data b = 5" "sb_rear b = ?n + 5" "?n \<le> 2048"
    using ok length_payload_le [OF ok] by (auto simp: sb_ok_def length_payload SEND_BUFFER_SIZE_def)
  have un: "unat (of_nat ?n :: u16) = ?n" using l by (simp add: unat_of_nat_u16)
  have pl: "take ?n (drop 5 ?buf) = payload b" using l by (simp add: payload_def)
  let ?buf1 = "NetHeader_bytes ?h @ drop 5 ?buf"
  have w: "sb_WriteNetHeader b dfPACKET_CODE = Inr (b\<lparr>sb_buffer := ?buf1\<rparr>)"
    using l fresh un pl
    by (simp add: sb_WriteNetHeader_def sb_GetDataSize_payload [OF ok] Let_def checksum_def
        fixed_randomKey_def)
  have d4: "drop 4 ?buf1 = checksum (payload b) # drop 5 ?buf"
    and t4: "take 4 ?buf1 = dfPACKET_CODE # to_le 2 (of_nat ?n :: u16) @ [fixed_randomKey]"
    by (simp_all add: NetHeader_bytes_def to_le_2 numeral_eq_Suc)
  let ?enc = "encode_bytes key fixed_randomKey 1 0 0 (checksum (payload b) # payload b)"
  let ?buf2 = "take 4 ?buf1 @ ?enc @ drop (?n + 5) ?buf1"
  have "sb_Encode_loop key fixed_randomKey (?n + 1) ?buf1 4 1 0 0 = Inr ?buf2"
    using l sb_Encode_loop_bytes [of 4 "?n + 1" ?buf1 key fixed_randomKey 1 0 0]
    by (simp only: d4) (simp add: pl)
  then have e: "sb_TryEncode b key = Inr (b\<lparr>sb_buffer := ?buf2, sb_isEncrypt := 1\<rparr>)"
    using fresh un by (simp add: sb_TryEncode_def w sb_Encode_def Let_def)
  have len2: "length ?buf2 = 2053" using l by (simp add: Let_def)
  have "take (?n + 5) ?buf2 = take 4 ?buf1 @ ?enc" by (simp add: Let_def)
  then have "take (?n + 5) ?buf2 = net_frame key (payload b)"
    by (simp only: t4) (simp add: net_frame_def)
  then have wire: "sb_wire (b\<lparr>sb_buffer := ?buf2, sb_isEncrypt := 1\<rparr>) = net_frame key (payload b)"
    using l fresh by (simp add: sb_wire_def)
  have "sb_ok (b\<lparr>sb_buffer := ?buf2, sb_isEncrypt := 1\<rparr>)"
    using ok len2 l by (simp add: sb_ok_def SEND_BUFFER_SIZE_def)
  then show ?thesis using that [OF e _ wire] fresh by simp
qed

lemma sb_TryEncode_again: "sb_isEncrypt b \<noteq> 0 \<Longrightarrow> sb_TryEncode b key = Inr b"
  by (simp add: sb_TryEncode_def)

lemma sb_WriteLanHeader_wire:
  assumes ok: "sb_ok b"
  obtains b' where "sb_WriteLanHeader b = Inr b'" and "sb_ok b'"
    and "sb_wire b' = lan_frame (payload b)" and "payload b' = payload b" and "sb_head b' = 3"
    and "sb_isEncrypt b' = sb_isEncrypt b" and "sb_rear b' = sb_rear b"
    and "sb_refCount b' = sb_refCount b"
proof -
  let ?buf = "sb_buffer b" and ?n = "length (payload b)"
  have l: "length ?buf = 2053" "sb_data b = 5" "sb_front b = 5" "sb_rear b = ?n + 5" "?n \<le> 2048"
    using ok length_payload_le [OF ok] by (auto simp: sb_ok_def length_payload SEND_BUFFER_SIZE_def)
  let ?b' = "b\<lparr>sb_buffer := take 3 ?buf @ to_le 2 (of_nat ?n :: u16) @ drop 5 ?buf, sb_head := 3\<rparr>"
  have r: "sb_WriteLanHeader b = Inr ?b'"
    using l by (simp add: sb_WriteLanHeader_def sb_GetDataSize_payload [OF ok])
  have okb: "sb_ok ?b'" using ok l by (simp add: sb_ok_def SEND_BUFFER_SIZE_def)
  have pl: "payload ?b' = payload b" using l by (simp add: payload_def)
  have "sb_wire ?b' = to_le 2 (of_nat ?n :: u16) @ take ?n (drop 5 ?buf)"
    using l by (simp add: sb_wire_def)
  also have "take ?n (drop 5 ?buf) = payload b" using l by (simp add: payload_def)
  finally have "sb_wire ?b' = lan_frame (payload b)" by (simp add: lan_frame_def)
  with r okb pl show ?thesis using that by simp
qed

subsection \<open>Properties\<close>

text \<open>
  Writing a value of \<open>n\<close> bytes: it is appended to the payload when it fits, and otherwise the call
  throws \<^verbatim>\<open>invalid_argument\<close>; the checked scalar write never leaves the array.
\<close>

theorem push_appends_or_throws:
  assumes "sb_ok b"
  shows "if length (payload b) + length bs \<le> SEND_BUFFER_SIZE
    then \<exists>b'. sb_push b bs = Inr b' \<and> sb_ok b' \<and> payload b' = payload b @ bs
    else sb_push b bs = Inl InvalidArgument"
  using sb_push_ok [OF assms, of bs] sb_push_full [OF assms, of bs] by (metis not_le)

theorem push_appends_or_throws_witness:
  "\<exists>b'. sb_push (new_CSendBuffer (replicate 2053 0)) [1, 2] = Inr b' \<and> payload b' = [1, 2]"
proof -
  have "payload (new_CSendBuffer (replicate 2053 0)) = []" by (simp add: payload_def new_CSendBuffer_def)
  then show ?thesis
    using push_appends_or_throws [of "new_CSendBuffer (replicate 2053 0)" "[1, 2]"]
    by (auto simp: SEND_BUFFER_SIZE_def)
qed

text \<open>
  A wide string between half and all of the free space passes the check of \<^verbatim>\<open>SetWstr\<close>, which counts
  characters, and the copy of twice as many bytes runs past the end of the buffer.
\<close>

theorem SetWstr_overrun:
  assumes "sb_ok b" and "length (payload b) + length ws \<le> SEND_BUFFER_SIZE"
    and "SEND_BUFFER_SIZE < length (payload b) + 2 * length ws"
  shows "sb_SetWstr b ws (length ws) = Inl OutOfBounds"
  using assms by (rule sb_SetWstr_overflow)

theorem SetWstr_overrun_witness:
  "sb_SetWstr (new_CSendBuffer (replicate 2053 0)) (replicate 1500 65) 1500 = Inl OutOfBounds"
proof -
  have "payload (new_CSendBuffer (replicate 2053 0)) = []" by (simp add: payload_def new_CSendBuffer_def)
  then show ?thesis
    using SetWstr_overrun [of "new_CSendBuffer (replicate 2053 0)" "replicate 1500 65"]
    by (simp add: SEND_BUFFER_SIZE_def)
qed

text \<open>
  C23. What is handed to \<^verbatim>\<open>WSASend\<close>: for a NET session the frame of the payload under the session's key,
  and encoding the same buffer again (a broadcast) changes nothing; for a LAN session the two-byte length
  and the payload.
\<close>

theorem encode_frames_payload:
  assumes "sb_ok b" and "sb_isEncrypt b = 0" and "sb_head b = 0"
  shows "(\<exists>b'. sb_TryEncode b key = Inr b' \<and> sb_wire b' = net_frame key (payload b) \<and>
      (\<forall>key'. sb_TryEncode b' key' = Inr b')) \<and>
    (\<exists>b'. sb_WriteLanHeader b = Inr b' \<and> sb_wire b' = lan_frame (payload b))"
proof -
  obtain b' where "sb_TryEncode b key = Inr b'" "sb_wire b' = net_frame key (payload b)" "sb_isEncrypt b' = 1"
    using sb_TryEncode_wire [OF assms] by blast
  moreover obtain b'' where "sb_WriteLanHeader b = Inr b''" "sb_wire b'' = lan_frame (payload b)"
    using sb_WriteLanHeader_wire [OF assms(1)] by blast
  ultimately show ?thesis using sb_TryEncode_again [of b'] by simp
qed

theorem encode_frames_payload_witness:
  "\<exists>b'. sb_TryEncode (new_CSendBuffer (replicate 2053 0)) 50 = Inr b' \<and> sb_wire b' = net_frame 50 []"
proof -
  let ?b = "new_CSendBuffer (replicate 2053 0)"
  have "payload ?b = []" "sb_isEncrypt ?b = 0" "sb_head ?b = 0"
    by (simp_all add: payload_def new_CSendBuffer_def)
  then show ?thesis using encode_frames_payload [of ?b 50] by auto
qed

end
