(* ===== verification/Recv_Buffer.thy ===== *)
theory Recv_Buffer
  imports Ring_Buffer Send_Buffer
begin

section \<open>The reading view of a received packet\<close>

text \<open>
  \<^verbatim>\<open>CRecvBuffer\<close> (\<^verbatim>\<open>include/CRecvBuffer.h\<close>, \<^verbatim>\<open>src/CRecvBuffer.cpp\<close>): a byte budget \<^verbatim>\<open>_size\<close> over the ring
  buffer it points to. The ring is threaded through the operations, since it is the session's.
\<close>

subsection \<open>Operations\<close>

record CRecvBuffer =
  rv_size :: i32

definition new_CRecvBuffer :: "i32 \<Rightarrow> CRecvBuffer" where
  "new_CRecvBuffer n = \<lparr>rv_size = n\<rparr>"

definition rv_CanPopSize :: "CRecvBuffer \<Rightarrow> int" where
  "rv_CanPopSize b = sint (rv_size b)"

text \<open>
  \<^verbatim>\<open>CanPop\<close> compares the signed size with an unsigned 64-bit count, so the size is sign-extended and
  read as unsigned.
\<close>

definition rv_CanPop :: "bool \<Rightarrow> CRecvBuffer \<Rightarrow> u64 \<Rightarrow> unit res" where
  "rv_CanPop dbg b popByte =
     (if (scast (rv_size b) :: u64) < popByte
      then bind_res (ASSERT_CRASH dbg False) (\<lambda>_. Inl InvalidArgument)
      else Inr ())"

text \<open>Copy out of the ring, remove and charge the budget.\<close>

definition rv_take :: "CRecvBuffer \<Rightarrow> CRingBuffer \<Rightarrow> nat \<Rightarrow> (u8 list \<times> CRecvBuffer \<times> CRingBuffer) res" where
  "rv_take b r n =
     bind_res (Ring_Peek r n) (\<lambda>bs.
     bind_res (Ring_Dequeue r (int n)) (\<lambda>(_, r').
       Inr (bs, b\<lparr>rv_size := rv_size b - of_nat n\<rparr>, r')))"

text \<open>\<^verbatim>\<open>operator>>(T&)\<close> for a scalar of \<open>n\<close> bytes.\<close>

definition rv_pop ::
  "bool \<Rightarrow> CRecvBuffer \<Rightarrow> CRingBuffer \<Rightarrow> nat \<Rightarrow> (u8 list \<times> CRecvBuffer \<times> CRingBuffer) res" where
  "rv_pop dbg b r n = bind_res (rv_CanPop dbg b (of_nat n)) (\<lambda>_. rv_take b r n)"

fun wchars_of :: "u8 list \<Rightarrow> u16 list" where
  "wchars_of (a # b # bs) = from_le [a, b] # wchars_of bs"
| "wchars_of _ = []"

definition rv_pop_String ::
  "bool \<Rightarrow> CRecvBuffer \<Rightarrow> CRingBuffer \<Rightarrow> (u16 list \<times> CRecvBuffer \<times> CRingBuffer) res" where
  "rv_pop_String dbg b r =
     bind_res (rv_pop dbg b r 2) (\<lambda>(lb, b1, r1).
       (let len = (from_le lb :: u16); popBytes = unat len * 2
        in bind_res (rv_CanPop dbg b1 (of_nat popBytes)) (\<lambda>_.
           bind_res (rv_take b1 r1 popBytes) (\<lambda>(bs, b2, r2). Inr (wchars_of bs, b2, r2)))))"

definition rv_GetWstr ::
  "bool \<Rightarrow> CRecvBuffer \<Rightarrow> CRingBuffer \<Rightarrow> nat \<Rightarrow> (u16 list \<times> CRecvBuffer \<times> CRingBuffer) res" where
  "rv_GetWstr dbg b r strLen =
     bind_res (rv_CanPop dbg b (of_nat strLen)) (\<lambda>_.
     bind_res (rv_take b r (strLen * 2)) (\<lambda>(bs, b', r'). Inr (wchars_of bs, b', r')))"

definition rv_GetCstr ::
  "bool \<Rightarrow> CRecvBuffer \<Rightarrow> CRingBuffer \<Rightarrow> nat \<Rightarrow> (u8 list \<times> CRecvBuffer \<times> CRingBuffer) res" where
  "rv_GetCstr dbg b r n = bind_res (rv_CanPop dbg b (of_nat n)) (\<lambda>_. rv_take b r n)"

subsection \<open>Invariant and abstraction\<close>

text \<open>The budget is not negative and the ring holds at least that much.\<close>

definition rv_ok :: "CRecvBuffer \<Rightarrow> CRingBuffer \<Rightarrow> bool" where
  "rv_ok b r \<longleftrightarrow> ring_ok r \<and> 0 \<le> rv_CanPopSize b \<and> nat (rv_CanPopSize b) \<le> Ring_Size r"

definition rv_view :: "CRecvBuffer \<Rightarrow> CRingBuffer \<Rightarrow> u8 list" where
  "rv_view b r = take (nat (rv_CanPopSize b)) (content r)"

subsection \<open>Facts\<close>

lemma ring_size_bound: "Ring_Size r < 8192"
  using Ring_Size_less [of r] by (simp add: BUFFER_SIZE_def)

lemma rv_budget:
  assumes "rv_ok b r"
  obtains k where "rv_size b = of_nat k" and "rv_CanPopSize b = int k" and "k \<le> Ring_Size r" and "k < 8192"
proof
  let ?k = "nat (rv_CanPopSize b)"
  show "?k \<le> Ring_Size r" and "rv_CanPopSize b = int ?k"
    using assms by (simp_all add: rv_ok_def)
  then show "?k < 8192" using ring_size_bound [of r] by simp
  show "rv_size b = of_nat ?k"
    using assms by (simp add: rv_ok_def rv_CanPopSize_def)
qed

lemma sint_of_nat_small: "k < 8192 \<Longrightarrow> sint (of_nat k :: i32) = int k"
  by (simp add: sint_uint uint_nat unat_of_nat signed_take_bit_int_eq_self)

lemma scast_of_nat_small: "k < 8192 \<Longrightarrow> (scast (of_nat k :: i32) :: u64) = of_nat k"
  by (metis of_int_of_nat_eq scast_eq sint_of_nat_small)

lemma u64_less_of_nat: "k < 8192 \<Longrightarrow> n < 2 ^ 64 \<Longrightarrow> ((of_nat k :: u64) < of_nat n) = (k < n)"
  by (simp add: word_less_nat_alt unat_of_nat)

lemma rv_CanPop_budget:
  assumes "rv_ok b r" and "n < 2 ^ 64"
  shows "rv_CanPop dbg b (of_nat n) =
    (if n \<le> nat (rv_CanPopSize b) then Inr ()
     else Inl (if dbg then DebugBreak else InvalidArgument))"
proof -
  obtain k where k: "rv_size b = of_nat k" "rv_CanPopSize b = int k" "k < 8192"
    using rv_budget [OF assms(1)] by blast
  then have "((scast (rv_size b) :: u64) < of_nat n) = (k < n)"
    using assms(2) by (simp add: scast_of_nat_small u64_less_of_nat)
  then show ?thesis using k by (auto simp: rv_CanPop_def ASSERT_CRASH_def)
qed

lemma rv_take_ok:
  assumes ok: "rv_ok b r" and n: "n \<le> nat (rv_CanPopSize b)"
  obtains b' r' where "rv_take b r n = Inr (take n (rv_view b r), b', r')" and "rv_ok b' r'"
    and "rv_view b' r' = drop n (rv_view b r)" and "content r' = drop n (content r)"
    and "rv_CanPopSize b' = rv_CanPopSize b - int n" and "rb_buffer r' = rb_buffer r"
proof -
  obtain k where k: "rv_size b = of_nat k" "rv_CanPopSize b = int k" "k \<le> Ring_Size r" "k < 8192"
    using rv_budget [OF ok] by blast
  have r: "ring_ok r" and nk: "n \<le> k" "n \<le> Ring_Size r" using ok n k by (simp_all add: rv_ok_def)
  let ?b' = "b\<lparr>rv_size := rv_size b - of_nat n\<rparr>" and ?r' = "MoveFront r (int n)"
  have "rv_size b - of_nat n = of_nat (k - n)" using nk k by (simp add: of_nat_diff)
  then have c: "rv_CanPopSize ?b' = int (k - n)"
    using k by (simp only: rv_CanPopSize_def CRecvBuffer.simps) (simp add: sint_of_nat_small)
  have cont: "content ?r' = drop n (content r)" using content_MoveFront [OF r nk(2)] .
  have "rv_take b r n = Inr (take n (rv_view b r), ?b', ?r')"
    using nk k by (simp add: rv_take_def Ring_Peek_content [OF r nk(2)] Ring_Dequeue_ok rv_view_def
        take_min_le)
  moreover have "rv_ok ?b' ?r'"
    using r nk k c by (simp add: rv_ok_def Ring_Size_MoveFront)
  moreover have "rv_view ?b' ?r' = drop n (rv_view b r)"
  proof -
    have "nat (int k - int n) = k - n" using nk by linarith
    then show ?thesis using c nk k by (simp add: rv_view_def cont drop_take)
  qed
  ultimately show ?thesis using that cont c nk k by (simp add: MoveFront_def)
qed

lemma rv_pop_ok:
  assumes "rv_ok b r" and "n \<le> nat (rv_CanPopSize b)"
  shows "rv_pop dbg b r n = rv_take b r n"
proof -
  have "n < 2 ^ 64" using assms rv_budget [OF assms(1)] by force
  then show ?thesis using assms by (simp add: rv_pop_def rv_CanPop_budget)
qed

lemma rv_pop_error:
  assumes "rv_ok b r" and "nat (rv_CanPopSize b) < n" and "n < 2 ^ 64"
  shows "rv_pop dbg b r n = Inl (if dbg then DebugBreak else InvalidArgument)"
  using assms by (simp add: rv_pop_def rv_CanPop_budget)

lemma wchar_bytes_Cons: "wchar_bytes (w # ws) = ucast w # ucast (drop_bit 8 w) # wchar_bytes ws"
  by (simp add: wchar_bytes_def to_le_2)

lemma wchars_of_wchar_bytes [simp]: "wchars_of (wchar_bytes ws) = ws"
proof (induction ws)
  case Nil
  show ?case by (simp add: wchar_bytes_def)
next
  case (Cons w ws)
  have "from_le [ucast w, ucast (drop_bit 8 w)] = w"
    using from_le_to_le [of 2 w] by (simp add: to_le_2)
  with Cons show ?case by (simp add: wchar_bytes_Cons)
qed

text \<open>Reading a string back: what \<^verbatim>\<open>operator<<(const String&)\<close> wrote at the front of the view.\<close>

lemma rv_pop_String_ok:
  assumes ok: "rv_ok b r" and small: "length ws < 32768"
    and view: "rv_view b r = to_le 2 (of_nat (length ws) :: u16) @ wchar_bytes ws @ rest"
  obtains b' r' where "rv_pop_String dbg b r = Inr (ws, b', r')" and "rv_ok b' r'"
    and "rv_view b' r' = rest"
proof -
  let ?n = "length ws * 2"
  have rk: "nat (rv_CanPopSize b) = length (rv_view b r)"
    using ok by (simp add: rv_view_def rv_ok_def)
  then have "2 \<le> nat (rv_CanPopSize b)" using view by simp
  then obtain b1 r1 where s1: "rv_take b r 2 = Inr (to_le 2 (of_nat (length ws) :: u16), b1, r1)"
    "rv_ok b1 r1" "rv_view b1 r1 = wchar_bytes ws @ rest" "rv_CanPopSize b1 = rv_CanPopSize b - 2"
    using rv_take_ok [OF ok] view by (metis append_eq_conv_conj length_to_le of_nat_numeral)
  have n: "?n \<le> nat (rv_CanPopSize b1)"
    using rk view s1(4) by simp
  obtain b2 r2 where s2: "rv_take b1 r1 ?n = Inr (wchar_bytes ws, b2, r2)" "rv_ok b2 r2"
    "rv_view b2 r2 = rest"
    using rv_take_ok [OF s1(2) n] s1(3) by (metis append_eq_conv_conj length_wchar_bytes mult.commute)
  have "unat (of_nat (length ws) :: u16) = length ws" using small by (simp add: unat_of_nat_u16)
  moreover have "rv_CanPop dbg b1 (of_nat ?n) = Inr ()"
    using rv_CanPop_budget [OF s1(2), of ?n] n small by (simp del: of_nat_mult)
  ultimately have "rv_pop_String dbg b r = Inr (ws, b2, r2)"
    using s1(1) s2(1) rk view
    by (simp add: rv_pop_String_def rv_pop_ok [OF ok] Let_def del: of_nat_mult)
  then show ?thesis using that s2 by blast
qed

subsection \<open>A whole packet at the front of the ring\<close>

text \<open>
  What \<^verbatim>\<open>RecvExecutable::RecvHandler\<close> and \<^verbatim>\<open>Group::RecvHandler\<close> rely on: when the ring starts with a frame, the
  header gives its length, decoding and the checksum succeed, and after the header is removed the
  reading view of that length is the payload.
\<close>

lemma net_frame_parts:
  "take 4 (net_frame key pl @ rest) = dfPACKET_CODE # to_le 2 (of_nat (length pl) :: u16) @ [fixed_randomKey]"
  "drop 4 (net_frame key pl @ rest) = encode_bytes key fixed_randomKey 1 0 0 (checksum pl # pl) @ rest"
  by (simp_all add: net_frame_def to_le_2 numeral_eq_Suc Let_def)

lemma NetHeader_of_decoded:
  "NetHeader_of (dfPACKET_CODE # to_le 2 (n :: u16) @ fixed_randomKey # cs # rest)
     = \<lparr>nh_code = dfPACKET_CODE, nh_len = n, nh_randomKey = fixed_randomKey, nh_checkSum = cs\<rparr>"
  using NetHeader_of_bytes [of "\<lparr>nh_code = dfPACKET_CODE, nh_len = n, nh_randomKey = fixed_randomKey, nh_checkSum = cs\<rparr>" rest]
  by (simp add: NetHeader_bytes_def)

lemma net_frame_at_front:
  assumes ok: "ring_ok r" and c: "content r = net_frame key pl @ rest"
  obtains r1 where "unat (nh_len (NetHeader_of (content r))) = length pl"
    and "nh_code (NetHeader_of (content r)) = dfPACKET_CODE"
    and "Ring_Size r = length pl + 5 + length rest"
    and "Ring_Decode r key = Inr r1" and "ring_ok r1" and "Ring_Size r1 = Ring_Size r"
    and "ChecksumValid r1 = Inr True" and "ring_ok (MoveFront r1 5)"
    and "content (MoveFront r1 5) = pl @ rest"
proof -
  have size: "Ring_Size r = length pl + 5 + length rest"
    using c length_content [OF ok] by simp
  then have small: "length pl < 65536" using ring_size_bound [of r] by simp
  have h: "NetHeader_of (content r) = \<lparr>nh_code = dfPACKET_CODE, nh_len = of_nat (length pl),
      nh_randomKey = fixed_randomKey, nh_checkSum = encode_bytes key fixed_randomKey 1 0 0 (checksum pl # pl) ! 0\<rparr>"
    by (simp only: c NetHeader_of_net_frame)
  have len: "length pl = unat (nh_len (NetHeader_of (content r)))"
    using small by (simp add: h unat_of_nat_u16)
  let ?pre = "dfPACKET_CODE # to_le 2 (of_nat (length pl) :: u16) @ [fixed_randomKey]"
  obtain r1 where r1: "Ring_Decode r key = Inr r1" "ring_ok r1" "Ring_Size r1 = Ring_Size r"
    "content r1 = take 4 (content r) @ decode_bytes key (nh_randomKey (NetHeader_of (content r))) 1 0 0
       (take (Suc (length pl)) (drop 4 (content r))) @ drop (length pl + 5) (content r)"
    using Ring_Decode_content [OF ok len] size by (metis le_add1)
  have tk: "take (Suc (length pl)) (drop 4 (content r)) = encode_bytes key fixed_randomKey 1 0 0 (checksum pl # pl)"
    unfolding c net_frame_parts(2) by (metis append_eq_conv_conj length_Cons length_encode_bytes)
  have dr: "drop (length pl + 5) (content r) = rest" by (simp add: c)
  have c1: "content r1 = ?pre @ (checksum pl # pl) @ rest"
    using r1(4) unfolding tk dr h by (simp only: c net_frame_parts(1) NetHeader.simps decode_encode_bytes)
  then have h1: "NetHeader_of (content r1) = \<lparr>nh_code = dfPACKET_CODE, nh_len = of_nat (length pl),
      nh_randomKey = fixed_randomKey, nh_checkSum = checksum pl\<rparr>"
    using NetHeader_of_decoded by simp
  have "take (length pl) (drop 5 (content r1)) = pl" by (simp add: c1 to_le_2)
  then have cs: "ChecksumValid r1 = Inr True"
    using ChecksumValid_content [OF r1(2), of "length pl"] h1 small size r1(3) by (simp add: unat_of_nat_u16)
  have "content (MoveFront r1 5) = drop 5 (content r1)"
    using content_MoveFront [OF r1(2), of 5] r1(3) size by simp
  then have "content (MoveFront r1 5) = pl @ rest" by (simp add: c1 to_le_2)
  then show ?thesis
    using that [OF len [symmetric] _ size r1(1-3) cs] h r1(2) by simp
qed

lemma lan_frame_at_front:
  assumes ok: "ring_ok r" and c: "content r = lan_frame pl @ rest"
  shows "unat (lh_len (LANHeader_of (content r))) = length pl"
    and "Ring_Size r = length pl + 2 + length rest"
    and "content (MoveFront r 2) = pl @ rest"
proof -
  show size: "Ring_Size r = length pl + 2 + length rest"
    using c length_content [OF ok] by simp
  then have small: "length pl < 65536" using ring_size_bound [of r] by simp
  show "unat (lh_len (LANHeader_of (content r))) = length pl"
    using small by (simp add: c LANHeader_of_lan_frame unat_of_nat_u16)
  show "content (MoveFront r 2) = pl @ rest"
    using content_MoveFront [OF ok, of 2] size by (simp add: c lan_frame_def)
qed

lemma rv_view_new:
  assumes "content r = pl @ rest" and "length pl < 8192"
  shows "rv_view (new_CRecvBuffer (of_nat (length pl))) r = pl"
  using assms by (simp add: rv_view_def rv_CanPopSize_def new_CRecvBuffer_def sint_of_nat_small)

lemma rv_ok_new:
  assumes "ring_ok r" and "content r = pl @ rest"
  shows "rv_ok (new_CRecvBuffer (of_nat (length pl))) r"
  using assms length_content [OF assms(1)] ring_size_bound [of r]
  by (simp add: rv_ok_def rv_CanPopSize_def new_CRecvBuffer_def sint_of_nat_small)

subsection \<open>Properties\<close>

text \<open>
  C21. Encryption round trip: when the ring starts with what the sender put on the wire for a fresh
  buffer, decoding with the same key succeeds, the checksum is valid, and after the header is removed
  the packet view is the sender's payload and the bytes behind the packet are untouched.
\<close>

theorem packet_roundtrip:
  assumes "sb_ok b" and "sb_isEncrypt b = 0" and "sb_head b = 0" and "sb_TryEncode b key = Inr b'"
    and "ring_ok r" and "content r = sb_wire b' @ rest"
  shows "\<exists>r1 r2. Ring_Decode r key = Inr r1 \<and> ChecksumValid r1 = Inr True \<and>
    Ring_Dequeue r1 5 = Inr (5, r2) \<and> content r2 = payload b @ rest \<and>
    rv_view (new_CRecvBuffer (of_nat (length (payload b)))) r2 = payload b"
proof -
  have "sb_wire b' = net_frame key (payload b)"
    using sb_TryEncode_wire [OF assms(1-3)] assms(4) by (metis sum.inject(2))
  then have c: "content r = net_frame key (payload b) @ rest" using assms(6) by simp
  obtain r1 where r1: "Ring_Size r = length (payload b) + 5 + length rest" "Ring_Decode r key = Inr r1"
    "Ring_Size r1 = Ring_Size r" "ChecksumValid r1 = Inr True" "content (MoveFront r1 5) = payload b @ rest"
    using net_frame_at_front [OF assms(5) c] by blast
  have "Ring_Dequeue r1 5 = Inr (5, MoveFront r1 5)" using Ring_Dequeue_ok [of 5 r1] r1 by simp
  moreover have "length (payload b) < 8192"
    using length_payload_le [OF assms(1)] by (simp add: SEND_BUFFER_SIZE_def)
  ultimately show ?thesis using r1 rv_view_new [OF r1(5)] by blast
qed

theorem packet_roundtrip_witness:
  "\<exists>r1. Ring_Decode (ring_holding (net_frame 50 [])) 50 = Inr r1 \<and> ChecksumValid r1 = Inr True"
proof -
  let ?b = "new_CSendBuffer (replicate 2053 0)"
  have b: "sb_ok ?b" "sb_isEncrypt ?b = 0" "sb_head ?b = 0" "payload ?b = []"
    by (simp_all add: payload_def new_CSendBuffer_def sb_ok_def SEND_BUFFER_SIZE_def)
  obtain b' where b': "sb_TryEncode ?b 50 = Inr b'" "sb_wire b' = net_frame 50 []"
    using sb_TryEncode_wire [OF b(1-3), of 50] b(4) by metis
  have r: "ring_ok (ring_holding (net_frame 50 []))" "content (ring_holding (net_frame 50 [])) = sb_wire b' @ []"
    using ring_holding_ok [of "net_frame 50 []"] b'(2) by simp_all
  show ?thesis using packet_roundtrip [OF b(1-3) b'(1) r] by blast
qed

text \<open>
  C24. String round trip: a string written with \<^verbatim>\<open>operator<<\<close> into a send buffer with room for it is read
  back by \<^verbatim>\<open>operator>>\<close> from any packet view that starts with the bytes written, in a debug or a release
  build.
\<close>

theorem string_roundtrip:
  assumes "sb_ok sb" and "length (payload sb) + 2 + 2 * length ws \<le> SEND_BUFFER_SIZE"
    and "rv_ok b r" and "\<And>sb'. sb_push_String sb ws = Inr sb' \<Longrightarrow>
      rv_view b r = drop (length (payload sb)) (payload sb') @ rest"
  shows "\<exists>b' r'. rv_pop_String dbg b r = Inr (ws, b', r') \<and> rv_ok b' r' \<and> rv_view b' r' = rest"
proof -
  let ?l = "to_le 2 (of_nat (length ws) :: u16)"
  obtain sb1 where s1: "sb_push sb ?l = Inr sb1" "sb_ok sb1" "payload sb1 = payload sb @ ?l"
    using sb_push_ok [OF assms(1), of ?l] assms(2) by auto
  obtain sb2 where s2: "sb_SetWstr sb1 ws (length ws) = Inr sb2" "payload sb2 = payload sb1 @ wchar_bytes ws"
    using sb_SetWstr_ok [OF s1(2), of ws] s1(3) assms(2) by auto
  have "sb_push_String sb ws = Inr sb2" using s1 s2 by (simp add: sb_push_String_def)
  then have "rv_view b r = ?l @ wchar_bytes ws @ rest" using assms(4) s1(3) s2(2) by simp
  moreover have "length ws < 32768" using assms(2) by (simp add: SEND_BUFFER_SIZE_def)
  ultimately show ?thesis using rv_pop_String_ok [OF assms(3)] by metis
qed

lemma sb_push_String_new:
  assumes "length ws \<le> 1000" and "sb_push_String (new_CSendBuffer (replicate 2053 0)) ws = Inr sb'"
  shows "payload sb' = to_le 2 (of_nat (length ws) :: u16) @ wchar_bytes ws"
proof -
  let ?b = "new_CSendBuffer (replicate 2053 0)" and ?l = "to_le 2 (of_nat (length ws) :: u16)"
  have b: "sb_ok ?b" "payload ?b = []" by (simp_all add: payload_def new_CSendBuffer_def sb_ok_def SEND_BUFFER_SIZE_def)
  obtain sb1 where s1: "sb_push ?b ?l = Inr sb1" "sb_ok sb1" "payload sb1 = ?l"
    using sb_push_ok [OF b(1), of ?l] b(2) by (auto simp: SEND_BUFFER_SIZE_def)
  obtain sb2 where s2: "sb_SetWstr sb1 ws (length ws) = Inr sb2" "payload sb2 = ?l @ wchar_bytes ws"
    using sb_SetWstr_ok [OF s1(2), of ws] s1(3) assms(1) by (auto simp: SEND_BUFFER_SIZE_def)
  then show ?thesis using assms(2) s1(1) by (simp add: sb_push_String_def)
qed

theorem string_roundtrip_witness:
  "\<exists>b' r'. rv_pop_String False (new_CRecvBuffer 6)
     (ring_holding (to_le 2 (2 :: u16) @ wchar_bytes [72, 105])) = Inr ([72, 105], b', r')"
proof -
  let ?b = "new_CSendBuffer (replicate 2053 0)" and ?ws = "[72, 105] :: u16 list"
  let ?bs = "to_le 2 (2 :: u16) @ wchar_bytes ?ws"
  have len: "length ?bs = 6" by simp
  have r: "ring_ok (ring_holding ?bs)" "content (ring_holding ?bs) = ?bs @ []"
    using ring_holding_ok [of ?bs] len by simp_all
  have ok: "rv_ok (new_CRecvBuffer 6) (ring_holding ?bs)"
    using rv_ok_new [OF r] len by simp
  have view: "rv_view (new_CRecvBuffer 6) (ring_holding ?bs) = ?bs"
    using rv_view_new [OF r(2)] len by simp
  have b: "sb_ok ?b" "payload ?b = []" by (simp_all add: payload_def new_CSendBuffer_def sb_ok_def SEND_BUFFER_SIZE_def)
  show ?thesis
    using string_roundtrip [OF b(1) _ ok, of ?ws "[]" False] sb_push_String_new [of ?ws] view b(2)
    by (simp add: SEND_BUFFER_SIZE_def) blast
qed

text \<open>
  Reading a scalar beyond the packet's remaining bytes throws \<^verbatim>\<open>invalid_argument\<close> in a release build
  and breaks in a debug build, without touching the ring; within them it returns the next bytes of the
  packet and charges the budget.
\<close>

theorem pop_within_budget:
  assumes "rv_ok b r" and "n < 2 ^ 64"
  shows "if n \<le> nat (rv_CanPopSize b)
    then \<exists>b' r'. rv_pop dbg b r n = Inr (take n (rv_view b r), b', r') \<and> rv_ok b' r' \<and>
      rv_view b' r' = drop n (rv_view b r) \<and> content r' = drop n (content r)
    else rv_pop dbg b r n = Inl (if dbg then DebugBreak else InvalidArgument)"
proof (cases "n \<le> nat (rv_CanPopSize b)")
  case True
  then show ?thesis using rv_take_ok [OF assms(1) True] rv_pop_ok [OF assms(1) True, of dbg] by metis
next
  case False
  then show ?thesis using rv_pop_error [OF assms(1) _ assms(2), of dbg] by simp
qed

theorem pop_within_budget_witness:
  "rv_pop False (new_CRecvBuffer 2) (ring_holding [1, 2]) 4 = Inl InvalidArgument"
proof -
  have r: "ring_ok (ring_holding [1, 2])" "content (ring_holding [1, 2]) = [1, 2] @ []"
    using ring_holding_ok [of "[1, 2]"] by simp_all
  have ok: "rv_ok (new_CRecvBuffer 2) (ring_holding [1, 2])" using rv_ok_new [OF r] by simp
  have "rv_CanPopSize (new_CRecvBuffer 2) = 2" by (simp add: rv_CanPopSize_def new_CRecvBuffer_def)
  then show ?thesis using pop_within_budget [OF ok, of 4 False] by simp
qed

end
