(* ===== verification/Bounded_Queue.thy ===== *)
theory Bounded_Queue
  imports Prelude
begin

section \<open>The interface of the bounded queues\<close>

text \<open>
  The library has four fixed-size first-in first-out queues over a power-of-two array. Their common
  contract is the locale \<open>bounded_fifo\<close>: an abstraction to a list, an invariant, and what enqueue
  (with room) and dequeue do to it. A queue that also leaves its state alone when it refuses an
  element satisfies \<open>rejecting_fifo\<close>. The clients of the queues drain them in loops
  (\<^verbatim>\<open>Session::Reset\<close>, \<^verbatim>\<open>Session::RealSend\<close>, \<^verbatim>\<open>Group::HandleJob\<close>); the loops are written here once,
  over the operations of any queue, and their behaviour is proved from the contract alone.
\<close>

subsection \<open>Client loops\<close>

text \<open>Enqueue the elements of a list in order; stop at the first refusal.\<close>

fun enq_all :: "('a \<Rightarrow> 'q \<Rightarrow> (bool \<times> 'q) res) \<Rightarrow> 'a list \<Rightarrow> 'q \<Rightarrow> (bool \<times> 'q) res" where
  "enq_all enq [] q = Inr (True, q)"
| "enq_all enq (x # xs) q =
     bind_res (enq x q) (\<lambda>(ok, q'). if ok then enq_all enq xs q' else Inr (False, q'))"

text \<open>At most \<open>n\<close> dequeues; stop when the queue gives nothing.\<close>

fun drain :: "('q \<Rightarrow> ('a option \<times> 'q) res) \<Rightarrow> nat \<Rightarrow> 'q \<Rightarrow> ('a list \<times> 'q) res" where
  "drain deq 0 q = Inr ([], q)"
| "drain deq (Suc n) q =
     bind_res (deq q) (\<lambda>(x, q').
       case x of
         None \<Rightarrow> Inr ([], q')
       | Some a \<Rightarrow> bind_res (drain deq n q') (\<lambda>(as, q''). Inr (a # as, q'')))"

subsection \<open>The contract\<close>

locale bounded_fifo =
  fixes cap :: "'q \<Rightarrow> nat"
    and inv :: "'q \<Rightarrow> bool"
    and elems :: "'q \<Rightarrow> 'a list"
    and enq :: "'a \<Rightarrow> 'q \<Rightarrow> (bool \<times> 'q) res"
    and deq :: "'q \<Rightarrow> ('a option \<times> 'q) res"
  assumes elems_bound: "inv q \<Longrightarrow> length (elems q) \<le> cap q"
    and enq_room: "inv q \<Longrightarrow> length (elems q) < cap q \<Longrightarrow>
      \<exists>q'. enq x q = Inr (True, q') \<and> inv q' \<and> elems q' = elems q @ [x] \<and> cap q' = cap q"
    and deq_some: "inv q \<Longrightarrow> elems q = x # xs \<Longrightarrow>
      \<exists>q'. deq q = Inr (Some x, q') \<and> inv q' \<and> elems q' = xs \<and> cap q' = cap q"
    and deq_none: "inv q \<Longrightarrow> elems q = [] \<Longrightarrow> deq q = Inr (None, q)"
begin

lemma enq_all_room:
  assumes "inv q" and "length (elems q) + length xs \<le> cap q"
  shows "\<exists>q'. enq_all enq xs q = Inr (True, q') \<and> inv q' \<and> elems q' = elems q @ xs \<and> cap q' = cap q"
  using assms
proof (induction xs arbitrary: q)
  case Nil
  then show ?case by simp
next
  case (Cons x xs)
  then obtain q1 where "enq x q = Inr (True, q1)" "inv q1" "elems q1 = elems q @ [x]" "cap q1 = cap q"
    using enq_room [of q x] by auto
  with Cons.IH [of q1] Cons.prems show ?case by auto
qed

lemma drain_take:
  assumes "inv q"
  shows "\<exists>q'. drain deq n q = Inr (take n (elems q), q') \<and> inv q' \<and> elems q' = drop n (elems q)
    \<and> cap q' = cap q"
  using assms
proof (induction n arbitrary: q)
  case 0
  then show ?case by simp
next
  case (Suc n)
  show ?case
  proof (cases "elems q")
    case Nil
    then show ?thesis using Suc.prems deq_none [of q] by simp
  next
    case (Cons x xs)
    then obtain q1 where "deq q = Inr (Some x, q1)" "inv q1" "elems q1 = xs" "cap q1 = cap q"
      using deq_some [of q x xs] Suc.prems by auto
    with Suc.IH [of q1] Cons show ?thesis by auto
  qed
qed

lemma fifo_order:
  assumes "inv q" and "elems q = []" and "length xs \<le> cap q"
  shows "\<exists>q1 q2. enq_all enq xs q = Inr (True, q1) \<and> drain deq (length xs) q1 = Inr (xs, q2) \<and>
    inv q2 \<and> elems q2 = []"
proof -
  obtain q1 where q1: "enq_all enq xs q = Inr (True, q1)" "inv q1" "elems q1 = xs"
    using enq_all_room [of q xs] assms by auto
  then show ?thesis using drain_take [of q1 "length xs"] by auto
qed

end

locale rejecting_fifo = bounded_fifo +
  assumes enq_full: "inv q \<Longrightarrow> length (elems q) = cap q \<Longrightarrow> enq x q = Inr (False, q)"
begin

text \<open>A burst larger than the room stores its longest prefix that fits and reports the refusal.\<close>

lemma enq_all_overflow:
  assumes "inv q" and "cap q < length (elems q) + length xs"
  shows "\<exists>q'. enq_all enq xs q = Inr (False, q') \<and> inv q' \<and>
    elems q' = elems q @ take (cap q - length (elems q)) xs"
  using assms
proof (induction xs arbitrary: q)
  case Nil
  then show ?case using elems_bound [of q] by simp
next
  case (Cons x xs)
  show ?case
  proof (cases "length (elems q) = cap q")
    case True
    then show ?thesis using enq_full [of q x] Cons.prems by simp
  next
    case False
    then have room: "length (elems q) < cap q" using elems_bound [OF Cons.prems(1)] by simp
    then obtain q1 where q1: "enq x q = Inr (True, q1)" "inv q1" "elems q1 = elems q @ [x]" "cap q1 = cap q"
      using enq_room [OF Cons.prems(1)] by blast
    then show ?thesis using Cons.IH [of q1] Cons.prems room
      by (auto simp: take_Cons' Suc_diff_Suc)
  qed
qed

end

end
