(* ===== verification/Fixed_Queue.thy ===== *)
theory Fixed_Queue
  imports Bounded_Queue
begin

section \<open>LockFreeFixedQueue\<close>

text \<open>
  \<^verbatim>\<open>include/LockFreeFixedQueue.h\<close>: the queue behind a session's send queue (512 slots) and a group's job
  queue (8192 slots). Each slot has a used flag; the two counters only grow. The operations here are
  the calls run one at a time; \<open>DebugBreak\<close> is the branch in which the flag exchange finds the slot
  in the wrong state.
\<close>

subsection \<open>State and operations\<close>

record 'a LockFreeFixedQueue =
  fq_headIndex :: i32
  fq_tailIndex :: i32
  fq_indexMask :: i32
  fq_buffer :: "(bool \<times> 'a) list"

definition fq_new :: "nat \<Rightarrow> 'a \<Rightarrow> 'a LockFreeFixedQueue" where
  "fq_new n d = \<lparr>fq_headIndex = 0, fq_tailIndex = 0, fq_indexMask = of_nat n - 1,
                 fq_buffer = replicate n (False, d)\<rparr>"

definition fq_slot :: "'a LockFreeFixedQueue \<Rightarrow> i32 \<Rightarrow> nat" where
  "fq_slot q i = unat (i AND fq_indexMask q)"

definition fq_Size :: "'a LockFreeFixedQueue \<Rightarrow> int" where
  "fq_Size q = sint (fq_tailIndex q - fq_headIndex q)"

definition fq_Enqueue :: "'a \<Rightarrow> 'a LockFreeFixedQueue \<Rightarrow> (bool \<times> 'a LockFreeFixedQueue) res" where
  "fq_Enqueue x q =
     (let tail = fq_tailIndex q; k = fq_slot q tail; q1 = q\<lparr>fq_tailIndex := tail + 1\<rparr>
      in if fst (fq_buffer q1 ! k) then Inr (False, q1)
         else
           (let q2 = q1\<lparr>fq_buffer := (fq_buffer q1)[k := (fst (fq_buffer q1 ! k), x)]\<rparr>;
                old = fst (fq_buffer q2 ! k);
                q3 = q2\<lparr>fq_buffer := (fq_buffer q2)[k := (True, snd (fq_buffer q2 ! k))]\<rparr>
            in if old then Inl DebugBreak else Inr (True, q3)))"

definition fq_Dequeue :: "'a LockFreeFixedQueue \<Rightarrow> ('a option \<times> 'a LockFreeFixedQueue) res" where
  "fq_Dequeue q =
     (let head = fq_headIndex q; k = fq_slot q head
      in if \<not> fst (fq_buffer q ! k) then Inr (None, q)
         else
           (let q1 = q\<lparr>fq_headIndex := head + 1\<rparr>;
                x = snd (fq_buffer q1 ! k);
                old = fst (fq_buffer q1 ! k);
                q2 = q1\<lparr>fq_buffer := (fq_buffer q1)[k := (False, x)]\<rparr>
            in if \<not> old then Inl DebugBreak else Inr (Some x, q2)))"

subsection \<open>Invariant and abstraction\<close>

text \<open>\<open>fq_count\<close> is the distance of the counters, \<open>fq_round\<close> the array read from the head on.\<close>

definition fq_cap :: "'a LockFreeFixedQueue \<Rightarrow> nat" where
  "fq_cap q = length (fq_buffer q)"

definition fq_count :: "'a LockFreeFixedQueue \<Rightarrow> nat" where
  "fq_count q = unat (fq_tailIndex q - fq_headIndex q)"

definition fq_round :: "'a LockFreeFixedQueue \<Rightarrow> (bool \<times> 'a) list" where
  "fq_round q = rotate (fq_slot q (fq_headIndex q)) (fq_buffer q)"

definition fq_wf :: "'a LockFreeFixedQueue \<Rightarrow> bool" where
  "fq_wf q \<longleftrightarrow> pow2 (fq_cap q) \<and> fq_indexMask q = of_nat (fq_cap q) - 1"

definition fq_ok :: "'a LockFreeFixedQueue \<Rightarrow> bool" where
  "fq_ok q \<longleftrightarrow> fq_wf q \<and> fq_count q \<le> fq_cap q \<and>
     list_all fst (take (fq_count q) (fq_round q)) \<and>
     list_all (\<lambda>s. \<not> fst s) (drop (fq_count q) (fq_round q))"

definition fq_elems :: "'a LockFreeFixedQueue \<Rightarrow> 'a list" where
  "fq_elems q = map snd (take (fq_count q) (fq_round q))"

subsection \<open>Slots\<close>

lemma fq_slot_masked: "fq_wf q \<Longrightarrow> fq_slot q i = masked i (fq_cap q)"
  by (simp add: fq_slot_def fq_wf_def masked_def)

lemma fq_slot_less: "fq_wf q \<Longrightarrow> fq_slot q i < fq_cap q"
  by (simp add: fq_slot_masked masked_less fq_wf_def)

lemma fq_slot_add: "fq_wf q \<Longrightarrow> fq_slot q (i + of_nat j) = (fq_slot q i + j) mod fq_cap q"
  by (simp add: fq_slot_masked masked_add fq_wf_def)

lemma fq_tail_count: "fq_tailIndex q = fq_headIndex q + of_nat (fq_count q)"
  by (simp add: fq_count_def)

lemma fq_slot_tail: "fq_wf q \<Longrightarrow> fq_slot q (fq_tailIndex q) = (fq_slot q (fq_headIndex q) + fq_count q) mod fq_cap q"
  by (subst fq_tail_count) (rule fq_slot_add)

lemma length_fq_round [simp]: "length (fq_round q) = fq_cap q"
  by (simp add: fq_round_def fq_cap_def)

lemma fq_round_nth:
  "j < fq_cap q \<Longrightarrow> fq_buffer q ! ((fq_slot q (fq_headIndex q) + j) mod fq_cap q) = fq_round q ! j"
  by (simp add: fq_round_def fq_cap_def rotate_nth_offset)

lemma fq_round_update:
  "j < fq_cap q \<Longrightarrow>
   rotate (fq_slot q (fq_headIndex q)) ((fq_buffer q)[(fq_slot q (fq_headIndex q) + j) mod fq_cap q := v])
     = (fq_round q)[j := v]"
  by (simp add: fq_round_def fq_cap_def rotate_update)

lemma fq_count_Suc:
  assumes "fq_count q < 2 ^ 32 - 1"
  shows "unat (fq_tailIndex q + 1 - fq_headIndex q) = Suc (fq_count q)"
proof -
  have "fq_tailIndex q + 1 - fq_headIndex q = (fq_tailIndex q - fq_headIndex q) + 1" by simp
  then show ?thesis using assms by (simp only: fq_count_def) (simp add: unat_word_ariths)
qed

lemma fq_ok_new: "pow2 n \<Longrightarrow> fq_ok (fq_new n d) \<and> fq_elems (fq_new n d) = [] \<and> fq_cap (fq_new n d) = n"
  by (auto simp: fq_ok_def fq_wf_def fq_new_def fq_cap_def fq_count_def fq_round_def fq_elems_def
      list_all_iff)

lemma fq_cap_small: "fq_ok q \<Longrightarrow> fq_count q \<le> fq_cap q \<and> fq_cap q < 2 ^ 31"
  using pow2_less by (auto simp: fq_ok_def fq_wf_def)

lemma length_fq_elems: "fq_ok q \<Longrightarrow> length (fq_elems q) = fq_count q"
  by (simp add: fq_elems_def fq_ok_def)

lemma fq_Size_elems: "fq_ok q \<Longrightarrow> fq_Size q = int (length (fq_elems q))"
proof -
  assume ok: "fq_ok q"
  let ?d = "fq_tailIndex q - fq_headIndex q"
  have "unat ?d < 2 ^ 31" using fq_cap_small [OF ok] by (simp add: fq_count_def)
  then have "sint ?d = int (unat ?d)" by (rule sint_i32_nonneg)
  then show ?thesis using length_fq_elems [OF ok] by (simp add: fq_Size_def fq_count_def)
qed

subsection \<open>The operations against the contract\<close>

lemma fq_Enqueue_room:
  assumes ok: "fq_ok q" and room: "length (fq_elems q) < fq_cap q"
  shows "\<exists>q'. fq_Enqueue x q = Inr (True, q') \<and> fq_ok q' \<and> fq_elems q' = fq_elems q @ [x] \<and>
    fq_cap q' = fq_cap q"
proof -
  let ?h = "fq_slot q (fq_headIndex q)" and ?n = "fq_count q" and ?k = "fq_slot q (fq_tailIndex q)"
  have wf: "fq_wf q" using ok by (simp add: fq_ok_def)
  have n: "?n < fq_cap q" using room length_fq_elems [OF ok] by simp
  have k: "?k = (?h + ?n) mod fq_cap q" by (rule fq_slot_tail [OF wf])
  have klen: "?k < length (fq_buffer q)"
    using fq_slot_less [OF wf, of "fq_tailIndex q"] by (simp only: fq_cap_def)
  have slot: "fq_buffer q ! ?k = fq_round q ! ?n" using n k by (simp add: fq_round_nth)
  have "drop ?n (fq_round q) = fq_round q ! ?n # drop (Suc ?n) (fq_round q)"
    using n by (simp add: Cons_nth_drop_Suc)
  then have free: "\<not> fst (fq_round q ! ?n)" "list_all (\<lambda>s. \<not> fst s) (drop (Suc ?n) (fq_round q))"
    using ok by (simp_all add: fq_ok_def)
  let ?q' = "q\<lparr>fq_tailIndex := fq_tailIndex q + 1, fq_buffer := (fq_buffer q)[?k := (True, x)]\<rparr>"
  have enq: "fq_Enqueue x q = Inr (True, ?q')"
    using free slot klen by (simp add: fq_Enqueue_def Let_def fq_slot_def)
  have cap: "fq_cap ?q' = fq_cap q" by (simp add: fq_cap_def)
  have cnt: "fq_count ?q' = Suc ?n"
    using fq_count_Suc [of q] fq_cap_small [OF ok] n by (simp add: fq_count_def)
  have rnd: "fq_round ?q' = (fq_round q)[?n := (True, x)]"
    using fq_round_update [OF n, of "(True, x)"] k by (simp add: fq_round_def fq_slot_def)
  have tk: "take (Suc ?n) (fq_round ?q') = take ?n (fq_round q) @ [(True, x)]"
    using n by (simp add: rnd take_Suc_conv_app_nth)
  have "fq_ok ?q'"
    using ok cap cnt n tk free(2) by (simp add: fq_ok_def fq_wf_def rnd)
  moreover have "fq_elems ?q' = fq_elems q @ [x]"
    using cnt tk by (simp add: fq_elems_def)
  ultimately show ?thesis using enq cap by blast
qed

lemma fq_Dequeue_none:
  assumes ok: "fq_ok q" and "fq_elems q = []"
  shows "fq_Dequeue q = Inr (None, q)"
proof -
  have wf: "fq_wf q" using ok by (simp add: fq_ok_def)
  have z: "fq_count q = 0" using assms length_fq_elems [OF ok] by simp
  have c: "0 < fq_cap q" using wf pow2_pos by (auto simp: fq_wf_def)
  have "fq_buffer q ! fq_slot q (fq_headIndex q) = fq_round q ! 0"
    using fq_round_nth [OF c] fq_slot_less [OF wf, of "fq_headIndex q"] by simp
  moreover have "\<not> fst (fq_round q ! 0)"
    using ok z c by (simp add: fq_ok_def list_all_length)
  ultimately show ?thesis by (simp add: fq_Dequeue_def Let_def)
qed

lemma fq_Dequeue_some:
  assumes ok: "fq_ok q" and el: "fq_elems q = x # xs"
  shows "\<exists>q'. fq_Dequeue q = Inr (Some x, q') \<and> fq_ok q' \<and> fq_elems q' = xs \<and> fq_cap q' = fq_cap q"
proof -
  let ?h = "fq_slot q (fq_headIndex q)" and ?n = "fq_count q"
  have wf: "fq_wf q" using ok by (simp add: fq_ok_def)
  have c: "0 < fq_cap q" using wf pow2_pos by (auto simp: fq_wf_def)
  have hl: "?h < length (fq_buffer q)" using fq_slot_less [OF wf] by (simp add: fq_cap_def)
  obtain m where n: "?n = Suc m" using el length_fq_elems [OF ok] by (cases ?n) simp_all
  obtain R where rnd: "fq_round q = (True, x) # R"
    using ok el n c by (cases "fq_round q") (auto simp: fq_ok_def fq_elems_def)
  have slot: "fq_buffer q ! ?h = (True, x)"
    using fq_round_nth [OF c] rnd fq_slot_less [OF wf, of "fq_headIndex q"] by simp
  let ?q' = "q\<lparr>fq_headIndex := fq_headIndex q + 1, fq_buffer := (fq_buffer q)[?h := (False, x)]\<rparr>"
  have deq: "fq_Dequeue q = Inr (Some x, ?q')" using slot by (simp add: fq_Dequeue_def Let_def)
  have cap: "fq_cap ?q' = fq_cap q" by (simp add: fq_cap_def)
  have "?h = (?h + 0) mod fq_cap q" using fq_slot_less [OF wf] by simp
  then have r1: "rotate ?h (fq_buffer ?q') = (False, x) # R"
    using fq_round_update [OF c, of "(False, x)"] rnd by simp
  have "fq_slot ?q' (fq_headIndex ?q') = Suc ?h mod fq_cap q"
    using fq_slot_add [OF wf, of "fq_headIndex q" 1] by (simp add: fq_slot_def)
  then have rnd': "fq_round ?q' = R @ [(False, x)]"
    using rotate_next [of "fq_buffer ?q'" ?h] r1 c by (auto simp: fq_round_def fq_cap_def)
  have "fq_tailIndex q - (fq_headIndex q + 1) = of_nat m"
    using n by (simp add: fq_tail_count [of q])
  moreover have m: "m < 2 ^ 31" using fq_cap_small [OF ok] n by simp
  ultimately have cnt: "fq_count ?q' = m" by (simp add: fq_count_def unat_of_nat)
  have lr: "length R = fq_cap q - 1" using length_fq_round [of q] rnd by simp
  have mr: "m \<le> length R" using n fq_cap_small [OF ok] lr by linarith
  have "fq_ok ?q'"
    using ok cap cnt rnd rnd' n mr by (auto simp: fq_ok_def fq_wf_def)
  moreover have "fq_elems ?q' = xs"
    using el cnt rnd rnd' n mr by (simp add: fq_elems_def)
  ultimately show ?thesis using deq cap by blast
qed

interpretation lffq: bounded_fifo fq_cap fq_ok fq_elems fq_Enqueue fq_Dequeue
proof unfold_locales
  show "fq_ok q \<Longrightarrow> length (fq_elems q) \<le> fq_cap q" for q :: "'a LockFreeFixedQueue"
    by (simp add: length_fq_elems fq_cap_small)
qed (rule fq_Enqueue_room fq_Dequeue_some fq_Dequeue_none; assumption)+

subsection \<open>A refused enqueue\<close>

text \<open>
  \<^verbatim>\<open>Enqueue\<close> takes its ticket with \<^verbatim>\<open>fetch_add\<close> before it looks at the slot and does not give the
  ticket back when the slot is in use. \<open>shift_tail\<close> is the tail that remains.
\<close>

definition shift_tail :: "i32 \<Rightarrow> 'a LockFreeFixedQueue \<Rightarrow> 'a LockFreeFixedQueue" where
  "shift_tail d q = q\<lparr>fq_tailIndex := fq_tailIndex q + d\<rparr>"

lemma fq_Dequeue_shift:
  "fq_Dequeue q = Inr (r, q') \<Longrightarrow> fq_Dequeue (shift_tail d q) = Inr (r, shift_tail d q')"
  by (auto simp: fq_Dequeue_def Let_def shift_tail_def fq_slot_def split: if_splits)

lemma drain_shift:
  "drain fq_Dequeue n q = Inr (xs, q') \<Longrightarrow> drain fq_Dequeue n (shift_tail d q) = Inr (xs, shift_tail d q')"
proof (induction n arbitrary: q xs)
  case 0
  then show ?case by simp
next
  case (Suc n)
  then obtain r q1 where "fq_Dequeue q = Inr (r, q1)" by (auto elim!: bind_res_InrE)
  then show ?case using Suc fq_Dequeue_shift by (cases r) (fastforce elim!: bind_res_InrE)+
qed

lemma fq_Enqueue_full:
  assumes ok: "fq_ok q" and full: "length (fq_elems q) = fq_cap q"
  shows "fq_Enqueue x q = Inr (False, shift_tail 1 q)"
proof -
  have wf: "fq_wf q" using ok by (simp add: fq_ok_def)
  have n: "fq_count q = fq_cap q" using full length_fq_elems [OF ok] by simp
  have c: "0 < fq_cap q" using wf pow2_pos by (auto simp: fq_wf_def)
  have "fq_buffer q ! fq_slot q (fq_tailIndex q) = fq_round q ! 0"
    using fq_round_nth [OF c] fq_slot_tail [OF wf] n by simp
  moreover have "fst (fq_round q ! 0)" using ok n c by (simp add: fq_ok_def list_all_length)
  ultimately show ?thesis by (simp add: fq_Enqueue_def Let_def fq_slot_def shift_tail_def)
qed

lemma fq_empty_shift:
  assumes ok: "fq_ok q" and empty: "fq_elems q = []" and cap: "1 < fq_cap q"
  shows "fq_Size (shift_tail 1 q) = 1"
    and "fq_Dequeue (shift_tail 1 q) = Inr (None, shift_tail 1 q)"
    and "\<exists>q'. fq_Enqueue y (shift_tail 1 q) = Inr (True, q') \<and> fq_Dequeue q' = Inr (None, q')"
proof -
  let ?h = "fq_slot q (fq_headIndex q)"
  have wf: "fq_wf q" using ok by (simp add: fq_ok_def)
  have z: "fq_count q = 0" using empty length_fq_elems [OF ok] by simp
  then have t: "fq_tailIndex q = fq_headIndex q" using fq_tail_count [of q] by simp
  then show "fq_Size (shift_tail 1 q) = 1" by (simp add: fq_Size_def shift_tail_def)
  show "fq_Dequeue (shift_tail 1 q) = Inr (None, shift_tail 1 q)"
    using fq_Dequeue_none [OF ok empty] by (rule fq_Dequeue_shift)
  let ?k = "fq_slot q (fq_headIndex q + 1)"
  have k: "?k = (?h + 1) mod fq_cap q" using fq_slot_add [OF wf, of _ 1] by simp
  have h: "?h < fq_cap q" by (rule fq_slot_less [OF wf])
  have kl: "?k < length (fq_buffer q)" using fq_slot_less [OF wf] by (simp only: fq_cap_def)
  have kh: "?k \<noteq> ?h" using k h cap by (auto simp: mod_if split: if_splits)
  have free: "\<not> fst (fq_round q ! j)" if "j < fq_cap q" for j
    using ok z that by (simp add: fq_ok_def list_all_length)
  have "\<not> fst (fq_buffer q ! ?k)" using free [of 1] fq_round_nth [of 1 q] k cap by simp
  moreover have "\<not> fst (fq_buffer q ! ?h)"
    using free [of 0] fq_round_nth [of 0 q] h cap by simp
  ultimately show "\<exists>q'. fq_Enqueue y (shift_tail 1 q) = Inr (True, q') \<and> fq_Dequeue q' = Inr (None, q')"
    using t kl kh by (auto simp: fq_Enqueue_def fq_Dequeue_def Let_def shift_tail_def fq_slot_def)
qed

lemma fq_full_then_stuck:
  assumes ok: "fq_ok q" and full: "length (fq_elems q) = fq_cap q" and cap: "1 < fq_cap q"
  shows "\<exists>q1 q2 q3. fq_Enqueue x q = Inr (False, q1) \<and> drain fq_Dequeue (fq_cap q) q1 = Inr (fq_elems q, q2) \<and>
    fq_Size q2 = 1 \<and> fq_Dequeue q2 = Inr (None, q2) \<and>
    fq_Enqueue y q2 = Inr (True, q3) \<and> fq_Dequeue q3 = Inr (None, q3)"
proof -
  obtain q0 where q0: "drain fq_Dequeue (fq_cap q) q = Inr (fq_elems q, q0)" "fq_ok q0" "fq_elems q0 = []"
    "fq_cap q0 = fq_cap q"
    using lffq.drain_take [OF ok, of "fq_cap q"] full by auto
  then show ?thesis
    using fq_Enqueue_full [OF ok full] drain_shift [OF q0(1)] fq_empty_shift [of q0] cap by metis
qed

subsection \<open>Properties\<close>

text \<open>
  FIFO order of the lock-free queue: as long as no enqueue finds the queue full, what was enqueued
  into an empty queue comes out in the same order, once each, at every position of the counters and
  across their wrap-around.
\<close>

theorem lockfree_queue_fifo:
  assumes "fq_ok q" and "fq_elems q = []" and "length xs \<le> fq_cap q"
  shows "\<exists>q1 q2. enq_all fq_Enqueue xs q = Inr (True, q1) \<and> fq_Size q1 = int (length xs) \<and>
    drain fq_Dequeue (length xs) q1 = Inr (xs, q2) \<and> fq_ok q2 \<and> fq_elems q2 = []"
proof -
  obtain q1 where q1: "enq_all fq_Enqueue xs q = Inr (True, q1)" "fq_ok q1" "fq_elems q1 = xs"
    using lffq.enq_all_room [of q xs] assms by auto
  then show ?thesis using lffq.drain_take [of q1 "length xs"] fq_Size_elems [OF q1(2)] by auto
qed

theorem lockfree_queue_fifo_witness:
  "\<exists>q1 q2. enq_all fq_Enqueue [1, 2, 3] (fq_new 4 (0 :: nat)) = Inr (True, q1) \<and>
    drain fq_Dequeue 3 q1 = Inr ([1, 2, 3], q2)"
proof -
  have "pow2 4" by (auto simp: pow2_def intro: bexI [of _ 2])
  then show ?thesis
    using lockfree_queue_fifo [of "fq_new 4 (0 :: nat)" "[1, 2, 3]"] fq_ok_new [of 4 "0 :: nat"]
    by (simp add: numeral_3_eq_3 del: enq_all.simps drain.simps) blast
qed

text \<open>
  C28. After one refused enqueue the lock-free queue is out of step for good: drained of everything it
  held it still reports one element, a dequeue finds nothing, and an element accepted next is not found
  either. \<^verbatim>\<open>Session::Reset\<close> drains and keeps the counters, so the next connection of the slot inherits
  this, and \<^verbatim>\<open>Session::RealSend\<close> spins in \<^verbatim>\<open>while (sendPackets == 0)\<close>.
\<close>

theorem refused_enqueue_desynchronises:
  assumes "fq_ok q" and "length (fq_elems q) = fq_cap q" and "1 < fq_cap q"
  shows "\<exists>q1 q2 q3. fq_Enqueue x q = Inr (False, q1) \<and> drain fq_Dequeue (fq_cap q) q1 = Inr (fq_elems q, q2) \<and>
    fq_Size q2 = 1 \<and> fq_Dequeue q2 = Inr (None, q2) \<and>
    fq_Enqueue y q2 = Inr (True, q3) \<and> fq_Dequeue q3 = Inr (None, q3)"
  using assms by (rule fq_full_then_stuck)

theorem refused_enqueue_desynchronises_witness:
  "\<exists>q q1 q2. enq_all fq_Enqueue [1, 2] (fq_new 2 (0 :: nat)) = Inr (True, q) \<and>
    fq_Enqueue 3 q = Inr (False, q1) \<and> drain fq_Dequeue 2 q1 = Inr ([1, 2], q2) \<and> fq_Size q2 = 1"
proof -
  have "pow2 2" by (auto simp: pow2_def intro: bexI [of _ 1])
  then obtain q where q: "enq_all fq_Enqueue [1, 2] (fq_new 2 (0 :: nat)) = Inr (True, q)" "fq_ok q"
    "fq_elems q = [1, 2]" "fq_cap q = 2"
    using lffq.enq_all_room [of "fq_new 2 (0 :: nat)" "[1, 2]"] fq_ok_new [of 2 "0 :: nat"]
    by (auto simp del: enq_all.simps)
  then show ?thesis
    using refused_enqueue_desynchronises [of q 3 4] by (simp del: enq_all.simps drain.simps) metis
qed

end
