(* ===== verification/Session.thy ===== *)
theory Session
  imports Recv_Buffer Fixed_Queue
begin

section \<open>Session\<close>

text \<open>
  The state of one connection slot (\<^verbatim>\<open>include/Session.h\<close>, \<^verbatim>\<open>src/Session.cpp\<close>,
  \<^verbatim>\<open>include/SessionTypes.h\<close>, \<^verbatim>\<open>include/Socket.h\<close>) and the operations that touch only that state. The
  operations that call the owner (\<^verbatim>\<open>Release\<close>, \<^verbatim>\<open>RecvNotIncrease\<close>, \<^verbatim>\<open>RealSend\<close>, \<^verbatim>\<open>PostRelease\<close>) are in
  theory \<open>Iocp\<close>, built from the pieces here. Send buffers are addresses (\<^typ>\<open>nat\<close>) of a heap the caller
  owns. Fields of the two overlapped objects a session owns (\<^verbatim>\<open>RecvExecutable\<close>, \<^verbatim>\<open>PostSendExecutable\<close>)
  are fields of the record.
\<close>

subsection \<open>Identifiers\<close>

text \<open>
  \<^verbatim>\<open>SessionID\<close> is a 64-bit number whose top 16 bits are the slot index (the union of the class).
\<close>

type_synonym SessionID = u64
type_synonym GroupID = i32
type_synonym addr = nat

definition id_index :: "SessionID \<Rightarrow> nat" where
  "id_index i = unat (drop_bit 48 i)"

text \<open>\<^verbatim>\<open>sessionID.id = n; sessionID.index = index;\<close>\<close>

definition make_SessionID :: "u64 \<Rightarrow> u16 \<Rightarrow> SessionID" where
  "make_SessionID n index = (n AND mask 48) OR push_bit 48 (ucast index)"

definition InvalidSessionID :: SessionID where
  "InvalidSessionID = - 1"

lemma id_index_make: "id_index (make_SessionID n index) = unat index"
proof -
  have "drop_bit 48 (make_SessionID n index) = ucast index"
    by (rule bit_word_eqI) (auto simp: make_SessionID_def bit_simps dest: bit_imp_le_length)
  moreover have "unat (ucast index :: u64) = unat index mod 2 ^ 64"
    by (simp add: unsigned_ucast_eq take_bit_eq_mod)
  moreover have "unat index < 2 ^ 64" using unsigned_less [of index] by (rule order_less_le_trans) simp
  ultimately show ?thesis by (simp add: id_index_def)
qed

lemma make_SessionID_inject:
  assumes "make_SessionID m i = make_SessionID n j"
  shows "i = j" and "m AND mask 48 = n AND mask 48"
proof -
  show "i = j" using assms id_index_make by (metis word_unat_eq_iff)
  have "make_SessionID k l AND mask 48 = k AND mask 48" for k l
    by (rule bit_word_eqI) (auto simp: make_SessionID_def bit_simps)
  then show "m AND mask 48 = n AND mask 48" using assms by metis
qed

subsection \<open>State\<close>

definition RELEASE_FLAG :: i32 where
  "RELEASE_FLAG = 0x00100000"

definition MAX_SEND_COUNT :: nat where
  "MAX_SEND_COUNT = 512"

type_synonym SOCKET = u64

definition INVALID_SOCKET :: SOCKET where
  "INVALID_SOCKET = - 1"

record Session =
  ss_sessionId :: SessionID
  ss_socket :: SOCKET
  ss_beforeSocket :: SOCKET
  ss_groupId :: GroupID
  ss_refCount :: i32
  ss_errCode :: int
  ss_connect :: bool
  ss_sendQ :: "addr LockFreeFixedQueue"
  ss_sendingQ :: "addr option list"
  ss_isSending :: bool
  ss_needCheckSendTimeout :: bool
  ss_defaultTimeout :: int
  ss_timeout :: int
  ss_recvQ :: CRingBuffer
  ss_lastRecv :: int
  ss_staticKey :: u8
  ss_maxPacketLen :: u32
  ss_isHandled :: bool
  ss_recvBufSize :: "nat \<times> nat"
  ss_isPending :: bool
  ss_lastSend :: int
  ss_dataNotSend :: nat

definition new_Session :: Session where
  "new_Session =
     \<lparr>ss_sessionId = 0, ss_socket = INVALID_SOCKET, ss_beforeSocket = INVALID_SOCKET, ss_groupId = 0,
      ss_refCount = RELEASE_FLAG, ss_errCode = - 1, ss_connect = False, ss_sendQ = fq_new MAX_SEND_COUNT 0,
      ss_sendingQ = replicate MAX_SEND_COUNT None, ss_isSending = False, ss_needCheckSendTimeout = False,
      ss_defaultTimeout = 5000, ss_timeout = 5000, ss_recvQ = new_CRingBuffer, ss_lastRecv = 0,
      ss_staticKey = 0, ss_maxPacketLen = 5000, ss_isHandled = False, ss_recvBufSize = (0, 0),
      ss_isPending = False, ss_lastSend = 0, ss_dataNotSend = 0\<rparr>"

subsection \<open>Reference count\<close>

definition ss_IncreaseRef :: "Session \<Rightarrow> i32 \<times> Session" where
  "ss_IncreaseRef s = (ss_refCount s + 1, s\<lparr>ss_refCount := ss_refCount s + 1\<rparr>)"

text \<open>
  The counting part of \<^verbatim>\<open>Release\<close>: the decrement, and when it reaches zero the exchange that sets the
  flag. The result says whether this call is the one that releases the session.
\<close>

definition ss_ReleaseCount :: "Session \<Rightarrow> bool \<times> Session" where
  "ss_ReleaseCount s =
     (let s1 = s\<lparr>ss_refCount := ss_refCount s - 1\<rparr>
      in if ss_refCount s1 = 0 then (True, s1\<lparr>ss_refCount := RELEASE_FLAG\<rparr>) else (False, s1))"

definition ss_OffReleaseFlag :: "Session \<Rightarrow> Session" where
  "ss_OffReleaseFlag s = s\<lparr>ss_refCount := ss_refCount s AND NOT (push_bit 20 1)\<rparr>"

text \<open>The test \<^verbatim>\<open>_refCount >= RELEASE_FLAG\<close> on signed numbers.\<close>

definition ss_released :: "Session \<Rightarrow> bool" where
  "ss_released s \<longleftrightarrow> sint (ss_refCount s) \<ge> sint RELEASE_FLAG"

definition ss_GetRefCount :: "bool \<Rightarrow> Session \<Rightarrow> SessionID \<Rightarrow> i32 res" where
  "ss_GetRefCount dbg s i = bind_res (ASSERT_CRASH dbg (ss_sessionId s = i)) (\<lambda>_. Inr (ss_refCount s))"

subsection \<open>Setters\<close>

definition ss_SetSocket :: "SOCKET \<Rightarrow> Session \<Rightarrow> Session" where
  "ss_SetSocket k s = s\<lparr>ss_socket := k\<rparr>"

definition ss_SetSessionId :: "SessionID \<Rightarrow> Session \<Rightarrow> Session" where
  "ss_SetSessionId i s = s\<lparr>ss_sessionId := i\<rparr>"

definition ss_SetErr :: "int \<Rightarrow> Session \<Rightarrow> Session" where
  "ss_SetErr e s = s\<lparr>ss_errCode := e\<rparr>"

definition ss_SetNetSession :: "u8 \<Rightarrow> Session \<Rightarrow> Session" where
  "ss_SetNetSession key s = s\<lparr>ss_staticKey := key\<rparr>"

definition ss_SetLanSession :: "Session \<Rightarrow> Session" where
  "ss_SetLanSession s = ss_SetNetSession 0 s"

definition ss_SetMaxPacketLen :: "u32 \<Rightarrow> Session \<Rightarrow> Session" where
  "ss_SetMaxPacketLen n s = s\<lparr>ss_maxPacketLen := n\<rparr>"

definition ss_SetConnect :: "Session \<Rightarrow> Session" where
  "ss_SetConnect s = s\<lparr>ss_connect := True\<rparr>"

definition ss_SetGroupID :: "GroupID \<Rightarrow> Session \<Rightarrow> Session" where
  "ss_SetGroupID g s = s\<lparr>ss_groupId := g\<rparr>"

definition ss_setRecvHandled :: "bool \<Rightarrow> Session \<Rightarrow> Session" where
  "ss_setRecvHandled v s = s\<lparr>ss_isHandled := v\<rparr>"

definition ss_SetDefaultTimeout :: "int \<Rightarrow> Session \<Rightarrow> Session" where
  "ss_SetDefaultTimeout t s = s\<lparr>ss_defaultTimeout := t\<rparr>"

definition ss_SetTimeout :: "int \<Rightarrow> Session \<Rightarrow> Session" where
  "ss_SetTimeout t s = s\<lparr>ss_timeout := t\<rparr>"

definition ss_ResetTimeoutWait :: "int \<Rightarrow> Session \<Rightarrow> Session" where
  "ss_ResetTimeoutWait now s = s\<lparr>ss_lastRecv := now, ss_lastSend := now\<rparr>"

text \<open>\<^verbatim>\<open>Socket::Close\<close>: the handle is remembered and invalidated before it is closed.\<close>

definition ss_CloseSocket :: "Session \<Rightarrow> Session" where
  "ss_CloseSocket s = s\<lparr>ss_beforeSocket := ss_socket s, ss_socket := INVALID_SOCKET\<rparr>"

subsection \<open>Sending\<close>

definition ss_EnqueueSendData :: "addr \<Rightarrow> Session \<Rightarrow> (bool \<times> Session) res" where
  "ss_EnqueueSendData buffer s =
     bind_res (fq_Enqueue buffer (ss_sendQ s)) (\<lambda>(ok, q). Inr (ok, s\<lparr>ss_sendQ := q\<rparr>))"

text \<open>
  \<^verbatim>\<open>CanSend\<close> claims the right to send. Its loop repeats only when the queue was emptied between the two
  size checks; run alone it ends in the first round, so two rounds of fuel are enough.
\<close>

fun CanSend_loop :: "nat \<Rightarrow> Session \<Rightarrow> (bool \<times> Session) res" where
  "CanSend_loop 0 s = Inl OutOfFuel"
| "CanSend_loop (Suc n) s =
     (if ss_released s then Inr (False, s)
      else if fq_Size (ss_sendQ s) = 0 then Inr (False, s)
      else
        (let old = ss_isSending s; s1 = s\<lparr>ss_isSending := True\<rparr>
         in if old then Inr (False, s1)
            else if fq_Size (ss_sendQ s1) = 0 then CanSend_loop n (s1\<lparr>ss_isSending := False\<rparr>)
            else Inr (True, s1)))"

definition ss_CanSend :: "Session \<Rightarrow> (bool \<times> Session) res" where
  "ss_CanSend s = (if \<not> ss_connect s then Inr (False, s) else CanSend_loop 2 s)"

subsection \<open>Timeouts\<close>

datatype IOtype = recv_io | send_io

record timeoutInfo =
  ti_type :: IOtype
  ti_waitTime :: int
  ti_timeoutTime :: int

text \<open>\<^verbatim>\<open>duration_cast<milliseconds>\<close> of a duration in nanoseconds truncates towards zero.\<close>

definition duration_ms :: "int \<Rightarrow> int" where
  "duration_ms d = (if d \<ge> 0 then d div 1000000 else - ((- d) div 1000000))"

text \<open>The decision of \<^verbatim>\<open>CheckTimeout\<close> while it holds its reference.\<close>

definition ss_timeoutOf :: "int \<Rightarrow> Session \<Rightarrow> timeoutInfo option" where
  "ss_timeoutOf now s =
     (let recvWait = duration_ms (now - ss_lastRecv s); sendWait = duration_ms (now - ss_lastSend s)
      in if ss_needCheckSendTimeout s \<and> sendWait > ss_timeout s
         then Some \<lparr>ti_type = send_io, ti_waitTime = sendWait, ti_timeoutTime = ss_timeout s\<rparr>
         else if recvWait > ss_timeout s
         then Some \<lparr>ti_type = recv_io, ti_waitTime = recvWait, ti_timeoutTime = ss_timeout s\<rparr>
         else None)"

subsection \<open>Facts\<close>

lemma CanSend_result:
  "ss_CanSend s = Inr (ss_connect s \<and> \<not> ss_released s \<and> fq_Size (ss_sendQ s) \<noteq> 0 \<and> \<not> ss_isSending s,
     if ss_connect s \<and> \<not> ss_released s \<and> fq_Size (ss_sendQ s) \<noteq> 0 then s\<lparr>ss_isSending := True\<rparr> else s)"
  by (simp add: ss_CanSend_def numeral_2_eq_2 Let_def)

lemma sint_RELEASE_FLAG [simp]: "sint RELEASE_FLAG = 1048576"
  by (simp add: RELEASE_FLAG_def)

lemma ReleaseCount_last: "ss_refCount s = 1 \<Longrightarrow> ss_ReleaseCount s = (True, s\<lparr>ss_refCount := RELEASE_FLAG\<rparr>)"
  by (simp add: ss_ReleaseCount_def)

lemma ReleaseCount_more: "ss_refCount s \<noteq> 1 \<Longrightarrow> ss_ReleaseCount s = (False, s\<lparr>ss_refCount := ss_refCount s - 1\<rparr>)"
  by (simp add: ss_ReleaseCount_def)

end
