(* ===== verification/System.thy ===== *)
theory System
  imports Session
begin

section \<open>The state of the server and its environment\<close>

text \<open>
  One record \<open>sys\<close> holds what the members of \<^verbatim>\<open>NormalIOCP\<close>, \<^verbatim>\<open>GroupManager\<close> and the groups hold:
  the session slots, the free slot indices, the completion port queue, the send buffers, the groups and
  the counters. The record \<open>env\<close> is everything the sources only call: Winsock and the clock, whose
  answers are streams indexed by the number of the call, and the virtual functions the application
  overrides. A call that waits for the operating system to finish an I/O ends there; the completion
  comes back through \<^verbatim>\<open>WorkerThread\<close>.
\<close>

subsection \<open>Jobs, completions and what can be observed\<close>

datatype job_type = Job_Recv | Job_Enter | Job_Move | Job_Leave

record GroupJob =
  gj_type :: job_type
  gj_sessionId :: SessionID
  gj_errCode :: int
  gj_dst :: GroupID
  gj_transferred :: u32

definition new_GroupJob :: GroupJob where
  "new_GroupJob = \<lparr>gj_type = Job_Recv, gj_sessionId = 0, gj_errCode = - 1, gj_dst = 0, gj_transferred = 0\<rparr>"

datatype overlapped = OvRecv | OvPostSend | OvSend | OvRelease | OvGroup GroupID

text \<open>The key of a completion is a session slot; \<open>None\<close> is the null pointer.\<close>

record completion =
  cp_transferred :: u32
  cp_key :: "nat option"
  cp_overlapped :: "overlapped option"

datatype event =
    EvWSARecv nat
  | EvWSASend nat "u8 list list"
  | EvCancelIO SOCKET
  | EvCloseSocket SOCKET
  | EvSetNoDelay SOCKET
  | EvOnConnect SessionID
  | EvOnDisconnect SessionID int
  | EvOnRecvPacket SessionID "u8 list"
  | EvOnSessionTimeout SessionID timeoutInfo
  | EvGroupEnter GroupID SessionID
  | EvGroupLeave GroupID SessionID int
  | EvGroupRecv GroupID SessionID "u8 list"
  | EvGroupUpdate GroupID int

subsection \<open>Groups\<close>

text \<open>Times and durations are nanoseconds.\<close>

record Group =
  gr_groupId :: GroupID
  gr_loopMs :: int
  gr_prevUpdate :: int
  gr_nextUpdate :: int
  gr_sessions :: "SessionID set"
  gr_jobs :: "GroupJob LockFreeFixedQueue"
  gr_isRun :: bool
  gr_nextMonitor :: int
  gr_workTime :: int
  gr_maxWorkTime :: int
  gr_handledJob :: int
  gr_jobQSize :: int
  gr_oldWorkTime :: int
  gr_oldHandledJob :: int
  gr_oldMaxWorkTime :: int
  gr_leaveTps :: int
  gr_handledLeave :: int
  gr_enterTps :: int
  gr_handledEnter :: int

definition ms :: "int \<Rightarrow> int" where
  "ms n = n * 1000000"

definition new_Group :: "int \<Rightarrow> Group" where
  "new_Group now =
     \<lparr>gr_groupId = - 1, gr_loopMs = 10, gr_prevUpdate = now, gr_nextUpdate = now + ms 10,
      gr_sessions = {}, gr_jobs = fq_new 8192 new_GroupJob, gr_isRun = False,
      gr_nextMonitor = now + ms 1000, gr_workTime = 0, gr_maxWorkTime = 0, gr_handledJob = 0,
      gr_jobQSize = 0, gr_oldWorkTime = 0, gr_oldHandledJob = 0, gr_oldMaxWorkTime = 0,
      gr_leaveTps = 0, gr_handledLeave = 0, gr_enterTps = 0, gr_handledEnter = 0\<rparr>"

subsection \<open>The system\<close>

definition MAX_SESSIONS :: nat where
  "MAX_SESSIONS = 15000"

record sys =
  sy_sessions :: "nat \<Rightarrow> Session"
  sy_freeIndex :: "u16 list"
  sy_g_sessionId :: u64
  sy_staticKey :: u8
  sy_listenSocket :: SOCKET
  sy_isRunning :: bool
  sy_gracefulEnd :: bool
  sy_checkTimeout :: bool
  sy_port :: "completion list"
  sy_bufs :: "addr \<Rightarrow> CSendBuffer"
  sy_freed :: "addr list"
  sy_groups :: "GroupID \<Rightarrow> Group option"
  sy_g_GroupID :: i32
  sy_acceptCount :: u64
  sy_oldAcceptCount :: u64
  sy_acceptTps :: u64
  sy_disconnectCount :: u64
  sy_oldDisconnect :: u64
  sy_disconnectps :: u64
  sy_recvCount :: u64
  sy_recvTps :: u64
  sy_sendCount :: u64
  sy_sendTps :: u64
  sy_sessionCount :: u16
  sy_timeoutSessions :: u64
  sy_acceptErrorCount :: u32
  sy_tcpSemaphoreTimeout :: u32
  sy_localRecvCount :: nat
  sy_localSendCount :: nat
  sy_ticks :: nat
  sy_ios :: nat
  sy_trace :: "event list"

subsection \<open>The environment\<close>

type_synonym recv_callback = "CRecvBuffer \<Rightarrow> sys \<Rightarrow> stop option \<times> CRecvBuffer \<times> sys"
type_synonym update_call = "GroupID \<Rightarrow> sys \<Rightarrow> sys res"

text \<open>
  \<open>en_dbg\<close> says whether this is a debug build, \<open>en_fuel\<close> bounds the loops that may not end. An I/O call
  answers \<open>None\<close> for success and \<open>Some err\<close> for \<^verbatim>\<open>SOCKET_ERROR\<close> with that error code. A receive
  callback returns the exception it threw, if any, and the states at that point.
\<close>

record env =
  en_dbg :: bool
  en_fuel :: nat
  os_clock :: "nat \<Rightarrow> int"
  os_WSARecv :: "nat \<Rightarrow> int option"
  os_WSASend :: "nat \<Rightarrow> int option"
  os_CancelIoEx :: "nat \<Rightarrow> int option"
  cb_OnAccept :: "SOCKET \<Rightarrow> sys \<Rightarrow> (bool \<times> sys) res"
  cb_OnConnect :: "SessionID \<Rightarrow> sys \<Rightarrow> sys res"
  cb_OnDisconnect :: "SessionID \<Rightarrow> int \<Rightarrow> sys \<Rightarrow> sys res"
  cb_OnRecvPacket :: "SessionID \<Rightarrow> recv_callback"
  cb_OnSessionTimeout :: "SessionID \<Rightarrow> timeoutInfo \<Rightarrow> sys \<Rightarrow> sys res"
  gcb_OnEnter :: "GroupID \<Rightarrow> SessionID \<Rightarrow> sys \<Rightarrow> sys res"
  gcb_OnLeave :: "GroupID \<Rightarrow> SessionID \<Rightarrow> int \<Rightarrow> sys \<Rightarrow> sys res"
  gcb_OnUpdate :: "GroupID \<Rightarrow> int \<Rightarrow> sys \<Rightarrow> sys res"
  gcb_OnRecv :: "GroupID \<Rightarrow> SessionID \<Rightarrow> recv_callback"

definition WSA_IO_PENDING :: int where "WSA_IO_PENDING = 997"
definition WSAECONNABORTED :: int where "WSAECONNABORTED = 10053"
definition WSAECONNRESET :: int where "WSAECONNRESET = 10054"
definition WSAEINTR :: int where "WSAEINTR = 10004"
definition ERROR_NOT_FOUND :: int where "ERROR_NOT_FOUND = 1168"
definition ERROR_NETNAME_DELETED :: int where "ERROR_NETNAME_DELETED = 64"
definition ERROR_SEM_TIMEOUT :: int where "ERROR_SEM_TIMEOUT = 121"
definition WSA_OPERATION_ABORTED :: int where "WSA_OPERATION_ABORTED = 995"
definition ERROR_CONNECTION_ABORTED :: int where "ERROR_CONNECTION_ABORTED = 1236"

subsection \<open>Primitive actions\<close>

definition upd_session :: "nat \<Rightarrow> (Session \<Rightarrow> Session) \<Rightarrow> sys \<Rightarrow> sys" where
  "upd_session i f s = s\<lparr>sy_sessions := (sy_sessions s)(i := f (sy_sessions s i))\<rparr>"

definition upd_group :: "GroupID \<Rightarrow> (Group \<Rightarrow> Group) \<Rightarrow> sys \<Rightarrow> sys" where
  "upd_group g f s = s\<lparr>sy_groups := (sy_groups s)(g := map_option f (sy_groups s g))\<rparr>"

definition emit :: "event \<Rightarrow> sys \<Rightarrow> sys" where
  "emit ev s = s\<lparr>sy_trace := sy_trace s @ [ev]\<rparr>"

definition PostQueuedCompletionStatus :: "completion \<Rightarrow> sys \<Rightarrow> sys" where
  "PostQueuedCompletionStatus c s = s\<lparr>sy_port := sy_port s @ [c]\<rparr>"

definition clock_now :: "env \<Rightarrow> sys \<Rightarrow> int \<times> sys" where
  "clock_now e s = (os_clock e (sy_ticks s), s\<lparr>sy_ticks := Suc (sy_ticks s)\<rparr>)"

text \<open>One answer of an I/O stream.\<close>

definition io_call :: "(nat \<Rightarrow> int option) \<Rightarrow> event \<Rightarrow> sys \<Rightarrow> int option \<times> sys" where
  "io_call f ev s = (f (sy_ios s), emit ev (s\<lparr>sy_ios := Suc (sy_ios s)\<rparr>))"

text \<open>\<^verbatim>\<open>CSendBuffer::IncreaseRef\<close> and \<^verbatim>\<open>CSendBuffer::Release\<close> on the heap; the pool gets a buffer at zero.\<close>

definition buf_IncreaseRef :: "addr \<Rightarrow> sys \<Rightarrow> sys" where
  "buf_IncreaseRef a s = s\<lparr>sy_bufs := (sy_bufs s)(a := snd (sb_IncreaseRef (sy_bufs s a)))\<rparr>"

definition buf_Release :: "addr \<Rightarrow> sys \<Rightarrow> sys" where
  "buf_Release a s =
     (let (zero, b) = sb_Release (sy_bufs s a); s1 = s\<lparr>sy_bufs := (sy_bufs s)(a := b)\<rparr>
      in if zero then s1\<lparr>sy_freed := sy_freed s1 @ [a]\<rparr> else s1)"

lemma upd_session_sel [simp]:
  "sy_sessions (upd_session i f s) = (sy_sessions s)(i := f (sy_sessions s i))"
  "sy_freeIndex (upd_session i f s) = sy_freeIndex s" "sy_port (upd_session i f s) = sy_port s"
  "sy_bufs (upd_session i f s) = sy_bufs s" "sy_freed (upd_session i f s) = sy_freed s"
  "sy_groups (upd_session i f s) = sy_groups s" "sy_trace (upd_session i f s) = sy_trace s"
  "sy_ios (upd_session i f s) = sy_ios s" "sy_ticks (upd_session i f s) = sy_ticks s"
  by (simp_all add: upd_session_def)

lemma emit_sel [simp]:
  "sy_sessions (emit ev s) = sy_sessions s" "sy_freeIndex (emit ev s) = sy_freeIndex s"
  "sy_port (emit ev s) = sy_port s" "sy_bufs (emit ev s) = sy_bufs s" "sy_freed (emit ev s) = sy_freed s"
  "sy_groups (emit ev s) = sy_groups s" "sy_trace (emit ev s) = sy_trace s @ [ev]"
  "sy_ios (emit ev s) = sy_ios s" "sy_ticks (emit ev s) = sy_ticks s"
  by (simp_all add: emit_def)

lemma post_sel [simp]:
  "sy_sessions (PostQueuedCompletionStatus c s) = sy_sessions s"
  "sy_port (PostQueuedCompletionStatus c s) = sy_port s @ [c]"
  "sy_freeIndex (PostQueuedCompletionStatus c s) = sy_freeIndex s"
  "sy_bufs (PostQueuedCompletionStatus c s) = sy_bufs s"
  "sy_freed (PostQueuedCompletionStatus c s) = sy_freed s"
  "sy_groups (PostQueuedCompletionStatus c s) = sy_groups s"
  "sy_trace (PostQueuedCompletionStatus c s) = sy_trace s"
  "sy_ios (PostQueuedCompletionStatus c s) = sy_ios s"
  "sy_ticks (PostQueuedCompletionStatus c s) = sy_ticks s"
  by (simp_all add: PostQueuedCompletionStatus_def)

lemma upd_session_upd_session [simp]: "upd_session i f (upd_session i g s) = upd_session i (f \<circ> g) s"
  by (simp add: upd_session_def)

lemma upd_session_id: "f (sy_sessions s i) = sy_sessions s i \<Longrightarrow> upd_session i f s = s"
  by (simp add: upd_session_def)

end
