(* ===== verification/Iocp.thy ===== *)
theory Iocp
  imports System
begin

section \<open>The server's operations on sessions\<close>

text \<open>
  The calls of \<^verbatim>\<open>src/NormalIOCP.cpp\<close> the application and the handlers make, the parts of
  \<^verbatim>\<open>src/Session.cpp\<close> that reach the owner, and \<^verbatim>\<open>src/GroupManager.cpp\<close> up to the job queues.
  Enqueueing a job may run \<^verbatim>\<open>Group::Update\<close> in the calling
  thread, which calls back into these operations; that call is the parameter \<open>upd\<close>, closed in theory
  \<open>Group_Loop\<close>. A slot is addressed by its index.
\<close>

subsection \<open>Job queues\<close>

text \<open>The retry loop of \<^verbatim>\<open>Group::Enqueue\<close>.\<close>

fun Enqueue_retry :: "nat \<Rightarrow> GroupJob \<Rightarrow> GroupJob LockFreeFixedQueue \<Rightarrow> GroupJob LockFreeFixedQueue res" where
  "Enqueue_retry 0 job q = Inl OutOfFuel"
| "Enqueue_retry (Suc n) job q =
     bind_res (fq_Enqueue job q) (\<lambda>(ok, q'). if ok then Inr q' else Enqueue_retry n job q')"

definition Group_Enqueue :: "env \<Rightarrow> update_call \<Rightarrow> GroupID \<Rightarrow> GroupJob \<Rightarrow> bool \<Rightarrow> sys \<Rightarrow> (bool \<times> sys) res" where
  "Group_Enqueue e upd g job update s =
     (case sy_groups s g of
        None \<Rightarrow> Inl NullDeref
      | Some G \<Rightarrow>
          bind_res (Enqueue_retry (en_fuel e) job (gr_jobs G)) (\<lambda>q.
            (let s1 = upd_group g (gr_jobs_update (\<lambda>_. q)) s
             in if update \<and> \<not> gr_isRun G then bind_res (upd g s1) (\<lambda>s2. Inr (True, s2))
                else Inr (False, s1))))"

definition LeaveSession :: "env \<Rightarrow> update_call \<Rightarrow> GroupID \<Rightarrow> SessionID \<Rightarrow> bool \<Rightarrow> int \<Rightarrow> sys \<Rightarrow> sys res" where
  "LeaveSession e upd g i update wsaErrCode s =
     bind_res (Group_Enqueue e upd g
       (new_GroupJob\<lparr>gj_type := Job_Leave, gj_sessionId := i, gj_errCode := wsaErrCode\<rparr>) update s)
       (\<lambda>(_, s'). Inr s')"

definition EnterSession :: "env \<Rightarrow> update_call \<Rightarrow> GroupID \<Rightarrow> SessionID \<Rightarrow> bool \<Rightarrow> sys \<Rightarrow> sys res" where
  "EnterSession e upd g i update s =
     bind_res (Group_Enqueue e upd g (new_GroupJob\<lparr>gj_type := Job_Enter, gj_sessionId := i\<rparr>) update s)
       (\<lambda>(_, s'). Inr s')"

definition GroupManager_OnRecv :: "env \<Rightarrow> update_call \<Rightarrow> SessionID \<Rightarrow> GroupID \<Rightarrow> u32 \<Rightarrow> sys \<Rightarrow> (bool \<times> sys) res" where
  "GroupManager_OnRecv e upd i g transferred s =
     Group_Enqueue e upd g
       \<lparr>gj_type = Job_Recv, gj_sessionId = i, gj_errCode = 0, gj_dst = 0, gj_transferred = transferred\<rparr> True s"

definition SessionDisconnected :: "env \<Rightarrow> update_call \<Rightarrow> nat \<Rightarrow> sys \<Rightarrow> sys res" where
  "SessionDisconnected e upd k s =
     (let ss = sy_sessions s k; src = ss_groupId ss
      in if src \<noteq> 0 then LeaveSession e upd src (ss_sessionId ss) True (ss_errCode ss) s else Inr s)"

subsection \<open>References\<close>

definition PostRelease :: "nat \<Rightarrow> sys \<Rightarrow> sys" where
  "PostRelease k s =
     PostQueuedCompletionStatus \<lparr>cp_transferred = - 1, cp_key = Some k, cp_overlapped = Some OvRelease\<rparr> s"

definition IncreaseRef :: "nat \<Rightarrow> sys \<Rightarrow> i32 \<times> sys" where
  "IncreaseRef k s = (fst (ss_IncreaseRef (sy_sessions s k)), upd_session k (snd \<circ> ss_IncreaseRef) s)"

definition Release :: "env \<Rightarrow> update_call \<Rightarrow> nat \<Rightarrow> sys \<Rightarrow> (bool \<times> sys) res" where
  "Release e upd k s =
     (let last = fst (ss_ReleaseCount (sy_sessions s k)); s1 = upd_session k (snd \<circ> ss_ReleaseCount) s
      in if last then
           (if ss_groupId (sy_sessions s1 k) = 0 then Inr (True, PostRelease k s1)
            else bind_res (SessionDisconnected e upd k s1) (\<lambda>s2. Inr (True, s2)))
         else Inr (False, s1))"

definition FindSession :: "env \<Rightarrow> update_call \<Rightarrow> SessionID \<Rightarrow> sys \<Rightarrow> (nat option \<times> sys) res" where
  "FindSession e upd i s =
     (let k = id_index i
      in if k \<ge> MAX_SESSIONS then Inr (None, s)
         else
           (let (r, s1) = IncreaseRef k s
            in if sint r > sint RELEASE_FLAG \<or> ss_sessionId (sy_sessions s1 k) \<noteq> i
               then bind_res (Release e upd k s1) (\<lambda>(_, s2). Inr (None, s2))
               else Inr (Some k, s1)))"

text \<open>The shape of the calls that work on a session found by its id: find, act, release.\<close>

definition with_session ::
  "env \<Rightarrow> update_call \<Rightarrow> SessionID \<Rightarrow> (nat \<Rightarrow> sys \<Rightarrow> sys res) \<Rightarrow> sys \<Rightarrow> (bool \<times> sys) res" where
  "with_session e upd i act s =
     bind_res (FindSession e upd i s) (\<lambda>(r, s1).
       case r of
         None \<Rightarrow> Inr (False, s1)
       | Some k \<Rightarrow> bind_res (act k s1) (\<lambda>s2. bind_res (Release e upd k s2) (\<lambda>(_, s3). Inr (True, s3))))"

subsection \<open>Closing\<close>

definition CancelIO :: "env \<Rightarrow> SOCKET \<Rightarrow> sys \<Rightarrow> sys res" where
  "CancelIO e sock s =
     (let (r, s1) = io_call (os_CancelIoEx e) (EvCancelIO sock) s
      in case r of
           None \<Rightarrow> Inr s1
         | Some err \<Rightarrow> if err = ERROR_NOT_FOUND then Inr s1 else Inl DebugBreak)"

definition Session_Close :: "env \<Rightarrow> nat \<Rightarrow> sys \<Rightarrow> sys res" where
  "Session_Close e k s = CancelIO e (ss_socket (sy_sessions s k)) (upd_session k (ss_connect_update (\<lambda>_. False)) s)"

definition DisconnectSession :: "env \<Rightarrow> update_call \<Rightarrow> SessionID \<Rightarrow> sys \<Rightarrow> (bool \<times> sys) res" where
  "DisconnectSession e upd i s = with_session e upd i (Session_Close e) s"

subsection \<open>Receiving\<close>

definition RecvNotIncrease :: "env \<Rightarrow> update_call \<Rightarrow> nat \<Rightarrow> sys \<Rightarrow> sys res" where
  "RecvNotIncrease e upd k s =
     (if ss_released (sy_sessions s k) then bind_res (Release e upd k s) (\<lambda>(_, s'). Inr s')
      else if \<not> ss_connect (sy_sessions s k) then bind_res (Release e upd k s) (\<lambda>(_, s'). Inr s')
      else
        bind_res (DirectEnqueueSize (en_dbg e) (ss_recvQ (sy_sessions s k))) (\<lambda>len0.
          (let free = FreeSize (ss_recvQ (sy_sessions s k));
               len1 = (if free > len0 then free - len0 else 0);
               s1 = upd_session k (\<lambda>ss. ss\<lparr>ss_recvBufSize := (len0, len1), ss_isPending := False\<rparr>) s
           in bind_res (ASSERT_CRASH (en_dbg e) (len0 + len1 \<noteq> 0)) (\<lambda>_.
                (let (now, s2) = clock_now e s1;
                     s3 = upd_session k (ss_lastRecv_update (\<lambda>_. now)) s2;
                     before = ss_sessionId (sy_sessions s3 k);
                     (r, s4) = io_call (os_WSARecv e) (EvWSARecv k) s3
                 in case r of
                      None \<Rightarrow> Inr s4
                    | Some err \<Rightarrow>
                        if err = WSA_IO_PENDING then
                          (let s5 = upd_session k (ss_isPending_update (\<lambda>_. True)) s4
                           in if \<not> ss_connect (sy_sessions s5 k)
                              then bind_res (DisconnectSession e upd before s5) (\<lambda>(_, s6). Inr s6)
                              else Inr s5)
                        else
                          (let s5 = upd_session k (ss_SetErr err) s4
                           in if err = WSAECONNABORTED \<or> err = WSAECONNRESET
                              then bind_res (Release e upd k s5) (\<lambda>(_, s6). Inr s6)
                              else Inl DebugBreak))))))"

definition RegisterRecv :: "env \<Rightarrow> update_call \<Rightarrow> nat \<Rightarrow> sys \<Rightarrow> sys res" where
  "RegisterRecv e upd k s = RecvNotIncrease e upd k (snd (IncreaseRef k s))"

subsection \<open>Sending\<close>

text \<open>
  The inner loop of \<^verbatim>\<open>RealSend\<close>: at most \<open>n\<close> more buffers from index \<open>i\<close>. It gives the number of
  packets taken, the byte blocks of the scatter list and the new state.
\<close>

fun RealSend_fill :: "env \<Rightarrow> nat \<Rightarrow> nat \<Rightarrow> nat \<Rightarrow> sys \<Rightarrow> (u8 list list \<times> sys) res" where
  "RealSend_fill e k 0 i s = Inr ([], s)"
| "RealSend_fill e k (Suc n) i s =
     bind_res (fq_Dequeue (ss_sendQ (sy_sessions s k))) (\<lambda>(r, q).
       case r of
         None \<Rightarrow> Inr ([], upd_session k (ss_sendQ_update (\<lambda>_. q)) s)
       | Some a \<Rightarrow>
           (let s1 = upd_session k (\<lambda>ss. ss\<lparr>ss_sendQ := q, ss_sendingQ := (ss_sendingQ ss)[i := Some a]\<rparr>) s;
                key = ss_staticKey (sy_sessions s k)
            in bind_res (if key \<noteq> 0 then sb_TryEncode (sy_bufs s1 a) key else sb_WriteLanHeader (sy_bufs s1 a)) (\<lambda>b.
                 (let s2 = s1\<lparr>sy_bufs := (sy_bufs s1)(a := b)\<rparr>
                  in bind_res (ASSERT_CRASH (en_dbg e) (sb_SendDataSize b > 0)) (\<lambda>_.
                     bind_res (RealSend_fill e k n (Suc i) s2) (\<lambda>(ws, s3).
                       Inr (sb_wire b # ws, s3)))))))"

text \<open>The outer loop \<^verbatim>\<open>while (sendPackets == 0)\<close>.\<close>

fun RealSend_collect :: "env \<Rightarrow> nat \<Rightarrow> nat \<Rightarrow> sys \<Rightarrow> (u8 list list \<times> sys) res" where
  "RealSend_collect e k 0 s = Inl OutOfFuel"
| "RealSend_collect e k (Suc fuel) s =
     bind_res (RealSend_fill e k MAX_SEND_COUNT 0 s) (\<lambda>(ws, s').
       if ws = [] then RealSend_collect e k fuel s' else Inr (ws, s'))"

definition RealSend :: "env \<Rightarrow> update_call \<Rightarrow> nat \<Rightarrow> sys \<Rightarrow> sys res" where
  "RealSend e upd k s =
     (let (r, s1) = IncreaseRef k s
      in if sint r \<ge> sint RELEASE_FLAG then bind_res (Release e upd k s1) (\<lambda>(_, s'). Inr s')
         else if fq_Size (ss_sendQ (sy_sessions s1 k)) < 1 then Inl DebugBreak
         else
           bind_res (RealSend_collect e k (en_fuel e) s1) (\<lambda>(ws, s2).
             (let s3 = upd_session k (ss_needCheckSendTimeout_update (\<lambda>_. True)) s2;
                  (now, s4) = clock_now e s3;
                  s5 = upd_session k (\<lambda>ss. ss\<lparr>ss_lastSend := now, ss_dataNotSend := length ws\<rparr>) s4;
                  (res, s6) = io_call (os_WSASend e) (EvWSASend k ws) s5
              in case res of
                   None \<Rightarrow> Inr s6
                 | Some err \<Rightarrow>
                     if err = WSA_IO_PENDING then Inr s6
                     else
                       (let s7 = upd_session k (ss_SetErr err) s6
                        in if err = WSAECONNABORTED \<or> err = WSAECONNRESET
                           then bind_res (Release e upd k s7) (\<lambda>(_, s8). Inr s8)
                           else Inl DebugBreak))))"

definition CanSend :: "nat \<Rightarrow> sys \<Rightarrow> (bool \<times> sys) res" where
  "CanSend k s =
     bind_res (ss_CanSend (sy_sessions s k)) (\<lambda>(ok, ss). Inr (ok, upd_session k (\<lambda>_. ss) s))"

definition TrySend :: "env \<Rightarrow> update_call \<Rightarrow> nat \<Rightarrow> sys \<Rightarrow> sys res" where
  "TrySend e upd k s = bind_res (CanSend k s) (\<lambda>(ok, s1). if ok then RealSend e upd k s1 else Inr s1)"

definition ProcessBuffer :: "env \<Rightarrow> update_call \<Rightarrow> addr \<Rightarrow> nat \<Rightarrow> sys \<Rightarrow> sys res" where
  "ProcessBuffer e upd a k s =
     (let s1 = buf_IncreaseRef a s
      in if sb_GetDataSize (sy_bufs s1 a) = 0 then Inl DebugBreak
         else
           bind_res (ss_EnqueueSendData a (sy_sessions s1 k)) (\<lambda>(ok, ss).
             (let s2 = upd_session k (\<lambda>_. ss) s1
              in if ok then Inr s2
                 else bind_res (DisconnectSession e upd (ss_sessionId (sy_sessions s2 k)) (buf_Release a s2))
                        (\<lambda>(_, s3). Inr s3))))"

text \<open>Post the session's send executable when the right to send was obtained.\<close>

definition PostSend :: "nat \<Rightarrow> sys \<Rightarrow> sys res" where
  "PostSend k s =
     bind_res (CanSend k s) (\<lambda>(ok, s1).
       Inr (if ok then PostQueuedCompletionStatus
                         \<lparr>cp_transferred = - 1, cp_key = Some k, cp_overlapped = Some OvSend\<rparr> s1
            else s1))"

definition SendPacket :: "env \<Rightarrow> update_call \<Rightarrow> SessionID \<Rightarrow> addr \<Rightarrow> sys \<Rightarrow> (bool \<times> sys) res" where
  "SendPacket e upd i a s =
     with_session e upd i (\<lambda>k s1. bind_res (ProcessBuffer e upd a k s1) (PostSend k)) s"

definition SendPacketBlocking :: "env \<Rightarrow> update_call \<Rightarrow> SessionID \<Rightarrow> addr \<Rightarrow> sys \<Rightarrow> (bool \<times> sys) res" where
  "SendPacketBlocking e upd i a s =
     with_session e upd i (\<lambda>k s1. bind_res (ProcessBuffer e upd a k s1) (TrySend e upd k)) s"

text \<open>\<^verbatim>\<open>dataSize\<close> of the source is computed and reset but has no effect.\<close>

fun ProcessBuffers :: "env \<Rightarrow> update_call \<Rightarrow> addr list \<Rightarrow> nat \<Rightarrow> sys \<Rightarrow> sys res" where
  "ProcessBuffers e upd [] k s = Inr s"
| "ProcessBuffers e upd (a # as) k s = bind_res (ProcessBuffer e upd a k s) (ProcessBuffers e upd as k)"

definition SendPackets :: "env \<Rightarrow> update_call \<Rightarrow> SessionID \<Rightarrow> addr list \<Rightarrow> sys \<Rightarrow> (bool \<times> sys) res" where
  "SendPackets e upd i as s =
     with_session e upd i (\<lambda>k s1. bind_res (ProcessBuffers e upd as k s1) (PostSend k)) s"

subsection \<open>Other calls on a session id\<close>

definition IsValidSession :: "env \<Rightarrow> update_call \<Rightarrow> SessionID \<Rightarrow> sys \<Rightarrow> (bool \<times> sys) res" where
  "IsValidSession e upd i s = with_session e upd i (\<lambda>k. Inr) s"

definition SetTimeout :: "env \<Rightarrow> update_call \<Rightarrow> SessionID \<Rightarrow> int \<Rightarrow> sys \<Rightarrow> sys res" where
  "SetTimeout e upd i t s =
     bind_res (with_session e upd i (\<lambda>k s1. Inr (upd_session k (ss_SetTimeout t) s1)) s) (\<lambda>(_, s'). Inr s')"

definition SetSessionStaticKey :: "env \<Rightarrow> update_call \<Rightarrow> SessionID \<Rightarrow> u8 \<Rightarrow> sys \<Rightarrow> sys res" where
  "SetSessionStaticKey e upd i key s =
     bind_res (with_session e upd i (\<lambda>k s1. Inr (upd_session k (ss_SetNetSession key) s1)) s) (\<lambda>(_, s'). Inr s')"

definition SetDefaultTimeout :: "nat \<Rightarrow> sys \<Rightarrow> sys" where
  "SetDefaultTimeout t s =
     (if t = 0 then s\<lparr>sy_checkTimeout := False\<rparr>
      else s\<lparr>sy_sessions := (\<lambda>k. if k < MAX_SESSIONS
               then ss_SetTimeout (int t) (ss_SetDefaultTimeout (int t) (sy_sessions s k)) else sy_sessions s k)\<rparr>)"

definition SetMaxPacketSize :: "u32 \<Rightarrow> sys \<Rightarrow> sys" where
  "SetMaxPacketSize n s =
     s\<lparr>sy_sessions := (\<lambda>k. if k < MAX_SESSIONS then ss_SetMaxPacketLen n (sy_sessions s k) else sy_sessions s k)\<rparr>"

text \<open>\<^verbatim>\<open>GroupManager::MoveSession\<close>; \<^verbatim>\<open>IOCP::MoveSession\<close> calls it with \<open>update\<close> true.\<close>

definition MoveSession :: "env \<Rightarrow> update_call \<Rightarrow> SessionID \<Rightarrow> GroupID \<Rightarrow> bool \<Rightarrow> sys \<Rightarrow> sys res" where
  "MoveSession e upd target dst update s =
     bind_res (with_session e upd target (\<lambda>k s1.
       (let src = ss_groupId (sy_sessions s1 k)
        in bind_res (if src \<noteq> 0 then LeaveSession e upd src (ss_sessionId (sy_sessions s1 k)) update
                                       (ss_errCode (sy_sessions s1 k)) s1
                     else Inr s1) (\<lambda>s2.
           (let s3 = upd_session k (ss_SetGroupID dst) s2
            in if dst \<noteq> 0 then EnterSession e upd dst (ss_sessionId (sy_sessions s3 k)) update s3
               else Inr s3)))) s) (\<lambda>(_, s'). Inr s')"

definition CheckPostRelease :: "env \<Rightarrow> SessionID \<Rightarrow> GroupID \<Rightarrow> sys \<Rightarrow> sys res" where
  "CheckPostRelease e i g s =
     (let k = id_index i; ss = sy_sessions s k
      in if k \<ge> MAX_SESSIONS then Inl OutOfBounds
         else if ss_groupId ss = g \<and> ss_sessionId ss = i then
           bind_res (ss_GetRefCount (en_dbg e) ss i) (\<lambda>c.
             Inr (if sint c \<ge> sint RELEASE_FLAG then PostRelease k s else s))
         else Inr s)"

end
