(* ===== verification/Session_Refs.thy ===== *)
theory Session_Refs
  imports Iocp
begin

section \<open>Reference counting of sessions, one call at a time\<close>

text \<open>
  What a call of the library does to the reference count of the slot it works on, when no other thread
  interferes: a lookup either takes one reference or leaves the slot exactly as it was, and every call
  that finds, acts and releases is balanced. The interleaved protocol is in theory \<open>Ref_Protocol\<close>.
\<close>

abbreviation refs :: "sys \<Rightarrow> nat \<Rightarrow> i32" where
  "refs s k \<equiv> ss_refCount (sy_sessions s k)"

definition set_refs :: "nat \<Rightarrow> nat \<Rightarrow> sys \<Rightarrow> sys" where
  "set_refs k c s = upd_session k (ss_refCount_update (\<lambda>_. of_nat c)) s"

text \<open>The slot is connected under the id and holds \<open>c\<close> references.\<close>

definition live :: "sys \<Rightarrow> nat \<Rightarrow> SessionID \<Rightarrow> nat \<Rightarrow> bool" where
  "live s k i c \<longleftrightarrow> id_index i = k \<and> k < MAX_SESSIONS \<and> ss_sessionId (sy_sessions s k) = i \<and>
     refs s k = of_nat c \<and> 0 < c \<and> c < 2 ^ 20 - 1"

lemma set_refs_sel [simp]:
  "sy_sessions (set_refs k c s) = (sy_sessions s)(k := (sy_sessions s k)\<lparr>ss_refCount := of_nat c\<rparr>)"
  "sy_freeIndex (set_refs k c s) = sy_freeIndex s" "sy_port (set_refs k c s) = sy_port s"
  "sy_bufs (set_refs k c s) = sy_bufs s" "sy_freed (set_refs k c s) = sy_freed s"
  "sy_groups (set_refs k c s) = sy_groups s" "sy_trace (set_refs k c s) = sy_trace s"
  "sy_ios (set_refs k c s) = sy_ios s" "sy_ticks (set_refs k c s) = sy_ticks s"
  by (simp_all add: set_refs_def)

lemma set_refs_same: "refs s k = of_nat c \<Longrightarrow> set_refs k c s = s"
  unfolding set_refs_def by (rule upd_session_id) simp

lemma set_refs_set_refs [simp]: "set_refs k c (set_refs k d s) = set_refs k c s"
  by (simp add: set_refs_def comp_def)

lemma IncreaseRef_eq:
  "refs s k = of_nat c \<Longrightarrow> IncreaseRef k s = (of_nat (Suc c), set_refs k (Suc c) s)"
  by (simp add: IncreaseRef_def ss_IncreaseRef_def set_refs_def upd_session_def add.commute)

lemma i32_of_nat_Suc_eq_1:
  assumes "c < 2 ^ 31"
  shows "(of_nat (Suc c) :: i32) = 1 \<longleftrightarrow> c = 0"
proof
  assume "(of_nat (Suc c) :: i32) = 1"
  then have "unat (of_nat (Suc c) :: i32) = 1" by (simp only: unsigned_1)
  moreover have "unat (of_nat (Suc c) :: i32) = Suc c" using assms by (intro unat_of_nat_small) simp
  ultimately show "c = 0" by linarith
qed simp

lemma Release_more:
  assumes "refs s k = of_nat (Suc c)" and "0 < c" and "c < 2 ^ 31"
  shows "Release e upd k s = Inr (False, set_refs k c s)"
proof -
  have "refs s k \<noteq> 1" using assms i32_of_nat_Suc_eq_1 [of c] by simp
  then show ?thesis
    using assms(1) by (simp add: Release_def ReleaseCount_more set_refs_def upd_session_def)
qed

lemma Release_last_nogroup:
  assumes "refs s k = of_nat 1" and "ss_groupId (sy_sessions s k) = 0"
  shows "Release e upd k s = Inr (True, PostRelease k (set_refs k (2 ^ 20) s))"
  using assms by (simp add: Release_def ReleaseCount_last set_refs_def upd_session_def RELEASE_FLAG_def)

lemma FindSession_live:
  assumes "live s k i c"
  shows "FindSession e upd i s = Inr (Some k, set_refs k (Suc c) s)"
proof -
  have r: "refs s k = of_nat c" and c: "Suc c < 2 ^ 20" using assms by (simp_all add: live_def)
  have "sint (of_nat (Suc c) :: i32) = int (Suc c)" using c by (intro i32_of_nat_small) simp
  then have "\<not> sint (of_nat (Suc c) :: i32) > sint RELEASE_FLAG" using c by simp
  then show ?thesis
    using assms by (simp add: FindSession_def Let_def IncreaseRef_eq [OF r] live_def del: of_nat_Suc)
qed

text \<open>
  A lookup that fails gives back exactly the state it was called in: an index out of range, a slot being
  released (the flag is set), or a slot that another connection has taken over.
\<close>

lemma FindSession_fails:
  assumes "refs s (id_index i) = of_nat c" and "0 < c" and "c < 2 ^ 30"
    and "id_index i \<ge> MAX_SESSIONS \<or> 2 ^ 20 \<le> c \<or> ss_sessionId (sy_sessions s (id_index i)) \<noteq> i"
  shows "FindSession e upd i s = Inr (None, s)"
proof (cases "id_index i \<ge> MAX_SESSIONS")
  case True
  then show ?thesis by (simp add: FindSession_def)
next
  case False
  let ?k = "id_index i"
  have "sint (of_nat (Suc c) :: i32) = int (Suc c)" using assms(3) by (intro i32_of_nat_small) simp
  then have bad: "sint (of_nat (Suc c) :: i32) > sint RELEASE_FLAG \<or> ss_sessionId (sy_sessions s ?k) \<noteq> i"
    using assms(4) False by auto
  have "Release e upd ?k (set_refs ?k (Suc c) s) = Inr (False, set_refs ?k c s)"
    using Release_more [of "set_refs ?k (Suc c) s" ?k c] assms by (simp del: of_nat_Suc)
  then show ?thesis
    using bad False set_refs_same [OF assms(1)]
    by (auto simp: FindSession_def Let_def IncreaseRef_eq [OF assms(1)] simp del: of_nat_Suc)
qed

text \<open>An action under a reference that keeps the count at \<open>c + 1\<close> is followed by a release that keeps \<open>c\<close>.\<close>

lemma with_session_live:
  assumes l: "live s k i c" and act: "act k (set_refs k (Suc c) s) = Inr s2" and keep: "refs s2 k = of_nat (Suc c)"
  shows "with_session e upd i act s = Inr (True, set_refs k c s2)"
proof -
  have "0 < c" "c < 2 ^ 31" using l by (simp_all add: live_def)
  then show ?thesis
    using Release_more [OF keep, of e upd] act by (simp add: with_session_def FindSession_live [OF l])
qed

lemma with_session_fails:
  "FindSession e upd i s = Inr (None, s) \<Longrightarrow> with_session e upd i act s = Inr (False, s)"
  by (simp add: with_session_def)

subsection \<open>Closing\<close>

lemma CancelIO_ok:
  assumes "os_CancelIoEx e (sy_ios s) \<in> {None, Some ERROR_NOT_FOUND}"
  shows "CancelIO e sock s = Inr (emit (EvCancelIO sock) (s\<lparr>sy_ios := Suc (sy_ios s)\<rparr>))"
  using assms by (auto simp: CancelIO_def io_call_def)

lemma Session_Close_ok:
  assumes "os_CancelIoEx e (sy_ios s) \<in> {None, Some ERROR_NOT_FOUND}"
  shows "\<exists>s'. Session_Close e k s = Inr s' \<and>
    sy_sessions s' = (sy_sessions s)(k := (sy_sessions s k)\<lparr>ss_connect := False\<rparr>) \<and>
    sy_port s' = sy_port s \<and> sy_bufs s' = sy_bufs s \<and> sy_freed s' = sy_freed s \<and> sy_groups s' = sy_groups s \<and>
    sy_freeIndex s' = sy_freeIndex s \<and> sy_trace s' = sy_trace s @ [EvCancelIO (ss_socket (sy_sessions s k))]"
  using CancelIO_ok [of e "upd_session k (ss_connect_update (\<lambda>_. False)) s" "ss_socket (sy_sessions s k)"] assms
  by (simp add: Session_Close_def)

subsection \<open>Properties\<close>

text \<open>
  C6. A lookup by session id: it returns the slot with exactly one more reference when the id is the
  slot's current one and the slot is not being released; otherwise it returns nothing and leaves the
  whole server state as it was, so a stale id never affects the connection that took over its slot.
\<close>

theorem lookup_takes_or_restores:
  assumes "refs s (id_index i) = of_nat c" and "0 < c" and "c < 2 ^ 30" and "c \<noteq> 2 ^ 20 - 1"
  shows "FindSession e upd i s =
    (if id_index i < MAX_SESSIONS \<and> ss_sessionId (sy_sessions s (id_index i)) = i \<and> c < 2 ^ 20
     then Inr (Some (id_index i), set_refs (id_index i) (Suc c) s) else Inr (None, s))"
proof (cases "id_index i < MAX_SESSIONS \<and> ss_sessionId (sy_sessions s (id_index i)) = i \<and> c < 2 ^ 20")
  case True
  then have "live s (id_index i) i c" using assms by (auto simp: live_def)
  then show ?thesis using True by (simp add: FindSession_live)
next
  case False
  then show ?thesis using FindSession_fails [OF assms(1-3)] by (auto simp: not_less)
qed

definition quiet_sys :: sys where
  "quiet_sys =
     \<lparr>sy_sessions = (\<lambda>_. new_Session), sy_freeIndex = map of_nat [0..<MAX_SESSIONS], sy_g_sessionId = 0,
      sy_staticKey = 50, sy_listenSocket = 7, sy_isRunning = True, sy_gracefulEnd = False, sy_checkTimeout = True,
      sy_port = [], sy_bufs = (\<lambda>_. new_CSendBuffer (replicate 2053 0)), sy_freed = [], sy_groups = (\<lambda>_. None),
      sy_g_GroupID = 0, sy_acceptCount = 0, sy_oldAcceptCount = 0, sy_acceptTps = 0, sy_disconnectCount = 0,
      sy_oldDisconnect = 0, sy_disconnectps = 0, sy_recvCount = 0, sy_recvTps = 0, sy_sendCount = 0,
      sy_sendTps = 0, sy_sessionCount = 0, sy_timeoutSessions = 0, sy_acceptErrorCount = 0,
      sy_tcpSemaphoreTimeout = 0, sy_localRecvCount = 0, sy_localSendCount = 0, sy_ticks = 0, sy_ios = 0,
      sy_trace = []\<rparr>"

definition quiet_env :: env where
  "quiet_env =
     \<lparr>en_dbg = True, en_fuel = 10000, os_clock = int, os_WSARecv = (\<lambda>_. Some WSA_IO_PENDING),
      os_WSASend = (\<lambda>_. Some WSA_IO_PENDING), os_CancelIoEx = (\<lambda>_. None),
      cb_OnAccept = (\<lambda>_ s. Inr (True, s)), cb_OnConnect = (\<lambda>_ s. Inr s), cb_OnDisconnect = (\<lambda>_ _ s. Inr s),
      cb_OnRecvPacket = (\<lambda>i b s. (None, b\<lparr>rv_size := 0\<rparr>,
        upd_session (id_index i) (ss_recvQ_update (\<lambda>q. MoveFront q (rv_CanPopSize b))) s)),
      cb_OnSessionTimeout = (\<lambda>_ _ s. Inr s), gcb_OnEnter = (\<lambda>_ _ s. Inr s), gcb_OnLeave = (\<lambda>_ _ _ s. Inr s),
      gcb_OnUpdate = (\<lambda>_ _ s. Inr s), gcb_OnRecv = (\<lambda>g i b s. (None, b\<lparr>rv_size := 0\<rparr>,
        upd_session (id_index i) (ss_recvQ_update (\<lambda>q. MoveFront q (rv_CanPopSize b))) s))\<rparr>"

text \<open>
  \<open>quiet_sys\<close> is the server after \<^verbatim>\<open>Start\<close> with no connection, \<open>quiet_env\<close> an application that reads every
  packet to its end and an operating system that answers every I/O with "pending". They are the
  concrete input of the witnesses. \<open>one_session\<close> is the server with slot 0 connected under the id 1.
\<close>

definition one_session :: sys where
  "one_session = upd_session 0 (\<lambda>ss. ss\<lparr>ss_sessionId := 1, ss_refCount := 1, ss_connect := True,
     ss_socket := 9, ss_staticKey := 50, ss_recvBufSize := (8191, 0)\<rparr>) quiet_sys"

lemma one_session_slot:
  "sy_sessions one_session 0 = new_Session\<lparr>ss_sessionId := 1, ss_refCount := 1, ss_connect := True,
     ss_socket := 9, ss_staticKey := 50, ss_recvBufSize := (8191, 0)\<rparr>"
  by (simp add: one_session_def quiet_sys_def)

lemma one_session_live: "live one_session 0 1 1"
  by (simp add: live_def one_session_slot id_index_def MAX_SESSIONS_def)

theorem lookup_takes_or_restores_witness:
  "FindSession quiet_env (\<lambda>_ s. Inr s) 2 one_session = Inr (None, one_session)"
proof -
  have i: "id_index 2 = 0" by (simp add: id_index_def)
  have "refs one_session (id_index 2) = of_nat 1" by (simp add: i one_session_slot)
  moreover have "ss_sessionId (sy_sessions one_session (id_index 2)) \<noteq> 2" by (simp add: i one_session_slot)
  ultimately show ?thesis
    using lookup_takes_or_restores [of one_session 2 1 quiet_env "\<lambda>_ s. Inr s"] by simp
qed

text \<open>
  \<^verbatim>\<open>DisconnectSession\<close> of a live session: the session is marked closed, its pending I/O is cancelled
  once, and the reference count is what it was, so the references of the pending I/O keep the slot
  until their completions arrive.
\<close>

theorem disconnect_balanced:
  assumes "live s k i c" and "os_CancelIoEx e (sy_ios s) \<in> {None, Some ERROR_NOT_FOUND}"
  shows "\<exists>s'. DisconnectSession e upd i s = Inr (True, s') \<and>
    sy_sessions s' = (sy_sessions s)(k := (sy_sessions s k)\<lparr>ss_connect := False\<rparr>) \<and>
    sy_port s' = sy_port s \<and> sy_trace s' = sy_trace s @ [EvCancelIO (ss_socket (sy_sessions s k))]"
proof -
  have c: "refs s k = of_nat c" using assms(1) by (simp add: live_def)
  obtain s2 where s2: "Session_Close e k (set_refs k (Suc c) s) = Inr s2"
    "sy_sessions s2 = (sy_sessions s)(k := (sy_sessions s k)\<lparr>ss_refCount := of_nat (Suc c), ss_connect := False\<rparr>)"
    "sy_port s2 = sy_port s" "sy_trace s2 = sy_trace s @ [EvCancelIO (ss_socket (sy_sessions s k))]"
    using Session_Close_ok [of e "set_refs k (Suc c) s" k] assms(2) by auto
  have "DisconnectSession e upd i s = Inr (True, set_refs k c s2)"
    unfolding DisconnectSession_def using s2 by (intro with_session_live [OF assms(1)]) simp_all
  moreover have "(sy_sessions s k)\<lparr>ss_connect := False, ss_refCount := of_nat c\<rparr> = (sy_sessions s k)\<lparr>ss_connect := False\<rparr>"
    by (simp add: c [symmetric])
  ultimately show ?thesis using s2 by (auto simp: fun_eq_iff)
qed

theorem disconnect_balanced_witness:
  "\<exists>s'. DisconnectSession quiet_env (\<lambda>_ s. Inr s) 1 one_session = Inr (True, s') \<and> refs s' 0 = 1 \<and>
    \<not> ss_connect (sy_sessions s' 0)"
proof -
  have "os_CancelIoEx quiet_env (sy_ios one_session) = None" by (simp add: quiet_env_def)
  then show ?thesis
    using disconnect_balanced [OF one_session_live, of quiet_env "\<lambda>_ s. Inr s"]
    by (auto simp: one_session_slot)
qed

end
