(* ===== verification/Completion.thy ===== *)
theory Completion
  imports Iocp
begin

section \<open>Completion handlers and the server's threads\<close>

text \<open>
  The executables a completion runs (\<^verbatim>\<open>src/RecvExecutable.cpp\<close>, \<^verbatim>\<open>src/PostSendExecutable.cpp\<close>,
  \<^verbatim>\<open>src/SendExecutable.cpp\<close>, \<^verbatim>\<open>src/ReleaseExecutable.cpp\<close>), and one round of each thread of
  \<^verbatim>\<open>src/NormalIOCP.cpp\<close> (worker, accept, timeout, monitor).
\<close>

subsection \<open>Counters\<close>

text \<open>
  \<^verbatim>\<open>IncreaseRecvCount\<close> and \<^verbatim>\<open>increaseSendCount\<close>: a thread-local count that is added to the shared one in
  steps of a hundred. The pair is (local, shared).
\<close>

fun count_hundreds :: "nat \<Rightarrow> nat \<times> u64 \<Rightarrow> nat \<times> u64" where
  "count_hundreds 0 c = c"
| "count_hundreds (Suc n) (l, g) =
     count_hundreds n (if Suc l = 100 then (0, g + 100) else (Suc l, g))"

definition IncreaseRecvCount :: "nat \<Rightarrow> sys \<Rightarrow> sys" where
  "IncreaseRecvCount n s =
     (let (l, g) = count_hundreds n (sy_localRecvCount s, sy_recvCount s)
      in s\<lparr>sy_localRecvCount := l, sy_recvCount := g\<rparr>)"

definition increaseSendCount :: "nat \<Rightarrow> sys \<Rightarrow> sys" where
  "increaseSendCount n s =
     (let (l, g) = count_hundreds n (sy_localSendCount s, sy_sendCount s)
      in s\<lparr>sy_localSendCount := l, sy_sendCount := g\<rparr>)"

subsection \<open>Receiving packets\<close>

text \<open>\<^verbatim>\<open>IOCP::onRecvPacket\<close>: the application's callback, with its \<^verbatim>\<open>invalid_argument\<close> caught.\<close>

definition IOCP_onRecvPacket :: "env \<Rightarrow> update_call \<Rightarrow> nat \<Rightarrow> CRecvBuffer \<Rightarrow> sys \<Rightarrow> (CRecvBuffer \<times> sys) res" where
  "IOCP_onRecvPacket e upd k b s =
     (let i = ss_sessionId (sy_sessions s k);
          (err, b', s1) = cb_OnRecvPacket e i b
            (emit (EvOnRecvPacket i (rv_view b (ss_recvQ (sy_sessions s k)))) s)
      in case err of
           None \<Rightarrow> Inr (b', s1)
         | Some InvalidArgument \<Rightarrow>
             bind_res (DisconnectSession e upd (ss_sessionId (sy_sessions s1 k)) s1) (\<lambda>(_, s2). Inr (b', s2))
         | Some x \<Rightarrow> Inl x)"

definition header_size :: "bool \<Rightarrow> nat" where
  "header_size net = (if net then sizeof_NetHeader else sizeof_LANHeader)"

definition header_len :: "bool \<Rightarrow> u8 list \<Rightarrow> u16" where
  "header_len net bs = (if net then nh_len (NetHeader_of bs) else lh_len (LANHeader_of bs))"

text \<open>
  \<^verbatim>\<open>RecvExecutable::RecvHandler<Header>\<close>: \<open>net\<close> chooses the header type. The result is the number of
  packets handled and the new state.
\<close>

fun RecvHandler_loop :: "env \<Rightarrow> update_call \<Rightarrow> bool \<Rightarrow> nat \<Rightarrow> nat \<Rightarrow> nat \<Rightarrow> sys \<Rightarrow> (nat \<times> sys) res" where
  "RecvHandler_loop e upd net k 0 loopCount s = Inl OutOfFuel"
| "RecvHandler_loop e upd net k (Suc n) loopCount s =
     (let ss = sy_sessions s k; q = ss_recvQ ss
      in if ss_groupId ss \<noteq> 0 then Inr (loopCount, s)
         else if Ring_Size q < header_size net then Inr (loopCount, s)
         else
           bind_res (Ring_Peek q (header_size net)) (\<lambda>hb.
             (let len = header_len net hb
              in if net \<and> nh_code (NetHeader_of hb) \<noteq> dfPACKET_CODE
                 then bind_res (Session_Close e k s) (\<lambda>s'. Inr (loopCount, s'))
                 else if net \<and> unat len > unat (ss_maxPacketLen ss)
                 then bind_res (Session_Close e k s) (\<lambda>s'. Inr (loopCount, s'))
                 else if unat len > Ring_Size q then Inr (loopCount, s)
                 else if Ring_Size q < unat len + header_size net then Inr (loopCount, s)
                 else
                   bind_res (if net then Ring_Decode q (ss_staticKey ss) else Inr q) (\<lambda>q1.
                   bind_res (if net then ChecksumValid q1 else Inr True) (\<lambda>valid.
                     (let s1 = upd_session k (ss_recvQ_update (\<lambda>_. q1)) s
                      in if \<not> valid then bind_res (Session_Close e k s1) (\<lambda>s'. Inr (loopCount, s'))
                         else
                           bind_res (Ring_Dequeue q1 (int (header_size net))) (\<lambda>(_, q2).
                           bind_res (IOCP_onRecvPacket e upd k (new_CRecvBuffer (ucast len))
                                       (upd_session k (ss_recvQ_update (\<lambda>_. q2)) s1)) (\<lambda>(b, s2).
                           bind_res (ASSERT_CRASH (en_dbg e) (rv_CanPopSize b = 0)) (\<lambda>_.
                             RecvHandler_loop e upd net k n (Suc loopCount) s2)))))))))"

definition RecvHandler :: "env \<Rightarrow> update_call \<Rightarrow> bool \<Rightarrow> nat \<Rightarrow> sys \<Rightarrow> sys res" where
  "RecvHandler e upd net k s =
     bind_res (RecvHandler_loop e upd net k (en_fuel e) 0 s) (\<lambda>(loopCount, s').
       Inr (if loopCount > 0 then IncreaseRecvCount loopCount s' else s'))"

text \<open>The bytes the operating system wrote before it reported the completion of a receive.\<close>

definition os_fill :: "nat \<Rightarrow> u8 list \<Rightarrow> sys \<Rightarrow> sys" where
  "os_fill k bs s =
     upd_session k (\<lambda>ss. ss\<lparr>ss_recvQ := fill_blocks (ss_recvQ ss) (fst (ss_recvBufSize ss)) bs\<rparr>) s"

definition RecvExecutable_Execute :: "env \<Rightarrow> update_call \<Rightarrow> nat \<Rightarrow> u32 \<Rightarrow> sys \<Rightarrow> sys res" where
  "RecvExecutable_Execute e upd k transferred s =
     (let s1 = upd_session k (ss_recvQ_update (\<lambda>q. MoveRear q (sint transferred))) s; ss = sy_sessions s1 k
      in bind_res
           (if ss_groupId ss \<noteq> 0 \<and> \<not> ss_isHandled ss then
              bind_res (GroupManager_OnRecv e upd (ss_sessionId ss) (ss_groupId ss) transferred
                          (upd_session k (ss_setRecvHandled True) s1)) (\<lambda>(_, s2). Inr s2)
            else RecvHandler e upd (ss_staticKey ss \<noteq> 0) k s1)
           (RecvNotIncrease e upd k))"

subsection \<open>Completed sends\<close>

fun release_sending :: "addr option list \<Rightarrow> nat \<Rightarrow> sys \<Rightarrow> sys res" where
  "release_sending q 0 s = Inr s"
| "release_sending [] (Suc n) s = Inl OutOfBounds"
| "release_sending (None # q) (Suc n) s = Inl NullDeref"
| "release_sending (Some a # q) (Suc n) s = release_sending q n (buf_Release a s)"

definition PostSendExecutable_Execute :: "env \<Rightarrow> update_call \<Rightarrow> nat \<Rightarrow> sys \<Rightarrow> sys res" where
  "PostSendExecutable_Execute e upd k s =
     (let n = ss_dataNotSend (sy_sessions s k); s1 = increaseSendCount n s
      in bind_res (release_sending (ss_sendingQ (sy_sessions s1 k)) n s1) (\<lambda>s2.
         bind_res (TrySend e upd k (upd_session k
           (\<lambda>ss. ss\<lparr>ss_dataNotSend := 0, ss_needCheckSendTimeout := False, ss_isSending := False\<rparr>) s2)) (\<lambda>s3.
         bind_res (Release e upd k s3) (\<lambda>(_, s4). Inr s4))))"

definition SendExecutable_Execute :: "env \<Rightarrow> update_call \<Rightarrow> nat \<Rightarrow> sys \<Rightarrow> sys res" where
  "SendExecutable_Execute e upd k s = RealSend e upd k s"

subsection \<open>Releasing a slot\<close>

fun Reset_drain :: "nat \<Rightarrow> nat \<Rightarrow> sys \<Rightarrow> sys res" where
  "Reset_drain k 0 s = Inl OutOfFuel"
| "Reset_drain k (Suc n) s =
     bind_res (fq_Dequeue (ss_sendQ (sy_sessions s k))) (\<lambda>(r, q).
       (let s1 = upd_session k (ss_sendQ_update (\<lambda>_. q)) s
        in case r of None \<Rightarrow> Inr s1 | Some a \<Rightarrow> Reset_drain k n (buf_Release a s1)))"

definition Session_Reset :: "env \<Rightarrow> nat \<Rightarrow> sys \<Rightarrow> sys res" where
  "Session_Reset e k s =
     bind_res (Reset_drain k (en_fuel e) (upd_session k (\<lambda>ss. ss\<lparr>ss_recvQ := Ring_Clear (ss_recvQ ss),
         ss_isSending := False, ss_needCheckSendTimeout := False, ss_timeout := ss_defaultTimeout ss,
         ss_errCode := - 1\<rparr>) s)) (\<lambda>s1.
       (let n = ss_dataNotSend (sy_sessions s1 k);
            s2 = upd_session k (\<lambda>ss. ss\<lparr>ss_groupId := 0, ss_recvQ := Ring_Clear (ss_recvQ ss),
                   ss_dataNotSend := 0\<rparr>) s1
        in bind_res (release_sending (ss_sendingQ (sy_sessions s2 k)) n s2) (\<lambda>s3.
             (let s4 = upd_session k (\<lambda>ss. ss\<lparr>ss_sendingQ := replicate n None @ drop n (ss_sendingQ ss)\<rparr>) s3
              in Inr (emit (EvCloseSocket (ss_socket (sy_sessions s4 k))) (upd_session k ss_CloseSocket s4))))))"

definition IOCP_onDisconnect :: "env \<Rightarrow> SessionID \<Rightarrow> int \<Rightarrow> sys \<Rightarrow> sys res" where
  "IOCP_onDisconnect e i wsaErrCode s =
     cb_OnDisconnect e i wsaErrCode (emit (EvOnDisconnect i wsaErrCode)
       (s\<lparr>sy_sessionCount := sy_sessionCount s - 1, sy_disconnectCount := sy_disconnectCount s + 1\<rparr>))"

definition ReleaseFreeIndex :: "u16 \<Rightarrow> sys \<Rightarrow> sys" where
  "ReleaseFreeIndex i s = s\<lparr>sy_freeIndex := i # sy_freeIndex s\<rparr>"

definition GetFreeIndex :: "sys \<Rightarrow> u16 option \<times> sys" where
  "GetFreeIndex s =
     (case sy_freeIndex s of [] \<Rightarrow> (None, s) | i # is \<Rightarrow> (Some i, s\<lparr>sy_freeIndex := is\<rparr>))"

definition ReleaseExecutable_Execute :: "env \<Rightarrow> nat \<Rightarrow> sys \<Rightarrow> sys res" where
  "ReleaseExecutable_Execute e k s =
     bind_res (IOCP_onDisconnect e (ss_sessionId (sy_sessions s k)) (ss_errCode (sy_sessions s k)) s) (\<lambda>s1.
     bind_res (Session_Reset e k s1) (\<lambda>s2.
       Inr (ReleaseFreeIndex (of_nat (id_index (ss_sessionId (sy_sessions s2 k)))) s2)))"

subsection \<open>Accepting and connecting\<close>

text \<open>
  One round of \<^verbatim>\<open>AcceptThread\<close> for the socket \<^verbatim>\<open>accept\<close> returned and the error code it left; the
  boolean says whether the loop goes on. \<^verbatim>\<open>SetLinger\<close> has no effect on the modelled state.
\<close>

definition AcceptThread_step :: "env \<Rightarrow> update_call \<Rightarrow> SOCKET \<Rightarrow> int \<Rightarrow> sys \<Rightarrow> (bool \<times> sys) res" where
  "AcceptThread_step e upd clientSocket err s =
     (if clientSocket = INVALID_SOCKET then
        (if err = WSAEINTR then Inr (False, s) else Inl DebugBreak)
      else
        bind_res (cb_OnAccept e clientSocket s) (\<lambda>(accepted, s0).
          if \<not> accepted then bind_res (CancelIO e clientSocket s0) (\<lambda>s'. Inr (True, s'))
          else
            (let s1 = emit (EvSetNoDelay (sy_listenSocket s0)) (s0\<lparr>sy_acceptCount := sy_acceptCount s0 + 1\<rparr>);
                 (r, s2) = GetFreeIndex s1
             in case r of
                  None \<Rightarrow> bind_res (CancelIO e clientSocket s2) (\<lambda>s'. Inr (True, s'))
                | Some index \<Rightarrow>
                    (let n = sy_g_sessionId s2 + 1; i = make_SessionID n index; k = unat index
                     in bind_res (Session_Reset e k (s2\<lparr>sy_g_sessionId := n\<rparr>)) (\<lambda>s3.
                        (let s4 = upd_session k (ss_SetConnect \<circ> ss_OffReleaseFlag \<circ> ss_SetNetSession (sy_staticKey s3) \<circ>
                                    ss_SetSocket clientSocket \<circ> ss_SetSessionId i) (snd (IncreaseRef k s3))
                         in bind_res (cb_OnConnect e i (emit (EvOnConnect i) s4)) (\<lambda>s5.
                            bind_res (RecvNotIncrease e upd k s5) (\<lambda>s6.
                              Inr (True, s6\<lparr>sy_sessionCount := sy_sessionCount s6 + 1\<rparr>)))))))))"

text \<open>
  \<^verbatim>\<open>GetClientSession\<close>: \<open>junk\<close> is what the variable \<^verbatim>\<open>index\<close> holds when \<^verbatim>\<open>GetFreeIndex\<close> fails and does not set
  it; \<open>sock\<close> is the new socket and \<open>conn\<close> the error of \<^verbatim>\<open>connect\<close>, if any. The result is the error code
  or the new session id.
\<close>

definition GetClientSession ::
  "env \<Rightarrow> update_call \<Rightarrow> u16 \<Rightarrow> SOCKET \<Rightarrow> int option \<Rightarrow> int \<Rightarrow> sys \<Rightarrow> ((int + SessionID) \<times> sys) res" where
  "GetClientSession e upd junk sock conn lastError s =
     (let (r, s1) = GetFreeIndex s; index = (case r of None \<Rightarrow> junk | Some i \<Rightarrow> i)
      in if sock = INVALID_SOCKET then Inr (Inl lastError, emit (EvCloseSocket sock) (ReleaseFreeIndex index s1))
         else
           case conn of
             Some err \<Rightarrow> Inr (Inl err, ReleaseFreeIndex index (emit (EvCloseSocket sock) (emit (EvSetNoDelay sock) s1)))
           | None \<Rightarrow>
               (let k = unat index; n = sy_g_sessionId s1 + 1; i = make_SessionID n index
                in if k \<ge> MAX_SESSIONS then Inl OutOfBounds
                   else
                     (let s2 = upd_session k (ss_SetSocket sock)
                                 (emit (EvSetNoDelay sock) (s1\<lparr>sy_g_sessionId := n\<rparr>));
                          s3 = upd_session k (ss_SetNetSession (sy_staticKey s2) \<circ> ss_SetTimeout 0 \<circ> ss_SetConnect \<circ>
                                 ss_OffReleaseFlag \<circ> ss_SetSessionId i) (snd (IncreaseRef k s2))
                      in bind_res (RecvNotIncrease e upd k s3) (\<lambda>s4.
                           Inr (Inr i, s4\<lparr>sy_sessionCount := sy_sessionCount s4 + 1\<rparr>)))))"

subsection \<open>Timeouts and monitoring\<close>

definition CheckTimeout :: "env \<Rightarrow> update_call \<Rightarrow> nat \<Rightarrow> int \<Rightarrow> sys \<Rightarrow> (timeoutInfo option \<times> sys) res" where
  "CheckTimeout e upd k now s =
     (if ss_timeout (sy_sessions s k) = 0 then Inr (None, s)
      else if ss_released (sy_sessions s k) then Inr (None, s)
      else
        (let (r, s1) = IncreaseRef k s
         in if sint r \<ge> sint RELEASE_FLAG then bind_res (Release e upd k s1) (\<lambda>(_, s2). Inr (None, s2))
            else
              (let ret = ss_timeoutOf now (sy_sessions s1 k)
               in bind_res (Release e upd k s1) (\<lambda>(_, s2). Inr (ret, s2)))))"

fun TimeoutThread_scan :: "env \<Rightarrow> update_call \<Rightarrow> int \<Rightarrow> nat list \<Rightarrow> sys \<Rightarrow> sys res" where
  "TimeoutThread_scan e upd now [] s = Inr s"
| "TimeoutThread_scan e upd now (k # ks) s =
     bind_res (CheckTimeout e upd k now s) (\<lambda>(r, s1).
       case r of
         None \<Rightarrow> TimeoutThread_scan e upd now ks s1
       | Some info \<Rightarrow>
           (let i = ss_sessionId (sy_sessions s1 k)
            in bind_res (cb_OnSessionTimeout e i info (emit (EvOnSessionTimeout i info) s1)) (\<lambda>s2.
                 (let (now', s3) = clock_now e s2
                  in TimeoutThread_scan e upd now ks
                       ((upd_session k (ss_ResetTimeoutWait now') s3)
                          \<lparr>sy_timeoutSessions := sy_timeoutSessions s3 + 1\<rparr>)))))"

definition TimeoutThread_step :: "env \<Rightarrow> update_call \<Rightarrow> sys \<Rightarrow> sys res" where
  "TimeoutThread_step e upd s =
     (let (now, s1) = clock_now e s
      in if sy_checkTimeout s1 then TimeoutThread_scan e upd now [0..<MAX_SESSIONS] s1 else Inr s1)"

definition MonitorThread_step :: "sys \<Rightarrow> sys" where
  "MonitorThread_step s =
     s\<lparr>sy_acceptTps := sy_acceptCount s - sy_oldAcceptCount s, sy_oldAcceptCount := sy_acceptCount s,
       sy_disconnectps := sy_disconnectCount s - sy_oldDisconnect s, sy_oldDisconnect := sy_disconnectCount s,
       sy_recvTps := sy_recvCount s, sy_recvCount := 0, sy_sendTps := sy_sendCount s, sy_sendCount := 0\<rparr>"

subsection \<open>The worker\<close>

definition Execute :: "env \<Rightarrow> update_call \<Rightarrow> overlapped \<Rightarrow> nat option \<Rightarrow> u32 \<Rightarrow> sys \<Rightarrow> sys res" where
  "Execute e upd ov key transferred s =
     (case ov of
        OvGroup g \<Rightarrow> upd g s
      | _ \<Rightarrow>
          (case key of
             None \<Rightarrow> Inl NullDeref
           | Some k \<Rightarrow>
               (case ov of
                  OvRecv \<Rightarrow> RecvExecutable_Execute e upd k transferred s
                | OvPostSend \<Rightarrow> PostSendExecutable_Execute e upd k s
                | OvSend \<Rightarrow> SendExecutable_Execute e upd k s
                | _ \<Rightarrow> ReleaseExecutable_Execute e k s)))"

definition known_gqcs_error :: "int \<Rightarrow> bool" where
  "known_gqcs_error err \<longleftrightarrow> err \<in> {0, ERROR_NETNAME_DELETED, ERROR_SEM_TIMEOUT, WSA_OPERATION_ABORTED,
     ERROR_CONNECTION_ABORTED, ERROR_NOT_FOUND}"

text \<open>
  One round of \<^verbatim>\<open>WorkerThread\<close> for the completion \<^verbatim>\<open>GetQueuedCompletionStatus\<close> gave, its return value and
  the error code it left. The boolean says whether the loop goes on.
\<close>

definition WorkerThread_step :: "env \<Rightarrow> update_call \<Rightarrow> completion \<Rightarrow> bool \<Rightarrow> int \<Rightarrow> sys \<Rightarrow> (bool \<times> sys) res" where
  "WorkerThread_step e upd c ret err s =
     (case (cp_transferred c = 0, cp_key c) of
        (True, None) \<Rightarrow>
          Inr (False, PostQueuedCompletionStatus \<lparr>cp_transferred = 0, cp_key = None, cp_overlapped = None\<rparr> s)
      | (True, Some k) \<Rightarrow>
          if ret then bind_res (Release e upd k s) (\<lambda>(_, s'). Inr (True, s'))
          else if \<not> known_gqcs_error err then Inl DebugBreak
          else
            (let s1 = upd_session k (ss_SetErr err) s;
                 s2 = (if err = ERROR_SEM_TIMEOUT
                       then s1\<lparr>sy_tcpSemaphoreTimeout := sy_tcpSemaphoreTimeout s1 + 1\<rparr> else s1)
             in bind_res (Release e upd k s2) (\<lambda>(_, s'). Inr (True, s')))
      | (False, key) \<Rightarrow>
          (case cp_overlapped c of
             None \<Rightarrow> Inl NullDeref
           | Some ov \<Rightarrow> bind_res (Execute e upd ov key (cp_transferred c) s) (\<lambda>s'. Inr (True, s'))))"

end
