(* ===== verification/Recv_Path.thy ===== *)
theory Recv_Path
  imports Session_Refs Completion "HOL-Library.Sublist"
begin

section \<open>The receive path\<close>

text \<open>
  From bytes the operating system put into the ring to packets handed to the application:
  \<^verbatim>\<open>RecvExecutable::RecvHandler\<close> splits the stored bytes into packets, and over any sequence of
  completions the application gets the sender's packets in order, however the stream was cut.
\<close>

subsection \<open>A frame at the front of the ring, for both header types\<close>

definition frame :: "bool \<Rightarrow> u8 \<Rightarrow> u8 list \<Rightarrow> u8 list" where
  "frame net key p = (if net then net_frame key p else lan_frame p)"

lemma length_frame [simp]: "length (frame net key p) = length p + header_size net"
  by (simp add: frame_def header_size_def)

lemma NetHeader_of_take: "5 \<le> n \<Longrightarrow> NetHeader_of (take n bs) = NetHeader_of bs"
  by (simp add: NetHeader_of_def drop_take min_absorb1)

lemma LANHeader_of_take: "2 \<le> n \<Longrightarrow> LANHeader_of (take n bs) = LANHeader_of bs"
  by (simp add: LANHeader_of_def min_absorb1)

lemma header_len_take: "header_size net \<le> n \<Longrightarrow> header_len net (take n bs) = header_len net bs"
  by (auto simp: header_len_def header_size_def NetHeader_of_take LANHeader_of_take split: if_splits)

lemma header_len_frame: "header_len net (frame net key p @ rest) = of_nat (length p)"
  by (simp add: header_len_def frame_def NetHeader_of_net_frame LANHeader_of_lan_frame)

lemma code_frame: "nh_code (NetHeader_of (frame True key p @ rest)) = dfPACKET_CODE"
  by (simp add: frame_def NetHeader_of_net_frame)

lemma frame_at_front:
  assumes ok: "ring_ok r" and c: "content r = frame net key p @ behind"
  obtains hb r1 where "Ring_Peek r (header_size net) = Inr hb" and "header_len net hb = of_nat (length p)"
    and "net \<Longrightarrow> nh_code (NetHeader_of hb) = dfPACKET_CODE"
    and "Ring_Size r = length p + header_size net + length behind" and "length p < 8192"
    and "(if net then Ring_Decode r key else Inr r) = Inr r1"
    and "(if net then ChecksumValid r1 else Inr True) = Inr True"
    and "Ring_Dequeue r1 (int (header_size net)) = Inr (int (header_size net), MoveFront r1 (int (header_size net)))"
    and "ring_ok (MoveFront r1 (int (header_size net)))"
    and "content (MoveFront r1 (int (header_size net))) = p @ behind"
proof -
  let ?n = "header_size net" and ?hb = "take (header_size net) (content r)"
  have size: "Ring_Size r = length p + ?n + length behind" using c length_content [OF ok] by simp
  then have small: "length p < 8192" using ring_size_bound [of r] by simp
  have peek: "Ring_Peek r ?n = Inr ?hb" using Ring_Peek_content [OF ok, of ?n] size by simp
  have hl: "header_len net ?hb = of_nat (length p)"
    by (simp add: header_len_take) (simp add: c header_len_frame)
  have code: "nh_code (NetHeader_of ?hb) = dfPACKET_CODE" if net
    using that code_frame [of key p behind] c NetHeader_of_take [of 5 "content r"] by (simp add: header_size_def)
  obtain r1 where r1: "(if net then Ring_Decode r key else Inr r) = Inr r1" "ring_ok r1"
    "Ring_Size r1 = Ring_Size r" "(if net then ChecksumValid r1 else Inr True) = Inr True"
    "content (MoveFront r1 (int ?n)) = p @ behind"
  proof (cases net)
    case True
    then have "content r = net_frame key p @ behind" using c by (simp add: frame_def)
    then obtain r1 where "Ring_Decode r key = Inr r1" "ring_ok r1" "Ring_Size r1 = Ring_Size r"
      "ChecksumValid r1 = Inr True" "content (MoveFront r1 5) = p @ behind"
      using net_frame_at_front [OF ok] by metis
    then show ?thesis using that [of r1] True by (simp add: header_size_def)
  next
    case False
    then have "content r = lan_frame p @ behind" using c by (simp add: frame_def)
    then have "content (MoveFront r 2) = p @ behind" by (rule lan_frame_at_front(3) [OF ok])
    then show ?thesis using that [of r] False ok by (simp add: header_size_def)
  qed
  have "Ring_Dequeue r1 (int ?n) = Inr (int ?n, MoveFront r1 (int ?n))"
    using Ring_Dequeue_ok [of ?n r1] r1(3) size by simp
  then show ?thesis using that [OF peek hl code size small r1(1,4) _ _ r1(5)] r1(2) by simp
qed

subsection \<open>The end of the stored bytes\<close>

text \<open>Bytes in which no packet is complete, and which do not yet show a header the loop rejects.\<close>

definition incomplete :: "bool \<Rightarrow> nat \<Rightarrow> u8 list \<Rightarrow> bool" where
  "incomplete net maxLen bs \<longleftrightarrow> length bs < header_size net \<or>
     (length bs < unat (header_len net bs) + header_size net \<and>
      (net \<longrightarrow> nh_code (NetHeader_of bs) = dfPACKET_CODE \<and> unat (header_len net bs) \<le> maxLen))"

lemma incomplete_Nil [simp]: "incomplete net m []"
  by (simp add: incomplete_def header_size_def)

lemma incomplete_prefix:
  assumes "strict_prefix pre (frame net key p)" and "length p \<le> m" and "length p < 65536"
  shows "incomplete net m pre"
proof (cases "length pre < header_size net")
  case True
  then show ?thesis by (simp add: incomplete_def)
next
  case False
  obtain tl where tl: "frame net key p = pre @ tl" using assms(1) by (auto simp: strict_prefix_def prefix_def)
  have pre: "pre = take (length pre) (frame net key p @ [])" using tl by simp
  have "header_len net pre = of_nat (length p)"
    using False by (subst pre) (simp only: header_len_take header_len_frame not_less)
  then have hl: "unat (header_len net pre) = length p" using assms(3) by (simp add: unat_of_nat_u16)
  have "nh_code (NetHeader_of pre) = dfPACKET_CODE" if net
  proof -
    have "5 \<le> length pre" using False that by (simp add: header_size_def)
    then have "NetHeader_of (take (length pre) (frame net key p @ [])) = NetHeader_of (frame net key p @ [])"
      by (rule NetHeader_of_take)
    then show ?thesis using that code_frame [of key p "[]"] pre by metis
  qed
  moreover have "length pre < length p + header_size net"
    using assms(1) by (metis length_frame prefix_length_less)
  ultimately show ?thesis using hl assms(2) by (auto simp: incomplete_def)
qed

text \<open>Every initial part of a stream of frames is some whole frames and an initial part of the next one.\<close>

lemma prefix_of_frames:
  assumes "prefix pre (concat (map (frame net key) ps))"
  obtains qs ps' rest where "ps = qs @ ps'" and "pre = concat (map (frame net key) qs) @ rest"
    and "rest = [] \<or> (\<exists>p \<in> set ps. strict_prefix rest (frame net key p))"
  using assms
proof (induction ps arbitrary: pre thesis)
  case Nil
  then show ?case by simp
next
  case (Cons p ps)
  let ?f = "frame net key p"
  show ?case
  proof (cases "prefix ?f pre")
    case True
    then obtain pre' where pre': "pre = ?f @ pre'" by (auto simp: prefix_def)
    then have "prefix pre' (concat (map (frame net key) ps))" using Cons.prems(2) by simp
    then obtain qs ps' rest where q: "ps = qs @ ps'" "pre' = concat (map (frame net key) qs) @ rest"
      "rest = [] \<or> (\<exists>p \<in> set ps. strict_prefix rest (frame net key p))"
      using Cons.IH by blast
    show ?thesis by (rule Cons.prems(1) [of "p # qs" ps' rest]) (use q pre' in auto)
  next
    case False
    then have "strict_prefix pre ?f"
      using Cons.prems(2) by (metis concat.simps(2) list.simps(9) prefix_append prefix_order.order_iff_strict prefix_same_cases prefixI)
    then show ?thesis using Cons.prems(1) [of "[]" "p # ps" pre] by auto
  qed
qed

subsection \<open>The application's side\<close>

text \<open>
  \<open>packets_of i\<close> are the packets handed to the application for the session id \<open>i\<close>. \<open>rx_frame\<close> relates two
  states of a session that differ in nothing the receive path reads apart from the ring. An application
  \<open>reads_all\<close> when its callback reads each packet to the end and leaves the receive side of its session
  alone; it may send, keep state or work on other sessions.
\<close>

definition packets_of :: "SessionID \<Rightarrow> event list \<Rightarrow> u8 list list" where
  "packets_of i tr = concat (map (\<lambda>ev. case ev of EvOnRecvPacket j p \<Rightarrow> if j = i then [p] else [] | _ \<Rightarrow> []) tr)"

lemma packets_of_append [simp]: "packets_of i (xs @ ys) = packets_of i xs @ packets_of i ys"
  by (simp add: packets_of_def)

lemma packets_of_single [simp]:
  "packets_of i [EvOnRecvPacket i p] = [p]" "packets_of i [EvWSARecv k] = []" "packets_of i [] = []"
  by (simp_all add: packets_of_def)

definition rx_frame :: "Session \<Rightarrow> Session \<Rightarrow> bool" where
  "rx_frame x y \<longleftrightarrow> ss_sessionId y = ss_sessionId x \<and> ss_groupId y = ss_groupId x \<and> ss_connect y = ss_connect x \<and>
     ss_staticKey y = ss_staticKey x \<and> ss_maxPacketLen y = ss_maxPacketLen x \<and> ss_released y = ss_released x"

definition reads_all :: "env \<Rightarrow> nat \<Rightarrow> bool" where
  "reads_all e k \<longleftrightarrow> (\<forall>i b s. id_index i = k \<longrightarrow> rv_ok b (ss_recvQ (sy_sessions s k)) \<longrightarrow>
     (\<exists>b' s'. cb_OnRecvPacket e i b s = (None, b', s') \<and> rv_CanPopSize b' = 0 \<and>
        rx_frame (sy_sessions s k) (sy_sessions s' k) \<and>
        ss_recvQ (sy_sessions s' k) = MoveFront (ss_recvQ (sy_sessions s k)) (rv_CanPopSize b) \<and>
        packets_of i (sy_trace s') = packets_of i (sy_trace s)))"

lemma rx_frame_refl [simp]: "rx_frame x x"
  by (simp add: rx_frame_def)

lemma rx_frame_trans: "rx_frame x y \<Longrightarrow> rx_frame y z \<Longrightarrow> rx_frame x z"
  by (simp add: rx_frame_def)

lemma rx_frame_recvQ [simp]:
  "rx_frame x (y\<lparr>ss_recvQ := q\<rparr>) = rx_frame x y" "rx_frame (x\<lparr>ss_recvQ := q\<rparr>) y = rx_frame x y"
  by (simp_all add: rx_frame_def ss_released_def)

lemma reads_all_quiet_env: "reads_all quiet_env k"
  unfolding reads_all_def
proof (intro allI impI)
  fix i b and s :: sys
  assume "id_index i = k" and "rv_ok b (ss_recvQ (sy_sessions s k))"
  then show "\<exists>b' s'. cb_OnRecvPacket quiet_env i b s = (None, b', s') \<and> rv_CanPopSize b' = 0 \<and>
        rx_frame (sy_sessions s k) (sy_sessions s' k) \<and>
        ss_recvQ (sy_sessions s' k) = MoveFront (ss_recvQ (sy_sessions s k)) (rv_CanPopSize b) \<and>
        packets_of i (sy_trace s') = packets_of i (sy_trace s)"
    by (auto simp: quiet_env_def rv_CanPopSize_def rx_frame_def ss_released_def)
qed

subsection \<open>One packet\<close>

lemma ucast_of_nat_u16: "n < 65536 \<Longrightarrow> (ucast (of_nat n :: u16) :: i32) = of_nat n"
  by (simp add: word_unat_eq_iff unsigned_ucast_eq take_bit_eq_mod unat_of_nat)

lemma RecvHandler_step:
  assumes ra: "reads_all e k" and g: "ss_groupId (sy_sessions s k) = 0"
    and i: "id_index (ss_sessionId (sy_sessions s k)) = k" and ok: "ring_ok (ss_recvQ (sy_sessions s k))"
    and c: "content (ss_recvQ (sy_sessions s k)) = frame net (ss_staticKey (sy_sessions s k)) p @ behind"
    and m: "net \<Longrightarrow> length p \<le> unat (ss_maxPacketLen (sy_sessions s k))"
  obtains s' where "RecvHandler_loop e upd net k (Suc n) lc s = RecvHandler_loop e upd net k n (Suc lc) s'"
    and "rx_frame (sy_sessions s k) (sy_sessions s' k)" and "ring_ok (ss_recvQ (sy_sessions s' k))"
    and "content (ss_recvQ (sy_sessions s' k)) = behind"
    and "packets_of (ss_sessionId (sy_sessions s k)) (sy_trace s')
       = packets_of (ss_sessionId (sy_sessions s k)) (sy_trace s) @ [p]"
proof -
  let ?x = "sy_sessions s k" and ?r = "ss_recvQ (sy_sessions s k)" and ?n = "header_size net"
  let ?b = "new_CRecvBuffer (of_nat (length p))"
  obtain hb r1 where h: "Ring_Peek ?r ?n = Inr hb" "header_len net hb = of_nat (length p)"
    "net \<Longrightarrow> nh_code (NetHeader_of hb) = dfPACKET_CODE" "Ring_Size ?r = length p + ?n + length behind"
    "length p < 8192" "(if net then Ring_Decode ?r (ss_staticKey ?x) else Inr ?r) = Inr r1"
    "(if net then ChecksumValid r1 else Inr True) = Inr True"
    "Ring_Dequeue r1 (int ?n) = Inr (int ?n, MoveFront r1 (int ?n))" "ring_ok (MoveFront r1 (int ?n))"
    "content (MoveFront r1 (int ?n)) = p @ behind"
    using frame_at_front [OF ok c] by metis
  let ?r2 = "MoveFront r1 (int ?n)"
  let ?s2 = "upd_session k (ss_recvQ_update (\<lambda>_. ?r2)) (upd_session k (ss_recvQ_update (\<lambda>_. r1)) s)"
  let ?s3 = "emit (EvOnRecvPacket (ss_sessionId ?x) p) ?s2"
  have rv: "rv_ok ?b ?r2" and view: "rv_view ?b ?r2 = p"
    using rv_ok_new [OF h(9,10)] rv_view_new [OF h(10)] h(5) by simp_all
  have cp: "rv_CanPopSize ?b = int (length p)"
    using h(5) by (simp add: rv_CanPopSize_def new_CRecvBuffer_def sint_of_nat_small)
  obtain b' s' where cb: "cb_OnRecvPacket e (ss_sessionId ?x) ?b ?s3 = (None, b', s')" "rv_CanPopSize b' = 0"
    "rx_frame ?x (sy_sessions s' k)" "ss_recvQ (sy_sessions s' k) = MoveFront ?r2 (int (length p))"
    "packets_of (ss_sessionId ?x) (sy_trace s') = packets_of (ss_sessionId ?x) (sy_trace s) @ [p]"
    using ra [unfolded reads_all_def, rule_format, of "ss_sessionId ?x" ?b ?s3] i rv cp by auto
  have on: "IOCP_onRecvPacket e upd k ?b ?s2 = Inr (b', s')"
    using cb view by (simp add: IOCP_onRecvPacket_def)
  have u: "unat (of_nat (length p) :: u16) = length p" "(ucast (of_nat (length p) :: u16) :: i32) = of_nat (length p)"
    using h(5) by (simp_all add: unat_of_nat_u16 ucast_of_nat_u16)
  have "RecvHandler_loop e upd net k (Suc n) lc s = RecvHandler_loop e upd net k n (Suc lc) s'"
    using g h m on cb(2) by (cases net) (simp_all add: Let_def u not_less del: upd_session_upd_session)
  moreover have "ring_ok (ss_recvQ (sy_sessions s' k))" using cb(4) h(9) by simp
  moreover have "content (ss_recvQ (sy_sessions s' k)) = behind"
    using cb(4) content_MoveFront [OF h(9), of "length p"] h(10) length_content [OF h(9)] by simp
  ultimately show ?thesis using that cb by blast
qed

lemma RecvHandler_stop:
  assumes "ring_ok (ss_recvQ (sy_sessions s k))"
    and "incomplete net (unat (ss_maxPacketLen (sy_sessions s k))) (content (ss_recvQ (sy_sessions s k)))"
  shows "RecvHandler_loop e upd net k (Suc n) lc s = Inr (lc, s)"
proof (cases "Ring_Size (ss_recvQ (sy_sessions s k)) < header_size net")
  case True
  then show ?thesis by (simp add: Let_def)
next
  case False
  let ?r = "ss_recvQ (sy_sessions s k)" and ?n = "header_size net"
  have pk: "Ring_Peek ?r ?n = Inr (take ?n (content ?r))" using Ring_Peek_content [OF assms(1)] False by simp
  have "NetHeader_of (take ?n (content ?r)) = NetHeader_of (content ?r)" if net
    using that by (simp add: header_size_def NetHeader_of_take)
  then show ?thesis
    using False assms(2) pk length_content [OF assms(1)] by (auto simp: incomplete_def Let_def header_len_take)
qed

subsection \<open>All packets of the ring\<close>

lemma RecvHandler_loop_prefix:
  assumes ra: "reads_all e k"
    and "ss_groupId (sy_sessions s k) = 0" and "id_index (ss_sessionId (sy_sessions s k)) = k"
    and "ring_ok (ss_recvQ (sy_sessions s k))"
    and "content (ss_recvQ (sy_sessions s k)) = concat (map (frame net (ss_staticKey (sy_sessions s k))) ps) @ rest"
    and "\<And>p. p \<in> set ps \<Longrightarrow> net \<Longrightarrow> length p \<le> unat (ss_maxPacketLen (sy_sessions s k))"
  shows "\<exists>s'. RecvHandler_loop e upd net k (length ps + n) lc s = RecvHandler_loop e upd net k n (lc + length ps) s' \<and>
    rx_frame (sy_sessions s k) (sy_sessions s' k) \<and> ring_ok (ss_recvQ (sy_sessions s' k)) \<and>
    content (ss_recvQ (sy_sessions s' k)) = rest \<and>
    packets_of (ss_sessionId (sy_sessions s k)) (sy_trace s')
      = packets_of (ss_sessionId (sy_sessions s k)) (sy_trace s) @ ps"
  using assms(2-)
proof (induction ps arbitrary: s lc)
  case Nil
  then show ?case by (auto simp del: RecvHandler_loop.simps)
next
  case (Cons p ps)
  let ?x = "sy_sessions s k"
  have "content (ss_recvQ ?x) = frame net (ss_staticKey ?x) p @ concat (map (frame net (ss_staticKey ?x)) ps) @ rest"
    using Cons.prems(4) by simp
  moreover have "length p \<le> unat (ss_maxPacketLen ?x)" if net using Cons.prems(5) that by simp
  ultimately obtain s1 where s1: "RecvHandler_loop e upd net k (Suc (length ps + n)) lc s = RecvHandler_loop e upd net k (length ps + n) (Suc lc) s1"
    "rx_frame ?x (sy_sessions s1 k)" "ring_ok (ss_recvQ (sy_sessions s1 k))"
    "content (ss_recvQ (sy_sessions s1 k)) = concat (map (frame net (ss_staticKey ?x)) ps) @ rest"
    "packets_of (ss_sessionId ?x) (sy_trace s1) = packets_of (ss_sessionId ?x) (sy_trace s) @ [p]"
    using RecvHandler_step [OF ra Cons.prems(1-3)] by metis
  have x1: "ss_groupId (sy_sessions s1 k) = 0" "ss_sessionId (sy_sessions s1 k) = ss_sessionId ?x"
    "ss_staticKey (sy_sessions s1 k) = ss_staticKey ?x" "ss_maxPacketLen (sy_sessions s1 k) = ss_maxPacketLen ?x"
    using s1(2) Cons.prems(1) by (simp_all add: rx_frame_def)
  have "\<exists>s'. RecvHandler_loop e upd net k (length ps + n) (Suc lc) s1 = RecvHandler_loop e upd net k n (Suc lc + length ps) s' \<and>
    rx_frame (sy_sessions s1 k) (sy_sessions s' k) \<and> ring_ok (ss_recvQ (sy_sessions s' k)) \<and>
    content (ss_recvQ (sy_sessions s' k)) = rest \<and>
    packets_of (ss_sessionId (sy_sessions s1 k)) (sy_trace s')
      = packets_of (ss_sessionId (sy_sessions s1 k)) (sy_trace s1) @ ps"
    using Cons.prems by (intro Cons.IH) (simp_all add: x1 s1)
  then show ?case using s1 x1 rx_frame_trans [OF s1(2)] by (auto simp del: RecvHandler_loop.simps)
qed

lemma RecvHandler_loop_frames:
  assumes ra: "reads_all e k"
    and "ss_groupId (sy_sessions s k) = 0" and "id_index (ss_sessionId (sy_sessions s k)) = k"
    and "ring_ok (ss_recvQ (sy_sessions s k))"
    and "content (ss_recvQ (sy_sessions s k)) = concat (map (frame net (ss_staticKey (sy_sessions s k))) ps) @ rest"
    and "\<And>p. p \<in> set ps \<Longrightarrow> net \<Longrightarrow> length p \<le> unat (ss_maxPacketLen (sy_sessions s k))"
    and inc: "incomplete net (unat (ss_maxPacketLen (sy_sessions s k))) rest" and "length ps < n"
  shows "\<exists>s'. RecvHandler_loop e upd net k n lc s = Inr (lc + length ps, s') \<and>
    rx_frame (sy_sessions s k) (sy_sessions s' k) \<and> ring_ok (ss_recvQ (sy_sessions s' k)) \<and>
    content (ss_recvQ (sy_sessions s' k)) = rest \<and>
    packets_of (ss_sessionId (sy_sessions s k)) (sy_trace s')
      = packets_of (ss_sessionId (sy_sessions s k)) (sy_trace s) @ ps"
proof -
  obtain m where n: "n = length ps + Suc m" using assms(8) by (metis add_Suc_right less_imp_Suc_add)
  obtain s' where s': "RecvHandler_loop e upd net k n lc s = RecvHandler_loop e upd net k (Suc m) (lc + length ps) s'"
      "rx_frame (sy_sessions s k) (sy_sessions s' k)" "ring_ok (ss_recvQ (sy_sessions s' k))" "content (ss_recvQ (sy_sessions s' k)) = rest"
      "packets_of (ss_sessionId (sy_sessions s k)) (sy_trace s') = packets_of (ss_sessionId (sy_sessions s k)) (sy_trace s) @ ps"
    using RecvHandler_loop_prefix [OF assms(1-6), of upd "Suc m" lc] n by auto
  have "RecvHandler_loop e upd net k (Suc m) (lc + length ps) s' = Inr (lc + length ps, s')"
    using s'(2-4) inc by (intro RecvHandler_stop) (simp_all add: rx_frame_def)
  then show ?thesis using s' by metis
qed

lemma IncreaseRecvCount_sel [simp]:
  "sy_sessions (IncreaseRecvCount n s) = sy_sessions s" "sy_trace (IncreaseRecvCount n s) = sy_trace s"
  "sy_port (IncreaseRecvCount n s) = sy_port s" "sy_bufs (IncreaseRecvCount n s) = sy_bufs s"
  by (simp_all add: IncreaseRecvCount_def split: prod.splits)

subsection \<open>Completions\<close>

text \<open>A session with a receive outstanding: the state between two completions.\<close>

definition receiving :: "env \<Rightarrow> nat \<Rightarrow> sys \<Rightarrow> bool" where
  "receiving e k s \<longleftrightarrow> id_index (ss_sessionId (sy_sessions s k)) = k \<and> ss_groupId (sy_sessions s k) = 0 \<and>
     ss_connect (sy_sessions s k) \<and> \<not> ss_released (sy_sessions s k) \<and> ring_ok (ss_recvQ (sy_sessions s k)) \<and>
     DirectEnqueueSize (en_dbg e) (ss_recvQ (sy_sessions s k)) = Inr (fst (ss_recvBufSize (sy_sessions s k)))"

lemma RecvNotIncrease_receiving:
  assumes "id_index (ss_sessionId (sy_sessions s k)) = k" and "ss_groupId (sy_sessions s k) = 0"
    and "ss_connect (sy_sessions s k)" and "\<not> ss_released (sy_sessions s k)" and "ring_ok (ss_recvQ (sy_sessions s k))"
    and "0 < FreeSize (ss_recvQ (sy_sessions s k))" and os: "\<And>n. os_WSARecv e n \<in> {None, Some WSA_IO_PENDING}"
  shows "\<exists>s'. RecvNotIncrease e upd k s = Inr s' \<and> receiving e k s' \<and> rx_frame (sy_sessions s k) (sy_sessions s' k) \<and>
    ss_recvQ (sy_sessions s' k) = ss_recvQ (sy_sessions s k) \<and> sy_trace s' = sy_trace s @ [EvWSARecv k] \<and>
    refs s' k = refs s k \<and> ss_socket (sy_sessions s' k) = ss_socket (sy_sessions s k) \<and> sy_freeIndex s' = sy_freeIndex s"
proof -
  let ?q = "ss_recvQ (sy_sessions s k)"
  let ?l = "min (FreeSize ?q) (BUFFER_SIZE - GetIndex (rb_rear ?q))"
  have pos: "0 < ?l" using assms(6) GetIndex_less [of "rb_rear ?q"] by simp
  have "os_WSARecv e (sy_ios s) = None \<or> os_WSARecv e (sy_ios s) = Some WSA_IO_PENDING" using os by auto
  then show ?thesis
    using assms(1-6) pos
    by (elim disjE) (auto simp: RecvNotIncrease_def DirectEnqueueSize_min clock_now_def io_call_def Let_def
        receiving_def rx_frame_def ss_released_def comp_def)
qed

text \<open>One completion of \<open>bs\<close> bytes: the operating system filled the ring, then the worker runs the handler.\<close>

definition recv_round :: "env \<Rightarrow> update_call \<Rightarrow> nat \<Rightarrow> u8 list \<Rightarrow> sys \<Rightarrow> (bool \<times> sys) res" where
  "recv_round e upd k bs s =
     WorkerThread_step e upd \<lparr>cp_transferred = of_nat (length bs), cp_key = Some k, cp_overlapped = Some OvRecv\<rparr>
       True 0 (os_fill k bs s)"

fun recv_rounds :: "env \<Rightarrow> update_call \<Rightarrow> nat \<Rightarrow> u8 list list \<Rightarrow> sys \<Rightarrow> sys res" where
  "recv_rounds e upd k [] s = Inr s"
| "recv_rounds e upd k (bs # chunks) s =
     bind_res (recv_round e upd k bs s) (\<lambda>(_, s'). recv_rounds e upd k chunks s')"

text \<open>What a completion starts with: the bytes are in the ring, then the handler runs and the next receive is posted.\<close>

lemma recv_round_filled:
  assumes rec: "receiving e k s" and len: "0 < length bs" "length bs \<le> FreeSize (ss_recvQ (sy_sessions s k))"
  obtains s1 q1 where "sy_sessions s1 k = (sy_sessions s k)\<lparr>ss_recvQ := q1\<rparr>" and "sy_trace s1 = sy_trace s"
    and "ring_ok q1" and "content q1 = content (ss_recvQ (sy_sessions s k)) @ bs" and "sy_ios s1 = sy_ios s"
    and "recv_round e upd k bs s =
      bind_res (RecvHandler e upd (ss_staticKey (sy_sessions s k) \<noteq> 0) k s1) (\<lambda>s2.
      bind_res (RecvNotIncrease e upd k s2) (\<lambda>s'. Inr (True, s')))"
proof -
  let ?x = "sy_sessions s k" and ?q = "ss_recvQ (sy_sessions s k)"
  let ?q1 = "MoveRear (fill_blocks ?q (fst (ss_recvBufSize ?x)) bs) (int (length bs))"
  define s1 where "s1 = upd_session k (ss_recvQ_update (\<lambda>q. MoveRear q (int (length bs)))) (os_fill k bs s)"
  have ok: "ring_ok ?q" and de: "DirectEnqueueSize (en_dbg e) ?q = Inr (fst (ss_recvBufSize ?x))"
    using rec by (simp_all add: receiving_def)
  have bound: "length bs < 8192" using len(2) FreeSize_plus_Size [of ?q] by (simp add: BUFFER_SIZE_def)
  have tr: "sint (of_nat (length bs) :: u32) = int (length bs)" using bound by (intro i32_of_nat_small) simp
  have nz: "(of_nat (length bs) :: u32) \<noteq> 0" using tr len(1) by (metis of_nat_0_less_iff sint_0 less_irrefl)
  have x1: "sy_sessions s1 k = ?x\<lparr>ss_recvQ := ?q1\<rparr>" by (simp add: s1_def os_fill_def)
  have tr1: "sy_trace s1 = sy_trace s" "sy_ios s1 = sy_ios s" by (simp_all add: s1_def os_fill_def)
  have q1: "content ?q1 = content ?q @ bs" "ring_ok ?q1"
    using content_fill_MoveRear [OF ok len(2) de] by simp_all
  have "recv_round e upd k bs s = bind_res (RecvHandler e upd (ss_staticKey ?x \<noteq> 0) k s1) (\<lambda>s2.
      bind_res (RecvNotIncrease e upd k s2) (\<lambda>s'. Inr (True, s')))"
    using nz tr rec
    by (simp add: recv_round_def WorkerThread_step_def Execute_def RecvExecutable_Execute_def Let_def receiving_def s1_def os_fill_def
        bind_res_assoc)
  then show ?thesis using that [OF x1 tr1(1) q1(2,1) tr1(2)] by simp
qed

lemma recv_round_frames:
  assumes ra: "reads_all e k" and rec: "receiving e k s" and os: "\<And>n. os_WSARecv e n \<in> {None, Some WSA_IO_PENDING}"
    and len: "0 < length bs" "length bs \<le> FreeSize (ss_recvQ (sy_sessions s k))"
    and net: "net = (ss_staticKey (sy_sessions s k) \<noteq> 0)"
    and c: "content (ss_recvQ (sy_sessions s k)) @ bs = concat (map (frame net (ss_staticKey (sy_sessions s k))) ps) @ rest"
    and m: "\<And>p. p \<in> set ps \<Longrightarrow> net \<Longrightarrow> length p \<le> unat (ss_maxPacketLen (sy_sessions s k))"
    and inc: "incomplete net (unat (ss_maxPacketLen (sy_sessions s k))) rest" and "length rest < 8191"
    and fuel: "length ps < en_fuel e"
  shows "\<exists>s'. recv_round e upd k bs s = Inr (True, s') \<and> receiving e k s' \<and>
    rx_frame (sy_sessions s k) (sy_sessions s' k) \<and> content (ss_recvQ (sy_sessions s' k)) = rest \<and>
    packets_of (ss_sessionId (sy_sessions s k)) (sy_trace s')
      = packets_of (ss_sessionId (sy_sessions s k)) (sy_trace s) @ ps"
proof -
  let ?x = "sy_sessions s k"
  obtain s1 q1 where s1: "sy_sessions s1 k = ?x\<lparr>ss_recvQ := q1\<rparr>" "sy_trace s1 = sy_trace s" "ring_ok q1"
      "content q1 = content (ss_recvQ ?x) @ bs" "recv_round e upd k bs s =
      bind_res (RecvHandler e upd net k s1) (\<lambda>s2. bind_res (RecvNotIncrease e upd k s2) (\<lambda>s'. Inr (True, s')))"
    unfolding net by (rule recv_round_filled [OF rec len, of upd])
  have "\<exists>s'. RecvHandler_loop e upd net k (en_fuel e) 0 s1 = Inr (0 + length ps, s') \<and>
    rx_frame (sy_sessions s1 k) (sy_sessions s' k) \<and> ring_ok (ss_recvQ (sy_sessions s' k)) \<and>
    content (ss_recvQ (sy_sessions s' k)) = rest \<and>
    packets_of (ss_sessionId (sy_sessions s1 k)) (sy_trace s')
      = packets_of (ss_sessionId (sy_sessions s1 k)) (sy_trace s1) @ ps"
    by (rule RecvHandler_loop_frames [OF ra])
      (use rec c m inc fuel s1(3,4) in \<open>simp_all only: s1(1) Session.simps, simp_all add: receiving_def\<close>)
  then obtain s2 where s2: "RecvHandler_loop e upd net k (en_fuel e) 0 s1 = Inr (length ps, s2)"
    "rx_frame ?x (sy_sessions s2 k)" "ring_ok (ss_recvQ (sy_sessions s2 k))" "content (ss_recvQ (sy_sessions s2 k)) = rest"
    "packets_of (ss_sessionId ?x) (sy_trace s2) = packets_of (ss_sessionId ?x) (sy_trace s) @ ps"
    by (auto simp: s1(1,2))
  define s3 where "s3 = (if length ps > 0 then IncreaseRecvCount (length ps) s2 else s2)"
  have h: "RecvHandler e upd net k s1 = Inr s3" using s2(1) by (simp add: RecvHandler_def s3_def)
  have s3: "sy_sessions s3 = sy_sessions s2" "sy_trace s3 = sy_trace s2" by (simp_all add: s3_def)
  have "Ring_Size (ss_recvQ (sy_sessions s2 k)) < 8191" using s2(3,4) assms(10) length_content by metis
  then have "0 < FreeSize (ss_recvQ (sy_sessions s3 k))" by (simp add: s3 FreeSize_def BUFFER_SIZE_def)
  then obtain s4 where s4: "RecvNotIncrease e upd k s3 = Inr s4" "receiving e k s4"
    "rx_frame (sy_sessions s3 k) (sy_sessions s4 k)" "ss_recvQ (sy_sessions s4 k) = ss_recvQ (sy_sessions s3 k)"
    "sy_trace s4 = sy_trace s3 @ [EvWSARecv k]"
    using RecvNotIncrease_receiving [of s3 k e upd] s2(2,3) s3 os rec by (auto simp: receiving_def rx_frame_def)
  have "recv_round e upd k bs s = Inr (True, s4)" using s1(5) h s4(1) by simp
  then show ?thesis using s2 s3 s4 rx_frame_trans [OF s2(2)] by auto
qed

text \<open>
  The theorem on streams: payloads of at most 2048 bytes (the most a \<^verbatim>\<open>CSendBuffer\<close> holds), chunks of at most
  6138 bytes, so that the offered room of the ring is never exceeded.
\<close>

lemma incomplete_frames_Nil:
  assumes "incomplete net m (concat (map (frame net key) ps))" and "\<And>p. p \<in> set ps \<Longrightarrow> length p < 65536"
  shows "ps = []"
proof (cases ps)
  case (Cons p ps')
  let ?rest = "concat (map (frame net key) ps')"
  have "unat (header_len net (frame net key p @ ?rest)) = length p"
    using assms(2) [of p] Cons by (simp add: header_len_frame unat_of_nat_u16)
  then show ?thesis using assms(1) Cons by (simp add: incomplete_def)
qed simp

lemma recv_rounds_stream:
  assumes ra: "reads_all e k" and os: "\<And>n. os_WSARecv e n \<in> {None, Some WSA_IO_PENDING}"
    and fuel: "length ps < en_fuel e" and small: "\<And>p. p \<in> set ps \<Longrightarrow> length p \<le> 2048"
    and "receiving e k s" and "net = (ss_staticKey (sy_sessions s k) \<noteq> 0)" and "2048 \<le> unat (ss_maxPacketLen (sy_sessions s k))"
    and "\<And>bs. bs \<in> set chunks \<Longrightarrow> bs \<noteq> [] \<and> length bs \<le> 6138"
    and "content (ss_recvQ (sy_sessions s k)) @ concat chunks = concat (map (frame net (ss_staticKey (sy_sessions s k))) ps)"
    and "length (content (ss_recvQ (sy_sessions s k))) \<le> 2052"
    and "incomplete net (unat (ss_maxPacketLen (sy_sessions s k))) (content (ss_recvQ (sy_sessions s k)))"
  shows "\<exists>s'. recv_rounds e upd k chunks s = Inr s' \<and> receiving e k s' \<and> rx_frame (sy_sessions s k) (sy_sessions s' k) \<and>
    content (ss_recvQ (sy_sessions s' k)) = [] \<and>
    packets_of (ss_sessionId (sy_sessions s k)) (sy_trace s')
      = packets_of (ss_sessionId (sy_sessions s k)) (sy_trace s) @ ps"
  using assms(3-)
proof (induction chunks arbitrary: s ps)
  case Nil
  have "incomplete net (unat (ss_maxPacketLen (sy_sessions s k))) (concat (map (frame net (ss_staticKey (sy_sessions s k))) ps))"
    using Nil.prems(7,9) by simp
  moreover have "length p < 65536" if "p \<in> set ps" for p using Nil.prems(2) [OF that] by simp
  ultimately have "ps = []" by (rule incomplete_frames_Nil)
  then show ?case using Nil.prems by simp
next
  case (Cons bs chunks)
  let ?x = "sy_sessions s k" and ?F = "frame net (ss_staticKey (sy_sessions s k))"
  have "prefix (content (ss_recvQ ?x) @ bs) (concat (map ?F ps))"
    using Cons.prems(7) by (metis append_assoc concat.simps(2) prefixI)
  then obtain qs ps' rest where q: "ps = qs @ ps'" "content (ss_recvQ ?x) @ bs = concat (map ?F qs) @ rest"
    "rest = [] \<or> (\<exists>p \<in> set ps. strict_prefix rest (?F p))"
    using prefix_of_frames by metis
  have rest_ok: "length rest \<le> 2052 \<and> incomplete net (unat (ss_maxPacketLen ?x)) rest"
  proof (cases "rest = []")
    case False
    then obtain p where p: "p \<in> set ps" "strict_prefix rest (?F p)" using q(3) by blast
    have "length rest < length p + header_size net" using prefix_length_less [OF p(2)] by simp
    moreover have "incomplete net (unat (ss_maxPacketLen ?x)) rest"
      using Cons.prems(2) [OF p(1)] Cons.prems(5) by (intro incomplete_prefix [OF p(2)]) simp_all
    ultimately show ?thesis using Cons.prems(2) [OF p(1)] by (simp add: header_size_def split: if_splits)
  qed simp
  then have rl: "length rest \<le> 2052" and inc: "incomplete net (unat (ss_maxPacketLen ?x)) rest" by simp_all
  have ok: "ring_ok (ss_recvQ ?x)" using Cons.prems(3) by (simp add: receiving_def)
  have bs: "0 < length bs" "length bs \<le> FreeSize (ss_recvQ ?x)"
    using Cons.prems(6) [of bs] Cons.prems(8) length_content [OF ok] by (auto simp: FreeSize_def BUFFER_SIZE_def)
  have m: "length p \<le> unat (ss_maxPacketLen ?x)" if "p \<in> set qs" for p
    using Cons.prems(2) [of p] Cons.prems(5) q(1) that by simp
  have lr: "length rest < 8191" and lq: "length qs < en_fuel e" using rl q(1) Cons.prems(1) by simp_all
  obtain s1 where s1: "recv_round e upd k bs s = Inr (True, s1)" "receiving e k s1" "rx_frame ?x (sy_sessions s1 k)"
    "content (ss_recvQ (sy_sessions s1 k)) = rest"
    "packets_of (ss_sessionId ?x) (sy_trace s1) = packets_of (ss_sessionId ?x) (sy_trace s) @ qs"
    using recv_round_frames [OF ra Cons.prems(3) os bs Cons.prems(4) q(2) m inc lr lq] by blast
  have x1: "ss_staticKey (sy_sessions s1 k) = ss_staticKey ?x" "ss_maxPacketLen (sy_sessions s1 k) = ss_maxPacketLen ?x"
    "ss_sessionId (sy_sessions s1 k) = ss_sessionId ?x" using s1(3) by (simp_all add: rx_frame_def)
  have "concat (map ?F qs) @ rest @ concat chunks = concat (map ?F qs) @ concat (map ?F ps')"
    using Cons.prems(7) q(1,2) by (metis append_assoc concat.simps(2) concat_append map_append)
  then have rest: "rest @ concat chunks = concat (map ?F ps')" by simp
  have small': "length p \<le> 2048" if "p \<in> set ps'" for p using Cons.prems(2) q(1) that by simp
  obtain s' where "recv_rounds e upd k chunks s1 = Inr s'" "receiving e k s'"
    "rx_frame (sy_sessions s1 k) (sy_sessions s' k)" "content (ss_recvQ (sy_sessions s' k)) = []"
    "packets_of (ss_sessionId ?x) (sy_trace s') = packets_of (ss_sessionId ?x) (sy_trace s1) @ ps'"
    using Cons.IH [of ps' s1] Cons.prems(1,4,5,6) small' rl rest inc q(1) s1(2,4) x1 by auto
  then show ?case using s1 q(1) rx_frame_trans [OF s1(3)] by (intro exI [of _ s']) simp
qed

subsection \<open>Properties\<close>


lemma one_session_receiving: "receiving quiet_env 0 one_session"
  using new_ring_sizes(2) by (simp add: receiving_def one_session_slot new_Session_def id_index_def ss_released_def)


end
