(* ===== verification/Send_Path.thy ===== *)
theory Send_Path
  imports Recv_Path
begin

section \<open>The send path\<close>

text \<open>
  From \<^verbatim>\<open>SendPacket\<close> through the session's queue and \<^verbatim>\<open>RealSend\<close> to \<^verbatim>\<open>WSASend\<close> and the completion that
  releases the buffers (\<^verbatim>\<open>PostSendExecutable\<close>): at most one send is in flight, the packets leave in the order
  they were queued, and every reference taken on the way is given back.
\<close>

lemma released_of_nat: "refs s k = of_nat c \<Longrightarrow> c < 2 ^ 20 \<Longrightarrow> \<not> ss_released (sy_sessions s k)"
  using i32_of_nat_small(2) [of c] by (simp add: ss_released_def)

subsection \<open>Queueing a packet\<close>

abbreviation sendq :: "sys \<Rightarrow> nat \<Rightarrow> addr LockFreeFixedQueue" where
  "sendq s k \<equiv> ss_sendQ (sy_sessions s k)"

definition send_completion :: "nat \<Rightarrow> completion" where
  "send_completion k = \<lparr>cp_transferred = - 1, cp_key = Some k, cp_overlapped = Some OvSend\<rparr>"

definition more_refs :: "addr list \<Rightarrow> (addr \<Rightarrow> CSendBuffer) \<Rightarrow> addr \<Rightarrow> CSendBuffer" where
  "more_refs as h a = (h a)\<lparr>sb_refCount := sb_refCount (h a) + of_nat (count_list as a)\<rparr>"

lemma more_refs_Nil [simp]: "more_refs [] h = h"
  by (simp add: more_refs_def fun_eq_iff)

lemma more_refs_IncreaseRef: "more_refs as (h(a := snd (sb_IncreaseRef (h a)))) = more_refs (a # as) h"
  by (auto simp: more_refs_def fun_eq_iff sb_IncreaseRef_def algebra_simps)

lemma SendPacket_queues:
  assumes l: "live s k i c" and con: "ss_connect (sy_sessions s k)" and q: "fq_ok (sendq s k)"
    and room: "length (fq_elems (sendq s k)) < fq_cap (sendq s k)" and data: "sb_GetDataSize (sy_bufs s a) \<noteq> 0"
  shows "\<exists>q' s'. SendPacket e upd i a s = Inr (True, s') \<and> fq_ok q' \<and> fq_elems q' = fq_elems (sendq s k) @ [a] \<and>
    fq_cap q' = fq_cap (sendq s k) \<and>
    sy_sessions s' = (sy_sessions s)(k := (sy_sessions s k)\<lparr>ss_sendQ := q', ss_isSending := True\<rparr>) \<and>
    sy_port s' = sy_port s @ (if ss_isSending (sy_sessions s k) then [] else [send_completion k]) \<and>
    sy_bufs s' = (sy_bufs s)(a := snd (sb_IncreaseRef (sy_bufs s a))) \<and>
    sy_trace s' = sy_trace s \<and> sy_ios s' = sy_ios s \<and> sy_freed s' = sy_freed s"
proof -
  let ?x = "sy_sessions s k"
  let ?s1 = "buf_IncreaseRef a (set_refs k (Suc c) s)"
  obtain q' where q': "fq_Enqueue a (sendq s k) = Inr (True, q')" "fq_ok q'"
    "fq_elems q' = fq_elems (sendq s k) @ [a]" "fq_cap q' = fq_cap (sendq s k)"
    using fq_Enqueue_room [OF q room] by blast
  have c: "refs s k = of_nat c" "Suc c < 2 ^ 20" "0 < c" using l by (simp_all add: live_def)
  have sel: "sy_sessions ?s1 = (sy_sessions s)(k := ?x\<lparr>ss_refCount := of_nat (Suc c)\<rparr>)"
    "sy_bufs ?s1 = (sy_bufs s)(a := snd (sb_IncreaseRef (sy_bufs s a)))" "sy_port ?s1 = sy_port s"
    "sy_trace ?s1 = sy_trace s" "sy_ios ?s1 = sy_ios s" "sy_freed ?s1 = sy_freed s"
    by (simp_all add: buf_IncreaseRef_def)
  let ?s2 = "upd_session k (\<lambda>_. ?x\<lparr>ss_refCount := of_nat (Suc c), ss_sendQ := q'\<rparr>) ?s1"
  have pb: "ProcessBuffer e upd a k (set_refs k (Suc c) s) = Inr ?s2"
    using data q'(1) sel by (simp add: ProcessBuffer_def Let_def ss_EnqueueSendData_def sb_GetDataSize_def sb_IncreaseRef_def)
  have sz: "fq_Size q' \<noteq> 0" using fq_Size_elems [OF q'(2)] q'(3) by simp
  have nr: "\<not> ss_released (?x\<lparr>ss_refCount := of_nat (Suc c), ss_sendQ := q'\<rparr>)"
    using i32_of_nat_small(2) [of "Suc c"] c(2) by (simp add: ss_released_def del: of_nat_Suc)
  let ?s3 = "upd_session k (\<lambda>_. ?x\<lparr>ss_refCount := of_nat (Suc c), ss_sendQ := q', ss_isSending := True\<rparr>) ?s2"
  let ?s4 = "if ss_isSending ?x then ?s3 else PostQueuedCompletionStatus (send_completion k) ?s3"
  have "PostSend k ?s2 = Inr ?s4"
    using con sz nr by (simp add: PostSend_def CanSend_def CanSend_result send_completion_def del: upd_session_upd_session)
  then have act: "bind_res (ProcessBuffer e upd a k (set_refs k (Suc c) s)) (PostSend k) = Inr ?s4"
    using pb by simp
  have "SendPacket e upd i a s = Inr (True, set_refs k c ?s4)"
    unfolding SendPacket_def by (rule with_session_live [OF l]) (rule act, simp split: if_splits)
  moreover have "?x\<lparr>ss_sendQ := q', ss_isSending := True, ss_refCount := of_nat c\<rparr> = ?x\<lparr>ss_sendQ := q', ss_isSending := True\<rparr>"
    by (simp add: c(1) [symmetric])
  ultimately show ?thesis using q' sel
    by (intro exI [of _ q'] exI [of _ "set_refs k c ?s4"]) (simp split: if_splits)
qed

fun send_all :: "env \<Rightarrow> update_call \<Rightarrow> SessionID \<Rightarrow> addr list \<Rightarrow> sys \<Rightarrow> sys res" where
  "send_all e upd i [] s = Inr s"
| "send_all e upd i (a # as) s = bind_res (SendPacket e upd i a s) (\<lambda>(_, s'). send_all e upd i as s')"

lemma send_all_queues:
  assumes "live s k i c" and "ss_connect (sy_sessions s k)" and "fq_ok (sendq s k)"
    and "length (fq_elems (sendq s k)) + length as \<le> fq_cap (sendq s k)"
    and "\<And>a. a \<in> set as \<Longrightarrow> sb_GetDataSize (sy_bufs s a) \<noteq> 0"
  shows "\<exists>q' s'. send_all e upd i as s = Inr s' \<and> fq_ok q' \<and> fq_elems q' = fq_elems (sendq s k) @ as \<and>
    sy_sessions s' = (sy_sessions s)(k := (sy_sessions s k)\<lparr>ss_sendQ := q',
      ss_isSending := ss_isSending (sy_sessions s k) \<or> as \<noteq> []\<rparr>) \<and>
    sy_port s' = sy_port s @ (if ss_isSending (sy_sessions s k) \<or> as = [] then [] else [send_completion k]) \<and>
    sy_bufs s' = more_refs as (sy_bufs s) \<and> sy_trace s' = sy_trace s \<and> sy_ios s' = sy_ios s \<and> sy_freed s' = sy_freed s"
  using assms
proof (induction as arbitrary: s)
  case Nil
  then show ?case by (intro exI [of _ "sendq s k"] exI [of _ s]) simp
next
  case (Cons a as)
  let ?x = "sy_sessions s k"
  have room: "length (fq_elems (sendq s k)) < fq_cap (sendq s k)" using Cons.prems(4) by simp
  have data: "sb_GetDataSize (sy_bufs s a) \<noteq> 0" using Cons.prems(5) by simp
  obtain q1 s1 where s1: "SendPacket e upd i a s = Inr (True, s1)" "fq_ok q1" "fq_elems q1 = fq_elems (sendq s k) @ [a]"
    "fq_cap q1 = fq_cap (sendq s k)"
    "sy_sessions s1 = (sy_sessions s)(k := ?x\<lparr>ss_sendQ := q1, ss_isSending := True\<rparr>)"
    "sy_port s1 = sy_port s @ (if ss_isSending ?x then [] else [send_completion k])"
    "sy_bufs s1 = (sy_bufs s)(a := snd (sb_IncreaseRef (sy_bufs s a)))"
    "sy_trace s1 = sy_trace s" "sy_ios s1 = sy_ios s" "sy_freed s1 = sy_freed s"
    using SendPacket_queues [OF Cons.prems(1-3) room data] by metis
  have l1: "live s1 k i c" using Cons.prems(1) by (simp add: live_def s1)
  have d1: "sb_GetDataSize (sy_bufs s1 b) \<noteq> 0" if "b \<in> set as" for b
    using Cons.prems(5) [of b] that by (auto simp: s1 sb_IncreaseRef_def sb_GetDataSize_def)
  have h1: "ss_connect (sy_sessions s1 k)" "fq_ok (sendq s1 k)"
    "length (fq_elems (sendq s1 k)) + length as \<le> fq_cap (sendq s1 k)"
    using Cons.prems(2,4) s1(2-4) by (simp_all add: s1(5))
  obtain q2 s2 where "send_all e upd i as s1 = Inr s2" "fq_ok q2" "fq_elems q2 = fq_elems (sendq s1 k) @ as"
    "sy_sessions s2 = (sy_sessions s1)(k := (sy_sessions s1 k)\<lparr>ss_sendQ := q2, ss_isSending := ss_isSending (sy_sessions s1 k) \<or> as \<noteq> []\<rparr>)"
    "sy_port s2 = sy_port s1 @ (if ss_isSending (sy_sessions s1 k) \<or> as = [] then [] else [send_completion k])"
    "sy_bufs s2 = more_refs as (sy_bufs s1)" "sy_trace s2 = sy_trace s1" "sy_ios s2 = sy_ios s1" "sy_freed s2 = sy_freed s1"
    using Cons.IH [OF l1 h1 d1] by blast
  then show ?case using s1 by (intro exI [of _ q2] exI [of _ s2]) (simp add: more_refs_IncreaseRef)
qed

subsection \<open>Preparing a buffer for the wire\<close>

text \<open>
  A buffer that carries the payload \<open>p\<close> for a session with key \<open>key\<close>: not yet encoded, or already
  encoded with this key by an earlier send.
\<close>

definition sendable :: "u8 \<Rightarrow> CSendBuffer \<Rightarrow> u8 list \<Rightarrow> bool" where
  "sendable key b p \<longleftrightarrow> sb_ok b \<and>
     (if key \<noteq> 0 then sb_head b = 0 \<and> (if sb_isEncrypt b = 0 then payload b = p else sb_wire b = net_frame key p)
      else payload b = p)"

lemma sendable_refCount [simp]: "sendable key (b\<lparr>sb_refCount := r\<rparr>) p = sendable key b p"
  by (simp add: sendable_def sb_ok_def payload_def sb_wire_def)

lemma sb_SendDataSize_pos: "sb_ok b \<Longrightarrow> sb_SendDataSize b > 0"
proof -
  assume ok: "sb_ok b"
  let ?d = "sb_rear b - sb_head b"
  have le: "sb_head b \<le> sb_rear b" "2 \<le> ?d" "?d < 2 ^ 32" using ok by (auto simp: sb_ok_def SEND_BUFFER_SIZE_def)
  have "int (sb_rear b) - int (sb_head b) = int ?d" using le(1) by (simp add: of_nat_diff)
  then have "sb_SendDataSize b = of_nat ?d" by (simp only: sb_SendDataSize_def of_int_of_nat_eq)
  moreover have "unat (of_nat ?d :: u32) = ?d" using le(3) by (intro unat_of_nat_small) simp
  ultimately have "unat (sb_SendDataSize b) = ?d" by (simp only:)
  then have "unat (sb_SendDataSize b) \<noteq> 0" using le(2) by linarith
  then show ?thesis by (metis unsigned_0 word_neq_0_conv)
qed

lemma prepare_sendable:
  assumes "sendable key b p"
  obtains b' where "(if key \<noteq> 0 then sb_TryEncode b key else sb_WriteLanHeader b) = Inr b'"
    and "sendable key b' p" and "sb_wire b' = frame (key \<noteq> 0) key p" and "sb_refCount b' = sb_refCount b"
    and "sb_SendDataSize b' > 0"
proof (cases "key = 0")
  case True
  then have ok: "sb_ok b" "payload b = p" using assms by (simp_all add: sendable_def)
  obtain b' where "sb_WriteLanHeader b = Inr b'" "sb_ok b'" "sb_wire b' = lan_frame p" "payload b' = p"
    "sb_refCount b' = sb_refCount b"
    using sb_WriteLanHeader_wire [OF ok(1)] ok(2) by metis
  then show ?thesis using that [of b'] True sb_SendDataSize_pos by (simp add: sendable_def frame_def)
next
  case False
  then have ok: "sb_ok b" "sb_head b = 0" using assms by (simp_all add: sendable_def)
  show ?thesis
  proof (cases "sb_isEncrypt b = 0")
    case True
    obtain b' where "sb_TryEncode b key = Inr b'" "sb_ok b'" "sb_wire b' = net_frame key (payload b)"
      "sb_isEncrypt b' = 1" "sb_head b' = 0" "sb_refCount b' = sb_refCount b"
      using sb_TryEncode_wire [OF ok(1) True ok(2)] by metis
    then show ?thesis
      using that [of b'] False True assms sb_SendDataSize_pos by (simp add: sendable_def frame_def)
  next
    case enc: False
    then show ?thesis
      using that [of b] False assms sb_SendDataSize_pos [OF ok(1)] sb_TryEncode_again
      by (simp add: sendable_def frame_def)
  qed
qed

subsection \<open>One send\<close>

lemma RealSend_fill_all:
  assumes "fq_ok (sendq s k)" and "fq_elems (sendq s k) = as" and "length as \<le> n"
    and "i + length as \<le> length (ss_sendingQ (sy_sessions s k))"
    and "\<And>a. a \<in> set as \<Longrightarrow> sendable (ss_staticKey (sy_sessions s k)) (sy_bufs s a) (pl a)"
  shows "\<exists>q' s'. RealSend_fill e k n i s
      = Inr (map (\<lambda>a. frame (ss_staticKey (sy_sessions s k) \<noteq> 0) (ss_staticKey (sy_sessions s k)) (pl a)) as, s') \<and>
    fq_ok q' \<and> fq_elems q' = [] \<and>
    sy_sessions s' = (sy_sessions s)(k := (sy_sessions s k)\<lparr>ss_sendQ := q',
      ss_sendingQ := take i (ss_sendingQ (sy_sessions s k)) @ map Some as @ drop (i + length as) (ss_sendingQ (sy_sessions s k))\<rparr>) \<and>
    (\<forall>a. sb_refCount (sy_bufs s' a) = sb_refCount (sy_bufs s a)) \<and>
    sy_trace s' = sy_trace s \<and> sy_ios s' = sy_ios s \<and> sy_port s' = sy_port s \<and> sy_freed s' = sy_freed s"
  using assms
proof (induction as arbitrary: n i s)
  case Nil
  show ?case
  proof (cases n)
    case 0
    then show ?thesis using Nil by (intro exI [of _ "sendq s k"] exI [of _ s]) simp
  next
    case (Suc m)
    then show ?thesis using Nil fq_Dequeue_none [OF Nil.prems(1,2)] by (intro exI [of _ "sendq s k"] exI [of _ s])
        (simp add: upd_session_def)
  qed
next
  case (Cons a as)
  let ?x = "sy_sessions s k" and ?sQ = "ss_sendingQ (sy_sessions s k)" and ?key = "ss_staticKey (sy_sessions s k)"
  obtain m where n: "n = Suc m" using Cons.prems(3) by (cases n) simp_all
  obtain q1 where q1: "fq_Dequeue (sendq s k) = Inr (Some a, q1)" "fq_ok q1" "fq_elems q1 = as"
    using fq_Dequeue_some [OF Cons.prems(1,2)] by blast
  have "sendable ?key (sy_bufs s a) (pl a)" using Cons.prems(5) by simp
  then obtain b where b: "(if ?key \<noteq> 0 then sb_TryEncode (sy_bufs s a) ?key else sb_WriteLanHeader (sy_bufs s a)) = Inr b"
    "sendable ?key b (pl a)" "sb_wire b = frame (?key \<noteq> 0) ?key (pl a)" "sb_refCount b = sb_refCount (sy_bufs s a)"
    "sb_SendDataSize b > 0"
    by (rule prepare_sendable)
  define s2 where "s2 = (upd_session k (\<lambda>ss. ss\<lparr>ss_sendQ := q1, ss_sendingQ := (ss_sendingQ ss)[i := Some a]\<rparr>) s)
      \<lparr>sy_bufs := (sy_bufs s)(a := b)\<rparr>"
  have x2: "sy_sessions s2 = (sy_sessions s)(k := ?x\<lparr>ss_sendQ := q1, ss_sendingQ := ?sQ[i := Some a]\<rparr>)"
    "sy_bufs s2 = (sy_bufs s)(a := b)" "sy_trace s2 = sy_trace s" "sy_ios s2 = sy_ios s" "sy_port s2 = sy_port s"
    "sy_freed s2 = sy_freed s"
    by (simp_all add: s2_def upd_session_def)
  have step: "RealSend_fill e k n i s = bind_res (RealSend_fill e k m (Suc i) s2) (\<lambda>(ws, s3).
      Inr (frame (?key \<noteq> 0) ?key (pl a) # ws, s3))"
    using q1(1) b by (cases "?key = 0") (simp_all add: n Let_def s2_def)
  have h: "fq_ok (sendq s2 k)" "fq_elems (sendq s2 k) = as" "length as \<le> m" "Suc i + length as \<le> length (ss_sendingQ (sy_sessions s2 k))"
    using q1 Cons.prems(3,4) n by (simp_all add: x2)
  have sd: "sendable (ss_staticKey (sy_sessions s2 k)) (sy_bufs s2 c) (pl c)" if "c \<in> set as" for c
    using Cons.prems(5) [of c] that b(2) by (simp add: x2)
  have x2k: "sy_sessions s2 k = ?x\<lparr>ss_sendQ := q1, ss_sendingQ := ?sQ[i := Some a]\<rparr>" by (simp add: x2)
  obtain q' s' where r: "RealSend_fill e k m (Suc i) s2
      = Inr (map (\<lambda>a. frame (ss_staticKey (sy_sessions s2 k) \<noteq> 0) (ss_staticKey (sy_sessions s2 k)) (pl a)) as, s')"
    "fq_ok q'" "fq_elems q' = []"
    "sy_sessions s' = (sy_sessions s2)(k := (sy_sessions s2 k)\<lparr>ss_sendQ := q', ss_sendingQ :=
      take (Suc i) (ss_sendingQ (sy_sessions s2 k)) @ map Some as @ drop (Suc i + length as) (ss_sendingQ (sy_sessions s2 k))\<rparr>)"
    "\<forall>c. sb_refCount (sy_bufs s' c) = sb_refCount (sy_bufs s2 c)" "sy_trace s' = sy_trace s2" "sy_ios s' = sy_ios s2"
    "sy_port s' = sy_port s2" "sy_freed s' = sy_freed s2"
    using Cons.IH [OF h sd] by blast
  have "take (Suc i) (?sQ[i := Some a]) = take i ?sQ @ [Some a]"
    using Cons.prems(4) by (simp add: take_Suc_conv_app_nth)
  then show ?case using r step b(4) by (intro exI [of _ q'] exI [of _ s']) (simp add: x2k, auto simp: x2 fun_eq_iff)
qed

lemma RealSend_sends:
  assumes c: "refs s k = of_nat c" "Suc c < 2 ^ 20" and q: "fq_ok (sendq s k)" "fq_elems (sendq s k) = as" "as \<noteq> []"
    and len: "length as \<le> MAX_SEND_COUNT" "length (ss_sendingQ (sy_sessions s k)) = MAX_SEND_COUNT"
    and sd: "\<And>a. a \<in> set as \<Longrightarrow> sendable (ss_staticKey (sy_sessions s k)) (sy_bufs s a) (pl a)"
    and os: "os_WSASend e (sy_ios s) \<in> {None, Some WSA_IO_PENDING}" and fuel: "0 < en_fuel e"
  shows "\<exists>q' t s'. RealSend e upd k s = Inr s' \<and> fq_ok q' \<and> fq_elems q' = [] \<and>
    sy_sessions s' = (sy_sessions s)(k := (sy_sessions s k)\<lparr>ss_refCount := of_nat (Suc c), ss_sendQ := q',
      ss_sendingQ := map Some as @ drop (length as) (ss_sendingQ (sy_sessions s k)), ss_needCheckSendTimeout := True,
      ss_lastSend := t, ss_dataNotSend := length as\<rparr>) \<and>
    (\<forall>a. sb_refCount (sy_bufs s' a) = sb_refCount (sy_bufs s a)) \<and>
    sy_trace s' = sy_trace s @ [EvWSASend k (map (\<lambda>a. frame (ss_staticKey (sy_sessions s k) \<noteq> 0)
      (ss_staticKey (sy_sessions s k)) (pl a)) as)] \<and> sy_port s' = sy_port s \<and> sy_freed s' = sy_freed s"
proof -
  let ?x = "sy_sessions s k" and ?s1 = "set_refs k (Suc c) s" and ?key = "ss_staticKey (sy_sessions s k)"
  let ?ws = "map (\<lambda>a. frame (?key \<noteq> 0) ?key (pl a)) as"
  have nf: "\<not> sint (of_nat (Suc c) :: i32) \<ge> sint RELEASE_FLAG"
    using i32_of_nat_small(2) [of "Suc c"] c(2) by (simp del: of_nat_Suc)
  have sz: "fq_Size (sendq s k) \<ge> 1" using fq_Size_elems [OF q(1)] q(2,3) by (cases as) simp_all
  have h1: "fq_ok (sendq ?s1 k)" "fq_elems (sendq ?s1 k) = as" "0 + length as \<le> length (ss_sendingQ (sy_sessions ?s1 k))"
    using q len by simp_all
  have sd1: "sendable (ss_staticKey (sy_sessions ?s1 k)) (sy_bufs ?s1 a) (pl a)" if "a \<in> set as" for a
    using sd that by simp
  obtain q' s2 where s2: "RealSend_fill e k MAX_SEND_COUNT 0 ?s1
      = Inr (map (\<lambda>a. frame (ss_staticKey (sy_sessions ?s1 k) \<noteq> 0) (ss_staticKey (sy_sessions ?s1 k)) (pl a)) as, s2)"
    "fq_ok q'" "fq_elems q' = []"
    "sy_sessions s2 = (sy_sessions ?s1)(k := (sy_sessions ?s1 k)\<lparr>ss_sendQ := q', ss_sendingQ :=
      take 0 (ss_sendingQ (sy_sessions ?s1 k)) @ map Some as @ drop (0 + length as) (ss_sendingQ (sy_sessions ?s1 k))\<rparr>)"
    "\<forall>a. sb_refCount (sy_bufs s2 a) = sb_refCount (sy_bufs ?s1 a)" "sy_trace s2 = sy_trace ?s1" "sy_ios s2 = sy_ios ?s1"
    "sy_port s2 = sy_port ?s1" "sy_freed s2 = sy_freed ?s1"
    using RealSend_fill_all [OF h1(1,2) len(1) h1(3) sd1] by blast
  have fill: "RealSend_fill e k MAX_SEND_COUNT 0 ?s1 = Inr (?ws, s2)" using s2(1) by simp
  have x2: "sy_sessions s2 k = ?x\<lparr>ss_refCount := of_nat (Suc c), ss_sendQ := q',
      ss_sendingQ := map Some as @ drop (length as) (ss_sendingQ ?x)\<rparr>" using s2(4) by simp
  obtain f where f: "en_fuel e = Suc f" using fuel by (cases "en_fuel e") simp_all
  have coll: "RealSend_collect e k (en_fuel e) ?s1 = Inr (?ws, s2)" using fill q(3) by (simp add: f)
  define t where "t = os_clock e (sy_ticks s2)"
  define s5 where "s5 = upd_session k (\<lambda>ss. ss\<lparr>ss_lastSend := t, ss_dataNotSend := length as\<rparr>)
      ((upd_session k (ss_needCheckSendTimeout_update (\<lambda>_. True)) s2)\<lparr>sy_ticks := Suc (sy_ticks s2)\<rparr>)"
  define s6 where "s6 = emit (EvWSASend k ?ws) (s5\<lparr>sy_ios := Suc (sy_ios s5)\<rparr>)"
  have ios: "sy_ios s5 = sy_ios s" by (simp add: s5_def s2 upd_session_def)
  have "RealSend e upd k s = Inr s6"
    using nf sz coll os ios
    by (auto simp: RealSend_def Let_def IncreaseRef_eq [OF c(1)] clock_now_def io_call_def t_def s5_def s6_def
        simp del: of_nat_Suc)
  moreover have "sy_sessions s6 = (sy_sessions s)(k := ?x\<lparr>ss_refCount := of_nat (Suc c), ss_sendQ := q',
      ss_sendingQ := map Some as @ drop (length as) (ss_sendingQ ?x), ss_needCheckSendTimeout := True,
      ss_lastSend := t, ss_dataNotSend := length as\<rparr>)"
    using s2(4) by (simp add: s6_def s5_def upd_session_def fun_eq_iff)
  moreover have "sy_bufs s6 = sy_bufs s2" "sy_trace s6 = sy_trace s2 @ [EvWSASend k ?ws]" "sy_port s6 = sy_port s2"
    "sy_freed s6 = sy_freed s2"
    by (simp_all add: s6_def s5_def upd_session_def emit_def)
  ultimately show ?thesis using s2 by (intro exI [of _ q'] exI [of _ t] exI [of _ s6]) simp
qed

subsection \<open>The completion of a send\<close>

lemma release_sending_all:
  "\<exists>s'. release_sending (map Some as @ qs) (length as) s = Inr s' \<and>
    (\<forall>a. sb_refCount (sy_bufs s' a) = sb_refCount (sy_bufs s a) - of_nat (count_list as a)) \<and>
    sy_sessions s' = sy_sessions s \<and> sy_trace s' = sy_trace s \<and> sy_port s' = sy_port s \<and> sy_freeIndex s' = sy_freeIndex s"
proof (induction as arbitrary: s)
  case (Cons a as)
  let ?s1 = "buf_Release a s"
  have s1: "sb_refCount (sy_bufs ?s1 b) = sb_refCount (sy_bufs s b) - (if b = a then 1 else 0)"
    "sy_sessions ?s1 = sy_sessions s" "sy_trace ?s1 = sy_trace s" "sy_port ?s1 = sy_port s" "sy_freeIndex ?s1 = sy_freeIndex s" for b
    by (simp_all add: buf_Release_def Let_def sb_Release_def)
  obtain s' where "release_sending (map Some as @ qs) (length as) ?s1 = Inr s'"
    "\<forall>b. sb_refCount (sy_bufs s' b) = sb_refCount (sy_bufs ?s1 b) - of_nat (count_list as b)"
    "sy_sessions s' = sy_sessions ?s1" "sy_trace s' = sy_trace ?s1" "sy_port s' = sy_port ?s1" "sy_freeIndex s' = sy_freeIndex ?s1"
    using Cons.IH by blast
  then show ?case using s1 by (intro exI [of _ s']) (simp add: diff_diff_eq)
qed simp

lemma increaseSendCount_sel [simp]:
  "sy_sessions (increaseSendCount n s) = sy_sessions s" "sy_trace (increaseSendCount n s) = sy_trace s"
  "sy_port (increaseSendCount n s) = sy_port s" "sy_bufs (increaseSendCount n s) = sy_bufs s"
  by (simp_all add: increaseSendCount_def split: prod.splits)

lemma PostSend_completes:
  assumes c: "refs s k = of_nat (Suc c)" "0 < c" "Suc c < 2 ^ 20" and q: "fq_ok (sendq s k)" "fq_elems (sendq s k) = []"
    and sent: "ss_dataNotSend (sy_sessions s k) = length as" "ss_sendingQ (sy_sessions s k) = map Some as @ qs"
  shows "\<exists>s'. PostSendExecutable_Execute e upd k s = Inr s' \<and>
    sy_sessions s' = (sy_sessions s)(k := (sy_sessions s k)\<lparr>ss_refCount := of_nat c, ss_dataNotSend := 0,
      ss_needCheckSendTimeout := False, ss_isSending := False\<rparr>) \<and>
    (\<forall>a. sb_refCount (sy_bufs s' a) = sb_refCount (sy_bufs s a) - of_nat (count_list as a)) \<and>
    sy_trace s' = sy_trace s \<and> sy_port s' = sy_port s"
proof -
  let ?s1 = "increaseSendCount (length as) s"
  obtain s2 where s2: "release_sending (map Some as @ qs) (length as) ?s1 = Inr s2"
    "\<forall>a. sb_refCount (sy_bufs s2 a) = sb_refCount (sy_bufs s a) - of_nat (count_list as a)"
    "sy_sessions s2 = sy_sessions s" "sy_trace s2 = sy_trace s" "sy_port s2 = sy_port s"
    using release_sending_all [of as qs ?s1] by auto
  let ?s3 = "upd_session k (\<lambda>ss. ss\<lparr>ss_dataNotSend := 0, ss_needCheckSendTimeout := False, ss_isSending := False\<rparr>) s2"
  have x3: "sy_sessions ?s3 = (sy_sessions s)(k := (sy_sessions s k)\<lparr>ss_dataNotSend := 0,
      ss_needCheckSendTimeout := False, ss_isSending := False\<rparr>)"
    using s2(3) by simp
  have "fq_Size (sendq s k) = 0" using fq_Size_elems [OF q(1)] q(2) by simp
  then have "CanSend k ?s3 = Inr (False, ?s3)"
    using s2(3) by (auto simp: CanSend_def CanSend_result upd_session_def)
  then have "TrySend e upd k ?s3 = Inr ?s3" by (simp add: TrySend_def)
  moreover have "Release e upd k ?s3 = Inr (False, set_refs k c ?s3)"
    using c s2(3) by (intro Release_more) simp_all
  ultimately have "PostSendExecutable_Execute e upd k s = Inr (set_refs k c ?s3)"
    using s2(1) sent by (simp add: PostSendExecutable_Execute_def Let_def)
  then show ?thesis using s2 by (intro exI [of _ "set_refs k c ?s3"]) (auto simp: fun_eq_iff)
qed

subsection \<open>Properties\<close>

text \<open>
  C3. The send cycle. Up to 512 packets given to \<^verbatim>\<open>SendPacket\<close> for an idle, connected session cause exactly one
  send request to be posted; when a worker executes it, one \<^verbatim>\<open>WSASend\<close> carries the frames of all the payloads in
  the order of the calls; when that send completes, the session is idle again with the reference count it
  had, and every buffer has the reference count it had.
\<close>

theorem send_cycle:
  assumes "live s k i c" and "Suc c < 2 ^ 20" and "ss_connect (sy_sessions s k)" and "\<not> ss_isSending (sy_sessions s k)"
    and "fq_ok (sendq s k)" and "fq_elems (sendq s k) = []" and "fq_cap (sendq s k) = MAX_SEND_COUNT"
    and "as \<noteq> []" and "length as \<le> MAX_SEND_COUNT" and "length (ss_sendingQ (sy_sessions s k)) = MAX_SEND_COUNT"
    and "\<And>a. a \<in> set as \<Longrightarrow> sb_GetDataSize (sy_bufs s a) \<noteq> 0 \<and> sendable (ss_staticKey (sy_sessions s k)) (sy_bufs s a) (pl a)"
    and "os_WSASend e (sy_ios s) \<in> {None, Some WSA_IO_PENDING}" and "0 < en_fuel e"
  shows "\<exists>s1 s2 s3. send_all e upd i as s = Inr s1 \<and> sy_port s1 = sy_port s @ [send_completion k] \<and>
    SendExecutable_Execute e upd k s1 = Inr s2 \<and>
    sy_trace s2 = sy_trace s @ [EvWSASend k (map (\<lambda>a. frame (ss_staticKey (sy_sessions s k) \<noteq> 0)
      (ss_staticKey (sy_sessions s k)) (pl a)) as)] \<and>
    PostSendExecutable_Execute e upd k s2 = Inr s3 \<and>
    refs s3 k = refs s k \<and> \<not> ss_isSending (sy_sessions s3 k) \<and> fq_elems (sendq s3 k) = [] \<and>
    (\<forall>a. sb_refCount (sy_bufs s3 a) = sb_refCount (sy_bufs s a))"
proof -
  let ?x = "sy_sessions s k"
  have c: "refs s k = of_nat c" "0 < c" using assms(1) by (simp_all add: live_def)
  obtain q1 s1 where s1: "send_all e upd i as s = Inr s1" "fq_ok q1" "fq_elems q1 = as"
    "sy_sessions s1 = (sy_sessions s)(k := ?x\<lparr>ss_sendQ := q1, ss_isSending := True\<rparr>)"
    "sy_port s1 = sy_port s @ [send_completion k]" "sy_bufs s1 = more_refs as (sy_bufs s)"
    "sy_trace s1 = sy_trace s" "sy_ios s1 = sy_ios s"
    using send_all_queues [OF assms(1,3,5), of as e upd] assms(4,6-9,11) by auto
  have x1: "sy_sessions s1 k = ?x\<lparr>ss_sendQ := q1, ss_isSending := True\<rparr>" by (simp add: s1)
  have sd: "sendable (ss_staticKey (sy_sessions s1 k)) (sy_bufs s1 a) (pl a)" if "a \<in> set as" for a
    using assms(11) [OF that] by (simp add: x1 s1(6) more_refs_def)
  have h1: "refs s1 k = of_nat c" "fq_ok (sendq s1 k)" "fq_elems (sendq s1 k) = as"
    "length (ss_sendingQ (sy_sessions s1 k)) = MAX_SEND_COUNT" "os_WSASend e (sy_ios s1) \<in> {None, Some WSA_IO_PENDING}"
    using c s1 assms(10,12) by (simp_all add: x1)
  obtain q2 t s2 where s2: "RealSend e upd k s1 = Inr s2" "fq_ok q2" "fq_elems q2 = []"
    "sy_sessions s2 = (sy_sessions s1)(k := (sy_sessions s1 k)\<lparr>ss_refCount := of_nat (Suc c), ss_sendQ := q2,
      ss_sendingQ := map Some as @ drop (length as) (ss_sendingQ (sy_sessions s1 k)), ss_needCheckSendTimeout := True,
      ss_lastSend := t, ss_dataNotSend := length as\<rparr>)"
    "\<forall>a. sb_refCount (sy_bufs s2 a) = sb_refCount (sy_bufs s1 a)"
    "sy_trace s2 = sy_trace s1 @ [EvWSASend k (map (\<lambda>a. frame (ss_staticKey (sy_sessions s1 k) \<noteq> 0)
      (ss_staticKey (sy_sessions s1 k)) (pl a)) as)]"
    using RealSend_sends [OF h1(1) assms(2) h1(2,3) assms(8,9) h1(4) sd h1(5) assms(13)] by blast
  have x2: "sy_sessions s2 k = (sy_sessions s1 k)\<lparr>ss_refCount := of_nat (Suc c), ss_sendQ := q2,
      ss_sendingQ := map Some as @ drop (length as) (ss_sendingQ (sy_sessions s1 k)), ss_needCheckSendTimeout := True,
      ss_lastSend := t, ss_dataNotSend := length as\<rparr>" by (simp add: s2(4))
  have h2: "refs s2 k = of_nat (Suc c)" "fq_ok (sendq s2 k)" "fq_elems (sendq s2 k) = []"
    "ss_dataNotSend (sy_sessions s2 k) = length as"
    "ss_sendingQ (sy_sessions s2 k) = map Some as @ drop (length as) (ss_sendingQ (sy_sessions s1 k))"
    using s2(2,3) by (simp_all add: x2 del: of_nat_Suc)
  obtain s3 where s3: "PostSendExecutable_Execute e upd k s2 = Inr s3"
    "sy_sessions s3 = (sy_sessions s2)(k := (sy_sessions s2 k)\<lparr>ss_refCount := of_nat c, ss_dataNotSend := 0,
      ss_needCheckSendTimeout := False, ss_isSending := False\<rparr>)"
    "\<forall>a. sb_refCount (sy_bufs s3 a) = sb_refCount (sy_bufs s2 a) - of_nat (count_list as a)"
    using PostSend_completes [OF h2(1) c(2) assms(2) h2(2-5)] by blast
  have "sb_refCount (sy_bufs s3 a) = sb_refCount (sy_bufs s a)" for a
    using s3(3) s2(5) by (simp add: s1(6) more_refs_def)
  moreover have "sy_sessions s3 k = (sy_sessions s2 k)\<lparr>ss_refCount := of_nat c, ss_dataNotSend := 0,
      ss_needCheckSendTimeout := False, ss_isSending := False\<rparr>" by (simp add: s3(2))
  then have "refs s3 k = refs s k" "\<not> ss_isSending (sy_sessions s3 k)" "fq_elems (sendq s3 k) = []"
    using h2(3) c(1) by simp_all
  ultimately show ?thesis
    using s1 s2(1,6) s3(1) x1 by (intro exI [of _ s1] exI [of _ s2] exI [of _ s3]) (simp add: SendExecutable_Execute_def)
qed

text \<open>A buffer holding the payload \<open>[0]\<close>, referenced once.\<close>

definition byte_buffer :: CSendBuffer where
  "byte_buffer = (new_CSendBuffer (replicate 2053 0))\<lparr>sb_rear := 6, sb_refCount := 1\<rparr>"

theorem send_cycle_witness:
  "\<exists>s1 s2. send_all quiet_env (\<lambda>_ s. Inr s) 1 [4, 4] (one_session\<lparr>sy_bufs := (\<lambda>_. byte_buffer)\<rparr>) = Inr s1 \<and>
    SendExecutable_Execute quiet_env (\<lambda>_ s. Inr s) 0 s1 = Inr s2 \<and>
    sy_trace s2 = [EvWSASend 0 [net_frame 50 [0], net_frame 50 [0]]]"
proof -
  let ?s = "one_session\<lparr>sy_bufs := (\<lambda>_. byte_buffer)\<rparr>"
  have l: "live ?s 0 1 1" using one_session_live by (simp add: live_def)
  have p512: "pow2 512" by (auto simp: pow2_def intro: bexI [of _ 9])
  have q: "fq_ok (sendq ?s 0) \<and> fq_elems (sendq ?s 0) = [] \<and> fq_cap (sendq ?s 0) = MAX_SEND_COUNT"
    using fq_ok_new [OF p512, of 0] by (simp add: one_session_slot new_Session_def MAX_SEND_COUNT_def)
  have b: "sb_GetDataSize byte_buffer \<noteq> 0 \<and> sendable 50 byte_buffer [0]"
    by (simp add: byte_buffer_def new_CSendBuffer_def sb_GetDataSize_def sendable_def sb_ok_def SEND_BUFFER_SIZE_def payload_def)
  have "sy_trace ?s = []" by (simp add: one_session_def quiet_sys_def upd_session_def)
  moreover have "ss_staticKey (sy_sessions ?s 0) = 50" "ss_connect (sy_sessions ?s 0)" "\<not> ss_isSending (sy_sessions ?s 0)"
    "length (ss_sendingQ (sy_sessions ?s 0)) = MAX_SEND_COUNT"
    by (simp_all add: one_session_slot new_Session_def)
  moreover have "os_WSASend quiet_env (sy_ios ?s) \<in> {None, Some WSA_IO_PENDING}" "0 < en_fuel quiet_env"
    by (simp_all add: quiet_env_def)
  ultimately show ?thesis
    using send_cycle [of ?s 0 1 1 "[4, 4]" "\<lambda>_. [0]" quiet_env "\<lambda>_ s. Inr s"] l q b
    by (simp add: MAX_SEND_COUNT_def frame_def del: send_all.simps) metis
qed

subsection \<open>A queue that is out of step\<close>

lemma RealSend_fill_none:
  assumes "fq_Dequeue (sendq s k) = Inr (None, sendq s k)"
  shows "RealSend_fill e k (Suc n) i s = Inr ([], s)"
  using assms by (simp add: upd_session_id)

lemma RealSend_collect_spins:
  assumes "fq_Dequeue (sendq s k) = Inr (None, sendq s k)"
  shows "RealSend_collect e k fuel s = Inl OutOfFuel"
proof (induction fuel)
  case (Suc fuel)
  have "RealSend_fill e k MAX_SEND_COUNT 0 s = Inr ([], s)"
    using RealSend_fill_none [OF assms, of e 511 0] by (simp add: MAX_SEND_COUNT_def)
  then show ?case using Suc by simp
qed simp

text \<open>
  C20. \<^verbatim>\<open>RealSend\<close> on a session whose queue reports elements but gives none does not return, whatever number
  of rounds its \<^verbatim>\<open>while (sendPackets == 0)\<close> loop is given. One refused enqueue puts the queue of a slot into
  such a state.
\<close>

theorem stuck_queue_spins:
  assumes "refs s k = of_nat c" and "Suc c < 2 ^ 20" and "1 \<le> fq_Size (sendq s k)"
    and "fq_Dequeue (sendq s k) = Inr (None, sendq s k)"
  shows "RealSend (e\<lparr>en_fuel := fuel\<rparr>) upd k s = Inl OutOfFuel"
proof -
  have nf: "\<not> sint (of_nat (Suc c) :: i32) \<ge> sint RELEASE_FLAG"
    using i32_of_nat_small(2) [of "Suc c"] assms(2) by (simp del: of_nat_Suc)
  have "RealSend_collect (e\<lparr>en_fuel := fuel\<rparr>) k fuel (set_refs k (Suc c) s) = Inl OutOfFuel"
    using assms(4) by (intro RealSend_collect_spins) simp
  then show ?thesis
    using nf assms(3) by (simp add: RealSend_def Let_def IncreaseRef_eq [OF assms(1)] del: of_nat_Suc)
qed

theorem stuck_queue_spins_witness:
  "RealSend (quiet_env\<lparr>en_fuel := 1000\<rparr>) (\<lambda>_ s. Inr s) 0
     (upd_session 0 (ss_sendQ_update (\<lambda>_. shift_tail 1 (fq_new 2 0))) one_session) = Inl OutOfFuel"
proof -
  let ?s = "upd_session 0 (ss_sendQ_update (\<lambda>_. shift_tail 1 (fq_new 2 0))) one_session"
  have "pow2 2" by (auto simp: pow2_def intro: bexI [of _ 1])
  then have q: "fq_ok (fq_new 2 (0 :: addr))" "fq_elems (fq_new 2 (0 :: addr)) = []" "1 < fq_cap (fq_new 2 (0 :: addr))"
    using fq_ok_new [of 2 "0 :: addr"] by simp_all
  have "fq_Size (sendq ?s 0) = 1" "fq_Dequeue (sendq ?s 0) = Inr (None, sendq ?s 0)"
    using fq_empty_shift(1,2) [OF q] by simp_all
  moreover have "refs ?s 0 = of_nat 1" by (simp add: one_session_slot)
  ultimately show ?thesis using stuck_queue_spins [where s = ?s and k = 0 and c = 1 and e = quiet_env and fuel = 1000] by simp
qed

end
