(* ===== verification/Lifecycle.thy ===== *)
theory Lifecycle
  imports Send_Path
begin

section \<open>The life of a slot\<close>

text \<open>
  Accepting a connection into a free slot and giving the slot back: what \<^verbatim>\<open>AcceptThread\<close>,
  \<^verbatim>\<open>ReleaseExecutable\<close> and \<^verbatim>\<open>Session::Reset\<close> establish.
\<close>

subsection \<open>Reset\<close>

lemma buf_Release_sel [simp]:
  "sy_sessions (buf_Release a s) = sy_sessions s" "sy_trace (buf_Release a s) = sy_trace s"
  "sy_port (buf_Release a s) = sy_port s" "sy_freeIndex (buf_Release a s) = sy_freeIndex s"
  "sb_refCount (sy_bufs (buf_Release a s) b) = sb_refCount (sy_bufs s b) - (if b = a then 1 else 0)"
  by (simp_all add: buf_Release_def Let_def sb_Release_def)

lemma Reset_drain_all:
  assumes "fq_ok (sendq s k)" and "length (fq_elems (sendq s k)) < n"
  shows "\<exists>q' s'. Reset_drain k n s = Inr s' \<and> fq_ok q' \<and> fq_elems q' = [] \<and> fq_cap q' = fq_cap (sendq s k) \<and>
    sy_sessions s' = (sy_sessions s)(k := (sy_sessions s k)\<lparr>ss_sendQ := q'\<rparr>) \<and>
    (\<forall>a. sb_refCount (sy_bufs s' a) = sb_refCount (sy_bufs s a) - of_nat (count_list (fq_elems (sendq s k)) a)) \<and>
    sy_trace s' = sy_trace s \<and> sy_port s' = sy_port s \<and> sy_freeIndex s' = sy_freeIndex s"
  using assms
proof (induction n arbitrary: s)
  case (Suc n)
  show ?case
  proof (cases "fq_elems (sendq s k)")
    case Nil
    then show ?thesis
      using fq_Dequeue_none [OF Suc.prems(1)] Suc.prems(1)
      by (intro exI [of _ "sendq s k"] exI [of _ s]) (simp add: upd_session_id)
  next
    case (Cons a as)
    obtain q1 where q1: "fq_Dequeue (sendq s k) = Inr (Some a, q1)" "fq_ok q1" "fq_elems q1 = as" "fq_cap q1 = fq_cap (sendq s k)"
      using fq_Dequeue_some [OF Suc.prems(1) Cons] by blast
    define s1 where "s1 = buf_Release a (upd_session k (ss_sendQ_update (\<lambda>_. q1)) s)"
    have x1: "sy_sessions s1 = (sy_sessions s)(k := (sy_sessions s k)\<lparr>ss_sendQ := q1\<rparr>)" "sy_trace s1 = sy_trace s"
      "sy_port s1 = sy_port s" "sy_freeIndex s1 = sy_freeIndex s"
      "sb_refCount (sy_bufs s1 b) = sb_refCount (sy_bufs s b) - (if b = a then 1 else 0)" for b
      by (simp_all add: s1_def)
    have x1k: "sendq s1 k = q1" by (simp add: x1)
    obtain q' s' where r: "Reset_drain k n s1 = Inr s'" "fq_ok q'" "fq_elems q' = []" "fq_cap q' = fq_cap (sendq s1 k)"
      "sy_sessions s' = (sy_sessions s1)(k := (sy_sessions s1 k)\<lparr>ss_sendQ := q'\<rparr>)"
      "\<forall>b. sb_refCount (sy_bufs s' b) = sb_refCount (sy_bufs s1 b) - of_nat (count_list (fq_elems (sendq s1 k)) b)"
      "sy_trace s' = sy_trace s1" "sy_port s' = sy_port s1" "sy_freeIndex s' = sy_freeIndex s1"
    proof -
      have "fq_ok (sendq s1 k)" "length (fq_elems (sendq s1 k)) < n" using Suc.prems(2) Cons q1 by (simp_all add: x1k)
      then show ?thesis using Suc.IH [of s1] that by blast
    qed
    have "Reset_drain k (Suc n) s = Inr s'" using r(1) q1(1) by (simp add: Let_def s1_def)
    then show ?thesis
      using r q1 Cons by (intro exI [of _ q'] exI [of _ s']) (simp add: x1 diff_diff_eq)
  qed
qed simp

text \<open>What \<^verbatim>\<open>Session::Reset\<close> does to a slot and to the buffers it still refers to.\<close>

lemma Session_Reset_ok:
  assumes q: "fq_ok (sendq s k)" "length (fq_elems (sendq s k)) < en_fuel e"
    and sent: "ss_sendingQ (sy_sessions s k) = map Some bs @ qs" "ss_dataNotSend (sy_sessions s k) = length bs"
  shows "\<exists>q' s'. Session_Reset e k s = Inr s' \<and> fq_ok q' \<and> fq_elems q' = [] \<and> fq_cap q' = fq_cap (sendq s k) \<and>
    sy_sessions s' = (sy_sessions s)(k := (sy_sessions s k)\<lparr>ss_sendQ := q', ss_recvQ := Ring_Clear (ss_recvQ (sy_sessions s k)),
      ss_isSending := False, ss_needCheckSendTimeout := False, ss_timeout := ss_defaultTimeout (sy_sessions s k),
      ss_errCode := - 1, ss_groupId := 0, ss_dataNotSend := 0, ss_sendingQ := replicate (length bs) None @ qs,
      ss_beforeSocket := ss_socket (sy_sessions s k), ss_socket := INVALID_SOCKET\<rparr>) \<and>
    (\<forall>a. sb_refCount (sy_bufs s' a)
       = sb_refCount (sy_bufs s a) - of_nat (count_list (fq_elems (sendq s k) @ bs) a)) \<and>
    sy_trace s' = sy_trace s @ [EvCloseSocket (ss_socket (sy_sessions s k))] \<and> sy_port s' = sy_port s \<and>
    sy_freeIndex s' = sy_freeIndex s"
proof -
  let ?x = "sy_sessions s k"
  define s0 where "s0 = upd_session k (\<lambda>ss. ss\<lparr>ss_recvQ := Ring_Clear (ss_recvQ ss),
         ss_isSending := False, ss_needCheckSendTimeout := False, ss_timeout := ss_defaultTimeout ss,
         ss_errCode := - 1\<rparr>) s"
  have x0: "sy_sessions s0 = (sy_sessions s)(k := ?x\<lparr>ss_recvQ := Ring_Clear (ss_recvQ ?x),
         ss_isSending := False, ss_needCheckSendTimeout := False, ss_timeout := ss_defaultTimeout ?x, ss_errCode := - 1\<rparr>)"
    "sy_bufs s0 = sy_bufs s" "sy_trace s0 = sy_trace s" "sy_port s0 = sy_port s" "sy_freeIndex s0 = sy_freeIndex s"
    by (simp_all add: s0_def)
  have q0: "sendq s0 k = sendq s k" by (simp add: x0)
  obtain q' s1 where s1: "Reset_drain k (en_fuel e) s0 = Inr s1" "fq_ok q'" "fq_elems q' = []" "fq_cap q' = fq_cap (sendq s k)"
    "sy_sessions s1 = (sy_sessions s0)(k := (sy_sessions s0 k)\<lparr>ss_sendQ := q'\<rparr>)"
    "\<forall>a. sb_refCount (sy_bufs s1 a) = sb_refCount (sy_bufs s0 a) - of_nat (count_list (fq_elems (sendq s k)) a)"
    "sy_trace s1 = sy_trace s0" "sy_port s1 = sy_port s0" "sy_freeIndex s1 = sy_freeIndex s0"
    using Reset_drain_all [of s0 k "en_fuel e"] q unfolding q0 by blast
  define s2 where "s2 = upd_session k (\<lambda>ss. ss\<lparr>ss_groupId := 0, ss_recvQ := Ring_Clear (ss_recvQ ss), ss_dataNotSend := 0\<rparr>) s1"
  have sent1: "ss_sendingQ (sy_sessions s1 k) = map Some bs @ qs" "ss_sendingQ (sy_sessions s2 k) = map Some bs @ qs"
    "ss_dataNotSend (sy_sessions s1 k) = length bs"
    using sent by (simp_all add: s2_def s1(5) x0)
  obtain s3 where s3: "release_sending (map Some bs @ qs) (length bs) s2 = Inr s3"
    "\<forall>a. sb_refCount (sy_bufs s3 a) = sb_refCount (sy_bufs s2 a) - of_nat (count_list bs a)"
    "sy_sessions s3 = sy_sessions s2" "sy_trace s3 = sy_trace s2" "sy_port s3 = sy_port s2" "sy_freeIndex s3 = sy_freeIndex s2"
    using release_sending_all by blast
  define s4 where "s4 = upd_session k (\<lambda>ss. ss\<lparr>ss_sendingQ := replicate (length bs) None @ drop (length bs) (ss_sendingQ ss)\<rparr>) s3"
  let ?s5 = "emit (EvCloseSocket (ss_socket (sy_sessions s4 k))) (upd_session k ss_CloseSocket s4)"
  have "Session_Reset e k s = Inr ?s5"
    using s1(1) s3(1) sent1 by (simp add: Session_Reset_def s0_def [symmetric] Let_def s2_def [symmetric] s4_def)
  moreover have "sb_refCount (sy_bufs ?s5 a) = sb_refCount (sy_bufs s a) - of_nat (count_list (fq_elems (sendq s k) @ bs) a)" for a
    using s1(6) s3(2) by (simp add: s4_def s2_def x0 diff_diff_eq)
  moreover have "ss_sendingQ ?x = map Some bs @ qs" by (rule sent)
  ultimately show ?thesis
    using s1 s3(3-6)
    by (intro exI [of _ q'] exI [of _ ?s5]) (simp add: s4_def s2_def x0 ss_CloseSocket_def Ring_Clear_def fun_eq_iff)
qed

subsection \<open>Properties\<close>

text \<open>
  C7. Giving a slot back. When the release completion of a slot is executed, the application is told, every send
  buffer the slot still refers to (queued or in flight) loses exactly the references the slot held, the
  queues and the ring are empty, the socket is closed, the slot's index is free again, and the release flag
  stays set, so that lookups of the old id keep failing.
\<close>

theorem release_returns_slot:
  assumes "refs s k = of_nat (2 ^ 20)" and "ss_sessionId (sy_sessions s k) = i" and "id_index i = k"
    and "cb_OnDisconnect e i (ss_errCode (sy_sessions s k)) (emit (EvOnDisconnect i (ss_errCode (sy_sessions s k)))
       (s\<lparr>sy_sessionCount := sy_sessionCount s - 1, sy_disconnectCount := sy_disconnectCount s + 1\<rparr>)) = Inr s1"
    and "sy_sessions s1 k = sy_sessions s k"
    and "fq_ok (sendq s k)" and "length (fq_elems (sendq s k)) < en_fuel e"
    and "ss_sendingQ (sy_sessions s k) = map Some bs @ qs" and "ss_dataNotSend (sy_sessions s k) = length bs"
  shows "\<exists>s'. ReleaseExecutable_Execute e k s = Inr s' \<and> sy_freeIndex s' = of_nat k # sy_freeIndex s1 \<and>
    FindSession e upd i s' = Inr (None, s') \<and> fq_elems (sendq s' k) = [] \<and> content (ss_recvQ (sy_sessions s' k)) = [] \<and>
    ss_groupId (sy_sessions s' k) = 0 \<and> ss_socket (sy_sessions s' k) = INVALID_SOCKET \<and>
    (\<forall>a. sb_refCount (sy_bufs s' a) = sb_refCount (sy_bufs s1 a) - of_nat (count_list (fq_elems (sendq s k) @ bs) a)) \<and>
    sy_trace s' = sy_trace s1 @ [EvCloseSocket (ss_socket (sy_sessions s k))]"
proof -
  have h: "fq_ok (sendq s1 k)" "length (fq_elems (sendq s1 k)) < en_fuel e"
    "ss_sendingQ (sy_sessions s1 k) = map Some bs @ qs" "ss_dataNotSend (sy_sessions s1 k) = length bs"
    using assms(5-9) by simp_all
  obtain q' s2 where s2: "Session_Reset e k s1 = Inr s2" "fq_ok q'" "fq_elems q' = []"
    "sy_sessions s2 = (sy_sessions s1)(k := (sy_sessions s1 k)\<lparr>ss_sendQ := q', ss_recvQ := Ring_Clear (ss_recvQ (sy_sessions s1 k)),
      ss_isSending := False, ss_needCheckSendTimeout := False, ss_timeout := ss_defaultTimeout (sy_sessions s1 k),
      ss_errCode := - 1, ss_groupId := 0, ss_dataNotSend := 0, ss_sendingQ := replicate (length bs) None @ qs,
      ss_beforeSocket := ss_socket (sy_sessions s1 k), ss_socket := INVALID_SOCKET\<rparr>)"
    "\<forall>a. sb_refCount (sy_bufs s2 a) = sb_refCount (sy_bufs s1 a) - of_nat (count_list (fq_elems (sendq s1 k) @ bs) a)"
    "sy_trace s2 = sy_trace s1 @ [EvCloseSocket (ss_socket (sy_sessions s1 k))]" "sy_freeIndex s2 = sy_freeIndex s1"
    using Session_Reset_ok [OF h] by blast
  let ?s' = "ReleaseFreeIndex (of_nat k) s2"
  have x: "sy_sessions ?s' k = (sy_sessions s k)\<lparr>ss_sendQ := q', ss_recvQ := Ring_Clear (ss_recvQ (sy_sessions s k)),
      ss_isSending := False, ss_needCheckSendTimeout := False, ss_timeout := ss_defaultTimeout (sy_sessions s k),
      ss_errCode := - 1, ss_groupId := 0, ss_dataNotSend := 0, ss_sendingQ := replicate (length bs) None @ qs,
      ss_beforeSocket := ss_socket (sy_sessions s k), ss_socket := INVALID_SOCKET\<rparr>"
    using s2(4) assms(5) by (simp add: ReleaseFreeIndex_def)
  have "ReleaseExecutable_Execute e k s = Inr ?s'"
    using assms(2-5) s2(1,4) by (simp add: ReleaseExecutable_Execute_def IOCP_onDisconnect_def)
  moreover have "refs ?s' (id_index i) = of_nat (2 ^ 20)" using assms(1,3) x by simp
  then have "FindSession e upd i ?s' = Inr (None, ?s')" by (rule FindSession_fails) simp_all
  ultimately show ?thesis
    using s2 x assms(5) by (intro exI [of _ ?s']) (simp add: ReleaseFreeIndex_def)
qed

theorem release_returns_slot_witness:
  "\<exists>s'. ReleaseExecutable_Execute quiet_env 0 quiet_sys = Inr s' \<and> sy_freeIndex s' = 0 # sy_freeIndex quiet_sys \<and>
    FindSession quiet_env (\<lambda>_ s. Inr s) 0 s' = Inr (None, s')"
proof -
  let ?s1 = "emit (EvOnDisconnect 0 (- 1)) (quiet_sys\<lparr>sy_sessionCount := sy_sessionCount quiet_sys - 1,
    sy_disconnectCount := sy_disconnectCount quiet_sys + 1\<rparr>)"
  have x: "sy_sessions quiet_sys 0 = new_Session" by (simp add: quiet_sys_def)
  have p512: "pow2 512" by (auto simp: pow2_def intro: bexI [of _ 9])
  have "fq_ok (sendq quiet_sys 0)" "fq_elems (sendq quiet_sys 0) = []"
    using fq_ok_new [OF p512, of "0 :: addr"] by (simp_all add: x new_Session_def MAX_SEND_COUNT_def)
  moreover have "refs quiet_sys 0 = of_nat (2 ^ 20)" "ss_sessionId (sy_sessions quiet_sys 0) = 0" "id_index 0 = 0"
    by (simp_all add: x new_Session_def RELEASE_FLAG_def id_index_def)
  moreover have "cb_OnDisconnect quiet_env 0 (ss_errCode (sy_sessions quiet_sys 0)) (emit (EvOnDisconnect 0 (ss_errCode (sy_sessions quiet_sys 0)))
       (quiet_sys\<lparr>sy_sessionCount := sy_sessionCount quiet_sys - 1, sy_disconnectCount := sy_disconnectCount quiet_sys + 1\<rparr>)) = Inr ?s1"
    by (simp add: quiet_env_def x new_Session_def)
  moreover have "sy_sessions ?s1 0 = sy_sessions quiet_sys 0" "sy_freeIndex ?s1 = sy_freeIndex quiet_sys" by simp_all
  moreover have "ss_sendingQ (sy_sessions quiet_sys 0) = map Some [] @ replicate MAX_SEND_COUNT None"
    "ss_dataNotSend (sy_sessions quiet_sys 0) = length ([] :: addr list)" "0 < en_fuel quiet_env"
    by (simp_all add: x new_Session_def quiet_env_def)
  ultimately show ?thesis
    using release_returns_slot [of quiet_sys 0 0 quiet_env ?s1 "[]" "replicate MAX_SEND_COUNT None" "\<lambda>_ s. Inr s"] by auto
qed



end
