(* ===== verification/Group_Loop.thy ===== *)
theory Group_Loop
  imports Completion
begin

section \<open>Groups\<close>

text \<open>
  \<^verbatim>\<open>src/Group.cpp\<close> and \<^verbatim>\<open>GroupManager\<close>: the job loop of a group and its periodic update. \<open>Group_Update\<close>
  closes the recursion: the handlers a job runs may enqueue to other groups and run their \<^verbatim>\<open>Update\<close> in
  the same thread. Its first argument bounds the depth; a group that is already running returns at
  once, so a depth above the number of groups is never used up.
\<close>

definition get_group :: "GroupID \<Rightarrow> sys \<Rightarrow> Group res" where
  "get_group g s = (case sy_groups s g of None \<Rightarrow> Inl NullDeref | Some G \<Rightarrow> Inr G)"

subsection \<open>Receiving in a group\<close>

definition Group_onRecvPacket :: "env \<Rightarrow> update_call \<Rightarrow> GroupID \<Rightarrow> nat \<Rightarrow> CRecvBuffer \<Rightarrow> sys \<Rightarrow> sys res" where
  "Group_onRecvPacket e upd g k b s =
     (let i = ss_sessionId (sy_sessions s k);
          (err, b', s1) = gcb_OnRecv e g i b (emit (EvGroupRecv g i (rv_view b (ss_recvQ (sy_sessions s k)))) s)
      in case err of
           None \<Rightarrow> bind_res (ASSERT_CRASH (en_dbg e) (rv_CanPopSize b' = 0)) (\<lambda>_. Inr s1)
         | Some InvalidArgument \<Rightarrow>
             bind_res (DisconnectSession e upd (ss_sessionId (sy_sessions s1 k)) s1) (\<lambda>(_, s2). Inr s2)
         | Some x \<Rightarrow> Inl x)"

fun Group_RecvHandler_loop ::
  "env \<Rightarrow> update_call \<Rightarrow> GroupID \<Rightarrow> bool \<Rightarrow> nat \<Rightarrow> nat \<Rightarrow> nat \<Rightarrow> sys \<Rightarrow> (nat \<times> sys) res" where
  "Group_RecvHandler_loop e upd g net k 0 loopCount s = Inl OutOfFuel"
| "Group_RecvHandler_loop e upd g net k (Suc n) loopCount s =
     (let ss = sy_sessions s k; q = ss_recvQ ss
      in if ss_groupId ss \<noteq> g then Inr (loopCount, s)
         else if Ring_Size q < header_size net then Inr (loopCount, s)
         else
           bind_res (Ring_Peek q (header_size net)) (\<lambda>hb.
             (let len = header_len net hb
              in if net \<and> nh_code (NetHeader_of hb) \<noteq> dfPACKET_CODE
                 then bind_res (Session_Close e k s) (\<lambda>s'. Inr (loopCount, s'))
                 else if net \<and> unat len > unat (ss_maxPacketLen ss)
                 then bind_res (Session_Close e k s) (\<lambda>s'. Inr (loopCount, s'))
                 else if Ring_Size q < unat len + header_size net then Inr (loopCount, s)
                 else
                   bind_res (if net then Ring_Decode q (ss_staticKey ss) else Inr q) (\<lambda>q1.
                   bind_res (if net then ChecksumValid q1 else Inr True) (\<lambda>valid.
                     (let s1 = upd_session k (ss_recvQ_update (\<lambda>_. q1)) s
                      in if \<not> valid then bind_res (Session_Close e k s1) (\<lambda>s'. Inr (loopCount, s'))
                         else
                           bind_res (Ring_Dequeue q1 (int (header_size net))) (\<lambda>(_, q2).
                           bind_res (Group_onRecvPacket e upd g k (new_CRecvBuffer (ucast len))
                                       (upd_session k (ss_recvQ_update (\<lambda>_. q2)) s1)) (\<lambda>s2.
                             Group_RecvHandler_loop e upd g net k n (Suc loopCount) s2))))))))"

definition Group_RecvHandler :: "env \<Rightarrow> update_call \<Rightarrow> GroupID \<Rightarrow> bool \<Rightarrow> nat \<Rightarrow> sys \<Rightarrow> sys res" where
  "Group_RecvHandler e upd g net k s =
     bind_res (Group_RecvHandler_loop e upd g net k (en_fuel e) 0 (upd_session k (ss_setRecvHandled False) s))
       (\<lambda>(loopCount, s'). Inr (if loopCount > 0 then IncreaseRecvCount loopCount s' else s'))"

subsection \<open>Jobs\<close>

text \<open>A departure: the session must be a member; the callback runs; a release waiting for it is posted.\<close>

definition Group_depart :: "env \<Rightarrow> GroupID \<Rightarrow> GroupJob \<Rightarrow> sys \<Rightarrow> sys res" where
  "Group_depart e g job s =
     bind_res (get_group g s) (\<lambda>G.
       if gj_sessionId job \<notin> gr_sessions G then Inl DebugBreak
       else
         bind_res (gcb_OnLeave e g (gj_sessionId job) (gj_errCode job)
           (emit (EvGroupLeave g (gj_sessionId job) (gj_errCode job))
             (upd_group g (gr_sessions_update (\<lambda>S. S - {gj_sessionId job})) s)))
           (CheckPostRelease e (gj_sessionId job) g))"

text \<open>One job; the boolean is the \<^verbatim>\<open>continue\<close> of a packet for a session that is gone.\<close>

definition Group_handle :: "env \<Rightarrow> update_call \<Rightarrow> GroupID \<Rightarrow> GroupJob \<Rightarrow> sys \<Rightarrow> (bool \<times> sys) res" where
  "Group_handle e upd g job s =
     (case gj_type job of
        Job_Enter \<Rightarrow>
          bind_res (gcb_OnEnter e g (gj_sessionId job) (emit (EvGroupEnter g (gj_sessionId job))
            (upd_group g (\<lambda>G. G\<lparr>gr_handledEnter := gr_handledEnter G + 1,
                                 gr_sessions := insert (gj_sessionId job) (gr_sessions G)\<rparr>) s)))
            (\<lambda>s'. Inr (False, s'))
      | Job_Leave \<Rightarrow>
          bind_res (Group_depart e g job (upd_group g (\<lambda>G. G\<lparr>gr_handledLeave := gr_handledLeave G + 1\<rparr>) s))
            (\<lambda>s'. Inr (False, s'))
      | Job_Move \<Rightarrow> bind_res (Group_depart e g job s) (\<lambda>s'. Inr (False, s'))
      | Job_Recv \<Rightarrow>
          bind_res (FindSession e upd (gj_sessionId job) s) (\<lambda>(r, s1).
            case r of
              None \<Rightarrow> Inr (True, s1)
            | Some k \<Rightarrow>
                bind_res (Group_RecvHandler e upd g (ss_staticKey (sy_sessions s1 k) \<noteq> 0) k s1) (\<lambda>s2.
                bind_res (Release e upd k s2) (\<lambda>(_, s3). Inr (False, s3)))))"

fun HandleJob_loop :: "env \<Rightarrow> update_call \<Rightarrow> GroupID \<Rightarrow> nat \<Rightarrow> nat \<Rightarrow> sys \<Rightarrow> (nat \<times> sys) res" where
  "HandleJob_loop e upd g 0 jobs s = Inl OutOfFuel"
| "HandleJob_loop e upd g (Suc n) jobs s =
     bind_res (get_group g s) (\<lambda>G.
     bind_res (fq_Dequeue (gr_jobs G)) (\<lambda>(r, q).
       (let s1 = upd_group g (gr_jobs_update (\<lambda>_. q)) s
        in case r of
             None \<Rightarrow> Inr (jobs, s1)
           | Some job \<Rightarrow>
               bind_res (Group_handle e upd g job s1) (\<lambda>(cont, s2).
                 if cont then HandleJob_loop e upd g n (Suc jobs) s2
                 else if Suc jobs = 1000 then Inr (Suc jobs, s2)
                 else HandleJob_loop e upd g n (Suc jobs) s2))))"

definition HandleJob :: "env \<Rightarrow> update_call \<Rightarrow> GroupID \<Rightarrow> sys \<Rightarrow> sys res" where
  "HandleJob e upd g s =
     bind_res (HandleJob_loop e upd g (en_fuel e) 0 s) (\<lambda>(jobs, s').
       Inr (upd_group g (\<lambda>G. G\<lparr>gr_handledJob := gr_handledJob G + int jobs\<rparr>) s'))"

subsection \<open>Update\<close>

definition NeedUpdate :: "env \<Rightarrow> GroupID \<Rightarrow> sys \<Rightarrow> (bool \<times> sys) res" where
  "NeedUpdate e g s =
     bind_res (get_group g s) (\<lambda>G. (let (now, s1) = clock_now e s in Inr (now \<ge> gr_nextUpdate G, s1)))"

definition hasJob :: "Group \<Rightarrow> bool" where
  "hasJob G \<longleftrightarrow> fq_Size (gr_jobs G) > 0"

fun Update_loop :: "env \<Rightarrow> update_call \<Rightarrow> GroupID \<Rightarrow> nat \<Rightarrow> sys \<Rightarrow> sys res" where
  "Update_loop e upd g 0 s = Inl OutOfFuel"
| "Update_loop e upd g (Suc n) s =
     bind_res (get_group g s) (\<lambda>G.
     bind_res (if hasJob G then Inr (True, s) else NeedUpdate e g s) (\<lambda>(go, s1).
       if \<not> go then Inr s1
       else
         bind_res (HandleJob e upd g s1) (\<lambda>s2.
         bind_res (NeedUpdate e g s2) (\<lambda>(need, s3).
         bind_res
           (if need then
              bind_res (get_group g s3) (\<lambda>G3.
              bind_res (gcb_OnUpdate e g (gr_loopMs G3) (emit (EvGroupUpdate g (gr_loopMs G3)) s3)) (\<lambda>s4.
                Inr (upd_group g (\<lambda>G. G\<lparr>gr_nextUpdate := gr_nextUpdate G + ms (gr_loopMs G)\<rparr>) s4)))
            else Inr s3)
           (Update_loop e upd g n)))))"

text \<open>The statistics at the end of an update that took \<open>d\<close> nanoseconds and ended at \<open>t\<close>.\<close>

definition Update_stats :: "int \<Rightarrow> int \<Rightarrow> Group \<Rightarrow> Group" where
  "Update_stats t d G =
     (let G1 = G\<lparr>gr_maxWorkTime := max (gr_maxWorkTime G) d, gr_workTime := gr_workTime G + d\<rparr>
      in if t > gr_nextMonitor G1 then
           G1\<lparr>gr_oldMaxWorkTime := duration_ms (gr_maxWorkTime G1), gr_maxWorkTime := 0,
              gr_oldWorkTime := duration_ms (gr_workTime G1), gr_workTime := 0,
              gr_oldHandledJob := gr_handledJob G1, gr_handledJob := 0,
              gr_enterTps := gr_handledEnter G1, gr_handledEnter := 0,
              gr_leaveTps := gr_handledLeave G1, gr_handledLeave := 0,
              gr_jobQSize := fq_Size (gr_jobs G1), gr_nextMonitor := gr_nextMonitor G1 + ms 1000\<rparr>
         else G1)"

definition Update_body :: "env \<Rightarrow> update_call \<Rightarrow> GroupID \<Rightarrow> sys \<Rightarrow> sys res" where
  "Update_body e upd g s =
     bind_res (get_group g s) (\<lambda>G.
       if gr_isRun G then Inr s
       else
         (let (start, s1) = clock_now e (upd_group g (gr_isRun_update (\<lambda>_. True)) s)
          in bind_res (Update_loop e upd g (en_fuel e) s1) (\<lambda>s2.
               (let (end_t, s3) = clock_now e s2
                in Inr (upd_group g (gr_isRun_update (\<lambda>_. False) \<circ> Update_stats end_t (end_t - start)) s3)))))"

fun Group_Update :: "env \<Rightarrow> nat \<Rightarrow> GroupID \<Rightarrow> sys \<Rightarrow> sys res" where
  "Group_Update e 0 g s = Inl OutOfFuel"
| "Group_Update e (Suc d) g s = Update_body e (Group_Update e d) g s"

subsection \<open>The group manager\<close>

text \<open>\<^verbatim>\<open>IOCP::PostExecutable\<close>; a completion reports 2 bytes for it, so it is no stop and no closed connection.\<close>

definition PostExecutable :: "overlapped \<Rightarrow> nat option \<Rightarrow> sys \<Rightarrow> sys" where
  "PostExecutable ov arg = PostQueuedCompletionStatus \<lparr>cp_transferred = 2, cp_key = arg, cp_overlapped = Some ov\<rparr>"

text \<open>\<^verbatim>\<open>GroupManager::Update\<close>; \<open>ids\<close> is the iteration order of the hash map.\<close>

fun GroupManager_Update :: "env \<Rightarrow> GroupID list \<Rightarrow> sys \<Rightarrow> sys res" where
  "GroupManager_Update e [] s = Inr s"
| "GroupManager_Update e (g # ids) s =
     bind_res (NeedUpdate e g s) (\<lambda>(need, s1).
       GroupManager_Update e ids (if need then PostExecutable (OvGroup g) None s1 else s1))"

text \<open>\<^verbatim>\<open>CreateGroup\<close>: \<open>onCreate\<close> is the application's \<^verbatim>\<open>OnCreate\<close> on the new group.\<close>

definition CreateGroup :: "env \<Rightarrow> (Group \<Rightarrow> Group) \<Rightarrow> sys \<Rightarrow> GroupID \<times> sys" where
  "CreateGroup e onCreate s =
     (let (now, s1) = clock_now e s; g = sy_g_GroupID s1 + 1;
          G = onCreate ((new_Group now)\<lparr>gr_groupId := g\<rparr>)
      in (g, s1\<lparr>sy_g_GroupID := g,
                sy_groups := (if sy_groups s1 g = None then (sy_groups s1)(g \<mapsto> G) else sy_groups s1)\<rparr>))"

end
