(* ===== verification/Group_Frame.thy ===== *)
theory Group_Frame
  imports Group_Loop Session_Refs
begin

section \<open>What the library's calls may do to a group\<close>

text \<open>
  Handling a job of one group calls back into the server, which may enqueue jobs to other groups and run
  their updates in the same thread, to any depth. The locale \<open>library_relation\<close> is the contract of a
  relation between the states before and after a call that every call of the library respects: it
  ignores everything but the groups, the membership events and the stop completions of the port,
  and allows a job to be added. The
  locale \<open>update_relation\<close> adds what the update of a group may do to the group it runs. The lemmas
  of the two carry such a relation through every operation, up to \<open>Group_Update\<close> at any depth. They
  are interpreted for the relation that keeps a running group as it is and for the invariant
  that a group's members are the sessions that entered it and have not left; theory
  \<open>Server_Frame\<close> carries both, and the number of stop completions, through the whole server.
\<close>

subsection \<open>The contract\<close>

definition is_member_event :: "event \<Rightarrow> bool" where
  "is_member_event ev = (case ev of EvGroupEnter _ _ \<Rightarrow> True | EvGroupLeave _ _ _ \<Rightarrow> True | _ \<Rightarrow> False)"

definition group_view :: "sys \<Rightarrow> (GroupID \<Rightarrow> Group option) \<times> event list" where
  "group_view s = (sy_groups s, filter is_member_event (sy_trace s))"

text \<open>The completion that ends a worker; \<^verbatim>\<open>IOCP::Stop\<close> posts it.\<close>

definition is_stop :: "completion \<Rightarrow> bool" where
  "is_stop c \<longleftrightarrow> cp_transferred c = 0 \<and> cp_key c = None"

definition port_grows :: "sys \<Rightarrow> sys \<Rightarrow> bool" where
  "port_grows s s' \<longleftrightarrow> (\<exists>cs. sy_port s' = sy_port s @ cs \<and> filter is_stop cs = [])"

text \<open>A step that touches no group, shows no member event and posts other completions only.\<close>

definition quiet :: "sys \<Rightarrow> sys \<Rightarrow> bool" where
  "quiet s s' \<longleftrightarrow> group_view s' = group_view s \<and> port_grows s s'"

text \<open>The application's functions, and the update of other groups, respect a relation.\<close>

definition callbacks_in :: "(sys \<Rightarrow> sys \<Rightarrow> bool) \<Rightarrow> env \<Rightarrow> bool" where
  "callbacks_in R e \<longleftrightarrow>
     (\<forall>g i s s'. gcb_OnEnter e g i s = Inr s' \<longrightarrow> R s s') \<and>
     (\<forall>g i c s s'. gcb_OnLeave e g i c s = Inr s' \<longrightarrow> R s s') \<and>
     (\<forall>g t s s'. gcb_OnUpdate e g t s = Inr s' \<longrightarrow> R s s') \<and>
     (\<forall>g i b s. R s (snd (snd (gcb_OnRecv e g i b s)))) \<and>
     (\<forall>sock s b s'. cb_OnAccept e sock s = Inr (b, s') \<longrightarrow> R s s') \<and>
     (\<forall>i s s'. cb_OnConnect e i s = Inr s' \<longrightarrow> R s s') \<and>
     (\<forall>i c s s'. cb_OnDisconnect e i c s = Inr s' \<longrightarrow> R s s') \<and>
     (\<forall>i b s. R s (snd (snd (cb_OnRecvPacket e i b s)))) \<and>
     (\<forall>i t s s'. cb_OnSessionTimeout e i t s = Inr s' \<longrightarrow> R s s')"

definition update_in :: "(sys \<Rightarrow> sys \<Rightarrow> bool) \<Rightarrow> update_call \<Rightarrow> bool" where
  "update_in R upd \<longleftrightarrow> (\<forall>g s s'. upd g s = Inr s' \<longrightarrow> R s s')"

lemma callbacks_inD:
  assumes "callbacks_in R e"
  shows "gcb_OnEnter e g i s = Inr s' \<Longrightarrow> R s s'" "gcb_OnLeave e g i c s = Inr s' \<Longrightarrow> R s s'"
    "gcb_OnUpdate e g t s = Inr s' \<Longrightarrow> R s s'" "R s (snd (snd (gcb_OnRecv e g i b s)))"
    "cb_OnAccept e sock s = Inr (ok, s') \<Longrightarrow> R s s'" "cb_OnConnect e i s = Inr s' \<Longrightarrow> R s s'"
    "cb_OnDisconnect e i c s = Inr s' \<Longrightarrow> R s s'" "R s (snd (snd (cb_OnRecvPacket e i b s)))"
    "cb_OnSessionTimeout e i ti s = Inr s' \<Longrightarrow> R s s'"
  using assms unfolding callbacks_in_def by metis+

lemma port_grows_same: "sy_port s' = sy_port s \<Longrightarrow> port_grows s s'"
  by (simp add: port_grows_def)

lemma port_grows_trans: "port_grows s1 s2 \<Longrightarrow> port_grows s2 s3 \<Longrightarrow> port_grows s1 s3"
  by (auto simp: port_grows_def)

lemma quietI: "group_view s' = group_view s \<Longrightarrow> sy_port s' = sy_port s \<Longrightarrow> quiet s s'"
  by (simp add: quiet_def port_grows_same)

lemma quiet_refl [simp]: "quiet s s"
  by (simp add: quietI)

lemma quiet_trans: "quiet s1 s2 \<Longrightarrow> quiet s2 s3 \<Longrightarrow> quiet s1 s3"
  by (auto simp: quiet_def intro: port_grows_trans)

lemma quiet_post: "\<not> is_stop c \<Longrightarrow> quiet s (PostQueuedCompletionStatus c s)"
  by (simp add: quiet_def group_view_def port_grows_def)

lemma quiet_emit [simp]: "\<not> is_member_event ev \<Longrightarrow> quiet s (emit ev s)" "\<not> is_member_event ev \<Longrightarrow> quiet (emit ev s) s"
  by (simp_all add: quietI group_view_def)

lemma quiet_step [simp]:
  "quiet s (upd_session k f s)" "quiet s (snd (IncreaseRef k s))" "quiet s (snd (clock_now e s))"
  "quiet s (buf_IncreaseRef a s)" "quiet s (buf_Release a s)" "quiet s (IncreaseRecvCount n s)"
  by (simp_all add: quietI group_view_def IncreaseRef_def clock_now_def buf_IncreaseRef_def buf_Release_def Let_def
      IncreaseRecvCount_def split: prod.splits)

lemma quiet_back [simp]:
  "quiet (upd_session k f s) s" "quiet (snd (IncreaseRef k s)) s" "quiet (snd (clock_now e s)) s"
  "quiet (buf_IncreaseRef a s) s" "quiet (buf_Release a s) s" "quiet (IncreaseRecvCount n s) s"
  by (simp_all add: quietI group_view_def IncreaseRef_def clock_now_def buf_IncreaseRef_def buf_Release_def Let_def
      IncreaseRecvCount_def split: prod.splits)

lemma quiet_skip [simp]:
  "quiet (upd_session k f s) s' = quiet s s'" "quiet s (upd_session k f s') = quiet s s'"
  "quiet (buf_Release a s) s' = quiet s s'" "quiet s (buf_Release a s') = quiet s s'"
  by (blast intro: quiet_trans quiet_step quiet_back)+

lemma is_member_event_simps [simp]:
  "is_member_event (EvGroupEnter g i)" "is_member_event (EvGroupLeave g i c)"
  "\<not> is_member_event (EvCancelIO sock)" "\<not> is_member_event (EvGroupRecv g i bs)" "\<not> is_member_event (EvGroupUpdate g t)"
  "\<not> is_member_event (EvWSARecv k)" "\<not> is_member_event (EvWSASend k ws)" "\<not> is_member_event (EvCloseSocket sock)"
  "\<not> is_member_event (EvSetNoDelay sock)" "\<not> is_member_event (EvOnConnect i)" "\<not> is_member_event (EvOnDisconnect i c)"
  "\<not> is_member_event (EvOnRecvPacket i bs)" "\<not> is_member_event (EvOnSessionTimeout i ti)"
  by (simp_all add: is_member_event_def)

lemma PostRelease_quiet [simp]: "quiet s (PostRelease k s)"
  unfolding PostRelease_def by (rule quiet_post) (simp add: is_stop_def)

lemma CancelIO_quiet: "CancelIO e k s = Inr s' \<Longrightarrow> quiet s s'"
  by (auto simp: CancelIO_def io_call_def group_view_def split: option.splits if_splits intro!: quietI)

lemma Session_Close_quiet: "Session_Close e k s = Inr s' \<Longrightarrow> quiet s s'"
  unfolding Session_Close_def by (drule CancelIO_quiet) (rule quiet_trans [OF quiet_step(1)])

lemma CheckPostRelease_quiet: "CheckPostRelease e i g s = Inr s' \<Longrightarrow> quiet s s'"
  by (auto simp: CheckPostRelease_def Let_def split: if_splits)

lemma PostSend_quiet: "PostSend k s = Inr s' \<Longrightarrow> quiet s s'"
  by (auto simp: PostSend_def CanSend_def is_stop_def intro!: quiet_trans [OF quiet_step(1) quiet_post])

locale library_relation =
  fixes R :: "sys \<Rightarrow> sys \<Rightarrow> bool"
  assumes R_quiet: "quiet s s' \<Longrightarrow> R s s'"
    and R_trans: "R s1 s2 \<Longrightarrow> R s2 s3 \<Longrightarrow> R s1 s3"
    and R_jobs: "R s (upd_group g (gr_jobs_update f) s)"
begin

lemma R_refl: "R s s"
  by (simp add: R_quiet)

lemma R_from: "R s1 s2 \<Longrightarrow> quiet s s1 \<Longrightarrow> R s s2"
  by (blast intro: R_quiet R_trans)

lemma R_to: "R s s1 \<Longrightarrow> quiet s1 s2 \<Longrightarrow> R s s2"
  by (blast intro: R_quiet R_trans)

lemma R_skip [simp]:
  "R (upd_session k f s) s' = R s s'" "R s (upd_session k f s') = R s s'"
  "R (buf_Release a s) s' = R s s'" "R (buf_IncreaseRef a s) s' = R s s'"
  "R s (buf_Release a s') = R s s'" "R s (IncreaseRecvCount n s') = R s s'"
  "R (snd (clock_now e s)) s' = R s s'" "R s (snd (clock_now e s')) = R s s'"
  "R (snd (IncreaseRef k s)) s' = R s s'" "R s (snd (IncreaseRef k s')) = R s s'"
  by (auto intro: R_from R_to)

lemma Group_Enqueue_R:
  assumes "update_in R upd" and "Group_Enqueue e upd g job update s = Inr (b, s')"
  shows "R s s'"
  using assms
  by (auto simp: Group_Enqueue_def Let_def update_in_def R_jobs split: option.splits if_splits)
    (blast intro: R_trans [OF R_jobs])

lemma LeaveSession_R: "update_in R upd \<Longrightarrow> LeaveSession e upd g i update c s = Inr s' \<Longrightarrow> R s s'"
  by (auto simp: LeaveSession_def intro: Group_Enqueue_R)

lemma EnterSession_R: "update_in R upd \<Longrightarrow> EnterSession e upd g i update s = Inr s' \<Longrightarrow> R s s'"
  by (auto simp: EnterSession_def intro: Group_Enqueue_R)

lemma Release_R:
  assumes "update_in R upd" and "Release e upd k s = Inr (b, s')"
  shows "R s s'"
  using assms
  by (auto simp: Release_def Let_def SessionDisconnected_def split: if_splits
      intro: R_from [OF LeaveSession_R] R_quiet quiet_trans [OF quiet_step(1) PostRelease_quiet])

lemma FindSession_R:
  assumes "update_in R upd" and "FindSession e upd i s = Inr (r, s')"
  shows "R s s'"
  using assms
  by (auto simp: FindSession_def Let_def case_prod_unfold split: if_splits intro: R_quiet R_from [OF Release_R])

lemma with_session_R:
  assumes "update_in R upd" and "\<And>k s s'. act k s = Inr s' \<Longrightarrow> R s s'"
    and "with_session e upd i act s = Inr (b, s')"
  shows "R s s'"
  using assms(3) FindSession_R [OF assms(1)] Release_R [OF assms(1)] assms(2)
  by (auto simp: with_session_def split: option.splits) (meson R_trans)

lemma DisconnectSession_R:
  assumes "update_in R upd" and "DisconnectSession e upd i s = Inr (b, s')"
  shows "R s s'"
  by (rule with_session_R [OF assms(1) _ assms(2) [unfolded DisconnectSession_def]]) (rule R_quiet [OF Session_Close_quiet])

lemma ProcessBuffer_R:
  assumes "update_in R upd" and "ProcessBuffer e upd a k s = Inr s'"
  shows "R s s'"
  using assms
  by (auto simp: ProcessBuffer_def Let_def R_quiet split: if_splits dest!: DisconnectSession_R [OF assms(1)])

text \<open>The calls an application makes from its own functions.\<close>

lemma SendPacket_R:
  assumes "update_in R upd" and "SendPacket e upd i a s = Inr (b, s')"
  shows "R s s'"
  by (rule with_session_R [OF assms(1) _ assms(2) [unfolded SendPacket_def]])
    (auto intro: R_to [OF ProcessBuffer_R [OF assms(1)] PostSend_quiet])

lemma MoveSession_R:
  assumes "update_in R upd" and "MoveSession e upd i dst update s = Inr s'"
  shows "R s s'"
proof -
  obtain b where w: "with_session e upd i (\<lambda>k s1.
       (let src = ss_groupId (sy_sessions s1 k)
        in bind_res (if src \<noteq> 0 then LeaveSession e upd src (ss_sessionId (sy_sessions s1 k)) update
                                       (ss_errCode (sy_sessions s1 k)) s1
                     else Inr s1) (\<lambda>s2.
           (let s3 = upd_session k (ss_SetGroupID dst) s2
            in if dst \<noteq> 0 then EnterSession e upd dst (ss_sessionId (sy_sessions s3 k)) update s3
               else Inr s3)))) s = Inr (b, s')"
    using assms(2) by (auto simp: MoveSession_def)
  show ?thesis
    by (rule with_session_R [OF assms(1) _ w])
      (auto simp: Let_def R_refl split: if_splits
        dest!: LeaveSession_R [OF assms(1)] EnterSession_R [OF assms(1)], erule (1) R_trans)
qed

subsection \<open>Receiving in a group\<close>

lemma Group_onRecvPacket_R:
  assumes "callbacks_in R e" and "update_in R upd" and "Group_onRecvPacket e upd g k b s = Inr s'"
  shows "R s s'"
proof -
  let ?i = "ss_sessionId (sy_sessions s k)"
  let ?s = "emit (EvGroupRecv g ?i (rv_view b (ss_recvQ (sy_sessions s k)))) s"
  have "R ?s (snd (snd (gcb_OnRecv e g ?i b ?s)))" using assms(1) by (simp add: callbacks_in_def)
  then have "R s (snd (snd (gcb_OnRecv e g ?i b ?s)))" by (rule R_from) simp
  moreover have "R (snd (snd (gcb_OnRecv e g ?i b ?s))) s'"
    using assms(3)
    by (auto simp: Group_onRecvPacket_def Let_def case_prod_unfold R_refl split: option.splits stop.splits
        dest: DisconnectSession_R [OF assms(2)])
  ultimately show ?thesis by (rule R_trans)
qed

lemma Group_RecvHandler_loop_R:
  assumes "callbacks_in R e" and "update_in R upd" and "Group_RecvHandler_loop e upd g net k n c s = Inr (c', s')"
  shows "R s s'"
  using assms(3)
proof (induction n arbitrary: g net c s)
  case 0
  then show ?case by simp
next
  case (Suc n)
  show ?case
    using Suc.prems
    by (auto simp: Let_def R_refl split: if_splits
        dest!: R_quiet [OF Session_Close_quiet] Group_onRecvPacket_R [OF assms(1,2)] Suc.IH) (blast intro: R_trans)+
qed

lemma Group_RecvHandler_R:
  assumes "callbacks_in R e" and "update_in R upd" and "Group_RecvHandler e upd g net k s = Inr s'"
  shows "R s s'"
  using assms(3)
  by (auto simp: Group_RecvHandler_def dest!: Group_RecvHandler_loop_R [OF assms(1,2)] split: if_splits)

end

subsection \<open>Running a group\<close>

text \<open>
  \<open>S g\<close> relates the states before and after a step of the thread that runs group \<open>g\<close>: besides what every
  call may do, a session enters or a member leaves, and the counters change. A whole run, from
  setting the run flag to clearing it, is again a step of the first kind.
\<close>

definition keeps_members :: "(Group \<Rightarrow> Group) \<Rightarrow> bool" where
  "keeps_members f \<longleftrightarrow> (\<forall>G. gr_sessions (f G) = gr_sessions G \<and> gr_isRun (f G) = gr_isRun G)"

lemma sessions_update_const: "gr_sessions_update f G = G\<lparr>gr_sessions := f (gr_sessions G)\<rparr>"
  by (cases G) simp

locale update_relation = library_relation +
  fixes S :: "GroupID \<Rightarrow> sys \<Rightarrow> sys \<Rightarrow> bool"
  assumes S_R: "R s s' \<Longrightarrow> S g s s'"
    and S_trans: "S g s1 s2 \<Longrightarrow> S g s2 s3 \<Longrightarrow> S g s1 s3"
    and S_keep: "keeps_members f \<Longrightarrow> S g s (upd_group g f s)"
    and S_enter: "S g s (emit (EvGroupEnter g i) (upd_group g (gr_sessions_update (insert i)) s))"
    and S_leave: "sy_groups s g = Some G \<Longrightarrow> i \<in> gr_sessions G \<Longrightarrow>
      S g s (emit (EvGroupLeave g i c) (upd_group g (gr_sessions_update (\<lambda>M. M - {i})) s))"
    and S_run: "sy_groups s g = Some G \<Longrightarrow> \<not> gr_isRun G \<Longrightarrow> keeps_members f \<Longrightarrow>
      S g (upd_group g (gr_isRun_update (\<lambda>_. True)) s) s' \<Longrightarrow>
      R s (upd_group g (gr_isRun_update (\<lambda>_. False) \<circ> f) s')"
begin

lemma Group_depart_S:
  assumes "callbacks_in R e" and "Group_depart e g job s = Inr s'"
  shows "S g s s'"
proof -
  obtain G s1 where G: "sy_groups s g = Some G" "gj_sessionId job \<in> gr_sessions G"
    and s1: "gcb_OnLeave e g (gj_sessionId job) (gj_errCode job) (emit (EvGroupLeave g (gj_sessionId job) (gj_errCode job))
        (upd_group g (gr_sessions_update (\<lambda>M. M - {gj_sessionId job})) s)) = Inr s1"
      "CheckPostRelease e (gj_sessionId job) g s1 = Inr s'"
    using assms(2) by (auto simp: Group_depart_def get_group_def split: option.splits if_splits)
  have "R (emit (EvGroupLeave g (gj_sessionId job) (gj_errCode job))
        (upd_group g (gr_sessions_update (\<lambda>M. M - {gj_sessionId job})) s)) s'"
    by (rule R_to [OF callbacks_inD(2) [OF assms(1) s1(1)] CheckPostRelease_quiet [OF s1(2)]])
  then show ?thesis using S_trans [OF S_leave [OF G] S_R] by blast
qed

lemma Group_handle_S:
  assumes "callbacks_in R e" and "update_in R upd" and "Group_handle e upd g job s = Inr (b, s')"
  shows "S g s s'"
proof (cases "gj_type job")
  case Job_Recv
  then have "R s s'"
    using assms(3)
    by (auto simp: Group_handle_def split: option.splits
        dest!: FindSession_R [OF assms(2)] Group_RecvHandler_R [OF assms(1,2)] Release_R [OF assms(2)])
      (blast intro: R_trans)
  then show ?thesis by (rule S_R)
next
  case Job_Enter
  let ?f = "\<lambda>G. G\<lparr>gr_handledEnter := gr_handledEnter G + 1\<rparr>"
  have "upd_group g (\<lambda>G. G\<lparr>gr_handledEnter := gr_handledEnter G + 1,
      gr_sessions := insert (gj_sessionId job) (gr_sessions G)\<rparr>) s =
    upd_group g (gr_sessions_update (insert (gj_sessionId job))) (upd_group g ?f s)"
    by (cases "sy_groups s g") (simp_all add: upd_group_def sessions_update_const [of "insert (gj_sessionId job)"])
  then have "R (emit (EvGroupEnter g (gj_sessionId job))
      (upd_group g (gr_sessions_update (insert (gj_sessionId job))) (upd_group g ?f s))) s'"
    using Job_Enter assms(1,3) by (auto simp: Group_handle_def callbacks_in_def)
  moreover have "keeps_members ?f" by (simp add: keeps_members_def)
  ultimately show ?thesis using S_trans [OF S_keep S_trans [OF S_enter S_R]] by blast
next
  case Job_Move
  then show ?thesis using assms(3) by (auto simp: Group_handle_def intro: Group_depart_S [OF assms(1)])
next
  case Job_Leave
  have "keeps_members (\<lambda>G. G\<lparr>gr_handledLeave := gr_handledLeave G + 1\<rparr>)" by (simp add: keeps_members_def)
  then show ?thesis
    using Job_Leave assms(3) S_trans [OF S_keep Group_depart_S [OF assms(1)]] by (auto simp: Group_handle_def)
qed

lemma HandleJob_loop_S:
  assumes "callbacks_in R e" and "update_in R upd" and "HandleJob_loop e upd g n j s = Inr (j', s')"
  shows "S g s s'"
  using assms(3)
proof (induction n arbitrary: j s)
  case 0
  then show ?case by simp
next
  case (Suc n)
  have job: "S g s s2" if "Group_handle e upd g job (upd_group g (gr_jobs_update (\<lambda>_. q)) s) = Inr (b, s2)" for job q b s2
    using S_trans [OF S_R [OF R_jobs] Group_handle_S [OF assms(1,2) that]] .
  show ?case
    using Suc.prems
    by (auto simp: get_group_def Let_def S_R [OF R_jobs] split: option.splits if_splits dest!: job Suc.IH)
      (blast intro: S_trans)+
qed

lemma HandleJob_S:
  assumes "callbacks_in R e" and "update_in R upd" and "HandleJob e upd g s = Inr s'"
  shows "S g s s'"
proof -
  obtain j s1 where "HandleJob_loop e upd g (en_fuel e) 0 s = Inr (j, s1)"
    "s' = upd_group g (\<lambda>G. G\<lparr>gr_handledJob := gr_handledJob G + int j\<rparr>) s1"
    using assms(3) by (auto simp: HandleJob_def)
  moreover have "keeps_members (\<lambda>G. G\<lparr>gr_handledJob := gr_handledJob G + int j\<rparr>)" by (simp add: keeps_members_def)
  ultimately show ?thesis using S_trans [OF HandleJob_loop_S [OF assms(1,2)] S_keep] by blast
qed

lemma NeedUpdate_R: "NeedUpdate e g s = Inr (b, s') \<Longrightarrow> R s s'"
  by (auto simp: NeedUpdate_def get_group_def Let_def case_prod_unfold R_refl split: option.splits)

lemma Update_loop_S:
  assumes "callbacks_in R e" and "update_in R upd" and "Update_loop e upd g n s = Inr s'"
  shows "S g s s'"
  using assms(3)
proof (induction n arbitrary: s)
  case 0
  then show ?case by simp
next
  case (Suc n)
  let ?tick = "\<lambda>G. G\<lparr>gr_nextUpdate := gr_nextUpdate G + ms (gr_loopMs G)\<rparr>"
  have tick: "S g s (upd_group g ?tick s)" for s by (rule S_keep) (simp add: keeps_members_def)
  have upd: "S g s s2" if "gcb_OnUpdate e g t (emit (EvGroupUpdate g t) s) = Inr s1" "s2 = upd_group g ?tick s1" for s t s1 s2
  proof -
    have "R s s1" using assms(1) that(1) R_from [of "emit (EvGroupUpdate g t) s"] by (auto simp: callbacks_in_def)
    then show ?thesis using S_trans [OF S_R tick] that(2) by blast
  qed
  have need: "S g s s'" if "NeedUpdate e g s = Inr (b, s')" for b s s' by (rule S_R [OF NeedUpdate_R [OF that]])
  show ?case
    using Suc.prems
    by (auto simp: get_group_def S_R R_refl split: option.splits if_splits
        dest!: need HandleJob_S [OF assms(1,2)] Suc.IH upd [OF _ refl])
      (blast intro: S_trans)+
qed

lemma Update_body_R:
  assumes "callbacks_in R e" and "update_in R upd" and "Update_body e upd g s = Inr s'"
  shows "R s s'"
proof -
  obtain G where G: "sy_groups s g = Some G" using assms(3) by (auto simp: Update_body_def get_group_def split: option.splits)
  show ?thesis
  proof (cases "gr_isRun G")
    case True
    then show ?thesis using assms(3) G by (simp add: Update_body_def get_group_def R_refl)
  next
    case False
    let ?s0 = "upd_group g (gr_isRun_update (\<lambda>_. True)) s"
    obtain s2 t d where s2: "Update_loop e upd g (en_fuel e) (snd (clock_now e ?s0)) = Inr s2"
      "s' = upd_group g (gr_isRun_update (\<lambda>_. False) \<circ> Update_stats t d) (snd (clock_now e s2))"
      using assms(3) G False by (auto simp: Update_body_def get_group_def Let_def case_prod_unfold)
    have "S g ?s0 (snd (clock_now e ?s0))" "S g s2 (snd (clock_now e s2))" by (simp_all add: S_R R_refl)
    then have "S g ?s0 (snd (clock_now e s2))" using Update_loop_S [OF assms(1,2) s2(1)] S_trans by blast
    moreover have "keeps_members (Update_stats t d)" by (simp add: keeps_members_def Update_stats_def Let_def)
    ultimately show ?thesis using S_run [OF G False] s2(2) by blast
  qed
qed

lemma Group_Update_R:
  assumes "callbacks_in R e"
  shows "update_in R (Group_Update e d)"
proof (induction d)
  case (Suc d)
  then show ?case using Update_body_R [OF assms Suc] by (simp add: update_in_def)
qed (simp add: update_in_def)

end

subsection \<open>A running group is left alone\<close>

text \<open>Every group that is running stays running and keeps its members.\<close>

definition keeps_running :: "GroupID \<Rightarrow> sys \<Rightarrow> sys \<Rightarrow> bool" where
  "keeps_running g s s' \<longleftrightarrow> (\<forall>G. sy_groups s g = Some G \<longrightarrow> gr_isRun G \<longrightarrow>
     (\<exists>G'. sy_groups s' g = Some G' \<and> gr_isRun G'))"

definition keeps_running_members :: "GroupID \<Rightarrow> sys \<Rightarrow> sys \<Rightarrow> bool" where
  "keeps_running_members g s s' \<longleftrightarrow> (\<forall>G. sy_groups s g = Some G \<longrightarrow> gr_isRun G \<longrightarrow>
     (\<exists>G'. sy_groups s' g = Some G' \<and> gr_isRun G' \<and> gr_sessions G' = gr_sessions G))"

definition running_kept :: "sys \<Rightarrow> sys \<Rightarrow> bool" where
  "running_kept s s' \<longleftrightarrow> (\<forall>g. keeps_running_members g s s')"

definition running_kept_but :: "GroupID \<Rightarrow> sys \<Rightarrow> sys \<Rightarrow> bool" where
  "running_kept_but h s s' \<longleftrightarrow> keeps_running h s s' \<and> (\<forall>g. g \<noteq> h \<longrightarrow> keeps_running_members g s s')"

lemma quiet_groups: "quiet s s' \<Longrightarrow> sy_groups s' = sy_groups s"
  by (simp add: quiet_def group_view_def)

lemma upd_group_sel [simp]:
  "sy_groups (upd_group g f s) = (sy_groups s)(g := map_option f (sy_groups s g))"
  "sy_trace (upd_group g f s) = sy_trace s" "sy_sessions (upd_group g f s) = sy_sessions s"
  "sy_port (upd_group g f s) = sy_port s" "sy_freeIndex (upd_group g f s) = sy_freeIndex s"
  "sy_bufs (upd_group g f s) = sy_bufs s" "sy_ticks (upd_group g f s) = sy_ticks s"
  by (simp_all add: upd_group_def)

interpretation running: library_relation running_kept
proof unfold_locales
  show "running_kept s s'" if "quiet s s'" for s s'
    using quiet_groups [OF that] by (simp add: running_kept_def keeps_running_members_def)
  show "running_kept s1 s3" if "running_kept s1 s2" "running_kept s2 s3" for s1 s2 s3
    using that unfolding running_kept_def keeps_running_members_def by metis
  show "running_kept s (upd_group g (gr_jobs_update f) s)" for s g f
    by (simp add: running_kept_def keeps_running_members_def)
qed

interpretation running: update_relation running_kept running_kept_but
proof unfold_locales
  show "running_kept_but g s s'" if "running_kept s s'" for g s s'
    using that unfolding running_kept_def running_kept_but_def keeps_running_members_def keeps_running_def by metis
  show "running_kept_but g s1 s3" if "running_kept_but g s1 s2" "running_kept_but g s2 s3" for g s1 s2 s3
    using that unfolding running_kept_but_def keeps_running_members_def keeps_running_def by metis
  show "running_kept s (upd_group g (gr_isRun_update (\<lambda>_. False) \<circ> f) s')"
    if "sy_groups s g = Some G" "\<not> gr_isRun G" "keeps_members f"
      "running_kept_but g (upd_group g (gr_isRun_update (\<lambda>_. True)) s) s'" for s g G f s'
    using that unfolding running_kept_def running_kept_but_def keeps_running_members_def by fastforce
qed (auto simp: running_kept_but_def keeps_running_members_def keeps_running_def keeps_members_def)

subsection \<open>Members are the sessions that entered and have not left\<close>

primrec member_step :: "event \<Rightarrow> GroupID \<Rightarrow> SessionID set \<Rightarrow> SessionID set" where
  "member_step (EvGroupEnter h i) g M = (if h = g then insert i M else M)"
| "member_step (EvGroupLeave h i c) g M = (if h = g then M - {i} else M)"
| "member_step (EvWSARecv _) g M = M"
| "member_step (EvWSASend _ _) g M = M"
| "member_step (EvCancelIO _) g M = M"
| "member_step (EvCloseSocket _) g M = M"
| "member_step (EvSetNoDelay _) g M = M"
| "member_step (EvOnConnect _) g M = M"
| "member_step (EvOnDisconnect _ _) g M = M"
| "member_step (EvOnRecvPacket _ _) g M = M"
| "member_step (EvOnSessionTimeout _ _) g M = M"
| "member_step (EvGroupRecv _ _ _) g M = M"
| "member_step (EvGroupUpdate _ _) g M = M"

definition entered :: "event list \<Rightarrow> GroupID \<Rightarrow> SessionID set" where
  "entered evs g = fold (\<lambda>ev. member_step ev g) evs {}"

definition members_inv :: "sys \<Rightarrow> bool" where
  "members_inv s \<longleftrightarrow> (\<forall>g G. sy_groups s g = Some G \<longrightarrow> gr_sessions G = entered (sy_trace s) g)"

definition members_kept :: "sys \<Rightarrow> sys \<Rightarrow> bool" where
  "members_kept s s' \<longleftrightarrow> (members_inv s \<longrightarrow> members_inv s')"

lemma member_step_other: "\<not> is_member_event ev \<Longrightarrow> member_step ev g M = M"
  by (cases ev) (simp_all add: is_member_event_def)

lemma entered_filter: "entered (filter is_member_event evs) g = entered evs g"
proof -
  have "fold (\<lambda>ev. member_step ev g) (filter is_member_event evs) M = fold (\<lambda>ev. member_step ev g) evs M" for M
    by (induction evs arbitrary: M) (simp_all add: member_step_other)
  then show ?thesis by (simp add: entered_def)
qed

lemma entered_snoc: "entered (evs @ [ev]) g = member_step ev g (entered evs g)"
  by (simp add: entered_def)

lemma members_inv_view: "group_view s' = group_view s \<Longrightarrow> members_inv s' = members_inv s"
  by (simp add: members_inv_def group_view_def) (metis entered_filter)

lemma members_inv_keep:
  "(\<And>G. gr_sessions (f G) = gr_sessions G) \<Longrightarrow> members_inv (upd_group g f s) = members_inv s"
  by (auto simp: members_inv_def split: if_splits) (metis option.simps(9))+

interpretation members: library_relation members_kept
proof unfold_locales
  show "members_kept s s'" if "quiet s s'" for s s'
    using members_inv_view [of s' s] that by (simp add: quiet_def members_kept_def)
  show "members_kept s (upd_group g (gr_jobs_update f) s)" for s g f
    by (simp add: members_kept_def members_inv_keep)
qed (simp add: members_kept_def)

interpretation members: update_relation members_kept "\<lambda>_. members_kept"
proof unfold_locales
  show "members_kept s (upd_group g f s)" if "keeps_members f" for f g s
    using that by (simp add: members_kept_def keeps_members_def members_inv_keep)
  show "members_kept s (emit (EvGroupEnter g i) (upd_group g (gr_sessions_update (insert i)) s))" for g s i
    by (auto simp: members_kept_def members_inv_def entered_snoc)
  show "members_kept s (emit (EvGroupLeave g i c) (upd_group g (gr_sessions_update (\<lambda>M. M - {i})) s))"
    for s g i c by (auto simp: members_kept_def members_inv_def entered_snoc)
  show "members_kept s (upd_group g (gr_isRun_update (\<lambda>_. False) \<circ> f) s')"
    if "keeps_members f" "members_kept (upd_group g (gr_isRun_update (\<lambda>_. True)) s) s'" for s g f s'
    using that by (simp add: members_kept_def keeps_members_def members_inv_keep)
qed (simp_all add: members_kept_def)

end
