(* ===== verification/Group_Jobs.thy ===== *)
theory Group_Jobs
  imports Group_Frame
begin

section \<open>What the jobs of a group do\<close>

text \<open>
  The functional behaviour of \<^verbatim>\<open>Group::Update\<close> on a queue of enter and leave jobs, for an application that
  does not override the virtual functions of \<^verbatim>\<open>Group\<close>, whose bodies are empty: the jobs take effect in the
  order they were queued. On top of it, moving a session between groups and the release of a
  session that is in a group.
\<close>

definition default_group :: "env \<Rightarrow> bool" where
  "default_group e \<longleftrightarrow> (\<forall>g i c t s. gcb_OnEnter e g i s = Inr s \<and> gcb_OnLeave e g i c s = Inr s \<and> gcb_OnUpdate e g t s = Inr s)"

text \<open>The specification: jobs that can be handled, what they do to the members, the events, the releases they post.\<close>

fun jobs_ok :: "GroupJob list \<Rightarrow> SessionID set \<Rightarrow> bool" where
  "jobs_ok [] M \<longleftrightarrow> True"
| "jobs_ok (j # js) M \<longleftrightarrow>
     (gj_type j = Job_Enter \<and> jobs_ok js (insert (gj_sessionId j) M)) \<or>
     (gj_type j = Job_Leave \<and> gj_sessionId j \<in> M \<and> id_index (gj_sessionId j) < MAX_SESSIONS \<and>
      jobs_ok js (M - {gj_sessionId j}))"

fun apply_jobs :: "GroupJob list \<Rightarrow> SessionID set \<Rightarrow> SessionID set" where
  "apply_jobs [] M = M"
| "apply_jobs (j # js) M =
     apply_jobs js (if gj_type j = Job_Enter then insert (gj_sessionId j) M else M - {gj_sessionId j})"

definition job_event :: "GroupID \<Rightarrow> GroupJob \<Rightarrow> event" where
  "job_event g j = (if gj_type j = Job_Enter then EvGroupEnter g (gj_sessionId j)
                    else EvGroupLeave g (gj_sessionId j) (gj_errCode j))"

definition release_completion :: "nat \<Rightarrow> completion" where
  "release_completion k = \<lparr>cp_transferred = - 1, cp_key = Some k, cp_overlapped = Some OvRelease\<rparr>"

definition job_posts :: "(nat \<Rightarrow> Session) \<Rightarrow> GroupID \<Rightarrow> GroupJob \<Rightarrow> completion list" where
  "job_posts ses g j =
     (let k = id_index (gj_sessionId j)
      in if gj_type j = Job_Leave \<and> ss_groupId (ses k) = g \<and> ss_sessionId (ses k) = gj_sessionId j \<and>
            sint (ss_refCount (ses k)) \<ge> sint RELEASE_FLAG
         then [release_completion k] else [])"

text \<open>
  \<open>after_jobs g js s s'\<close>: the jobs \<open>js\<close> of group \<open>g\<close> have been handled, nothing else happened. Counters of the
  group are left open.
\<close>

definition after_jobs :: "GroupID \<Rightarrow> GroupJob list \<Rightarrow> sys \<Rightarrow> sys \<Rightarrow> bool" where
  "after_jobs g js s s' \<longleftrightarrow> (\<exists>G G'. sy_groups s g = Some G \<and> sy_groups s' = (sy_groups s)(g \<mapsto> G') \<and>
     gr_sessions G' = apply_jobs js (gr_sessions G) \<and> gr_isRun G' = gr_isRun G \<and> gr_nextUpdate G' = gr_nextUpdate G \<and>
     sy_sessions s' = sy_sessions s \<and> sy_trace s' = sy_trace s @ map (job_event g) js \<and>
     sy_port s' = sy_port s @ concat (map (job_posts (sy_sessions s) g) js) \<and>
     sy_freeIndex s' = sy_freeIndex s \<and> sy_bufs s' = sy_bufs s)"

definition queued :: "GroupID \<Rightarrow> sys \<Rightarrow> GroupJob list \<Rightarrow> bool" where
  "queued g s js \<longleftrightarrow> (\<exists>G. sy_groups s g = Some G \<and> fq_ok (gr_jobs G) \<and> fq_elems (gr_jobs G) = js)"

definition members :: "GroupID \<Rightarrow> sys \<Rightarrow> SessionID set" where
  "members g s = (case sy_groups s g of None \<Rightarrow> {} | Some G \<Rightarrow> gr_sessions G)"

lemma CheckPostRelease_posts:
  assumes "id_index (gj_sessionId j) < MAX_SESSIONS" and "gj_type j = Job_Leave"
  shows "\<exists>s'. CheckPostRelease e (gj_sessionId j) g s = Inr s' \<and> sy_groups s' = sy_groups s \<and>
    sy_sessions s' = sy_sessions s \<and> sy_trace s' = sy_trace s \<and> sy_freeIndex s' = sy_freeIndex s \<and> sy_bufs s' = sy_bufs s \<and>
    sy_port s' = sy_port s @ job_posts (sy_sessions s) g j"
  using assms
  by (auto simp: CheckPostRelease_def job_posts_def Let_def PostRelease_def release_completion_def ss_GetRefCount_def
      ASSERT_CRASH_def)

text \<open>One job.\<close>

lemma Group_handle_job:
  assumes "default_group e" and "sy_groups s g = Some G" and "jobs_ok [j] (gr_sessions G)"
  shows "\<exists>s' G'. Group_handle e upd g j s = Inr (False, s') \<and> after_jobs g [j] s s' \<and>
    sy_groups s' g = Some G' \<and> gr_jobs G' = gr_jobs G"
proof (cases "gj_type j = Job_Enter")
  case True
  let ?f = "\<lambda>G. G\<lparr>gr_handledEnter := gr_handledEnter G + 1, gr_sessions := insert (gj_sessionId j) (gr_sessions G)\<rparr>"
  let ?s' = "emit (EvGroupEnter g (gj_sessionId j)) (upd_group g ?f s)"
  have "Group_handle e upd g j s = Inr (False, ?s')"
    using True assms(1) by (simp add: Group_handle_def default_group_def)
  moreover have "after_jobs g [j] s ?s'"
    unfolding after_jobs_def using True assms(2)
    by (intro exI [of _ G] exI [of _ "?f G"]) (simp add: job_event_def job_posts_def)
  ultimately show ?thesis using assms(2) by simp
next
  case False
  then have l: "gj_type j = Job_Leave" "gj_sessionId j \<in> gr_sessions G" "id_index (gj_sessionId j) < MAX_SESSIONS"
    using assms(3) by auto
  let ?s = "emit (EvGroupLeave g (gj_sessionId j) (gj_errCode j))
    (upd_group g (gr_sessions_update (\<lambda>S. S - {gj_sessionId j}))
      (upd_group g (\<lambda>G. G\<lparr>gr_handledLeave := gr_handledLeave G + 1\<rparr>) s))"
  obtain s' where s': "CheckPostRelease e (gj_sessionId j) g ?s = Inr s'" "sy_groups s' = sy_groups ?s"
    "sy_sessions s' = sy_sessions ?s" "sy_trace s' = sy_trace ?s" "sy_freeIndex s' = sy_freeIndex ?s" "sy_bufs s' = sy_bufs ?s"
    "sy_port s' = sy_port ?s @ job_posts (sy_sessions ?s) g j"
    using CheckPostRelease_posts [OF l(3,1)] by blast
  have "Group_handle e upd g j s = Inr (False, s')"
    using l assms(1,2) s'(1) by (simp add: Group_handle_def Group_depart_def get_group_def default_group_def)
  moreover have "after_jobs g [j] s s'"
    unfolding after_jobs_def using l assms(2) s'(2-)
    by (intro exI [of _ G] exI [of _ "gr_sessions_update (\<lambda>S. S - {gj_sessionId j}) (G\<lparr>gr_handledLeave := gr_handledLeave G + 1\<rparr>)"])
      (simp add: job_event_def)
  ultimately show ?thesis using assms(2) s'(2) by simp
qed

subsection \<open>A queue of jobs\<close>

lemma apply_jobs_append: "apply_jobs (js @ ks) M = apply_jobs ks (apply_jobs js M)"
  by (induction js arbitrary: M) auto

lemma after_jobs_append: "after_jobs g js s s1 \<Longrightarrow> after_jobs g ks s1 s2 \<Longrightarrow> after_jobs g (js @ ks) s s2"
  unfolding after_jobs_def by (auto simp: apply_jobs_append)

lemma after_no_jobs:
  assumes "sy_groups s g = Some G" and "sy_groups s' = (sy_groups s)(g \<mapsto> G')" and "gr_sessions G' = gr_sessions G"
    and "gr_isRun G' = gr_isRun G" and "gr_nextUpdate G' = gr_nextUpdate G" and "sy_sessions s' = sy_sessions s"
    and "sy_trace s' = sy_trace s" and "sy_port s' = sy_port s" and "sy_freeIndex s' = sy_freeIndex s" and "sy_bufs s' = sy_bufs s"
  shows "after_jobs g [] s s'"
  using assms by (auto simp: after_jobs_def)

lemma after_jobs_group:
  assumes "after_jobs g js s s'" and "sy_groups s g = Some G"
  shows "\<exists>G'. sy_groups s' g = Some G' \<and> gr_sessions G' = apply_jobs js (gr_sessions G) \<and>
    gr_isRun G' = gr_isRun G \<and> gr_nextUpdate G' = gr_nextUpdate G"
  using assms by (auto simp: after_jobs_def)

lemma HandleJob_loop_jobs:
  assumes "default_group e" and "sy_groups s g = Some G" and "fq_ok (gr_jobs G)" and "fq_elems (gr_jobs G) = js"
    and "jobs_ok js (gr_sessions G)" and "j0 + length js < 1000" and "length js < n"
  shows "\<exists>s'. HandleJob_loop e upd g n j0 s = Inr (j0 + length js, s') \<and> after_jobs g js s s' \<and> queued g s' []"
  using assms(2-)
proof (induction js arbitrary: s G j0 n)
  case Nil
  obtain n' where n: "n = Suc n'" using Nil.prems(6) by (cases n) auto
  have "fq_Dequeue (gr_jobs G) = Inr (None, gr_jobs G)" using Nil.prems by (simp add: fq_Dequeue_none)
  then show ?case
    using Nil.prems by (auto simp: n get_group_def queued_def intro!: after_no_jobs)
next
  case (Cons j js)
  obtain n' where n: "n = Suc n'" "length js < n'" using Cons.prems(6) by (cases n) auto
  obtain q where q: "fq_Dequeue (gr_jobs G) = Inr (Some j, q)" "fq_ok q" "fq_elems q = js"
    using fq_Dequeue_some [OF Cons.prems(2,3)] by blast
  let ?s1 = "upd_group g (gr_jobs_update (\<lambda>_. q)) s" and ?G1 = "gr_jobs_update (\<lambda>_. q) G"
  have s1: "sy_groups ?s1 g = Some ?G1" "after_jobs g [] s ?s1" using Cons.prems(1) by (auto intro!: after_no_jobs)
  obtain s2 G2 where s2: "Group_handle e upd g j ?s1 = Inr (False, s2)" "after_jobs g [j] ?s1 s2"
      "sy_groups s2 g = Some G2" "gr_jobs G2 = q"
    using Group_handle_job [OF assms(1) s1(1), of j upd] Cons.prems(4) by auto
  have "gr_sessions G2 = apply_jobs [j] (gr_sessions G)" using after_jobs_group [OF s2(2) s1(1)] s2(3) by simp
  then have "jobs_ok js (gr_sessions G2)" using Cons.prems(4) by auto
  then obtain s' where s': "HandleJob_loop e upd g n' (Suc j0) s2 = Inr (Suc j0 + length js, s')"
      "after_jobs g js s2 s'" "queued g s' []"
    using Cons.IH [OF s2(3), of "Suc j0" n'] s2(4) q Cons.prems(5) n(2) by auto
  have "HandleJob_loop e upd g n j0 s = Inr (j0 + length (j # js), s')"
    using Cons.prems(1,5) q(1) s2(1) s'(1) by (simp add: n(1) get_group_def)
  moreover have "after_jobs g (j # js) s s'"
    using after_jobs_append [OF s1(2) after_jobs_append [OF s2(2) s'(2)]] by simp
  ultimately show ?case using s'(3) by blast
qed

lemma HandleJob_jobs:
  assumes "default_group e" and "sy_groups s g = Some G" and "fq_ok (gr_jobs G)" and "fq_elems (gr_jobs G) = js"
    and "jobs_ok js (gr_sessions G)" and "length js < 1000" and "length js < en_fuel e"
  shows "\<exists>s'. HandleJob e upd g s = Inr s' \<and> after_jobs g js s s' \<and> queued g s' []"
proof -
  obtain s1 where s1: "HandleJob_loop e upd g (en_fuel e) 0 s = Inr (0 + length js, s1)" "after_jobs g js s s1" "queued g s1 []"
    using HandleJob_loop_jobs [OF assms(1-5), of 0 "en_fuel e"] assms(6,7) by auto
  let ?f = "\<lambda>G. G\<lparr>gr_handledJob := gr_handledJob G + int (length js)\<rparr>"
  have "after_jobs g [] s1 (upd_group g ?f s1)"
    using s1(3) by (auto simp: queued_def intro!: after_no_jobs)
  then have "after_jobs g js s (upd_group g ?f s1)" using after_jobs_append [OF s1(2)] by fastforce
  moreover have "queued g (upd_group g ?f s1) []" using s1(3) by (auto simp: queued_def)
  ultimately show ?thesis using s1(1) by (auto simp: HandleJob_def)
qed

subsection \<open>An update\<close>

text \<open>The clock stays before the next periodic update of the group.\<close>

definition before_update :: "env \<Rightarrow> int \<Rightarrow> bool" where
  "before_update e t \<longleftrightarrow> (\<forall>n. os_clock e n < t)"

lemma NeedUpdate_no:
  assumes "sy_groups s g = Some G" and "before_update e (gr_nextUpdate G)"
  shows "\<exists>s'. NeedUpdate e g s = Inr (False, s') \<and> after_jobs g [] s s' \<and> sy_groups s' = sy_groups s"
  using assms
  by (auto simp: NeedUpdate_def get_group_def clock_now_def before_update_def not_le intro!: after_no_jobs)

lemma Update_loop_idle:
  assumes "sy_groups s g = Some G" and "fq_ok (gr_jobs G)" and "fq_elems (gr_jobs G) = []"
    and "before_update e (gr_nextUpdate G)"
  shows "\<exists>s'. Update_loop e upd g (Suc n) s = Inr s' \<and> after_jobs g [] s s' \<and> queued g s' []"
proof -
  have "\<not> hasJob G" using assms(2,3) by (simp add: hasJob_def fq_Size_elems)
  then show ?thesis
    using NeedUpdate_no [OF assms(1,4)] assms(1-3) by (auto simp: get_group_def queued_def)
qed

lemma Update_loop_jobs:
  assumes "default_group e" and G: "sy_groups s g = Some G" and q: "fq_ok (gr_jobs G)" "fq_elems (gr_jobs G) = js"
    and js: "jobs_ok js (gr_sessions G)" "length js < 1000" "length js < en_fuel e" and early: "before_update e (gr_nextUpdate G)"
  shows "\<exists>s'. Update_loop e upd g (Suc (Suc n)) s = Inr s' \<and> after_jobs g js s s' \<and> queued g s' []"
proof (cases "js = []")
  case True
  then show ?thesis using Update_loop_idle [OF G q(1) _ early] q(2) by simp
next
  case False
  have has: "hasJob G" using q False by (simp add: hasJob_def fq_Size_elems)
  obtain s1 where s1: "HandleJob e upd g s = Inr s1" "after_jobs g js s s1" "queued g s1 []"
    using HandleJob_jobs [OF assms(1) G q js] by blast
  obtain G1 where G1: "sy_groups s1 g = Some G1" "fq_ok (gr_jobs G1)" "fq_elems (gr_jobs G1) = []" "gr_nextUpdate G1 = gr_nextUpdate G"
    using s1(3) after_jobs_group [OF s1(2) G] by (auto simp: queued_def)
  obtain s2 where s2: "NeedUpdate e g s1 = Inr (False, s2)" "after_jobs g [] s1 s2" "sy_groups s2 = sy_groups s1"
    using NeedUpdate_no [OF G1(1)] early G1(4) by auto
  obtain s3 where s3: "Update_loop e upd g (Suc n) s2 = Inr s3" "after_jobs g [] s2 s3" "queued g s3 []"
    using Update_loop_idle [of s2 g G1 e upd n] s2(3) G1 early by auto
  have "Update_loop e upd g (Suc (Suc n)) s = Update_loop e upd g (Suc n) s2"
    unfolding Update_loop.simps(2) [of e upd g "Suc n" s] using has G s1(1) s2(1) by (simp add: get_group_def del: Update_loop.simps)
  then show ?thesis using s3 after_jobs_append [OF s1(2) after_jobs_append [OF s2(2) s3(2)]] by auto
qed

lemma clock_now_sel [simp]:
  "sy_groups (snd (clock_now e s)) = sy_groups s" "sy_trace (snd (clock_now e s)) = sy_trace s"
  "sy_sessions (snd (clock_now e s)) = sy_sessions s" "sy_port (snd (clock_now e s)) = sy_port s"
  "sy_freeIndex (snd (clock_now e s)) = sy_freeIndex s" "sy_bufs (snd (clock_now e s)) = sy_bufs s"
  by (simp_all add: clock_now_def)

lemma Update_stats_sel [simp]:
  "gr_sessions (Update_stats t d G) = gr_sessions G" "gr_jobs (Update_stats t d G) = gr_jobs G"
  "gr_nextUpdate (Update_stats t d G) = gr_nextUpdate G"
  by (simp_all add: Update_stats_def Let_def)

lemma Update_body_jobs:
  assumes "default_group e" and G: "sy_groups s g = Some G" "\<not> gr_isRun G" and q: "fq_ok (gr_jobs G)" "fq_elems (gr_jobs G) = js"
    and js: "jobs_ok js (gr_sessions G)" "length js < 1000" "length js < en_fuel e" "2 \<le> en_fuel e"
    and early: "before_update e (gr_nextUpdate G)"
  shows "\<exists>s'. Update_body e upd g s = Inr s' \<and> after_jobs g js s s' \<and> queued g s' []"
proof -
  obtain n where n: "en_fuel e = Suc (Suc n)" using js(4) by (metis add_2_eq_Suc le_Suc_ex)
  let ?s0 = "snd (clock_now e (upd_group g (gr_isRun_update (\<lambda>_. True)) s))" and ?G0 = "G\<lparr>gr_isRun := True\<rparr>"
  have G0: "sy_groups ?s0 g = Some ?G0" using G(1) by simp
  obtain s2 where s2: "Update_loop e upd g (en_fuel e) ?s0 = Inr s2" "after_jobs g js ?s0 s2" "queued g s2 []"
    using Update_loop_jobs [OF assms(1) G0, of js upd n] q js early n by auto
  obtain G2 where G2: "sy_groups s2 = (sy_groups ?s0)(g \<mapsto> G2)" "gr_sessions G2 = apply_jobs js (gr_sessions G)"
      "gr_nextUpdate G2 = gr_nextUpdate G" "fq_ok (gr_jobs G2)" "fq_elems (gr_jobs G2) = []"
    using s2(2,3) G(1) by (auto simp: after_jobs_def queued_def)
  let ?t = "fst (clock_now e s2)" and ?d = "fst (clock_now e s2) - fst (clock_now e (upd_group g (gr_isRun_update (\<lambda>_. True)) s))"
  let ?s' = "upd_group g (gr_isRun_update (\<lambda>_. False) \<circ> Update_stats ?t ?d) (snd (clock_now e s2))"
  let ?G' = "(Update_stats ?t ?d G2)\<lparr>gr_isRun := False\<rparr>"
  have "Update_body e upd g s = Inr ?s'"
    using G s2(1) by (simp add: Update_body_def get_group_def Let_def case_prod_unfold)
  moreover have "after_jobs g js s ?s'"
    unfolding after_jobs_def using s2(2) G G2 by (intro exI [of _ G] exI [of _ ?G']) (auto simp: after_jobs_def)
  moreover have "queued g ?s' []" using G2 by (simp add: queued_def)
  ultimately show ?thesis by blast
qed

subsection \<open>Adding a job\<close>

text \<open>
  A group that is ready to run: it is not running, its queue works and holds the jobs \<open>js\<close>, its periodic update is
  not due. It is idle when the queue is empty.
\<close>

definition ready :: "env \<Rightarrow> GroupID \<Rightarrow> GroupJob list \<Rightarrow> sys \<Rightarrow> bool" where
  "ready e g js s \<longleftrightarrow> (\<exists>G. sy_groups s g = Some G \<and> \<not> gr_isRun G \<and> before_update e (gr_nextUpdate G) \<and>
     fq_ok (gr_jobs G) \<and> fq_elems (gr_jobs G) = js)"

abbreviation idle :: "env \<Rightarrow> GroupID \<Rightarrow> sys \<Rightarrow> bool" where
  "idle e g s \<equiv> ready e g [] s"

lemma ready_update:
  assumes "default_group e" and "ready e g js s" and "jobs_ok js (members g s)"
    and "length js < 1000" and "length js < en_fuel e" and "2 \<le> en_fuel e"
  shows "\<exists>s'. Group_Update e (Suc d) g s = Inr s' \<and> after_jobs g js s s' \<and> idle e g s'"
proof -
  obtain G where G: "sy_groups s g = Some G" "\<not> gr_isRun G" "fq_ok (gr_jobs G)" "fq_elems (gr_jobs G) = js"
      "before_update e (gr_nextUpdate G)"
    using assms(2) by (auto simp: ready_def)
  obtain s' where s': "Update_body e (Group_Update e d) g s = Inr s'" "after_jobs g js s s'" "queued g s' []"
    using Update_body_jobs [OF assms(1) G(1-4) _ assms(4-6) G(5)] assms(3) G(1) by (auto simp: members_def)
  have "idle e g s'" using after_jobs_group [OF s'(2) G(1)] s'(3) G by (auto simp: ready_def queued_def)
  then show ?thesis using s' by auto
qed

lemma after_jobs_members: "after_jobs g js s s' \<Longrightarrow> members h s' = (if h = g then apply_jobs js (members g s) else members h s)"
  by (auto simp: after_jobs_def members_def)

lemma after_jobs_ready: "after_jobs g js s s' \<Longrightarrow> h \<noteq> g \<Longrightarrow> ready e h ks s' = ready e h ks s"
  by (auto simp: after_jobs_def ready_def)

lemma Enqueue_retry_room:
  assumes "fq_ok q" and "length (fq_elems q) < fq_cap q" and "0 < n"
  shows "\<exists>q'. Enqueue_retry n job q = Inr q' \<and> fq_ok q' \<and> fq_elems q' = fq_elems q @ [job] \<and> fq_cap q' = fq_cap q"
  using fq_Enqueue_room [OF assms(1,2), of job] assms(3) by (cases n) auto

text \<open>Adding a job to an idle group, and running it at once when the caller asks for it.\<close>

lemma Group_Enqueue_idle:
  assumes "idle e g s" and "0 < en_fuel e"
  shows "\<exists>s1. Group_Enqueue e upd g job update s =
      (if update then bind_res (upd g s1) (\<lambda>s2. Inr (True, s2)) else Inr (False, s1)) \<and>
    ready e g [job] s1 \<and> after_jobs g [] s s1"
proof -
  obtain G where G: "sy_groups s g = Some G" "\<not> gr_isRun G" "before_update e (gr_nextUpdate G)" "fq_ok (gr_jobs G)" "fq_elems (gr_jobs G) = []"
    using assms(1) by (auto simp: ready_def)
  have "0 < fq_cap (gr_jobs G)" using G(4) pow2_pos by (auto simp: fq_ok_def fq_wf_def)
  then obtain q where q: "Enqueue_retry (en_fuel e) job (gr_jobs G) = Inr q" "fq_ok q" "fq_elems q = [job]"
    using Enqueue_retry_room [OF G(4) _ assms(2)] G(5) by auto
  let ?s1 = "upd_group g (gr_jobs_update (\<lambda>_. q)) s"
  have "ready e g [job] ?s1" "after_jobs g [] s ?s1" using G q by (auto simp: ready_def intro!: after_no_jobs)
  moreover have "Group_Enqueue e upd g job update s =
      (if update then bind_res (upd g ?s1) (\<lambda>s2. Inr (True, s2)) else Inr (False, ?s1))"
    using G q(1) by (simp add: Group_Enqueue_def)
  ultimately show ?thesis by blast
qed

text \<open>\<^verbatim>\<open>MoveSession\<close> from inside a group queues the leave and the enter.\<close>

lemma move_queues:
  assumes "2 \<le> en_fuel e" and l: "live s k i c" and "ss_groupId (sy_sessions s k) = src"
    and "src \<noteq> 0" and "dst \<noteq> 0" and "src \<noteq> dst" and "idle e src s" and "idle e dst s"
  shows "\<exists>s1. MoveSession e upd i dst False s = Inr s1 \<and>
    ready e src [new_GroupJob\<lparr>gj_type := Job_Leave, gj_sessionId := i, gj_errCode := ss_errCode (sy_sessions s k)\<rparr>] s1 \<and>
    ready e dst [new_GroupJob\<lparr>gj_type := Job_Enter, gj_sessionId := i\<rparr>] s1 \<and> (\<forall>g. members g s1 = members g s) \<and>
    sy_trace s1 = sy_trace s \<and> sy_sessions s1 = (sy_sessions s)(k := ss_SetGroupID dst (sy_sessions s k))"
proof -
  let ?lv = "new_GroupJob\<lparr>gj_type := Job_Leave, gj_sessionId := i, gj_errCode := ss_errCode (sy_sessions s k)\<rparr>"
  let ?en = "new_GroupJob\<lparr>gj_type := Job_Enter, gj_sessionId := i\<rparr>"
  have i: "ss_sessionId (sy_sessions s k) = i" "refs s k = of_nat c" using l by (auto simp: live_def)
  let ?s0 = "set_refs k (Suc c) s"
  have "idle e src ?s0" using assms(7) by (simp add: ready_def)
  from Group_Enqueue_idle [OF this, of upd ?lv False] obtain s1 where
    s1: "Group_Enqueue e upd src ?lv False ?s0 = Inr (False, s1)" "ready e src [?lv] s1" "after_jobs src [] ?s0 s1"
    using assms(1) by auto
  let ?s1 = "upd_session k (ss_SetGroupID dst) s1"
  have "idle e dst s1" using after_jobs_ready [OF s1(3)] assms(6,8) by (auto simp: ready_def)
  then have "idle e dst ?s1" by (simp add: ready_def)
  from Group_Enqueue_idle [OF this, of upd ?en False] obtain s2 where
    s2: "Group_Enqueue e upd dst ?en False ?s1 = Inr (False, s2)" "ready e dst [?en] s2" "after_jobs dst [] ?s1 s2"
    using assms(1) by auto
  have ses: "sy_sessions s1 = sy_sessions ?s0" "sy_sessions s2 = sy_sessions ?s1" "sy_trace s2 = sy_trace s"
    using s1(3) s2(3) unfolding after_jobs_def by auto
  have "MoveSession e upd i dst False s = Inr (set_refs k c s2)"
    unfolding MoveSession_def using i s1(1) s2(1) assms(3-5) ses
    by (subst with_session_live [OF l]) (auto simp: LeaveSession_def EnterSession_def ss_SetGroupID_def Let_def)
  moreover have "ready e src [?lv] s2"
    using after_jobs_ready [OF s2(3) assms(6)] s1(2) by (simp add: ready_def)
  moreover have "members g s2 = members g s" for g
    using after_jobs_members [OF s1(3), of g] after_jobs_members [OF s2(3), of g] by (auto simp: members_def)
  moreover have "sy_sessions (set_refs k c s2) = (sy_sessions s)(k := ss_SetGroupID dst (sy_sessions s k))"
    using ses i(2) by (auto simp: ss_SetGroupID_def)
  ultimately show ?thesis
    using s2(2) ses(3) by (intro exI [of _ "set_refs k c s2"]) (simp add: ready_def members_def)
qed

subsection \<open>A concrete server with two groups\<close>

text \<open>Session 1 of slot 0 is a member of group 1; group 2 is empty. The clock stands still.\<close>

definition still_env :: env where
  "still_env = quiet_env\<lparr>os_clock := \<lambda>_. 0\<rparr>"

definition two_groups :: sys where
  "two_groups = (upd_session 0 (ss_SetGroupID 1) one_session)
     \<lparr>sy_groups := [1 \<mapsto> (new_Group 0)\<lparr>gr_groupId := 1, gr_sessions := {1}\<rparr>, 2 \<mapsto> (new_Group 0)\<lparr>gr_groupId := 2\<rparr>],
      sy_trace := [EvGroupEnter 1 1]\<rparr>"

lemma still_env_sel [simp]:
  "default_group still_env" "en_fuel still_env = 10000" "before_update still_env t \<longleftrightarrow> 0 < t"
  by (simp_all add: still_env_def quiet_env_def default_group_def before_update_def)

lemma two_groups_idle:
  "idle still_env 1 two_groups" "idle still_env 2 two_groups" "members 1 two_groups = {1}" "members 2 two_groups = {}"
proof -
  have "pow2 8192" unfolding pow2_def by (rule bexI [of _ 13]) simp_all
  then have "fq_ok (fq_new 8192 new_GroupJob)" "fq_elems (fq_new 8192 new_GroupJob) = []"
    using fq_ok_new [of 8192 new_GroupJob] by simp_all
  then show "idle still_env 1 two_groups" "idle still_env 2 two_groups"
    by (auto simp: ready_def two_groups_def new_Group_def ms_def)
qed (simp_all add: members_def two_groups_def new_Group_def)

lemma two_groups_slot:
  "live two_groups 0 1 1" "ss_groupId (sy_sessions two_groups 0) = 1" "ss_sessionId (sy_sessions two_groups 0) = 1"
  "refs two_groups 0 = 1"
  by (simp_all add: live_def two_groups_def ss_SetGroupID_def one_session_slot id_index_def MAX_SESSIONS_def)

subsection \<open>Properties\<close>

text \<open>
  C15. An update of an idle group handles all queued enter and leave jobs in the order they were queued: the members
  become what the jobs say, the application sees one enter or leave per job in that order, a leave of
  a session that is waiting to be released posts its release, and the queue is empty afterwards. The
  group is idle again and nothing else changes.
\<close>

theorem group_update_applies_jobs:
  assumes "default_group e" and "ready e g js s" and "jobs_ok js (members g s)"
    and "length js < 1000" and "length js < en_fuel e" and "2 \<le> en_fuel e"
  shows "\<exists>s'. Group_Update e (Suc d) g s = Inr s' \<and> idle e g s' \<and> members g s' = apply_jobs js (members g s) \<and>
    sy_trace s' = sy_trace s @ map (job_event g) js \<and> sy_sessions s' = sy_sessions s \<and>
    sy_port s' = sy_port s @ concat (map (job_posts (sy_sessions s) g) js)"
proof -
  obtain s' where s': "Group_Update e (Suc d) g s = Inr s'" "after_jobs g js s s'" "idle e g s'"
    using ready_update [OF assms] by blast
  then show ?thesis using after_jobs_members [OF s'(2)] unfolding after_jobs_def by auto
qed

theorem group_update_applies_jobs_witness:
  "\<exists>s1 s'. EnterSession still_env (\<lambda>_ s. Inr s) 2 5 False two_groups = Inr s1 \<and>
    Group_Update still_env 1 2 s1 = Inr s' \<and> members 2 s' = {5} \<and> sy_trace s' = [EvGroupEnter 1 1, EvGroupEnter 2 5]"
proof -
  let ?job = "new_GroupJob\<lparr>gj_type := Job_Enter, gj_sessionId := 5\<rparr>"
  obtain s1 where s1: "EnterSession still_env (\<lambda>_ s. Inr s) 2 5 False two_groups = Inr s1" "ready still_env 2 [?job] s1"
      "after_jobs 2 [] two_groups s1"
    using Group_Enqueue_idle [OF two_groups_idle(2), of "\<lambda>_ s. Inr s" ?job False] by (auto simp: EnterSession_def)
  have "members 2 s1 = {}" "sy_trace s1 = [EvGroupEnter 1 1]"
    using after_jobs_members [OF s1(3), of 2] two_groups_idle(4) s1(3) by (auto simp: after_jobs_def two_groups_def)
  then show ?thesis
    using group_update_applies_jobs [of still_env 2 "[?job]" s1 0] s1(1,2) by (auto simp: job_event_def)
qed





text \<open>
  An update of a group, with everything it runs in the same thread to any depth, leaves every group that is
  already running as it is: the group stays running and its member set does not change. Only the thread
  that set the run flag of a group changes its members. The application's functions on groups are assumed
  to respect the same rule; the calls they can make do.
\<close>

theorem running_group_untouched:
  assumes "callbacks_in running_kept e" and "Group_Update e d h s = Inr s'"
    and "sy_groups s g = Some G" and "gr_isRun G"
  shows "\<exists>G'. sy_groups s' g = Some G' \<and> gr_isRun G' \<and> gr_sessions G' = gr_sessions G"
  using running.Group_Update_R [OF assms(1), of d] assms(2-4)
  unfolding update_in_def running_kept_def keeps_running_members_def by blast

theorem running_group_untouched_witness:
  "\<exists>s' G'. Group_Update still_env 1 1 (upd_group 2 (\<lambda>G. G\<lparr>gr_isRun := True\<rparr>) two_groups) = Inr s' \<and>
    sy_groups s' 2 = Some G' \<and> gr_isRun G' \<and> gr_sessions G' = {}"
proof -
  let ?s = "upd_group 2 (\<lambda>G. G\<lparr>gr_isRun := True\<rparr>) two_groups"
  have cb: "callbacks_in running_kept still_env"
    by (simp add: callbacks_in_def still_env_def quiet_env_def running.R_refl)
  have "idle still_env 1 ?s" using two_groups_idle(1) by (simp add: ready_def)
  then obtain s' where "Group_Update still_env (Suc 0) 1 ?s = Inr s'"
    using ready_update [of still_env 1 "[]" ?s 0] by auto
  moreover have "sy_groups ?s 2 = Some ((new_Group 0)\<lparr>gr_groupId := 2, gr_isRun := True\<rparr>)" by (simp add: two_groups_def)
  ultimately show ?thesis
    using running_group_untouched [OF cb, of 1 1 ?s s' 2] by (auto simp: new_Group_def simp del: Group_Update.simps)
qed

end
