(* ===== verification/Ring_Queues.thy ===== *)
theory Ring_Queues
  imports Bounded_Queue
begin

section \<open>LockBasedFixedQueue, SPSCQueue and PointerBuffer\<close>

text \<open>
  The three other fixed queues: \<^verbatim>\<open>include/LockQueue.h\<close> (32-bit counters under a mutex),
  \<^verbatim>\<open>include/SPSCQueue.h\<close> (64-bit counters, one slot kept free) and \<^verbatim>\<open>include/PointerBuffer.h\<close> (64-bit
  counters, a break when full). All read an array through two free-running counters; \<open>window\<close> is the
  part of the array between them, and its lemmas carry the three sets of proofs. A critical section
  under the mutex is one step, so the methods are functions on the state.
\<close>

subsection \<open>The part of an array between two counters\<close>

definition window :: "'w::len word \<Rightarrow> 'w word \<Rightarrow> 'a list \<Rightarrow> 'a list" where
  "window head tail buf = take (unat (tail - head)) (rotate (masked head (length buf)) buf)"

lemma length_window: "unat (tail - head) \<le> length buf \<Longrightarrow> length (window head tail buf) = unat (tail - head)"
  by (simp add: window_def)

lemma window_tail_eq:
  fixes head :: "'w::len word"
  assumes "pow2 (length buf)" and "31 \<le> LENGTH('w)"
  shows "masked tail (length buf) = (masked head (length buf) + unat (tail - head)) mod length buf"
  using masked_add [OF assms, of head "unat (tail - head)"] by simp

lemma window_push:
  fixes head :: "'w::len word"
  assumes p: "pow2 (length buf)" and w: "32 \<le> LENGTH('w)" and room: "unat (tail - head) < length buf"
  shows "window head (tail + 1) (buf[masked tail (length buf) := x]) = window head tail buf @ [x]"
    and "unat (tail + 1 - head) = Suc (unat (tail - head))"
proof -
  let ?n = "unat (tail - head)"
  have "(2::nat) ^ 31 < 2 ^ LENGTH('w)" using w by (intro power_strict_increasing) simp_all
  then have "Suc ?n < 2 ^ LENGTH('w)" using room pow2_less [OF p] by linarith
  then have "unat ((tail - head) + 1) = Suc ?n" by (simp only: unat_word_ariths) simp
  moreover have "tail + 1 - head = (tail - head) + 1" by simp
  ultimately show n: "unat (tail + 1 - head) = Suc ?n" by (simp only:)
  have w31: "31 \<le> LENGTH('w)" using w by simp
  have "rotate (masked head (length buf)) (buf[masked tail (length buf) := x])
      = (rotate (masked head (length buf)) buf)[?n := x]"
    by (subst window_tail_eq [OF p w31, of tail head]) (rule rotate_update [OF room])
  then show "window head (tail + 1) (buf[masked tail (length buf) := x]) = window head tail buf @ [x]"
    using room by (simp add: window_def n take_Suc_conv_app_nth)
qed

lemma window_pop:
  fixes head :: "'w::len word"
  assumes p: "pow2 (length buf)" and w: "31 \<le> LENGTH('w)"
    and ne: "0 < unat (tail - head)" and le: "unat (tail - head) \<le> length buf"
  shows "window head tail buf = buf ! masked head (length buf) # window (head + 1) tail buf"
    and "unat (tail - (head + 1)) = unat (tail - head) - 1"
proof -
  let ?h = "masked head (length buf)" and ?n = "unat (tail - head)"
  have "tail - (head + 1) = (tail - head) - 1" by simp
  then show n: "unat (tail - (head + 1)) = ?n - 1"
    using ne by (metis unat_minus_one unat_0 less_irrefl)
  have buf: "buf \<noteq> []" using ne le by auto
  have "masked (head + 1) (length buf) = Suc ?h mod length buf"
    using masked_add [OF p w, of head 1] by simp
  then have rot: "rotate (masked (head + 1) (length buf)) buf = tl (rotate ?h buf) @ [hd (rotate ?h buf)]"
    using rotate_next [OF buf] by simp
  have hd: "hd (rotate ?h buf) = buf ! ?h"
    using buf masked_less [OF p, of head] by (simp add: hd_rotate_conv_nth)
  have "window head tail buf = take ?n (buf ! ?h # tl (rotate ?h buf))"
    using buf hd by (simp add: window_def) (metis list.collapse rotate_is_Nil_conv)
  also have "\<dots> = buf ! ?h # take (?n - 1) (tl (rotate ?h buf))" using ne by (simp add: take_Cons')
  also have "take (?n - 1) (tl (rotate ?h buf)) = window (head + 1) tail buf"
    using le ne by (simp add: window_def rot n)
  finally show "window head tail buf = buf ! ?h # window (head + 1) tail buf" .
qed

lemma window_Nil: "pow2 (length buf) \<Longrightarrow> window head tail buf = [] \<longleftrightarrow> tail = head"
  using pow2_pos [of "length buf"] by (auto simp: window_def unat_eq_zero)

subsection \<open>LockBasedFixedQueue\<close>

record 'a LockBasedFixedQueue =
  lq_buffer :: "'a list"
  lq_headIndex :: i32
  lq_tailIndex :: i32

definition lq_new :: "nat \<Rightarrow> 'a \<Rightarrow> 'a LockBasedFixedQueue" where
  "lq_new n d = \<lparr>lq_buffer = replicate n d, lq_headIndex = 0, lq_tailIndex = 0\<rparr>"

text \<open>
  \<^verbatim>\<open>size()\<close> compares the signed counters. The public \<^verbatim>\<open>Size()\<close> has the same body under the mutex.
\<close>

definition lq_size :: "'a LockBasedFixedQueue \<Rightarrow> int" where
  "lq_size q =
     (if sint (lq_headIndex q) \<le> sint (lq_tailIndex q) then sint (lq_tailIndex q - lq_headIndex q)
      else sint (of_nat (length (lq_buffer q)) - (lq_headIndex q - lq_tailIndex q)))"

definition lq_Size :: "'a LockBasedFixedQueue \<Rightarrow> int" where
  "lq_Size q = lq_size q"

definition lq_Enqueue :: "'a \<Rightarrow> 'a LockBasedFixedQueue \<Rightarrow> (bool \<times> 'a LockBasedFixedQueue) res" where
  "lq_Enqueue x q =
     (if lq_size q \<ge> int (length (lq_buffer q)) then Inr (False, q)
      else Inr (True, q\<lparr>lq_buffer := (lq_buffer q)[masked (lq_tailIndex q) (length (lq_buffer q)) := x],
                        lq_tailIndex := lq_tailIndex q + 1\<rparr>))"

definition lq_Dequeue :: "'a LockBasedFixedQueue \<Rightarrow> ('a option \<times> 'a LockBasedFixedQueue) res" where
  "lq_Dequeue q =
     (if lq_size q = 0 then Inr (None, q)
      else Inr (Some (lq_buffer q ! masked (lq_headIndex q) (length (lq_buffer q))),
                q\<lparr>lq_headIndex := lq_headIndex q + 1\<rparr>))"

definition lq_elems :: "'a LockBasedFixedQueue \<Rightarrow> 'a list" where
  "lq_elems q = window (lq_headIndex q) (lq_tailIndex q) (lq_buffer q)"

text \<open>
  The counters never wrap back, so the invariant also says that they are ordered as signed numbers.
  Keeping it needs a tail below \<open>2 ^ 31 - 1\<close>: this is a bound on the queue's lifetime, stated as a
  hypothesis of the lemmas on \<^verbatim>\<open>Enqueue\<close>.
\<close>

definition lq_ok :: "'a LockBasedFixedQueue \<Rightarrow> bool" where
  "lq_ok q \<longleftrightarrow> pow2 (length (lq_buffer q)) \<and> sint (lq_headIndex q) \<le> sint (lq_tailIndex q) \<and>
     unat (lq_tailIndex q - lq_headIndex q) \<le> length (lq_buffer q)"

lemma lq_size_elems: "lq_ok q \<Longrightarrow> lq_size q = int (length (lq_elems q))"
  using pow2_less [of "length (lq_buffer q)"]
  by (simp add: lq_size_def lq_ok_def lq_elems_def length_window sint_i32_nonneg)

lemma sint_i32_Suc:
  fixes w :: i32
  assumes "sint w < 2 ^ 31 - 1"
  shows "sint (w + 1) = sint w + 1"
proof -
  have "- (2 ^ 31) \<le> sint w" using sint_ge [of w] by simp
  then have "signed_take_bit 31 (sint w + 1) = sint w + 1"
    using assms by (intro signed_take_bit_int_eq_self) linarith+
  then show ?thesis by (simp add: sint_word_ariths)
qed

lemma lq_Enqueue_room:
  assumes "lq_ok q" and "length (lq_elems q) < length (lq_buffer q)" and "sint (lq_tailIndex q) < 2 ^ 31 - 1"
  shows "\<exists>q'. lq_Enqueue x q = Inr (True, q') \<and> lq_ok q' \<and> lq_elems q' = lq_elems q @ [x]"
proof -
  have n: "unat (lq_tailIndex q - lq_headIndex q) < length (lq_buffer q)"
    using assms(1,2) by (simp add: lq_ok_def lq_elems_def length_window)
  have p: "pow2 (length (lq_buffer q))" using assms(1) by (simp add: lq_ok_def)
  show ?thesis
    using assms lq_size_elems [OF assms(1)] window_push(1) [OF p _ n, of x] window_push(2) [OF p _ n] n sint_i32_Suc [OF assms(3)]
    by (simp add: lq_Enqueue_def lq_ok_def lq_elems_def)
qed

lemma lq_Enqueue_full:
  "lq_ok q \<Longrightarrow> length (lq_elems q) = length (lq_buffer q) \<Longrightarrow> lq_Enqueue x q = Inr (False, q)"
  by (simp add: lq_Enqueue_def lq_size_elems)

lemma lq_Dequeue_none: "lq_ok q \<Longrightarrow> lq_elems q = [] \<Longrightarrow> lq_Dequeue q = Inr (None, q)"
  by (simp add: lq_Dequeue_def lq_size_elems)

lemma lq_Dequeue_some:
  assumes ok: "lq_ok q" and el: "lq_elems q = x # xs"
  shows "\<exists>q'. lq_Dequeue q = Inr (Some x, q') \<and> lq_ok q' \<and> lq_elems q' = xs"
proof -
  let ?h = "lq_headIndex q" and ?t = "lq_tailIndex q"
  have p: "pow2 (length (lq_buffer q))" and le: "unat (?t - ?h) \<le> length (lq_buffer q)"
    and ord: "sint ?h \<le> sint ?t" using ok by (simp_all add: lq_ok_def)
  have ne: "0 < unat (?t - ?h)"
    using el le by (metis length_window lq_elems_def length_greater_0_conv list.distinct(1))
  then have "?h \<noteq> ?t" by auto
  then have "sint ?h < sint ?t" using ord by (metis order_le_less signed_word_eqI)
  moreover have "sint ?t < 2 ^ 31" using sint_lt [of ?t] by simp
  ultimately have "sint (?h + 1) \<le> sint ?t" using sint_i32_Suc [of ?h] by linarith
  then show ?thesis
    using window_pop [OF p _ ne le] el le p lq_size_elems [OF ok]
    by (simp add: lq_Dequeue_def lq_ok_def lq_elems_def)
qed

text \<open>
  Past \<open>2 ^ 31\<close> the counters compare the wrong way round: a queue with one element reports more than
  its capacity and refuses the next one.
\<close>

lemma lq_wrap_refuses:
  assumes "pow2 (length (lq_buffer q))" and "lq_headIndex q = 2 ^ 31 - 1" and "lq_tailIndex q = 2 ^ 31"
  shows "length (lq_elems q) = 1" and "lq_size q = int (length (lq_buffer q)) + 1"
    and "lq_Enqueue x q = Inr (False, q)"
proof -
  let ?n = "length (lq_buffer q)"
  obtain k where "?n = 2 ^ k" "k \<le> 30" using assms(1) by (auto simp: pow2_def)
  then have b: "0 < ?n" "?n \<le> 2 ^ 30" using power_increasing [of k 30 "2 :: nat"] by simp_all
  have "unat (lq_tailIndex q - lq_headIndex q) = 1" using assms by simp
  then show "length (lq_elems q) = 1"
    using b length_window [of "lq_tailIndex q" "lq_headIndex q" "lq_buffer q"]
    by (simp add: lq_elems_def Suc_le_eq)
  have e: "lq_headIndex q - lq_tailIndex q = - 1" using assms by simp
  have "unat (of_nat (Suc ?n) :: i32) = Suc ?n" using b by (intro unat_of_nat_small) simp
  then have "sint (of_nat (Suc ?n) :: i32) = int (Suc ?n)" using b by (subst sint_i32_nonneg) simp_all
  moreover have "(of_nat ?n - (- 1) :: i32) = of_nat (Suc ?n)" by simp
  ultimately show sz: "lq_size q = int ?n + 1" using assms by (simp add: lq_size_def e add.commute)
  then show "lq_Enqueue x q = Inr (False, q)" by (simp add: lq_Enqueue_def)
qed

subsection \<open>SPSCQueue\<close>

record 'a SPSCQueue =
  sq_headIndex :: u64
  sq_tailIndex :: u64
  sq_indexMask :: u64
  sq_buffer :: "'a list"

definition sq_new :: "nat \<Rightarrow> 'a \<Rightarrow> 'a SPSCQueue" where
  "sq_new n d = \<lparr>sq_headIndex = 0, sq_tailIndex = 0, sq_indexMask = of_nat n - 1, sq_buffer = replicate n d\<rparr>"

definition sq_Size :: "'a SPSCQueue \<Rightarrow> nat" where
  "sq_Size q = unat ((sq_tailIndex q - sq_headIndex q) AND sq_indexMask q)"

definition sq_IsEmpty :: "'a SPSCQueue \<Rightarrow> bool" where
  "sq_IsEmpty q \<longleftrightarrow> sq_tailIndex q = sq_headIndex q"

definition sq_IsFull :: "'a SPSCQueue \<Rightarrow> bool" where
  "sq_IsFull q \<longleftrightarrow> (sq_tailIndex q - sq_headIndex q) AND sq_indexMask q = sq_indexMask q"

definition sq_Enqueue :: "'a \<Rightarrow> 'a SPSCQueue \<Rightarrow> (bool \<times> 'a SPSCQueue) res" where
  "sq_Enqueue x q =
     (if sq_IsFull q then Inr (False, q)
      else Inr (True, q\<lparr>sq_buffer := (sq_buffer q)[unat (sq_tailIndex q AND sq_indexMask q) := x],
                        sq_tailIndex := sq_tailIndex q + 1\<rparr>))"

definition sq_Dequeue :: "'a SPSCQueue \<Rightarrow> ('a option \<times> 'a SPSCQueue) res" where
  "sq_Dequeue q =
     (if sq_IsEmpty q then Inr (None, q)
      else Inr (Some (sq_buffer q ! unat (sq_headIndex q AND sq_indexMask q)),
                q\<lparr>sq_headIndex := sq_headIndex q + 1\<rparr>))"

definition sq_cap :: "'a SPSCQueue \<Rightarrow> nat" where
  "sq_cap q = length (sq_buffer q) - 1"

definition sq_ok :: "'a SPSCQueue \<Rightarrow> bool" where
  "sq_ok q \<longleftrightarrow> pow2 (length (sq_buffer q)) \<and> sq_indexMask q = of_nat (length (sq_buffer q)) - 1 \<and>
     unat (sq_tailIndex q - sq_headIndex q) < length (sq_buffer q)"

definition sq_elems :: "'a SPSCQueue \<Rightarrow> 'a list" where
  "sq_elems q = window (sq_headIndex q) (sq_tailIndex q) (sq_buffer q)"

lemma sq_mask: "sq_ok q \<Longrightarrow> unat (i AND sq_indexMask q) = masked i (length (sq_buffer q))"
  by (simp add: sq_ok_def masked_def)

lemma sq_length: "sq_ok q \<Longrightarrow> length (sq_elems q) = unat (sq_tailIndex q - sq_headIndex q)"
  by (simp add: sq_ok_def sq_elems_def length_window)

lemma sq_Size_elems: "sq_ok q \<Longrightarrow> sq_Size q = length (sq_elems q)"
  by (simp add: sq_Size_def sq_mask sq_length) (simp add: sq_ok_def masked_mod)

lemma unat_of_nat_minus_1:
  assumes "pow2 n"
  shows "unat (of_nat n - 1 :: u64) = n - 1"
proof -
  have n: "0 < n" "n < 2 ^ 31" using assms pow2_pos pow2_less by blast+
  then have "(of_nat n - 1 :: u64) = of_nat (n - 1)" by (simp add: of_nat_diff)
  moreover have "unat (of_nat (n - 1) :: u64) = n - 1" using n by (intro unat_of_nat_small) simp
  ultimately show ?thesis by (simp only:)
qed

lemma sq_IsFull_iff: "sq_ok q \<Longrightarrow> sq_IsFull q \<longleftrightarrow> length (sq_elems q) = sq_cap q"
proof -
  assume ok: "sq_ok q"
  have "sq_IsFull q \<longleftrightarrow> sq_Size q = unat (sq_indexMask q)"
    by (simp add: sq_IsFull_def sq_Size_def word_unat_eq_iff)
  also have "\<dots> \<longleftrightarrow> length (sq_elems q) = sq_cap q"
    using ok unat_of_nat_minus_1 by (simp only: sq_Size_elems) (simp add: sq_ok_def sq_cap_def)
  finally show ?thesis .
qed

lemma sq_Enqueue_room:
  assumes ok: "sq_ok q" and room: "length (sq_elems q) < sq_cap q"
  shows "\<exists>q'. sq_Enqueue x q = Inr (True, q') \<and> sq_ok q' \<and> sq_elems q' = sq_elems q @ [x] \<and> sq_cap q' = sq_cap q"
proof -
  have p: "pow2 (length (sq_buffer q))" using ok by (simp add: sq_ok_def)
  have n: "unat (sq_tailIndex q - sq_headIndex q) < length (sq_buffer q)"
    "Suc (unat (sq_tailIndex q - sq_headIndex q)) < length (sq_buffer q)"
    using room sq_length [OF ok] by (simp_all add: sq_cap_def)
  show ?thesis
    using ok room sq_IsFull_iff [OF ok] sq_mask [OF ok] n(2)
      window_push(1) [OF p _ n(1), of x] window_push(2) [OF p _ n(1)]
    by (simp add: sq_Enqueue_def sq_ok_def sq_elems_def sq_cap_def)
qed

lemma sq_Dequeue_some:
  assumes ok: "sq_ok q" and el: "sq_elems q = x # xs"
  shows "\<exists>q'. sq_Dequeue q = Inr (Some x, q') \<and> sq_ok q' \<and> sq_elems q' = xs \<and> sq_cap q' = sq_cap q"
proof -
  have p: "pow2 (length (sq_buffer q))" using ok by (simp add: sq_ok_def)
  have ne: "0 < unat (sq_tailIndex q - sq_headIndex q)" using el sq_length [OF ok] by simp
  have le: "unat (sq_tailIndex q - sq_headIndex q) \<le> length (sq_buffer q)" using ok by (simp add: sq_ok_def)
  have "\<not> sq_IsEmpty q" using ne by (auto simp: sq_IsEmpty_def)
  moreover have "unat (sq_tailIndex q - sq_headIndex q) - 1 < length (sq_buffer q)" using ok ne by (auto simp: sq_ok_def)
  ultimately show ?thesis
    using ok el sq_mask [OF ok] window_pop [OF p _ ne le]
    by (simp add: sq_Dequeue_def sq_ok_def sq_elems_def sq_cap_def)
qed

interpretation spsc: rejecting_fifo sq_cap sq_ok sq_elems sq_Enqueue sq_Dequeue
proof unfold_locales
  fix q :: "'a SPSCQueue"
  show "length (sq_elems q) \<le> sq_cap q" if "sq_ok q"
    using that sq_length [OF that] by (auto simp: sq_ok_def sq_cap_def)
  show "sq_Dequeue q = Inr (None, q)" if "sq_ok q" "sq_elems q = []"
    using that window_Nil [of "sq_buffer q" "sq_headIndex q" "sq_tailIndex q"]
    by (simp add: sq_Dequeue_def sq_IsEmpty_def sq_ok_def sq_elems_def)
  show "sq_Enqueue x q = Inr (False, q)" if "sq_ok q" "length (sq_elems q) = sq_cap q" for x
    using that by (simp add: sq_Enqueue_def sq_IsFull_iff)
qed (rule sq_Enqueue_room sq_Dequeue_some; assumption)+

subsection \<open>PointerBuffer\<close>

text \<open>
  \<open>pb_BatchDequeue\<close> applies the callback to the elements in order; the model returns the arguments
  of the calls. The loop variable is an \<^verbatim>\<open>int\<close> compared with a 64-bit size: the loop runs
  \<open>size()\<close> times when that is below \<open>2 ^ 31\<close>, and \<open>pb_size\<close> may wrap to a huge value.
\<close>

record 'a PointerBuffer =
  pb_buffer :: "'a list"
  pb_frontIndex :: u64
  pb_rearIndex :: u64

definition pb_new :: "nat \<Rightarrow> 'a \<Rightarrow> 'a PointerBuffer" where
  "pb_new n d = \<lparr>pb_buffer = replicate n d, pb_frontIndex = 0, pb_rearIndex = 0\<rparr>"

definition pb_Enqueue :: "'a \<Rightarrow> 'a PointerBuffer \<Rightarrow> (bool \<times> 'a PointerBuffer) res" where
  "pb_Enqueue v q =
     (if pb_rearIndex q - pb_frontIndex q = of_nat (length (pb_buffer q)) then Inl DebugBreak
      else Inr (True, q\<lparr>pb_buffer := (pb_buffer q)[masked (pb_rearIndex q) (length (pb_buffer q)) := v],
                        pb_rearIndex := pb_rearIndex q + 1\<rparr>))"

definition pb_Dequeue :: "'a PointerBuffer \<Rightarrow> ('a option \<times> 'a PointerBuffer) res" where
  "pb_Dequeue q =
     (if pb_frontIndex q = pb_rearIndex q then Inr (None, q)
      else Inr (Some (pb_buffer q ! masked (pb_frontIndex q) (length (pb_buffer q))),
                q\<lparr>pb_frontIndex := pb_frontIndex q + 1\<rparr>))"

definition pb_size :: "'a PointerBuffer \<Rightarrow> u64" where
  "pb_size q =
     (let n = length (pb_buffer q); f = of_nat (masked (pb_frontIndex q) n); r = of_nat (masked (pb_rearIndex q) n)
      in if pb_frontIndex q \<le> pb_rearIndex q then r - f else f - r)"

fun pb_Batch_loop :: "nat \<Rightarrow> 'a PointerBuffer \<Rightarrow> 'a list \<times> 'a PointerBuffer" where
  "pb_Batch_loop 0 q = ([], q)"
| "pb_Batch_loop (Suc n) q =
     (let v = pb_buffer q ! masked (pb_frontIndex q) (length (pb_buffer q));
          (vs, q') = pb_Batch_loop n (q\<lparr>pb_frontIndex := pb_frontIndex q + 1\<rparr>)
      in (v # vs, q'))"

definition pb_BatchDequeue :: "'a PointerBuffer \<Rightarrow> 'a list \<times> 'a PointerBuffer" where
  "pb_BatchDequeue q = pb_Batch_loop (unat (pb_size q)) q"

definition pb_cap :: "'a PointerBuffer \<Rightarrow> nat" where
  "pb_cap q = length (pb_buffer q)"

definition pb_ok :: "'a PointerBuffer \<Rightarrow> bool" where
  "pb_ok q \<longleftrightarrow> pow2 (length (pb_buffer q)) \<and> unat (pb_rearIndex q - pb_frontIndex q) \<le> length (pb_buffer q)"

definition pb_elems :: "'a PointerBuffer \<Rightarrow> 'a list" where
  "pb_elems q = window (pb_frontIndex q) (pb_rearIndex q) (pb_buffer q)"

lemma pb_length: "pb_ok q \<Longrightarrow> length (pb_elems q) = unat (pb_rearIndex q - pb_frontIndex q)"
  by (simp add: pb_ok_def pb_elems_def length_window)

lemma pb_full_iff:
  assumes "pb_ok q"
  shows "pb_rearIndex q - pb_frontIndex q = of_nat (length (pb_buffer q)) \<longleftrightarrow> length (pb_elems q) = pb_cap q"
proof -
  have "unat (of_nat (length (pb_buffer q)) :: u64) = length (pb_buffer q)"
    using assms pow2_less [of "length (pb_buffer q)"] by (intro unat_of_nat_small) (simp add: pb_ok_def)
  then show ?thesis using pb_length [OF assms] by (simp add: pb_cap_def word_unat_eq_iff)
qed

interpretation ptrbuf: bounded_fifo pb_cap pb_ok pb_elems pb_Enqueue pb_Dequeue
proof unfold_locales
  fix q :: "'a PointerBuffer" and x xs
  assume ok: "pb_ok q"
  have p: "pow2 (length (pb_buffer q))" and le: "unat (pb_rearIndex q - pb_frontIndex q) \<le> length (pb_buffer q)"
    using ok by (simp_all add: pb_ok_def)
  show "length (pb_elems q) \<le> pb_cap q" using pb_length [OF ok] le by (simp add: pb_cap_def)
  show "\<exists>q'. pb_Enqueue x q = Inr (True, q') \<and> pb_ok q' \<and> pb_elems q' = pb_elems q @ [x] \<and> pb_cap q' = pb_cap q"
    if room: "length (pb_elems q) < pb_cap q"
  proof -
    have n: "unat (pb_rearIndex q - pb_frontIndex q) < length (pb_buffer q)"
      using room pb_length [OF ok] by (simp add: pb_cap_def)
    show ?thesis
      using p n room pb_full_iff [OF ok] window_push(1) [OF p _ n, of x] window_push(2) [OF p _ n]
      by (simp add: pb_Enqueue_def pb_ok_def pb_elems_def pb_cap_def)
  qed
  show "\<exists>q'. pb_Dequeue q = Inr (Some x, q') \<and> pb_ok q' \<and> pb_elems q' = xs \<and> pb_cap q' = pb_cap q"
    if el: "pb_elems q = x # xs"
  proof -
    have ne: "0 < unat (pb_rearIndex q - pb_frontIndex q)" using el pb_length [OF ok] by simp
    then have "pb_frontIndex q \<noteq> pb_rearIndex q" by auto
    then show ?thesis
      using p le el window_pop [OF p _ ne le] by (simp add: pb_Dequeue_def pb_ok_def pb_elems_def pb_cap_def)
  qed
  show "pb_Dequeue q = Inr (None, q)" if "pb_elems q = []"
    using that window_Nil [OF p, of "pb_frontIndex q" "pb_rearIndex q"] by (simp add: pb_Dequeue_def pb_elems_def)
qed

text \<open>
  \<^verbatim>\<open>size()\<close> subtracts the masked indices, so it is the number of elements only while the occupied
  part of the array is one block that does not reach the end of the array; a full buffer has size 0.
\<close>

lemma pb_size_unwrapped:
  assumes ok: "pb_ok q" and "pb_frontIndex q \<le> pb_rearIndex q"
    and "masked (pb_frontIndex q) (pb_cap q) + length (pb_elems q) < pb_cap q"
  shows "unat (pb_size q) = length (pb_elems q)"
proof -
  let ?N = "length (pb_buffer q)" and ?n = "unat (pb_rearIndex q - pb_frontIndex q)"
  have p: "pow2 ?N" using ok by (simp add: pb_ok_def)
  have "masked (pb_rearIndex q) ?N = masked (pb_frontIndex q) ?N + ?n"
    using window_tail_eq [OF p, of "pb_rearIndex q" "pb_frontIndex q"] assms(3) pb_length [OF ok]
    by (simp add: pb_cap_def)
  then show ?thesis using assms(2) pb_length [OF ok] by (simp add: pb_size_def)
qed

lemma pb_Batch_loop_window:
  assumes "pb_ok q" and "n \<le> length (pb_elems q)"
  shows "\<exists>q'. pb_Batch_loop n q = (take n (pb_elems q), q') \<and> pb_ok q' \<and> pb_elems q' = drop n (pb_elems q)"
  using assms
proof (induction n arbitrary: q)
  case 0
  then show ?case by simp
next
  case (Suc n)
  let ?q = "q\<lparr>pb_frontIndex := pb_frontIndex q + 1\<rparr>"
  have p: "pow2 (length (pb_buffer q))" and le: "unat (pb_rearIndex q - pb_frontIndex q) \<le> length (pb_buffer q)"
    using Suc.prems by (simp_all add: pb_ok_def)
  have ne: "0 < unat (pb_rearIndex q - pb_frontIndex q)" using Suc.prems pb_length by fastforce
  have ok: "pb_ok ?q" and el: "pb_elems q = pb_buffer q ! masked (pb_frontIndex q) (length (pb_buffer q)) # pb_elems ?q"
    using window_pop [OF p _ ne le] p le by (simp_all add: pb_ok_def pb_elems_def)
  then show ?case using Suc.IH [OF ok] Suc.prems by auto
qed

lemma pb_size_full:
  assumes ok: "pb_ok q" and "length (pb_elems q) = pb_cap q"
  shows "pb_size q = 0" and "pb_BatchDequeue q = ([], q)"
proof -
  let ?N = "length (pb_buffer q)"
  have p: "pow2 ?N" using ok by (simp add: pb_ok_def)
  have "masked (pb_rearIndex q) ?N = masked (pb_frontIndex q) ?N"
    using window_tail_eq [OF p, of "pb_rearIndex q" "pb_frontIndex q"] assms pb_length [OF ok]
      masked_less [OF p, of "pb_frontIndex q"] by (simp add: pb_cap_def)
  then show "pb_size q = 0" by (simp add: pb_size_def Let_def)
  then show "pb_BatchDequeue q = ([], q)" by (simp add: pb_BatchDequeue_def)
qed

end
