(* ===== verification/Ref_Protocol.thy ===== *)
theory Ref_Protocol
  imports Session
begin

section \<open>The reference protocol of a slot under concurrency\<close>

text \<open>
  The atomic operations of \<^verbatim>\<open>IncreaseRef\<close>, \<^verbatim>\<open>Release\<close>, \<^verbatim>\<open>FindSession\<close>, \<^verbatim>\<open>CheckTimeout\<close>, \<^verbatim>\<open>ReleaseExecutable\<close>
  and \<^verbatim>\<open>AcceptThread\<close> on one slot, run by any number of threads in any interleaving. Each step is one
  interlocked operation or one read of the shared fields; the program point of a thread says what it
  does next. The slot's reference count and id live in the \<^typ>\<open>Session\<close> record and are changed by the same
  functions as in the sequential model. Threads are numbers below \<open>thread_max\<close>; at most one receive and one
  send of a slot are outstanding at a time, each holding one reference.
\<close>

subsection \<open>Program points and state\<close>

datatype pc =
    Idle
  | FindInc SessionID
  | FindCheck SessionID i32
  | Holding SessionID
  | RelDec
  | RelCAS
  | RelPost
  | AccInc
  | AccId
  | AccOff

record slot_state =
  st_ses :: Session
  st_pc :: "nat \<Rightarrow> pc"
  st_io :: nat
  st_posted :: nat
  st_free :: bool
  st_next :: u64
  st_released :: "SessionID list"

definition thread_max :: nat where
  "thread_max = 1000"

definition goto :: "nat \<Rightarrow> pc \<Rightarrow> slot_state \<Rightarrow> slot_state" where
  "goto t p s = s\<lparr>st_pc := (st_pc s)(t := p)\<rparr>"

definition on_ses :: "(Session \<Rightarrow> Session) \<Rightarrow> slot_state \<Rightarrow> slot_state" where
  "on_ses f s = s\<lparr>st_ses := f (st_ses s)\<rparr>"

abbreviation st_ref :: "slot_state \<Rightarrow> i32" where
  "st_ref s \<equiv> ss_refCount (st_ses s)"

definition slot_init :: slot_state where
  "slot_init = \<lparr>st_ses = new_Session, st_pc = (\<lambda>_. Idle), st_io = 0, st_posted = 0, st_free = True,
     st_next = 1, st_released = []\<rparr>"

subsection \<open>Steps\<close>

text \<open>
  The accept thread's id comes from a counter that does not repeat within a run (\<open>st_next\<close> does not
  wrap: it counts connections in 64 bits).
\<close>

inductive slot_step :: "slot_state \<Rightarrow> slot_state \<Rightarrow> bool" where
  find_start: "t < thread_max \<Longrightarrow> st_pc s t = Idle \<Longrightarrow> slot_step s (goto t (FindInc i) s)"
| find_inc: "t < thread_max \<Longrightarrow> st_pc s t = FindInc i \<Longrightarrow>
    slot_step s (goto t (FindCheck i (fst (ss_IncreaseRef (st_ses s)))) (on_ses (snd \<circ> ss_IncreaseRef) s))"
| find_fail: "t < thread_max \<Longrightarrow> st_pc s t = FindCheck i r \<Longrightarrow>
    sint r > sint RELEASE_FLAG \<or> ss_sessionId (st_ses s) \<noteq> i \<Longrightarrow> slot_step s (goto t RelDec s)"
| find_ok: "t < thread_max \<Longrightarrow> st_pc s t = FindCheck i r \<Longrightarrow>
    \<not> (sint r > sint RELEASE_FLAG \<or> ss_sessionId (st_ses s) \<noteq> i) \<Longrightarrow> slot_step s (goto t (Holding i) s)"
| timeout_inc: "t < thread_max \<Longrightarrow> st_pc s t = Idle \<Longrightarrow> r = fst (ss_IncreaseRef (st_ses s)) \<Longrightarrow>
    slot_step s (goto t (if sint r \<ge> sint RELEASE_FLAG then RelDec else Holding (ss_sessionId (st_ses s)))
      (on_ses (snd \<circ> ss_IncreaseRef) s))"
| io_start: "t < thread_max \<Longrightarrow> st_pc s t = Holding i \<Longrightarrow> st_io s < 2 \<Longrightarrow>
    slot_step s ((on_ses (snd \<circ> ss_IncreaseRef) s)\<lparr>st_io := Suc (st_io s)\<rparr>)"
| io_hand_over: "t < thread_max \<Longrightarrow> st_pc s t = Holding i \<Longrightarrow> st_io s < 2 \<Longrightarrow>
    slot_step s ((goto t Idle s)\<lparr>st_io := Suc (st_io s)\<rparr>)"
| io_complete: "t < thread_max \<Longrightarrow> st_pc s t = Idle \<Longrightarrow> st_io s = Suc n \<Longrightarrow>
    slot_step s ((goto t (Holding (ss_sessionId (st_ses s))) s)\<lparr>st_io := n\<rparr>)"
| rel_start: "t < thread_max \<Longrightarrow> st_pc s t = Holding i \<Longrightarrow> slot_step s (goto t RelDec s)"
| rel_dec: "t < thread_max \<Longrightarrow> st_pc s t = RelDec \<Longrightarrow>
    slot_step s (goto t (if st_ref s - 1 = 0 then RelCAS else Idle) (on_ses (ss_refCount_update (\<lambda>c. c - 1)) s))"
| cas_win: "t < thread_max \<Longrightarrow> st_pc s t = RelCAS \<Longrightarrow> st_ref s = 0 \<Longrightarrow>
    slot_step s (goto t RelPost (on_ses (ss_refCount_update (\<lambda>_. RELEASE_FLAG)) s))"
| cas_lose: "t < thread_max \<Longrightarrow> st_pc s t = RelCAS \<Longrightarrow> st_ref s \<noteq> 0 \<Longrightarrow> slot_step s (goto t Idle s)"
| rel_post: "t < thread_max \<Longrightarrow> st_pc s t = RelPost \<Longrightarrow>
    slot_step s ((goto t Idle s)\<lparr>st_posted := Suc (st_posted s),
      st_released := ss_sessionId (st_ses s) # st_released s\<rparr>)"
| free_slot: "st_posted s = Suc n \<Longrightarrow> slot_step s (s\<lparr>st_posted := n, st_free := True\<rparr>)"
| acc_start: "t < thread_max \<Longrightarrow> st_pc s t = Idle \<Longrightarrow> st_free s \<Longrightarrow>
    slot_step s ((goto t AccInc s)\<lparr>st_free := False\<rparr>)"
| acc_inc: "t < thread_max \<Longrightarrow> st_pc s t = AccInc \<Longrightarrow>
    slot_step s (goto t AccId (on_ses (snd \<circ> ss_IncreaseRef) s))"
| acc_id: "t < thread_max \<Longrightarrow> st_pc s t = AccId \<Longrightarrow> st_next s < - 1 \<Longrightarrow>
    slot_step s ((goto t AccOff (on_ses (ss_SetSessionId (st_next s)) s))\<lparr>st_next := st_next s + 1\<rparr>)"
| acc_off: "t < thread_max \<Longrightarrow> st_pc s t = AccOff \<Longrightarrow>
    slot_step s (goto t (Holding (ss_sessionId (st_ses s))) (on_ses ss_OffReleaseFlag s))"

inductive slot_reach :: "slot_state \<Rightarrow> bool" where
  slot_reach_init: "slot_reach slot_init"
| slot_reach_step: "slot_reach s \<Longrightarrow> slot_step s s' \<Longrightarrow> slot_reach s'"

text \<open>The two halves of \<^verbatim>\<open>Release\<close> run without interference are the sequential \<open>ss_ReleaseCount\<close>.\<close>

lemma release_halves:
  "ss_ReleaseCount x = (let y = ss_refCount_update (\<lambda>c. c - 1) x
     in if ss_refCount y = 0 then (True, ss_refCount_update (\<lambda>_. RELEASE_FLAG) y) else (False, y))"
  by (simp add: ss_ReleaseCount_def Let_def)

subsection \<open>Counting references\<close>

text \<open>\<open>holds\<close> is the number of references the thread owns, \<open>claims\<close> says whether it owns the flagged slot.\<close>

fun holds :: "pc \<Rightarrow> nat" where
  "holds (FindCheck i r) = 1"
| "holds (Holding i) = 1"
| "holds RelDec = 1"
| "holds AccId = 1"
| "holds AccOff = 1"
| "holds _ = 0"

fun claims :: "pc \<Rightarrow> nat" where
  "claims RelPost = 1"
| "claims AccInc = 1"
| "claims AccId = 1"
| "claims AccOff = 1"
| "claims _ = 0"

definition total :: "(pc \<Rightarrow> nat) \<Rightarrow> slot_state \<Rightarrow> nat" where
  "total f s = (\<Sum>t<thread_max. f (st_pc s t))"

definition refs_out :: "slot_state \<Rightarrow> nat" where
  "refs_out s = total holds s + st_io s"

definition owners :: "slot_state \<Rightarrow> nat" where
  "owners s = total claims s + st_posted s + (if st_free s then 1 else 0)"

lemma total_goto:
  assumes "t < thread_max"
  shows "total f (goto t p s) + f (st_pc s t) = total f s + f p"
proof -
  have t: "t \<in> {..<thread_max}" using assms by simp
  have rest: "(\<Sum>u\<in>{..<thread_max} - {t}. f (if u = t then p else st_pc s u)) = (\<Sum>u\<in>{..<thread_max} - {t}. f (st_pc s u))"
    by (intro sum.cong) auto
  show ?thesis
    using sum.remove [OF finite_lessThan t, of "\<lambda>u. f (st_pc (goto t p s) u)"]
      sum.remove [OF finite_lessThan t, of "\<lambda>u. f (st_pc s u)"] rest
    by (simp add: total_def goto_def)
qed

lemma total_ge: "t < thread_max \<Longrightarrow> f (st_pc s t) \<le> total f s"
  unfolding total_def by (rule member_le_sum) simp_all

lemma total_le: "(\<And>p. f p \<le> 1) \<Longrightarrow> total f s \<le> thread_max"
  using sum_bounded_above [of "{..<thread_max}" "\<lambda>t. f (st_pc s t)" 1] by (simp add: total_def)

lemma holds_le: "holds p \<le> 1" by (cases p) simp_all

lemma goto_sel [simp]:
  "st_ses (goto t p s) = st_ses s" "st_io (goto t p s) = st_io s" "st_posted (goto t p s) = st_posted s"
  "st_free (goto t p s) = st_free s" "st_next (goto t p s) = st_next s" "st_released (goto t p s) = st_released s"
  "st_pc (goto t p s) = (st_pc s)(t := p)"
  by (simp_all add: goto_def)

lemma on_ses_sel [simp]:
  "st_ses (on_ses f s) = f (st_ses s)" "st_io (on_ses f s) = st_io s" "st_posted (on_ses f s) = st_posted s"
  "st_free (on_ses f s) = st_free s" "st_next (on_ses f s) = st_next s" "st_released (on_ses f s) = st_released s"
  "st_pc (on_ses f s) = st_pc s"
  by (simp_all add: on_ses_def)

lemma total_cong [simp]:
  "total f (on_ses g s) = total f s" "total f (s\<lparr>st_io := n\<rparr>) = total f s" "total f (s\<lparr>st_posted := n\<rparr>) = total f s"
  "total f (s\<lparr>st_free := b\<rparr>) = total f s" "total f (s\<lparr>st_next := i\<rparr>) = total f s"
  "total f (s\<lparr>st_released := is\<rparr>) = total f s"
  by (simp_all add: total_def)

lemma goto_on_ses: "goto t p (on_ses f s) = on_ses f (goto t p s)"
  by (simp add: goto_def on_ses_def)

lemma ses_ref_sel [simp]:
  "ss_refCount (snd (ss_IncreaseRef x)) = ss_refCount x + 1" "fst (ss_IncreaseRef x) = ss_refCount x + 1"
  "ss_sessionId (snd (ss_IncreaseRef x)) = ss_sessionId x"
  "ss_refCount (ss_SetSessionId i x) = ss_refCount x" "ss_sessionId (ss_SetSessionId i x) = i"
  "ss_sessionId (ss_OffReleaseFlag x) = ss_sessionId x"
  by (simp_all add: ss_IncreaseRef_def ss_SetSessionId_def ss_OffReleaseFlag_def)

subsection \<open>Words\<close>

lemma off_flag:
  assumes "n < 2 ^ 20"
  shows "(of_nat (n + 2 ^ 20) :: i32) AND NOT (push_bit 20 1) = of_nat n"
proof -
  have hi: "\<not> bit (of_nat n :: i32) m" if "20 \<le> m" for m
  proof -
    have "n < 2 ^ m" using assms that power_increasing [of 20 m "2 :: nat"] by linarith
    then have "\<not> bit n m" by (metis bit_iff_odd div_less even_zero)
    then show ?thesis by (simp add: bit_of_nat_iff)
  qed
  define f :: i32 where "f = push_bit 20 1"
  have f: "bit f m \<longleftrightarrow> m = 20" for m unfolding f_def by (auto simp only: bit_push_bit_iff bit_1_iff) simp_all
  have "(of_nat n :: i32) + f = of_nat n OR f" by (rule disjunctive_add) (use hi in \<open>auto simp: f\<close>)
  moreover have "(of_nat (n + 2 ^ 20) :: i32) = of_nat n + f" by (simp add: push_bit_eq_mult f_def)
  moreover have "(of_nat n OR f) AND NOT f = (of_nat n :: i32)"
    using hi [of 20] by (intro bit_word_eqI) (auto simp: bit_and_iff bit_or_iff bit_not_iff f)
  ultimately show ?thesis by (simp only: f_def)
qed

lemma word_less_suc:
  fixes w :: "'a::len word"
  assumes "w < - 1"
  shows "w < w + 1"
proof -
  have "1 + w \<noteq> 0" using assms by (auto simp: add_eq_0_iff)
  then show ?thesis using unatSuc [of w] by (simp add: word_less_nat_alt add.commute)
qed

subsection \<open>The invariant\<close>

text \<open>
  The count is the number of references handed out plus the flag, which is set exactly while somebody owns
  the slot: the thread that won the exchange, the posted completion, the free list or the accept thread.
\<close>

definition counted :: "slot_state \<Rightarrow> bool" where
  "counted s \<longleftrightarrow> owners s \<le> 1 \<and> st_io s \<le> 2 \<and> st_ref s = of_nat (refs_out s + 2 ^ 20 * owners s)"

text \<open>What a thread has established at its program point.\<close>

fun thread_ok :: "slot_state \<Rightarrow> pc \<Rightarrow> bool" where
  "thread_ok s (FindCheck i r) \<longleftrightarrow> (sint r \<le> sint RELEASE_FLAG \<longrightarrow> owners s = 0)"
| "thread_ok s (Holding i) \<longleftrightarrow> owners s = 0 \<and> ss_sessionId (st_ses s) = i"
| "thread_ok s _ \<longleftrightarrow> True"

definition pinned :: "slot_state \<Rightarrow> bool" where
  "pinned s \<longleftrightarrow> (0 < st_io s \<longrightarrow> owners s = 0) \<and> (\<forall>t<thread_max. thread_ok s (st_pc s t))"

definition pending :: "slot_state \<Rightarrow> bool" where
  "pending s \<longleftrightarrow> (owners s = 0 \<and> refs_out s = 0 \<longrightarrow> (\<exists>t<thread_max. st_pc s t = RelCAS))"

definition fresh_ids :: "slot_state \<Rightarrow> bool" where
  "fresh_ids s \<longleftrightarrow> distinct (st_released s) \<and> ss_sessionId (st_ses s) < st_next s \<and>
     (\<forall>i\<in>set (st_released s). i < st_next s) \<and>
     (owners s = 0 \<or> (\<exists>t<thread_max. st_pc s t \<in> {RelPost, AccOff}) \<longrightarrow> ss_sessionId (st_ses s) \<notin> set (st_released s))"

definition slot_inv :: "slot_state \<Rightarrow> bool" where
  "slot_inv s \<longleftrightarrow> counted s \<and> pinned s \<and> pending s \<and> fresh_ids s"

lemma refs_out_le: "st_io s \<le> 2 \<Longrightarrow> refs_out s \<le> thread_max + 2"
  using total_le [of holds s, OF holds_le] by (simp add: refs_out_def)

lemma ref_unat:
  assumes "counted s"
  shows "unat (st_ref s) = refs_out s + 2 ^ 20 * owners s"
proof -
  have "refs_out s \<le> 1002" using refs_out_le [of s] assms by (simp add: counted_def thread_max_def)
  then have n: "refs_out s + 2 ^ 20 * owners s < 2 ^ LENGTH(32)" using assms by (simp add: counted_def)
  have "st_ref s = of_nat (refs_out s + 2 ^ 20 * owners s)" using assms by (simp only: counted_def)
  then show ?thesis by (simp only: unat_of_nat_small [OF n])
qed

lemma ref_zero: "counted s \<Longrightarrow> st_ref s = 0 \<longleftrightarrow> refs_out s = 0 \<and> owners s = 0"
  using ref_unat [of s] by (auto simp: unat_eq_zero)

lemma total_goto_eq: "t < thread_max \<Longrightarrow> total f (goto t p s) = total f s + f p - f (st_pc s t)"
  using total_goto [of t f p s] by simp

lemma refs_out_ge: "t < thread_max \<Longrightarrow> holds (st_pc s t) \<le> refs_out s"
  using total_ge [of t holds s] by (simp add: refs_out_def)

lemma owners_ge: "t < thread_max \<Longrightarrow> claims (st_pc s t) \<le> owners s"
  using total_ge [of t claims s] by (simp add: owners_def)

lemmas slot_counts = refs_out_def owners_def total_goto_eq goto_on_ses

lemma sole_owner:
  assumes "counted s" and "t < thread_max" and "claims (st_pc s t) = 1"
  shows "total claims s = 1 \<and> st_posted s = 0 \<and> \<not> st_free s \<and> owners s = 1"
  using total_ge [of t claims s] assms by (auto simp: counted_def owners_def split: if_splits)

text \<open>No step hands out the flag twice, and every change of the count is matched by a reference.\<close>

lemma counted_step: "slot_step s s' \<Longrightarrow> counted s \<Longrightarrow> counted s'"
proof (induction rule: slot_step.induct)
  case (io_hand_over t s i)
  then show ?case using total_ge [of t holds s] by (simp add: counted_def slot_counts)
next
  case (rel_dec t s)
  then have "1 \<le> total holds s" using total_ge [of t holds s] by simp
  then obtain n where "total holds s = Suc n" by (auto simp: Suc_le_eq gr0_conv_Suc)
  then show ?case using rel_dec by (auto simp: counted_def slot_counts split: if_splits)
next
  case (cas_win t s)
  then have "refs_out s = 0 \<and> owners s = 0" using ref_zero by blast
  then show ?case using cas_win by (simp add: counted_def slot_counts RELEASE_FLAG_def)
next
  case (rel_post t s)
  then have "total claims s = 1" "st_posted s = 0" "\<not> st_free s" using sole_owner [of s t] by auto
  then show ?case using rel_post by (simp add: counted_def slot_counts)
next
  case (acc_off t s)
  then have own: "total claims s = 1" "st_posted s = 0" "\<not> st_free s" "owners s = 1"
    using sole_owner [of s t] by auto
  then have "st_ref s = of_nat (refs_out s + 2 ^ 20)" using acc_off by (simp add: counted_def)
  moreover have "refs_out s < 2 ^ 20" using refs_out_le [of s] acc_off by (simp add: counted_def thread_max_def)
  ultimately have "ss_refCount (ss_OffReleaseFlag (st_ses s)) = of_nat (refs_out s)"
    using off_flag [of "refs_out s"] by (simp add: ss_OffReleaseFlag_def)
  then show ?case using acc_off own by (simp add: counted_def slot_counts)
qed (simp_all add: counted_def slot_counts split: if_splits)

text \<open>While a reference is out and nobody owns the slot, no step makes an owner or changes the id.\<close>

lemma owners_step:
  "slot_step s s' \<Longrightarrow> counted s \<Longrightarrow> owners s = 0 \<Longrightarrow> 0 < refs_out s \<Longrightarrow>
     owners s' = 0 \<and> ss_sessionId (st_ses s') = ss_sessionId (st_ses s)"
proof (induction rule: slot_step.induct)
  case (cas_win t s)
  then show ?case using ref_zero [of s] by simp
next
  case (rel_post t s)
  then show ?case using owners_ge [of t s] by simp
next
  case (acc_inc t s)
  then show ?case using owners_ge [of t s] by simp
next
  case (acc_id t s)
  then show ?case using owners_ge [of t s] by simp
next
  case (acc_off t s)
  then show ?case using owners_ge [of t s] by simp
qed (simp_all add: slot_counts split: if_splits)

lemma flag_test:
  assumes "counted s" and "0 < refs_out s"
  shows "sint (st_ref s) \<le> sint RELEASE_FLAG \<longleftrightarrow> owners s = 0"
    and "sint RELEASE_FLAG \<le> sint (st_ref s) \<longleftrightarrow> owners s \<noteq> 0"
proof -
  have n: "refs_out s \<le> 1002" using refs_out_le [of s] assms by (simp add: counted_def thread_max_def)
  have o: "owners s = 0 \<or> owners s = 1" using assms(1) by (auto simp: counted_def)
  have u: "unat (st_ref s) = refs_out s + 2 ^ 20 * owners s" by (rule ref_unat [OF assms(1)])
  moreover have "sint (st_ref s) = int (unat (st_ref s))" using o n by (intro sint_i32_nonneg) (auto simp: u)
  ultimately show "sint (st_ref s) \<le> sint RELEASE_FLAG \<longleftrightarrow> owners s = 0"
    "sint RELEASE_FLAG \<le> sint (st_ref s) \<longleftrightarrow> owners s \<noteq> 0"
    using o n assms(2) by auto
qed

lemma thread_keeps:
  assumes "slot_step s s'" and "counted s" and "u < thread_max" and "thread_ok s (st_pc s u)"
  shows "thread_ok s' (st_pc s u)"
  using assms(4) refs_out_ge [OF assms(3), of s] owners_step [OF assms(1,2)]
  by (cases "st_pc s u") auto

lemma counted_after:
  assumes "slot_step s s'" and "counted s" and "u < thread_max" and "holds (st_pc s' u) = 1"
  shows "counted s'" and "0 < refs_out s'"
  using counted_step [OF assms(1,2)] refs_out_ge [OF assms(3), of s'] assms(4) by simp_all

lemma thread_arrives:
  "slot_step s s' \<Longrightarrow> counted s \<Longrightarrow> pinned s \<Longrightarrow> u < thread_max \<Longrightarrow> st_pc s' u \<noteq> st_pc s u \<Longrightarrow>
     thread_ok s' (st_pc s' u)"
proof (induction rule: slot_step.induct)
  case (find_inc t s i)
  then have ut: "u = t" by (auto split: if_splits)
  let ?s = "goto t (FindCheck i (fst (ss_IncreaseRef (st_ses s)))) (on_ses (snd \<circ> ss_IncreaseRef) s)"
  have st: "slot_step s ?s" using find_inc by (intro slot_step.find_inc) auto
  have h: "counted ?s \<and> 0 < refs_out ?s"
    using counted_after [OF st, of t] find_inc by (simp add: ut)
  show ?case using flag_test(1) [of ?s] h by (simp add: ut)
next
  case (find_ok t s i r)
  then have "thread_ok s (FindCheck i r)" by (auto simp: pinned_def)
  then show ?case using find_ok by (auto simp: slot_counts split: if_splits)
next
  case (timeout_inc t s r)
  then have ut: "u = t" by (auto split: if_splits)
  let ?s = "goto t (if sint r \<ge> sint RELEASE_FLAG then RelDec else Holding (ss_sessionId (st_ses s)))
      (on_ses (snd \<circ> ss_IncreaseRef) s)"
  have st: "slot_step s ?s" using timeout_inc by (intro slot_step.timeout_inc) auto
  have h: "counted ?s \<and> 0 < refs_out ?s"
    using counted_after [OF st, of t] timeout_inc by (simp add: ut)
  show ?case using flag_test(2) [of ?s] h timeout_inc(3)
    by (cases "sint RELEASE_FLAG \<le> sint r") (simp_all add: ut)
next
  case (io_complete t s n)
  then have "owners s = 0" by (simp add: pinned_def)
  then show ?case using io_complete by (auto simp: slot_counts split: if_splits)
next
  case (acc_off t s)
  then have "total claims s = 1 \<and> st_posted s = 0 \<and> \<not> st_free s" using sole_owner [of s t] by simp
  then show ?case using acc_off by (auto simp: slot_counts split: if_splits)
qed (auto split: if_splits)

lemma pinned_step:
  assumes st: "slot_step s s'" and "counted s" and "pinned s"
  shows "pinned s'"
proof -
  have thr: "thread_ok s' (st_pc s' u)" if "u < thread_max" for u
  proof (cases "st_pc s' u = st_pc s u")
    case True
    then show ?thesis using thread_keeps [OF st assms(2) that] assms(3) that by (simp add: pinned_def)
  next
    case False
    then show ?thesis using thread_arrives [OF assms that] by simp
  qed
  have "0 < refs_out s \<and> owners s = 0" if "0 < st_io s'"
    using st that assms(3)
  proof (induction rule: slot_step.cases)
    case (io_start t s i)
    then have "thread_ok s (Holding i)" "holds (Holding i) \<le> refs_out s"
      using refs_out_ge [of t s] by (auto simp: pinned_def)
    then show ?case using io_start by simp
  next
    case (io_hand_over t s i)
    then have "thread_ok s (Holding i)" "holds (Holding i) \<le> refs_out s"
      using refs_out_ge [of t s] by (auto simp: pinned_def)
    then show ?case using io_hand_over by simp
  qed (auto simp: pinned_def refs_out_def)
  then show ?thesis using owners_step [OF st assms(2)] thr by (auto simp: pinned_def)
qed

lemma pending_keep:
  assumes "pending s" and "owners s' = 0 \<and> refs_out s' = 0 \<longrightarrow> owners s = 0 \<and> refs_out s = 0"
    and "\<forall>u. st_pc s u = RelCAS \<longrightarrow> st_pc s' u = RelCAS"
  shows "pending s'"
  using assms by (auto simp: pending_def)

lemma pending_step: "slot_step s s' \<Longrightarrow> counted s \<Longrightarrow> pending s \<Longrightarrow> pending s'"
proof (induction rule: slot_step.induct)
  case (rel_dec t s)
  let ?s = "goto t (if st_ref s - 1 = 0 then RelCAS else Idle) (on_ses (ss_refCount_update (\<lambda>c. c - 1)) s)"
  have "counted ?s" using rel_dec by (intro counted_step [OF slot_step.rel_dec])
  then show ?case using ref_zero [of ?s] rel_dec(1) by (auto simp: pending_def split: if_splits)
next
  case (cas_win t s)
  then show ?case by (simp add: pending_def slot_counts)
next
  case (cas_lose t s)
  then show ?case using ref_zero [of s] by (auto simp: pending_def slot_counts)
next
  case (rel_post t s)
  then show ?case by (simp add: pending_def slot_counts)
next
  case (acc_off t s)
  then have "0 < refs_out (goto t (Holding (ss_sessionId (st_ses s))) (on_ses ss_OffReleaseFlag s))"
    using counted_after(2) [OF slot_step.acc_off, of t s t] by simp
  then show ?case by (simp add: pending_def)
qed (rule pending_keep, assumption, auto simp: slot_counts split: if_splits)+

lemma fresh_keep:
  assumes "fresh_ids s" and "ss_sessionId (st_ses s') = ss_sessionId (st_ses s)" and "st_released s' = st_released s"
    and "st_next s' = st_next s"
    and "owners s' = 0 \<or> (\<exists>t<thread_max. st_pc s' t \<in> {RelPost, AccOff}) \<Longrightarrow>
      owners s = 0 \<or> (\<exists>t<thread_max. st_pc s t \<in> {RelPost, AccOff})"
  shows "fresh_ids s'"
  using assms unfolding fresh_ids_def by metis

lemma fresh_step: "slot_step s s' \<Longrightarrow> counted s \<Longrightarrow> fresh_ids s \<Longrightarrow> fresh_ids s'"
proof (induction rule: slot_step.induct)
  case (cas_win t s)
  show ?case using cas_win ref_zero [of s] by (intro fresh_keep [OF cas_win(5)]) auto
next
  case (rel_post t s)
  let ?s = "(goto t Idle s)\<lparr>st_posted := Suc (st_posted s), st_released := ss_sessionId (st_ses s) # st_released s\<rparr>"
  have "counted ?s" using rel_post by (intro counted_step [OF slot_step.rel_post])
  then have "claims (st_pc ?s u) = 0" if "u < thread_max" for u
    using total_ge [OF that, of claims ?s] by (simp add: counted_def owners_def split: if_splits)
  then have "\<not> (\<exists>u<thread_max. st_pc ?s u \<in> {RelPost, AccOff})" "owners ?s \<noteq> 0"
    by (fastforce simp: owners_def)+
  then show ?case using rel_post by (auto simp: fresh_ids_def)
next
  case (acc_id t s)
  then have "st_next s < st_next s + 1" by (intro word_less_suc)
  then show ?case using acc_id by (fastforce simp: fresh_ids_def)
next
  case (acc_off t s)
  show ?case using acc_off by (intro fresh_keep [OF acc_off(4)]) auto
qed (rule fresh_keep, assumption, auto simp: slot_counts split: if_splits)+

text \<open>The invariant holds in every state the threads can reach.\<close>

lemma slot_inv_init: "slot_inv slot_init"
proof -
  have tot: "total holds slot_init = 0" "total claims slot_init = 0" by (simp_all add: total_def slot_init_def)
  have sel: "st_io slot_init = 0" "st_posted slot_init = 0" "st_free slot_init" "st_ref slot_init = RELEASE_FLAG"
    "\<And>t. st_pc slot_init t = Idle" "ss_sessionId (st_ses slot_init) = 0" "st_next slot_init = 1" "st_released slot_init = []"
    by (simp_all add: slot_init_def new_Session_def)
  show ?thesis
    by (simp add: slot_inv_def counted_def pinned_def pending_def fresh_ids_def refs_out_def owners_def tot sel RELEASE_FLAG_def)
qed

lemma slot_reach_inv: "slot_reach s \<Longrightarrow> slot_inv s"
proof (induction rule: slot_reach.induct)
  case slot_reach_init
  show ?case by (rule slot_inv_init)
next
  case (slot_reach_step s s')
  then show ?case unfolding slot_inv_def by (blast intro: counted_step pinned_step pending_step fresh_step)
qed

lemma sint_ref:
  assumes "counted s"
  shows "sint (st_ref s) = int (refs_out s) + sint RELEASE_FLAG * int (owners s)"
proof -
  have "refs_out s \<le> 1002" "owners s \<le> 1"
    using refs_out_le [of s] assms by (simp_all add: counted_def thread_max_def)
  then have "sint (st_ref s) = int (unat (st_ref s))"
    by (intro sint_i32_nonneg) (simp add: ref_unat [OF assms])
  then show ?thesis by (simp add: ref_unat [OF assms])
qed

subsection \<open>A run of one connection\<close>

text \<open>Accept, hold, and release by the same thread, as states for the witnesses below.\<close>

definition slot_accepted :: slot_state where
  "slot_accepted = slot_init\<lparr>st_pc := (\<lambda>_. Idle)(0 := Holding 1), st_free := False, st_next := 2,
     st_ses := new_Session\<lparr>ss_sessionId := 1, ss_refCount := 1\<rparr>\<rparr>"

definition slot_closed :: slot_state where
  "slot_closed = slot_init\<lparr>st_free := False, st_next := 2, st_posted := 1, st_released := [1],
     st_ses := new_Session\<lparr>ss_sessionId := 1\<rparr>\<rparr>"

lemma slot_reach_accepted: "slot_reach slot_accepted"
proof -
  let ?a = "(goto 0 AccInc slot_init)\<lparr>st_free := False\<rparr>"
  let ?b = "goto 0 AccId (on_ses (snd \<circ> ss_IncreaseRef) ?a)"
  let ?c = "(goto 0 AccOff (on_ses (ss_SetSessionId (st_next ?b)) ?b))\<lparr>st_next := st_next ?b + 1\<rparr>"
  let ?d = "goto 0 (Holding (ss_sessionId (st_ses ?c))) (on_ses ss_OffReleaseFlag ?c)"
  have t: "0 < thread_max" by (simp add: thread_max_def)
  have a: "slot_reach ?a"
    using t by (intro slot_reach_step [OF slot_reach_init] acc_start) (simp_all add: slot_init_def)
  have b: "slot_reach ?b" using t by (intro slot_reach_step [OF a] acc_inc) simp_all
  have "(1 :: u64) < - 1" unfolding word_order.not_eq_extremum [symmetric] by simp
  then have c: "slot_reach ?c" using t by (intro slot_reach_step [OF b] acc_id) (simp_all add: slot_init_def)
  have d: "slot_reach ?d" using t by (intro slot_reach_step [OF c] acc_off) simp_all
  have "?d = slot_accepted"
    by (simp add: slot_accepted_def slot_init_def goto_def on_ses_def ss_IncreaseRef_def ss_SetSessionId_def
        ss_OffReleaseFlag_def new_Session_def RELEASE_FLAG_def)
  then show ?thesis using d by simp
qed

lemma slot_reach_closed: "slot_reach slot_closed"
proof -
  let ?a = "goto 0 RelDec slot_accepted"
  let ?b = "goto 0 RelCAS (on_ses (ss_refCount_update (\<lambda>c. c - 1)) ?a)"
  let ?c = "goto 0 RelPost (on_ses (ss_refCount_update (\<lambda>_. RELEASE_FLAG)) ?b)"
  let ?d = "(goto 0 Idle ?c)\<lparr>st_posted := Suc (st_posted ?c), st_released := ss_sessionId (st_ses ?c) # st_released ?c\<rparr>"
  have t: "0 < thread_max" by (simp add: thread_max_def)
  have a: "slot_reach ?a"
    using t by (intro slot_reach_step [OF slot_reach_accepted] rel_start [where i = 1]) (simp_all add: slot_accepted_def)
  have "slot_step ?a ?b" using rel_dec [of 0 ?a] t by (simp add: slot_accepted_def)
  then have b: "slot_reach ?b" by (rule slot_reach_step [OF a])
  have c: "slot_reach ?c" using t by (intro slot_reach_step [OF b] cas_win) (simp_all add: slot_accepted_def)
  have d: "slot_reach ?d" using t by (intro slot_reach_step [OF c] rel_post) simp_all
  have "?d = slot_closed"
    by (simp add: slot_accepted_def slot_closed_def slot_init_def goto_def on_ses_def new_Session_def fun_eq_iff)
  then show ?thesis using d by simp
qed

subsection \<open>Properties\<close>

text \<open>
  C10. Under any interleaving of lookups, timeouts, I/O, releases and accepts on a slot, the 32-bit reference
  count is the number of references held by threads and outstanding I/O, plus the release flag when the
  slot has an owner (the thread that won the exchange, the posted release, the free list or the accept
  thread); there is never more than one owner and the count never overflows into the flag.
\<close>

theorem reference_count_exact:
  assumes "slot_reach s"
  shows "sint (st_ref s) = int (refs_out s) + sint RELEASE_FLAG * int (owners s) \<and> owners s \<le> 1 \<and>
    int (refs_out s) < sint RELEASE_FLAG"
  using slot_reach_inv [OF assms] sint_ref [of s] refs_out_le [of s]
  by (simp add: slot_inv_def counted_def thread_max_def)

theorem reference_count_exact_witness:
  "slot_reach slot_accepted \<and> owners slot_accepted \<le> 1 \<and> int (refs_out slot_accepted) < sint RELEASE_FLAG"
  using reference_count_exact [OF slot_reach_accepted] slot_reach_accepted by simp

text \<open>
  C9. While any thread works on a slot under a reference obtained for an id, the slot keeps that id, is not
  flagged, is neither posted for release nor on the free list, and no accept is in progress on it: the
  connection cannot be torn down or replaced under the thread.
\<close>

theorem holder_pins_connection:
  assumes "slot_reach s" and "t < thread_max" and "st_pc s t = Holding i"
  shows "ss_sessionId (st_ses s) = i \<and> \<not> ss_released (st_ses s) \<and> st_posted s = 0 \<and> \<not> st_free s \<and>
    (\<forall>u<thread_max. st_pc s u \<notin> {RelPost, AccInc, AccId, AccOff})"
proof -
  have inv: "counted s" "pinned s" using slot_reach_inv [OF assms(1)] by (simp_all add: slot_inv_def)
  then have own: "owners s = 0" and id: "ss_sessionId (st_ses s) = i"
    using assms(2,3) by (auto simp: pinned_def)
  have "0 < refs_out s" using refs_out_ge [OF assms(2), of s] assms(3) by simp
  then have "\<not> ss_released (st_ses s)" using flag_test(2) [OF inv(1)] own by (simp add: ss_released_def)
  moreover have "claims (st_pc s u) = 0" if "u < thread_max" for u using owners_ge [OF that, of s] own by simp
  then have "\<forall>u<thread_max. st_pc s u \<notin> {RelPost, AccInc, AccId, AccOff}" by fastforce
  ultimately show ?thesis using own id by (simp add: owners_def split: if_splits)
qed

theorem holder_pins_connection_witness:
  "st_pc slot_accepted 0 = Holding 1 \<and> \<not> ss_released (st_ses slot_accepted) \<and> \<not> st_free slot_accepted"
  using holder_pins_connection [OF slot_reach_accepted, of 0 1] by (simp add: thread_max_def slot_accepted_def)





end
