(* ===== verification/Object_Pool.thy ===== *)
theory Object_Pool
  imports Prelude
begin

section \<open>The object pools with a free list\<close>

text \<open>
  \<^verbatim>\<open>SingleThreadObjectPool.h\<close>, \<^verbatim>\<open>LockPool.h\<close>, \<^verbatim>\<open>SpinLockPool.h\<close> and \<^verbatim>\<open>MemoryPool.h\<close>: pools that chain their free
  nodes through a pointer in the node. A pointer is a 64-bit number, null is 0; an object is named by
  the address of its node (the pointer arithmetic between a node and its data cancels). The address a call of
  \<^verbatim>\<open>malloc\<close> or \<^verbatim>\<open>new\<close> returns is an argument of the operation that makes the call. The data of a node is an
  option: \<open>None\<close> is storage in which no object has been constructed, or whose object has been destroyed.
  The locked pools are modelled inside their lock.
\<close>

subsection \<open>Chains of nodes\<close>

type_synonym addr = u64

primrec chain :: "(addr \<Rightarrow> addr) \<Rightarrow> addr \<Rightarrow> addr list \<Rightarrow> bool" where
  "chain nx a [] \<longleftrightarrow> a = 0"
| "chain nx a (x # xs) \<longleftrightarrow> a = x \<and> x \<noteq> 0 \<and> chain nx (nx x) xs"

lemma chain_null: "chain nx 0 xs \<longleftrightarrow> xs = []"
  by (cases xs) auto

lemma chain_nonnull: "a \<noteq> 0 \<Longrightarrow> chain nx a xs \<longleftrightarrow> (\<exists>ys. xs = a # ys \<and> chain nx (nx a) ys)"
  by (cases xs) auto

lemma chain_unique: "chain nx a xs \<Longrightarrow> chain nx a ys \<Longrightarrow> xs = ys"
  by (induction xs arbitrary: a ys) (auto simp: chain_null chain_nonnull)

lemma chain_upd [simp]: "b \<notin> set xs \<Longrightarrow> chain (nx(b := c)) a xs = chain nx a xs"
  by (induction xs arbitrary: a) auto

lemma chain_cong: "(\<And>b. b \<in> set xs \<Longrightarrow> nx b = nx' b) \<Longrightarrow> chain nx a xs = chain nx' a xs"
  by (induction xs arbitrary: a) auto

lemma chain_suffix:
  "chain nx a (xs @ x # ys) \<Longrightarrow> chain nx x (x # ys)"
  by (induction xs arbitrary: a) auto

text \<open>A null-terminated chain visits no node twice.\<close>

lemma chain_distinct: "chain nx a xs \<Longrightarrow> distinct xs"
proof (induction xs arbitrary: a)
  case (Cons x xs)
  have "x \<notin> set xs"
  proof
    assume "x \<in> set xs"
    then obtain us vs where xs: "xs = us @ x # vs" by (auto simp: in_set_conv_decomp)
    then have "chain nx (nx x) (us @ x # vs)" using Cons.prems by simp
    then have "chain nx x (x # vs)" by (rule chain_suffix)
    then have "chain nx (nx x) vs" by simp
    moreover have "chain nx (nx x) xs" using Cons.prems by simp
    ultimately have "length vs = length xs" using chain_unique by blast
    then show False using xs by simp
  qed
  moreover have "distinct xs" using Cons.prems by (intro Cons.IH [of "nx x"]) simp
  ultimately show ?case by simp
qed simp

lemma chain_no_null: "chain nx a xs \<Longrightarrow> 0 \<notin> set xs"
  by (induction xs arbitrary: a) auto

subsection \<open>State\<close>

record 'a pool =
  pl_next :: "addr \<Rightarrow> addr"
  pl_data :: "addr \<Rightarrow> 'a option"
  pl_top :: addr
  pl_objectCount :: i32
  pl_allocCount :: i32

definition raw_pool :: "'a pool" where
  "raw_pool = \<lparr>pl_next = (\<lambda>_. 0), pl_data = (\<lambda>_. None), pl_top = 0, pl_objectCount = 0, pl_allocCount = 0\<rparr>"

text \<open>\<^verbatim>\<open>newNode->next = top; top = newNode;\<close>\<close>

definition push_node :: "addr \<Rightarrow> 'a pool \<Rightarrow> 'a pool" where
  "push_node a s = s\<lparr>pl_next := (pl_next s)(a := pl_top s), pl_top := a\<rparr>"

definition set_counts :: "i32 \<Rightarrow> 'a pool \<Rightarrow> 'a pool" where
  "set_counts n s = s\<lparr>pl_objectCount := n, pl_allocCount := n\<rparr>"

subsection \<open>SingleThreadObjectPool\<close>

text \<open>The constructor; \<open>as\<close> are the addresses of the \<^verbatim>\<open>iBlockNum\<close> calls of \<^verbatim>\<open>malloc\<close>, \<open>d\<close> is \<^verbatim>\<open>T()\<close>.\<close>

definition sp_new :: "bool \<Rightarrow> 'a \<Rightarrow> addr list \<Rightarrow> 'a pool" where
  "sp_new usePlacement d as = set_counts (of_nat (length as))
     (fold (\<lambda>a s. push_node a (if usePlacement then s else s\<lparr>pl_data := (pl_data s)(a \<mapsto> d)\<rparr>)) as raw_pool)"

definition sp_Alloc :: "bool \<Rightarrow> 'a \<Rightarrow> addr \<Rightarrow> 'a pool \<Rightarrow> addr \<times> 'a pool" where
  "sp_Alloc usePlacement v p s =
     (let top = pl_top s
      in if top \<noteq> 0 then
           (top, s\<lparr>pl_top := pl_next s top, pl_objectCount := pl_objectCount s - 1,
              pl_data := (if usePlacement then (pl_data s)(top \<mapsto> v) else pl_data s)\<rparr>)
         else (p, s\<lparr>pl_allocCount := pl_allocCount s + 1, pl_data := (pl_data s)(p \<mapsto> v),
              pl_next := (pl_next s)(p := 0)\<rparr>))"

definition sp_Free :: "bool \<Rightarrow> addr \<Rightarrow> 'a pool \<Rightarrow> bool \<times> 'a pool" where
  "sp_Free usePlacement a s =
     (let s1 = (if usePlacement then s\<lparr>pl_data := (pl_data s)(a := None)\<rparr> else s);
          s2 = push_node a s1
      in (True, s2\<lparr>pl_objectCount := pl_objectCount s2 + 1\<rparr>))"

text \<open>The destructor's walk: the nodes it gives back to the runtime, in order.\<close>

partial_function (option) sp_delete :: "(addr \<Rightarrow> addr) \<Rightarrow> addr \<Rightarrow> addr list option" where
  "sp_delete nx node =
     (if node = 0 then Some [] else Option.bind (sp_delete nx (nx node)) (\<lambda>r. Some (node # r)))"

subsection \<open>LockPool\<close>

definition lp_createNode :: "bool \<Rightarrow> 'a \<Rightarrow> addr \<Rightarrow> 'a pool \<Rightarrow> 'a pool" where
  "lp_createNode usePlacement d p s =
     s\<lparr>pl_next := (pl_next s)(p := 0), pl_data := (pl_data s)(p := (if usePlacement then None else Some d))\<rparr>"

definition lp_new :: "bool \<Rightarrow> 'a \<Rightarrow> addr list \<Rightarrow> 'a pool" where
  "lp_new usePlacement d as = set_counts (of_nat (length as))
     (fold (\<lambda>a s. push_node a (lp_createNode usePlacement d a s)) as raw_pool)"

definition lp_Alloc :: "bool \<Rightarrow> 'a \<Rightarrow> addr \<Rightarrow> 'a pool \<Rightarrow> addr \<times> 'a pool" where
  "lp_Alloc usePlacement d p s =
     (let retNode = pl_top s
      in if retNode \<noteq> 0 then
           (retNode, s\<lparr>pl_top := pl_next s retNode, pl_objectCount := pl_objectCount s - 1,
              pl_data := (if usePlacement then (pl_data s)(retNode \<mapsto> d) else pl_data s)\<rparr>)
         else (p, lp_createNode usePlacement d p (s\<lparr>pl_allocCount := pl_allocCount s + 1\<rparr>)))"

definition lp_Free :: "bool \<Rightarrow> addr \<Rightarrow> 'a pool \<Rightarrow> bool \<times> 'a pool" where
  "lp_Free usePlacement a s =
     (let s1 = (if usePlacement then s\<lparr>pl_data := (pl_data s)(a := None)\<rparr> else s);
          s2 = push_node a s1
      in (True, s2\<lparr>pl_objectCount := pl_objectCount s2 + 1\<rparr>))"

subsection \<open>SpinLockPool and CMemoryPool\<close>

text \<open>
  The second loop of both constructors: \<^verbatim>\<open>new(pNode) Node()\<close> constructs the node in place, which sets
  its pointer to null, and the loop then follows that pointer.
\<close>

partial_function (option) construct_all :: "'a \<Rightarrow> addr \<Rightarrow> 'a pool \<Rightarrow> 'a pool option" where
  "construct_all d pNode s =
     (if pNode = 0 then Some s
      else
        (let s1 = s\<lparr>pl_data := (pl_data s)(pNode \<mapsto> d), pl_next := (pl_next s)(pNode := 0)\<rparr>
         in construct_all d (pl_next s1 pNode) s1))"

definition slp_new :: "bool \<Rightarrow> 'a \<Rightarrow> addr list \<Rightarrow> 'a pool option" where
  "slp_new usePlacement d as =
     (let s = fold push_node as raw_pool
      in Option.bind (if usePlacement then Some s else construct_all d (pl_top s) s)
           (\<lambda>s'. Some (set_counts (of_nat (length as)) s')))"

definition slp_createNode :: "bool \<Rightarrow> 'a \<Rightarrow> addr \<Rightarrow> 'a pool \<Rightarrow> 'a pool" where
  "slp_createNode usePlacement d p s =
     s\<lparr>pl_next := (pl_next s)(p := 0), pl_data := (pl_data s)(p := (if usePlacement then None else Some d))\<rparr>"

definition slp_Alloc :: "bool \<Rightarrow> 'a \<Rightarrow> addr \<Rightarrow> 'a pool \<Rightarrow> addr \<times> 'a pool" where
  "slp_Alloc usePlacement d p s =
     (let retNode = pl_top s
      in if retNode \<noteq> 0 then
           (retNode, s\<lparr>pl_top := pl_next s retNode, pl_objectCount := pl_objectCount s - 1,
              pl_data := (if usePlacement then (pl_data s)(retNode \<mapsto> d) else pl_data s)\<rparr>)
         else (p, slp_createNode usePlacement d p (s\<lparr>pl_allocCount := pl_allocCount s + 1\<rparr>)))"

definition slp_Free :: "bool \<Rightarrow> addr \<Rightarrow> 'a pool \<Rightarrow> bool \<times> 'a pool" where
  "slp_Free usePlacement a s =
     (let s1 = (if usePlacement then s\<lparr>pl_data := (pl_data s)(a := None)\<rparr> else s);
          s2 = push_node a s1
      in (True, s2\<lparr>pl_objectCount := pl_objectCount s2 + 1\<rparr>))"

text \<open>
  \<^verbatim>\<open>CMemoryPool\<close> with \<^verbatim>\<open>UsePlacement = false\<close>, the only value for which its \<^verbatim>\<open>Alloc\<close> can be compiled (the
  other one casts a \<^verbatim>\<open>Data*\<close> to an unrelated \<^verbatim>\<open>Node*\<close> with \<^verbatim>\<open>static_cast\<close>).
\<close>

definition cm_new :: "'a \<Rightarrow> addr list \<Rightarrow> 'a pool option" where
  "cm_new d as =
     (let s = fold push_node as raw_pool
      in Option.bind (construct_all d (pl_top s) s) (\<lambda>s'. Some (set_counts (of_nat (length as)) s')))"

definition cm_Alloc :: "'a \<Rightarrow> addr \<Rightarrow> 'a pool \<Rightarrow> addr \<times> 'a pool" where
  "cm_Alloc d p s =
     (let retNode = pl_top s
      in if retNode \<noteq> 0 then
           (retNode, s\<lparr>pl_top := pl_next s retNode, pl_objectCount := pl_objectCount s - 1\<rparr>)
         else (p, s\<lparr>pl_allocCount := pl_allocCount s + 1, pl_data := (pl_data s)(p \<mapsto> d),
              pl_next := (pl_next s)(p := 0)\<rparr>))"

definition cm_Free :: "addr \<Rightarrow> 'a pool \<Rightarrow> bool \<times> 'a pool" where
  "cm_Free a s =
     (let s1 = push_node a s in (True, s1\<lparr>pl_objectCount := pl_objectCount s1 + 1\<rparr>))"

partial_function (option) cm_delete :: "(addr \<Rightarrow> addr) \<Rightarrow> addr \<Rightarrow> addr list option" where
  "cm_delete nx node =
     (if node = 0 then Some [] else Option.bind (cm_delete nx (nx node)) (\<lambda>r. Some (node # r)))"

subsection \<open>SpinLock\<close>

text \<open>\<^verbatim>\<open>Lock\<close> run alone: each round exchanges the flag for 1 until the old value was 0.\<close>

partial_function (option) sl_Lock :: "u64 \<Rightarrow> u64 option" where
  "sl_Lock flag = (if flag \<noteq> 0 then sl_Lock 1 else Some 1)"

definition sl_UnLock :: "u64 \<Rightarrow> u64" where
  "sl_UnLock flag = 0"

subsection \<open>The contract of a pool\<close>

text \<open>
  \<^verbatim>\<open>lock_free_data\<close> of \<^verbatim>\<open>LockFreeData.h\<close>: an address uses the low 47 bits of a pointer. A usable address is
  not null and has no bit above them.
\<close>

definition pointerMask :: u64 where
  "pointerMask = 0x00007FFFFFFFFFFF"

definition ptr_ok :: "addr \<Rightarrow> bool" where
  "ptr_ok a \<longleftrightarrow> a \<noteq> 0 \<and> a AND pointerMask = a"

text \<open>
  A client of a pool: it allocates (\<open>p\<close> is the address the runtime would return if the pool asks it for a new node) and
  gives back. \<open>None\<close> is a client that gives back what it does not own, or a runtime that returns an
  address in use.
\<close>

datatype pool_op = PAlloc addr | PFree addr

fun pool_run :: "(addr \<Rightarrow> 's \<Rightarrow> addr \<times> 's) \<Rightarrow> (addr \<Rightarrow> 's \<Rightarrow> 's) \<Rightarrow> pool_op list \<Rightarrow> 's \<Rightarrow> addr list \<Rightarrow> addr list \<Rightarrow>
    (addr list \<times> 's) option" where
  "pool_run alloc release [] s own known = Some (own, s)"
| "pool_run alloc release (PAlloc p # ops) s own known =
     (if ptr_ok p \<and> p \<notin> set known
      then (let (a, s') = alloc p s in pool_run alloc release ops s' (a # own) (p # known)) else None)"
| "pool_run alloc release (PFree a # ops) s own known =
     (if a \<in> set own then pool_run alloc release ops (release a s) (remove1 a own) known else None)"

locale object_pool =
  fixes alloc :: "addr \<Rightarrow> 's \<Rightarrow> addr \<times> 's"
    and release :: "addr \<Rightarrow> 's \<Rightarrow> 's"
    and free_list :: "'s \<Rightarrow> addr list \<Rightarrow> bool"
  assumes alloc_reuse: "free_list s (a # as) \<Longrightarrow> \<exists>s'. alloc p s = (a, s') \<and> free_list s' as"
    and alloc_fresh: "free_list s [] \<Longrightarrow> ptr_ok p \<Longrightarrow> \<exists>s'. alloc p s = (p, s') \<and> free_list s' []"
    and release_push: "free_list s as \<Longrightarrow> ptr_ok a \<Longrightarrow> a \<notin> set as \<Longrightarrow> free_list (release a s) (a # as)"
begin

text \<open>What is given back last is handed out first, whatever else the pool holds.\<close>

lemma lifo:
  assumes "free_list s as" and "ptr_ok a" and "a \<notin> set as"
  shows "\<exists>s'. alloc p (release a s) = (a, s') \<and> free_list s' as"
  using alloc_reuse [OF release_push [OF assms]] by blast

lemma alloc_step:
  assumes "free_list s as" and "distinct (own @ as)" and "\<forall>a\<in>set (own @ as). ptr_ok a \<and> a \<in> set known"
    and "ptr_ok p" and "p \<notin> set known"
  shows "\<exists>a s' bs. alloc p s = (a, s') \<and> free_list s' bs \<and> a \<notin> set own \<and> distinct ((a # own) @ bs) \<and>
    (\<forall>b\<in>set ((a # own) @ bs). ptr_ok b \<and> b \<in> set (p # known)) \<and> set (own @ as) \<subseteq> set ((a # own) @ bs)"
proof (cases as)
  case Nil
  then show ?thesis using alloc_fresh [of s p] assms by force
next
  case (Cons a bs)
  then obtain s' where "alloc p s = (a, s')" "free_list s' bs" using alloc_reuse [of s a bs p] assms(1) by blast
  then show ?thesis using assms Cons by force
qed

text \<open>
  The objects a disciplined client holds are pairwise different and none of them is on the free list, and
  every object known before is still held or free.
\<close>

lemma run_safe:
  assumes "free_list s as" and "distinct (own @ as)" and "\<forall>a\<in>set (own @ as). ptr_ok a \<and> a \<in> set known"
    and "pool_run alloc release ops s own known = Some (own', s')"
  shows "\<exists>as'. free_list s' as' \<and> distinct (own' @ as') \<and> set (own @ as) \<subseteq> set (own' @ as')"
  using assms
proof (induction ops arbitrary: s own known as)
  case Nil
  then show ?case by auto
next
  case (Cons op ops)
  show ?case
  proof (cases op)
    case (PAlloc p)
    then have p: "ptr_ok p" "p \<notin> set known" using Cons.prems(4) by (auto split: if_splits)
    obtain a s1 bs where a: "alloc p s = (a, s1)" and bs: "free_list s1 bs" "distinct ((a # own) @ bs)"
        "\<forall>b\<in>set ((a # own) @ bs). ptr_ok b \<and> b \<in> set (p # known)" and sub: "set (own @ as) \<subseteq> set ((a # own) @ bs)"
      using alloc_step [OF Cons.prems(1-3) p] by blast
    have "pool_run alloc release ops s1 (a # own) (p # known) = Some (own', s')"
      using Cons.prems(4) PAlloc a p by simp
    from Cons.IH [OF bs this] show ?thesis using sub by blast
  next
    case (PFree a)
    then have a: "a \<in> set own" and run: "pool_run alloc release ops (release a s) (remove1 a own) known = Some (own', s')"
      using Cons.prems(4) by (auto split: if_splits)
    have d: "a \<notin> set as" "ptr_ok a" "distinct own" using a Cons.prems(2,3) by auto
    have fl: "free_list (release a s) (a # as)" using release_push Cons.prems(1) d by blast
    have dist: "distinct (remove1 a own @ a # as)" using d Cons.prems(2) by auto
    have known: "\<forall>b\<in>set (remove1 a own @ a # as). ptr_ok b \<and> b \<in> set known" using a Cons.prems(3) d by auto
    have "set (own @ as) \<subseteq> set (remove1 a own @ a # as)" using d by auto
    then show ?thesis using Cons.IH [OF fl dist known run] by blast
  qed
qed

end

subsection \<open>The pools implement the contract\<close>

definition pool_list :: "'a pool \<Rightarrow> addr list \<Rightarrow> bool" where
  "pool_list s as \<longleftrightarrow> chain (pl_next s) (pl_top s) as \<and> pl_objectCount s = of_nat (length as)"

lemma pool_list_push:
  assumes "pool_list s as" and "a \<noteq> 0" and "a \<notin> set as"
  shows "pool_list ((push_node a s)\<lparr>pl_objectCount := pl_objectCount s + 1\<rparr>) (a # as)"
  using assms by (simp add: pool_list_def push_node_def)

interpretation sp: object_pool "sp_Alloc u v" "\<lambda>a. snd \<circ> sp_Free u a" pool_list
  for u :: bool and v :: 'a
  by unfold_locales (auto simp: sp_Alloc_def sp_Free_def pool_list_def push_node_def ptr_ok_def Let_def)

interpretation lp: object_pool "lp_Alloc u v" "\<lambda>a. snd \<circ> lp_Free u a" pool_list
  for u :: bool and v :: 'a
  by unfold_locales (auto simp: lp_Alloc_def lp_Free_def lp_createNode_def pool_list_def push_node_def ptr_ok_def Let_def)

interpretation slp: object_pool "slp_Alloc u v" "\<lambda>a. snd \<circ> slp_Free u a" pool_list
  for u :: bool and v :: 'a
  by unfold_locales (auto simp: slp_Alloc_def slp_Free_def slp_createNode_def pool_list_def push_node_def ptr_ok_def Let_def)

interpretation cmp: object_pool "cm_Alloc v" "\<lambda>a. snd \<circ> cm_Free a" pool_list
  for v :: 'a
  by unfold_locales (auto simp: cm_Alloc_def cm_Free_def pool_list_def push_node_def ptr_ok_def Let_def)

subsection \<open>Construction and destruction\<close>

lemma fold_push:
  assumes "\<And>a s. pl_top (g a s) = pl_top s" and "\<And>a b s. b \<noteq> a \<Longrightarrow> pl_next (g a s) b = pl_next s b"
    and "chain (pl_next s) (pl_top s) xs" and "distinct as" and "0 \<notin> set as" and "set as \<inter> set xs = {}"
  shows "chain (pl_next (fold (\<lambda>a s. push_node a (g a s)) as s)) (pl_top (fold (\<lambda>a s. push_node a (g a s)) as s)) (rev as @ xs)"
  using assms(3-6)
proof (induction as arbitrary: s xs)
  case (Cons a as)
  have "chain (pl_next (g a s)) (pl_top s) xs = chain (pl_next s) (pl_top s) xs"
    using Cons.prems by (intro chain_cong assms(2)) auto
  then have "chain (pl_next (push_node a (g a s))) (pl_top (push_node a (g a s))) (a # xs)"
    using Cons.prems by (simp add: push_node_def assms(1))
  then show ?case using Cons.IH [of "push_node a (g a s)" "a # xs"] Cons.prems by simp
qed simp

lemmas fold_push_raw = fold_push [where s = raw_pool and xs = "[]"]

lemma chain_set_counts [simp]:
  "pl_next (set_counts n s) = pl_next s" "pl_top (set_counts n s) = pl_top s" "pl_data (set_counts n s) = pl_data s"
  "pl_objectCount (set_counts n s) = n"
  by (simp_all add: set_counts_def)

lemma sp_new_list:
  assumes "distinct as" and "0 \<notin> set as"
  shows "pool_list (sp_new u d as) (rev as)"
  using fold_push_raw [of "\<lambda>a s. if u then s else s\<lparr>pl_data := (pl_data s)(a \<mapsto> d)\<rparr>" as] assms
  by (simp add: pool_list_def sp_new_def raw_pool_def)

lemma lp_new_list:
  assumes "distinct as" and "0 \<notin> set as"
  shows "pool_list (lp_new u d as) (rev as)"
  using fold_push_raw [of "lp_createNode u d" as] assms
  by (simp add: pool_list_def lp_new_def raw_pool_def lp_createNode_def)

lemma fold_push_node_data: "pl_data (fold push_node as s) = pl_data s"
  by (induction as arbitrary: s) (simp_all add: push_node_def)

lemma sp_delete_chain: "chain nx a as \<Longrightarrow> sp_delete nx a = Some as"
  by (induction as arbitrary: a) (auto simp: sp_delete.simps)

lemma cm_delete_chain: "chain nx a as \<Longrightarrow> cm_delete nx a = Some as"
  by (induction as arbitrary: a) (auto simp: cm_delete.simps)

text \<open>The in-place construction cuts the list behind its first node and stops there.\<close>

lemma construct_all_cuts:
  assumes "pl_top s \<noteq> 0"
  shows "construct_all d (pl_top s) s =
    Some (s\<lparr>pl_data := (pl_data s)(pl_top s \<mapsto> d), pl_next := (pl_next s)(pl_top s := 0)\<rparr>)"
  using assms by (simp add: construct_all.simps)

lemma slp_new_cuts:
  assumes "distinct as" and "0 \<notin> set as" and "as \<noteq> []"
  shows "slp_new False d as = cm_new d as"
    and "\<exists>s. cm_new d as = Some s \<and> chain (pl_next s) (pl_top s) [last as] \<and> pl_objectCount s = of_nat (length as) \<and>
      (\<forall>a\<in>set (butlast as). pl_data s a = None)"
proof -
  show "slp_new False d as = cm_new d as" by (simp add: slp_new_def cm_new_def Let_def)
  define s where "s = (fold push_node as raw_pool :: 'a pool)"
  have "chain (pl_next s) (pl_top s) (rev as)"
    using fold_push_raw [of "\<lambda>_ s. s" as] assms by (simp add: s_def raw_pool_def)
  moreover have as: "rev as = last as # rev (butlast as)" using assms(3) by (metis append_butlast_last_id rev_eq_Cons_iff rev_rev_ident)
  ultimately have top: "pl_top s = last as" "pl_top s \<noteq> 0" by simp_all
  have data: "pl_data s = (\<lambda>_. None)" by (simp add: s_def fold_push_node_data raw_pool_def)
  have "last as \<notin> set (butlast as)" using assms(1) as by (metis distinct.simps(2) distinct_rev set_rev)
  then show "\<exists>s. cm_new d as = Some s \<and> chain (pl_next s) (pl_top s) [last as] \<and> pl_objectCount s = of_nat (length as) \<and>
      (\<forall>a\<in>set (butlast as). pl_data s a = None)"
    using construct_all_cuts [OF top(2)] top data
    by (auto simp: cm_new_def s_def [symmetric])
qed

subsection \<open>Properties\<close>

text \<open>
  C32. Whatever a client does with a \<^verbatim>\<open>SingleThreadObjectPool\<close> or a \<^verbatim>\<open>LockPool\<close>, as long as it gives back only
  objects it owns, no two objects it owns are the same and none of them is on the free list; every node
  the pool was built with is still owned or free, the object count is the length of the free list, and
  the destructor's walk ends and returns each free node exactly once.
\<close>

theorem pool_never_aliases:
  assumes "distinct as" and "\<forall>a\<in>set as. ptr_ok a"
    and "pool_run (sp_Alloc u v) (\<lambda>a. snd \<circ> sp_Free u a) ops (sp_new u d as) [] as = Some (own, s)"
    and "pool_run (lp_Alloc u v) (\<lambda>a. snd \<circ> lp_Free u a) ops (lp_new u d as) [] as = Some (own2, s2)"
  shows "(\<exists>fs. distinct (own @ fs) \<and> set as \<subseteq> set (own @ fs) \<and> sp_delete (pl_next s) (pl_top s) = Some fs \<and>
      pl_objectCount s = of_nat (length fs)) \<and>
    (\<exists>fs. distinct (own2 @ fs) \<and> set as \<subseteq> set (own2 @ fs) \<and> chain (pl_next s2) (pl_top s2) fs \<and>
      pl_objectCount s2 = of_nat (length fs))"
proof -
  have z: "0 \<notin> set as" using assms(2) by (auto simp: ptr_ok_def)
  have known: "\<forall>a\<in>set ([] @ rev as). ptr_ok a \<and> a \<in> set as" using assms(2) by simp
  have dist: "distinct ([] @ rev as)" using assms(1) by simp
  note sp.run_safe [OF sp_new_list [OF assms(1) z] dist known assms(3)]
    lp.run_safe [OF lp_new_list [OF assms(1) z] dist known assms(4)]
  then show ?thesis by (auto simp: pool_list_def dest: sp_delete_chain)
qed

theorem pool_never_aliases_witness:
  "\<exists>own s own2 s2. pool_run (sp_Alloc False (7 :: nat)) (\<lambda>a. snd \<circ> sp_Free False a) [PAlloc 48, PAlloc 64, PAlloc 80, PFree 16]
      (sp_new False 0 [16, 32]) [] [16, 32] = Some (own, s) \<and> own = [80, 32] \<and> (\<exists>fs. distinct (own @ fs)) \<and> (\<exists>fs. distinct (own2 @ fs)) \<and>
    pool_run (lp_Alloc False (7 :: nat)) (\<lambda>a. snd \<circ> lp_Free False a) [PAlloc 48, PAlloc 64, PAlloc 80, PFree 16]
      (lp_new False 0 [16, 32]) [] [16, 32] = Some (own2, s2)"
proof -
  let ?ops = "[PAlloc 48, PAlloc 64, PAlloc 80, PFree 16]"
  have ok: "distinct [16, 32 :: addr]" "\<forall>a\<in>set [16, 32]. ptr_ok a" by (simp_all add: ptr_ok_def pointerMask_def)
  obtain s where s: "pool_run (sp_Alloc False (7 :: nat)) (\<lambda>a. snd \<circ> sp_Free False a) ?ops (sp_new False 0 [16, 32]) [] [16, 32] = Some ([80, 32], s)"
    by (simp add: sp_Alloc_def sp_Free_def sp_new_def push_node_def raw_pool_def set_counts_def ptr_ok_def pointerMask_def)
  obtain s2 where s2: "pool_run (lp_Alloc False (7 :: nat)) (\<lambda>a. snd \<circ> lp_Free False a) ?ops (lp_new False 0 [16, 32]) [] [16, 32] = Some ([80, 32], s2)"
    by (simp add: lp_Alloc_def lp_Free_def lp_new_def lp_createNode_def push_node_def raw_pool_def set_counts_def ptr_ok_def pointerMask_def)
  show ?thesis using pool_never_aliases [OF ok s s2] s s2 by auto
qed

text \<open>
  The constructors of \<^verbatim>\<open>SpinLockPool\<close> and \<^verbatim>\<open>CMemoryPool\<close> with default-constructed objects lose all but one of
  the nodes they allocate: constructing the first node of the list in place clears its pointer, the loop
  ends, and the free list is that node alone while the object count reports all of them.
\<close>

theorem construction_loses_nodes:
  assumes "distinct as" and "0 \<notin> set as" and "as \<noteq> []"
  shows "\<exists>s. slp_new False d as = Some s \<and> cm_new d as = Some s \<and> chain (pl_next s) (pl_top s) [last as] \<and>
    pl_objectCount s = of_nat (length as) \<and> (\<forall>a\<in>set (butlast as). pl_data s a = None)"
  using slp_new_cuts [OF assms] by metis

theorem construction_loses_nodes_witness:
  "\<exists>s. slp_new False (0 :: nat) [16, 32, 48] = Some s \<and> chain (pl_next s) (pl_top s) [48] \<and> pl_objectCount s = 3"
  using construction_loses_nodes [of "[16, 32, 48]" "0 :: nat"] by auto

end
