(* ===== verification/Lockfree_Stack.thy ===== *)
theory Lockfree_Stack
  imports Object_Pool
begin

section \<open>Lock-free stack and pool\<close>

text \<open>
  \<^verbatim>\<open>MultiThreadObjectPool.h\<close> and \<^verbatim>\<open>LockFreeStack.h\<close>: a linked stack whose top pointer carries a counter in
  its 17 high bits, changed by compare-and-exchange. The first half models the calls run alone; a call that is
  not disturbed succeeds in the first round of its loop. The second half models the loops of any number of
  threads step by step and shows that they implement a stack, as long as no thread sleeps through
  \<open>2 ^ 17\<close> pushes between reading the top and exchanging it (then the counter would repeat).
  The server keeps its free session indices and the buckets of its buffer pool in such stacks.
\<close>

subsection \<open>Tagged pointers\<close>

definition indexInc :: u64 where
  "indexInc = 0x0000800000000000"

definition indexMask :: u64 where
  "indexMask = 0xFFFF800000000000"

definition ptr_of :: "u64 \<Rightarrow> addr" where
  "ptr_of w = w AND pointerMask"

text \<open>The new top of a push and of a pop.\<close>

definition push_top :: "addr \<Rightarrow> u64 \<Rightarrow> u64" where
  "push_top node tp = node OR ((tp + indexInc) AND indexMask)"

definition pop_top :: "addr \<Rightarrow> u64 \<Rightarrow> u64" where
  "pop_top nxt tp = nxt OR (tp AND indexMask)"

lemma pointerMask_mask: "pointerMask = mask 47"
  by (simp add: pointerMask_def mask_eq_exp_minus_1)

lemma indexMask_mask: "indexMask = NOT (mask 47)"
  by (simp add: indexMask_def mask_eq_exp_minus_1)

definition tagged :: "nat \<Rightarrow> u64 \<Rightarrow> bool" where
  "tagged k w \<longleftrightarrow> w AND indexMask = push_bit 47 (of_nat k)"

lemma untagged_bits: "a AND pointerMask = a \<Longrightarrow> bit (a :: u64) n \<Longrightarrow> n < 47"
  by (metis pointerMask_mask bit_and_iff bit_mask_iff)

lemma split_top: "(w :: u64) = (w AND mask 47) + (w AND NOT (mask 47))"
proof -
  have "(w AND mask 47) + (w AND NOT (mask 47)) = (w AND mask 47) OR (w AND NOT (mask 47))"
    by (rule disjunctive_add) (auto simp: bit_simps)
  also have "\<dots> = w" by (rule bit_word_eqI) (auto simp: bit_simps)
  finally show ?thesis by simp
qed

lemma bump_tag:
  assumes "tagged k w"
  shows "(w + indexInc) AND indexMask = push_bit 47 (of_nat (Suc k))"
proof -
  define p where "p = w AND mask 47"
  define t :: u64 where "t = push_bit 47 (of_nat (Suc k))"
  have "indexInc = push_bit 47 1" by (simp add: indexInc_def)
  then have "w + indexInc = p + t"
    using split_top [of w] assms
    by (simp add: p_def t_def tagged_def indexMask_mask push_bit_add add.assoc add.commute)
  moreover have low: "bit p n \<Longrightarrow> n < 47" "bit t n \<Longrightarrow> 47 \<le> n" for n
    by (auto simp: p_def t_def bit_simps)
  then have "p + t = p OR t" by (intro disjunctive_add) (metis leD)
  moreover have "(p OR t) AND NOT (mask 47) = t"
    using low by (intro bit_word_eqI) (auto simp: bit_simps leD dest: bit_imp_le_length)
  ultimately show ?thesis by (simp add: t_def indexMask_mask)
qed

lemma push_top_parts:
  assumes "a AND pointerMask = a" and "tagged k w"
  shows "ptr_of (push_top a w) = a" and "tagged (Suc k) (push_top a w)"
proof -
  have b: "bit a n \<Longrightarrow> n < 47" for n by (rule untagged_bits [OF assms(1)])
  show "ptr_of (push_top a w) = a"
    using b by (intro bit_word_eqI) (auto simp: ptr_of_def push_top_def pointerMask_mask indexMask_mask bit_simps)
  have "(a OR v AND NOT (mask 47)) AND NOT (mask 47) = v AND NOT (mask 47)" for v :: u64
    using b by (intro bit_word_eqI) (auto simp: bit_simps)
  from this [of "w + indexInc"] show "tagged (Suc k) (push_top a w)"
    using bump_tag [OF assms(2)] unfolding tagged_def push_top_def indexMask_mask by simp
qed

lemma pop_top_parts:
  assumes "a AND pointerMask = a" and "tagged k w"
  shows "ptr_of (pop_top a w) = a" and "tagged k (pop_top a w)"
proof -
  have b: "bit a n \<Longrightarrow> n < 47" for n by (rule untagged_bits [OF assms(1)])
  show "ptr_of (pop_top a w) = a"
    using b by (intro bit_word_eqI) (auto simp: ptr_of_def pop_top_def pointerMask_mask indexMask_mask bit_simps)
  have "(a OR w AND NOT (mask 47)) AND NOT (mask 47) = w AND NOT (mask 47)"
    using b by (intro bit_word_eqI) (auto simp: bit_simps)
  then show "tagged k (pop_top a w)"
    using assms(2) by (simp add: tagged_def pop_top_def indexMask_mask)
qed

lemma tagged_inject:
  assumes "tagged j w" and "tagged k w" and "j \<le> k" and "k < j + 2 ^ 17"
  shows "j = k"
proof -
  have "(push_bit 47 (of_nat j) :: u64) = push_bit 47 (of_nat k)" using assms(1,2) by (simp add: tagged_def)
  then have "(of_nat (2 ^ 47 * (k - j)) :: u64) = 0"
    using assms(3) by (simp add: push_bit_eq_mult of_nat_diff algebra_simps)
  then have "2 ^ LENGTH(64) dvd 2 ^ 47 * (k - j)" by (simp only: word_of_nat_eq_0_iff)
  then have "(2 ^ 47 * 2 ^ 17 :: nat) dvd 2 ^ 47 * (k - j)" by simp
  then have "(2 ^ 17 :: nat) dvd k - j" by (subst (asm) nat_mult_dvd_cancel_disj) simp
  then show ?thesis using assms(3,4) by (auto dest: dvd_imp_le)
qed

subsection \<open>MultiThreadObjectPool\<close>

text \<open>
  \<open>mp_data\<close> is the storage of a node read as a \<^verbatim>\<open>T\<close>; \<open>z\<close> is the value whose bytes are all zero, which is what
  \<^verbatim>\<open>new Node()\<close> leaves in the storage. \<open>v\<close> stands for \<^verbatim>\<open>T(args...)\<close>.
\<close>

record 'a mpool =
  mp_next :: "addr \<Rightarrow> addr"
  mp_data :: "addr \<Rightarrow> 'a"
  mp_top :: u64
  mp_count :: i32

definition mp_createNode :: "'a \<Rightarrow> addr \<Rightarrow> 'a mpool \<Rightarrow> 'a mpool" where
  "mp_createNode z p s = s\<lparr>mp_next := (mp_next s)(p := 0), mp_data := (mp_data s)(p := z)\<rparr>"

definition mp_new :: "'a \<Rightarrow> addr list \<Rightarrow> 'a mpool" where
  "mp_new z as =
     fold (\<lambda>a s. let s1 = mp_createNode z a s in s1\<lparr>mp_next := (mp_next s1)(a := mp_top s1), mp_top := a\<rparr>) as
       \<lparr>mp_next = (\<lambda>_. 0), mp_data = (\<lambda>_. z), mp_top = 0, mp_count = of_nat (length as)\<rparr>"

definition mp_Alloc :: "bool \<Rightarrow> 'a \<Rightarrow> 'a \<Rightarrow> addr \<Rightarrow> 'a mpool \<Rightarrow> addr \<times> 'a mpool" where
  "mp_Alloc usePlacement z v p s =
     (let topNode = ptr_of (mp_top s)
      in if topNode = 0 then (p, mp_createNode z p s)
         else (topNode, s\<lparr>mp_top := pop_top (mp_next s topNode) (mp_top s),
                mp_data := (if usePlacement then (mp_data s)(topNode := v) else mp_data s),
                mp_count := mp_count s - 1\<rparr>))"

definition mp_Free :: "addr \<Rightarrow> 'a mpool \<Rightarrow> 'a mpool" where
  "mp_Free node s =
     s\<lparr>mp_next := (mp_next s)(node := ptr_of (mp_top s)), mp_top := push_top node (mp_top s), mp_count := mp_count s + 1\<rparr>"

definition mp_delete :: "'a mpool \<Rightarrow> addr list option" where
  "mp_delete s = sp_delete (mp_next s) (ptr_of (mp_top s))"

definition mp_list :: "'a mpool \<Rightarrow> addr list \<Rightarrow> bool" where
  "mp_list s as \<longleftrightarrow> chain (mp_next s) (ptr_of (mp_top s)) as \<and> (\<forall>a\<in>set as. ptr_ok a) \<and>
     mp_count s = of_nat (length as) \<and> (\<exists>k. tagged k (mp_top s))"

lemma chain_head_untagged:
  assumes "chain nx a as" and "\<forall>b\<in>set as. ptr_ok b"
  shows "a AND pointerMask = a"
  using assms by (cases as) (auto simp: ptr_ok_def)

lemma ptr_of_zero [simp]: "ptr_of 0 = 0"
  by (simp add: ptr_of_def)

lemma tagged_zero: "tagged 0 a" if "a AND pointerMask = a"
proof -
  have "a AND NOT (mask 47) = 0"
    using untagged_bits [OF that] by (intro bit_word_eqI) (auto simp: bit_simps)
  then show ?thesis by (simp add: tagged_def indexMask_mask)
qed

interpretation mp: object_pool "mp_Alloc u z v" mp_Free mp_list
  for u :: bool and z v :: 'a
proof unfold_locales
  show "\<exists>s'. mp_Alloc u z v p s = (a, s') \<and> mp_list s' as" if m: "mp_list s (a # as)" for s a as p
  proof -
    obtain k where k: "tagged k (mp_top s)" using m unfolding mp_list_def by blast
    have a: "ptr_of (mp_top s) = a" "a \<noteq> 0" "chain (mp_next s) (mp_next s a) as" "\<forall>b\<in>set as. ptr_ok b"
      using m by (simp_all add: mp_list_def)
    then show ?thesis
      using m pop_top_parts [OF chain_head_untagged k, OF a(3,4)] by (auto simp: mp_Alloc_def mp_list_def)
  qed
  show "\<exists>s'. mp_Alloc u z v p s = (p, s') \<and> mp_list s' []" if "mp_list s []" for s p
    using that by (simp add: mp_Alloc_def mp_list_def mp_createNode_def)
  show "mp_list (mp_Free a s) (a # as)" if m: "mp_list s as" "ptr_ok a" "a \<notin> set as" for s as a
  proof -
    obtain k where k: "tagged k (mp_top s)" using m(1) unfolding mp_list_def by blast
    then show ?thesis
      using m push_top_parts [OF _ k, of a] by (auto simp: mp_Free_def mp_list_def ptr_ok_def)
  qed
qed

lemma mp_new_list:
  assumes "distinct as" and "\<forall>a\<in>set as. ptr_ok a"
  shows "mp_list (mp_new z as) (rev as)"
proof -
  define g where "g = (\<lambda>a (s :: 'a mpool). let s1 = mp_createNode z a s in s1\<lparr>mp_next := (mp_next s1)(a := mp_top s1), mp_top := a\<rparr>)"
  have "chain (mp_next (fold g as s)) (mp_top (fold g as s)) (rev as @ xs) \<and> mp_count (fold g as s) = mp_count s"
    if "chain (mp_next s) (mp_top s) xs" "set as \<inter> set xs = {}" for s xs
    using that assms
  proof (induction as arbitrary: s xs)
    case (Cons a as)
    have "chain (mp_next (g a s)) (mp_top (g a s)) (a # xs)"
      using Cons.prems by (simp add: g_def mp_createNode_def Let_def ptr_ok_def)
    moreover have "mp_count (g a s) = mp_count s" by (simp add: g_def mp_createNode_def Let_def)
    ultimately show ?case using Cons.IH [of "g a s" "a # xs"] Cons.prems by simp
  qed simp
  from this [of "\<lparr>mp_next = (\<lambda>_. 0), mp_data = (\<lambda>_. z), mp_top = 0, mp_count = of_nat (length as)\<rparr>" "[]"]
  have ch: "chain (mp_next (mp_new z as)) (mp_top (mp_new z as)) (rev as)" and n: "mp_count (mp_new z as) = of_nat (length as)"
    by (simp_all add: mp_new_def g_def [symmetric])
  have top: "mp_top (mp_new z as) AND pointerMask = mp_top (mp_new z as)"
    using chain_head_untagged [OF ch] assms(2) by simp
  then show ?thesis using ch n assms(2) tagged_zero [OF top] by (auto simp: mp_list_def ptr_of_def)
qed

subsection \<open>LockFreeStack\<close>

text \<open>The nodes of a stack are the objects of its pool; \<open>p\<close> is the address \<^verbatim>\<open>new\<close> returns when the pool is empty.\<close>

record 'a snode =
  sn_data :: 'a
  sn_next :: addr

record 'a lfstack =
  ls_pool :: "'a snode mpool"
  ls_top :: u64
  ls_objectsInPool :: i32

definition zero_snode :: "'a \<Rightarrow> 'a snode" where
  "zero_snode z = \<lparr>sn_data = z, sn_next = 0\<rparr>"

definition ls_new :: "'a \<Rightarrow> addr list \<Rightarrow> 'a lfstack" where
  "ls_new z as = \<lparr>ls_pool = mp_new (zero_snode z) as, ls_top = 0, ls_objectsInPool = 0\<rparr>"

definition ls_size :: "'a lfstack \<Rightarrow> i32" where
  "ls_size s = ls_objectsInPool s"

definition ls_Push :: "'a \<Rightarrow> 'a \<Rightarrow> addr \<Rightarrow> 'a lfstack \<Rightarrow> 'a lfstack" where
  "ls_Push z v p s =
     (let (node, pool) = mp_Alloc False (zero_snode z) (zero_snode z) p (ls_pool s);
          tp = ls_top s
      in s\<lparr>ls_pool := pool\<lparr>mp_data := (mp_data pool)(node := \<lparr>sn_data = v, sn_next = ptr_of tp\<rparr>)\<rparr>,
           ls_top := push_top node tp, ls_objectsInPool := ls_objectsInPool s + 1\<rparr>)"

definition ls_Pop :: "'a lfstack \<Rightarrow> 'a option \<times> 'a lfstack" where
  "ls_Pop s =
     (let tp = ls_top s; topNode = ptr_of tp
      in if topNode = 0 then (None, s)
         else (let node = mp_data (ls_pool s) topNode
               in (Some (sn_data node),
                   s\<lparr>ls_top := pop_top (sn_next node) tp, ls_objectsInPool := ls_objectsInPool s - 1,
                     ls_pool := mp_Free topNode (ls_pool s)\<rparr>)))"

subsection \<open>LockStack\<close>

text \<open>\<^verbatim>\<open>Pop\<close> does not test the top: on an empty stack it reads through a null pointer.\<close>

record 'a lkstack =
  lk_nodes :: "addr \<Rightarrow> 'a snode"
  lk_top :: addr

definition lk_Push :: "'a \<Rightarrow> addr \<Rightarrow> 'a lkstack \<Rightarrow> 'a lkstack" where
  "lk_Push v p s = s\<lparr>lk_nodes := (lk_nodes s)(p := \<lparr>sn_data = v, sn_next = lk_top s\<rparr>), lk_top := p\<rparr>"

definition lk_Pop :: "'a lkstack \<Rightarrow> ('a \<times> 'a lkstack) res" where
  "lk_Pop s =
     (let t = lk_top s
      in if t = 0 then Inl NullDeref
         else Inr (sn_data (lk_nodes s t), s\<lparr>lk_top := sn_next (lk_nodes s t)\<rparr>))"

subsection \<open>The contract of a stack\<close>

text \<open>A run of pushes and pops on a list, and the same run on a stack; the results of the pops are collected.\<close>

datatype 'a stack_op = SPush 'a addr | SPop

fun list_run :: "'a stack_op list \<Rightarrow> 'a list \<Rightarrow> 'a option list \<times> 'a list" where
  "list_run [] xs = ([], xs)"
| "list_run (SPush x p # ops) xs = list_run ops (x # xs)"
| "list_run (SPop # ops) [] = (let (rs, ys) = list_run ops [] in (None # rs, ys))"
| "list_run (SPop # ops) (x # xs) = (let (rs, ys) = list_run ops xs in (Some x # rs, ys))"

fun stack_run :: "('a \<Rightarrow> addr \<Rightarrow> 's \<Rightarrow> 's) \<Rightarrow> ('s \<Rightarrow> 'a option \<times> 's) \<Rightarrow> 'a stack_op list \<Rightarrow> 's \<Rightarrow> 'a option list \<times> 's" where
  "stack_run push pop [] s = ([], s)"
| "stack_run push pop (SPush x p # ops) s = stack_run push pop ops (push x p s)"
| "stack_run push pop (SPop # ops) s =
     (let (r, s1) = pop s; (rs, s2) = stack_run push pop ops s1 in (r # rs, s2))"

fun fresh_addrs :: "'a stack_op list \<Rightarrow> addr list" where
  "fresh_addrs [] = []"
| "fresh_addrs (SPush x p # ops) = p # fresh_addrs ops"
| "fresh_addrs (SPop # ops) = fresh_addrs ops"

locale lifo_stack =
  fixes push :: "'a \<Rightarrow> addr \<Rightarrow> 's \<Rightarrow> 's"
    and pop :: "'s \<Rightarrow> 'a option \<times> 's"
    and vals :: "'s \<Rightarrow> addr set \<Rightarrow> 'a list \<Rightarrow> bool"
  assumes push_cons: "vals s K xs \<Longrightarrow> ptr_ok p \<Longrightarrow> p \<notin> K \<Longrightarrow> vals (push x p s) (insert p K) (x # xs)"
    and pop_some: "vals s K (x # xs) \<Longrightarrow> \<exists>s'. pop s = (Some x, s') \<and> vals s' K xs"
    and pop_none: "vals s K [] \<Longrightarrow> pop s = (None, s)"
begin

lemma run_refines:
  assumes "vals s K xs" and "distinct (fresh_addrs ops)" and "set (fresh_addrs ops) \<inter> K = {}"
    and "\<forall>p\<in>set (fresh_addrs ops). ptr_ok p"
  shows "\<exists>s' L. stack_run push pop ops s = (fst (list_run ops xs), s') \<and> vals s' L (snd (list_run ops xs))"
  using assms
proof (induction ops xs arbitrary: s K rule: list_run.induct)
  case (1 xs)
  then show ?case by auto
next
  case (2 x p ops xs)
  then have "vals (push x p s) (insert p K) (x # xs)" by (intro push_cons) auto
  then show ?case using 2 by simp
next
  case (3 ops)
  then show ?case using pop_none [of s K] by (fastforce split: prod.splits)
next
  case (4 ops x xs)
  then obtain s1 where "pop s = (Some x, s1)" "vals s1 K xs" using pop_some by blast
  then show ?case using 4 by (fastforce split: prod.splits)
qed

end

subsection \<open>LockFreeStack implements it\<close>

definition ls_inv :: "'a lfstack \<Rightarrow> addr list \<Rightarrow> addr list \<Rightarrow> bool" where
  "ls_inv s ns fs \<longleftrightarrow> chain (\<lambda>a. sn_next (mp_data (ls_pool s) a)) (ptr_of (ls_top s)) ns \<and> mp_list (ls_pool s) fs \<and>
     distinct (ns @ fs) \<and> (\<forall>a\<in>set ns. ptr_ok a) \<and> (\<exists>k. tagged k (ls_top s)) \<and> ls_objectsInPool s = of_nat (length ns)"

definition ls_vals :: "'a lfstack \<Rightarrow> addr set \<Rightarrow> 'a list \<Rightarrow> bool" where
  "ls_vals s K xs \<longleftrightarrow> (\<exists>ns fs. ls_inv s ns fs \<and> set (ns @ fs) \<subseteq> K \<and> xs = map (\<lambda>a. sn_data (mp_data (ls_pool s) a)) ns)"

lemma mp_Alloc_data: "mp_Alloc False z v p s = (a, s') \<Longrightarrow> b \<noteq> a \<Longrightarrow> mp_data s' b = mp_data s b"
  by (auto simp: mp_Alloc_def mp_createNode_def Let_def split: if_splits)

lemma mp_list_data: "mp_list (s\<lparr>mp_data := d\<rparr>) as = mp_list s as"
  by (simp add: mp_list_def)

lemma ls_Push_inv:
  assumes inv: "ls_inv s ns fs" and p: "ptr_ok p" "p \<notin> set (ns @ fs)"
  shows "\<exists>a gs. ls_inv (ls_Push z v p s) (a # ns) gs \<and> set (a # ns @ gs) \<subseteq> insert p (set (ns @ fs)) \<and>
    (\<forall>b. mp_data (ls_pool (ls_Push z v p s)) b =
       (if b = a then \<lparr>sn_data = v, sn_next = ptr_of (ls_top s)\<rparr> else mp_data (ls_pool s) b))"
proof -
  note inv' = inv [unfolded ls_inv_def]
  have pl: "mp_list (ls_pool s) fs" and d: "distinct (ns @ fs)" using inv' by blast+
  have ok: "\<forall>a\<in>set (ns @ fs). ptr_ok a \<and> a \<in> set (ns @ fs)" using inv' by (auto simp: mp_list_def)
  let ?z = "zero_snode z"
  obtain a pool gs where a: "mp_Alloc False ?z ?z p (ls_pool s) = (a, pool)" "mp_list pool gs" "a \<notin> set ns"
      "distinct ((a # ns) @ gs)" "\<forall>b\<in>set ((a # ns) @ gs). ptr_ok b \<and> b \<in> set (p # ns @ fs)"
    using mp.alloc_step [OF pl d ok p] by metis
  define d' where "d' = (mp_data pool)(a := \<lparr>sn_data = v, sn_next = ptr_of (ls_top s)\<rparr>)"
  have sel: "ls_pool (ls_Push z v p s) = pool\<lparr>mp_data := d'\<rparr>" "ls_top (ls_Push z v p s) = push_top a (ls_top s)"
      "ls_objectsInPool (ls_Push z v p s) = ls_objectsInPool s + 1"
    by (simp_all add: ls_Push_def a(1) d'_def Let_def)
  have data: "d' b = (if b = a then \<lparr>sn_data = v, sn_next = ptr_of (ls_top s)\<rparr> else mp_data (ls_pool s) b)" for b
    using mp_Alloc_data [OF a(1)] by (simp add: d'_def)
  obtain k where k: "tagged k (ls_top s)" using inv' by blast
  have ak: "a AND pointerMask = a" "a \<noteq> 0" using a(5) by (simp_all add: ptr_ok_def)
  have "chain (\<lambda>b. sn_next (d' b)) (ptr_of (ls_top s)) ns = chain (\<lambda>b. sn_next (mp_data (ls_pool s) b)) (ptr_of (ls_top s)) ns"
    using a(3) by (intro chain_cong) (auto simp: data)
  then have "chain (\<lambda>b. sn_next (d' b)) a (a # ns)" using inv' ak by (simp add: data)
  then have "ls_inv (ls_Push z v p s) (a # ns) gs"
    using a push_top_parts [OF ak(1) k] inv' unfolding ls_inv_def by (auto simp: sel mp_list_data)
  then show ?thesis using a(5) data by (intro exI [of _ a] exI [of _ gs]) (auto simp: sel)
qed

lemma ls_Pop_inv:
  assumes inv: "ls_inv s (a # ns) fs"
  shows "\<exists>s'. ls_Pop s = (Some (sn_data (mp_data (ls_pool s) a)), s') \<and> ls_inv s' ns (a # fs) \<and>
    mp_data (ls_pool s') = mp_data (ls_pool s)"
proof -
  note inv' = inv [unfolded ls_inv_def]
  have a: "ptr_of (ls_top s) = a" "a \<noteq> 0" "ptr_ok a" using inv' by auto
  have ch: "chain (\<lambda>b. sn_next (mp_data (ls_pool s) b)) (sn_next (mp_data (ls_pool s) a)) ns" "\<forall>b\<in>set ns. ptr_ok b"
    using inv' by auto
  obtain k where k: "tagged k (ls_top s)" using inv' by blast
  have fs: "mp_list (mp_Free a (ls_pool s)) (a # fs)" using mp.release_push inv' a(3) by auto
  define s' where "s' = s\<lparr>ls_top := pop_top (sn_next (mp_data (ls_pool s) a)) (ls_top s),
    ls_objectsInPool := ls_objectsInPool s - 1, ls_pool := mp_Free a (ls_pool s)\<rparr>"
  have data: "mp_data (mp_Free a (ls_pool s)) = mp_data (ls_pool s)" by (simp add: mp_Free_def)
  have "ls_Pop s = (Some (sn_data (mp_data (ls_pool s) a)), s')" by (simp add: ls_Pop_def a s'_def Let_def)
  moreover have "ls_inv s' ns (a # fs)"
    using pop_top_parts [OF chain_head_untagged [OF ch] k] ch fs inv' data by (auto simp: ls_inv_def s'_def)
  ultimately show ?thesis using data by (simp add: s'_def)
qed

interpretation lfs: lifo_stack "ls_Push z" ls_Pop ls_vals
  for z :: 'a
proof unfold_locales
  show "ls_vals (ls_Push z x p s) (insert p K) (x # xs)" if "ls_vals s K xs" "ptr_ok p" "p \<notin> K" for s K xs p x
  proof -
    obtain ns fs where i: "ls_inv s ns fs" "set (ns @ fs) \<subseteq> K" and xs: "xs = map (\<lambda>a. sn_data (mp_data (ls_pool s) a)) ns"
      using \<open>ls_vals s K xs\<close> unfolding ls_vals_def by blast
    then have "p \<notin> set (ns @ fs)" using \<open>p \<notin> K\<close> by blast
    then obtain a gs where a: "ls_inv (ls_Push z x p s) (a # ns) gs" "set (a # ns @ gs) \<subseteq> insert p (set (ns @ fs))"
        "\<forall>b. mp_data (ls_pool (ls_Push z x p s)) b =
          (if b = a then \<lparr>sn_data = x, sn_next = ptr_of (ls_top s)\<rparr> else mp_data (ls_pool s) b)"
      using ls_Push_inv [OF i(1) \<open>ptr_ok p\<close>] by blast
    then have "a \<notin> set ns" by (simp add: ls_inv_def)
    then have "x # xs = map (\<lambda>b. sn_data (mp_data (ls_pool (ls_Push z x p s)) b)) (a # ns)" using a(3) by (auto simp: xs)
    then show ?thesis using a(1,2) i(2) unfolding ls_vals_def by (intro exI [of _ "a # ns"] exI [of _ gs]) auto
  qed
  show "\<exists>s'. ls_Pop s = (Some x, s') \<and> ls_vals s' K xs" if m: "ls_vals s K (x # xs)" for s K x xs
  proof -
    obtain ns fs where i: "ls_inv s ns fs" "set (ns @ fs) \<subseteq> K" and xs: "x # xs = map (\<lambda>a. sn_data (mp_data (ls_pool s) a)) ns"
      using m unfolding ls_vals_def by (elim exE conjE)
    then obtain a as where ns: "ns = a # as" by (cases ns) auto
    then obtain s' where "ls_Pop s = (Some (sn_data (mp_data (ls_pool s) a)), s')" "ls_inv s' as (a # fs)"
        "mp_data (ls_pool s') = mp_data (ls_pool s)"
      using ls_Pop_inv i(1) by blast
    moreover from this have "ls_vals s' K xs"
      unfolding ls_vals_def using xs i(2) ns by (intro exI [of _ as] exI [of _ "a # fs"]) auto
    ultimately show ?thesis using xs ns by auto
  qed
  show "ls_Pop s = (None, s)" if "ls_vals s K []" for s :: "'a lfstack" and K
    using that by (auto simp: ls_vals_def ls_inv_def ls_Pop_def Let_def)
qed

lemma ls_new_vals:
  assumes "distinct as" and "\<forall>a\<in>set as. ptr_ok a"
  shows "ls_vals (ls_new z as) (set as) []"
proof -
  have "ls_inv (ls_new z as) [] (rev as)"
    using mp_new_list [OF assms, of "zero_snode z"] assms(1) tagged_zero [of 0] by (auto simp: ls_inv_def ls_new_def)
  then show ?thesis by (force simp: ls_vals_def)
qed

lemma ls_vals_size: "ls_vals s K xs \<Longrightarrow> ls_size s = of_nat (length xs)"
  by (auto simp: ls_vals_def ls_inv_def ls_size_def)

subsection \<open>Threads\<close>

text \<open>
  The loops of \<^verbatim>\<open>Push\<close>/\<^verbatim>\<open>Free\<close> and \<^verbatim>\<open>Pop\<close>/\<^verbatim>\<open>Alloc\<close> run by any number of threads, one shared access per step. A thread in a
  pop remembers the number of pushes at the time it read the top; it is a ghost of the model and only
  restricts \<open>pop_cas\<close> to threads that were not overtaken by \<open>2 ^ 17\<close> pushes. \<open>ts_out\<close> are the nodes outside the stack that
  nobody is pushing. A label says what the step means to the caller.
\<close>

datatype tpc =
    TIdle
  | PushRead addr
  | PushLink addr u64
  | PushCAS addr u64
  | PopRead
  | PopLoad u64 nat
  | PopCAS u64 addr nat

datatype label = Tau | Pushed addr | Popped addr | Empty

record tstack =
  ts_next :: "addr \<Rightarrow> addr"
  ts_top :: u64
  ts_pc :: "nat \<Rightarrow> tpc"
  ts_out :: "addr set"
  ts_pushes :: nat

abbreviation tgoto :: "nat \<Rightarrow> tpc \<Rightarrow> tstack \<Rightarrow> tstack" where
  "tgoto t p s \<equiv> s\<lparr>ts_pc := (ts_pc s)(t := p)\<rparr>"

inductive ts_step :: "tstack \<Rightarrow> label \<Rightarrow> tstack \<Rightarrow> bool" where
  push_start: "ts_pc s t = TIdle \<Longrightarrow> n \<in> ts_out s \<Longrightarrow>
    ts_step s Tau ((tgoto t (PushRead n) s)\<lparr>ts_out := ts_out s - {n}\<rparr>)"
| push_read: "ts_pc s t = PushRead n \<Longrightarrow> ts_step s Tau (tgoto t (PushLink n (ts_top s)) s)"
| push_link: "ts_pc s t = PushLink n w \<Longrightarrow>
    ts_step s Tau ((tgoto t (PushCAS n w) s)\<lparr>ts_next := (ts_next s)(n := ptr_of w)\<rparr>)"
| push_cas: "ts_pc s t = PushCAS n w \<Longrightarrow> ts_top s = w \<Longrightarrow>
    ts_step s (Pushed n) ((tgoto t TIdle s)\<lparr>ts_top := push_top n w, ts_pushes := Suc (ts_pushes s)\<rparr>)"
| push_retry: "ts_pc s t = PushCAS n w \<Longrightarrow> ts_top s \<noteq> w \<Longrightarrow> ts_step s Tau (tgoto t (PushRead n) s)"
| pop_start: "ts_pc s t = TIdle \<Longrightarrow> ts_step s Tau (tgoto t PopRead s)"
| pop_empty: "ts_pc s t = PopRead \<Longrightarrow> ptr_of (ts_top s) = 0 \<Longrightarrow> ts_step s Empty (tgoto t TIdle s)"
| pop_read: "ts_pc s t = PopRead \<Longrightarrow> ptr_of (ts_top s) \<noteq> 0 \<Longrightarrow>
    ts_step s Tau (tgoto t (PopLoad (ts_top s) (ts_pushes s)) s)"
| pop_load: "ts_pc s t = PopLoad w k \<Longrightarrow> ts_step s Tau (tgoto t (PopCAS w (ts_next s (ptr_of w)) k) s)"
| pop_cas: "ts_pc s t = PopCAS w nxt k \<Longrightarrow> ts_top s = w \<Longrightarrow> ts_pushes s < k + 2 ^ 17 \<Longrightarrow>
    ts_step s (Popped (ptr_of w)) ((tgoto t TIdle s)\<lparr>ts_top := pop_top nxt w, ts_out := insert (ptr_of w) (ts_out s)\<rparr>)"
| pop_retry: "ts_pc s t = PopCAS w nxt k \<Longrightarrow> ts_top s \<noteq> w \<Longrightarrow> ts_step s Tau (tgoto t PopRead s)"

inductive ts_run :: "tstack \<Rightarrow> label list \<Rightarrow> tstack \<Rightarrow> bool" where
  ts_run_nil: "ts_run s [] s"
| ts_run_snoc: "ts_run s ls s' \<Longrightarrow> ts_step s' l s'' \<Longrightarrow> ts_run s (ls @ [l]) s''"

text \<open>An empty stack, idle threads and a set of nodes they may push.\<close>

definition ts_init :: "addr set \<Rightarrow> tstack" where
  "ts_init N = \<lparr>ts_next = (\<lambda>_. 0), ts_top = 0, ts_pc = (\<lambda>_. TIdle), ts_out = N, ts_pushes = 0\<rparr>"

text \<open>The abstract stack of nodes.\<close>

inductive spec_step :: "addr list \<Rightarrow> label \<Rightarrow> addr list \<Rightarrow> bool" where
  "spec_step as Tau as"
| "n \<notin> set as \<Longrightarrow> spec_step as (Pushed n) (n # as)"
| "spec_step (a # as) (Popped a) as"
| "spec_step [] Empty []"

inductive spec_run :: "addr list \<Rightarrow> label list \<Rightarrow> addr list \<Rightarrow> bool" where
  spec_nil: "spec_run as [] as"
| spec_snoc: "spec_run as ls bs \<Longrightarrow> spec_step bs l cs \<Longrightarrow> spec_run as (ls @ [l]) cs"

inductive_simps spec_step_simps: "spec_step as l bs"

text \<open>The invariant, relative to the nodes \<open>as\<close> on the stack.\<close>

fun pushing :: "tpc \<Rightarrow> addr option" where
  "pushing (PushRead n) = Some n"
| "pushing (PushLink n w) = Some n"
| "pushing (PushCAS n w) = Some n"
| "pushing _ = None"

fun tpc_ok :: "tstack \<Rightarrow> addr list \<Rightarrow> tpc \<Rightarrow> bool" where
  "tpc_ok s as (PushCAS n w) \<longleftrightarrow> ts_next s n = ptr_of w"
| "tpc_ok s as (PopLoad w k) \<longleftrightarrow> k \<le> ts_pushes s \<and> tagged k w \<and> ptr_of w \<noteq> 0"
| "tpc_ok s as (PopCAS w nxt k) \<longleftrightarrow> k \<le> ts_pushes s \<and> tagged k w \<and> ptr_of w \<noteq> 0 \<and>
     (ts_pushes s = k \<and> ptr_of w \<in> set as \<longrightarrow> nxt = ts_next s (ptr_of w))"
| "tpc_ok s as _ \<longleftrightarrow> True"

definition push_ok :: "(nat \<Rightarrow> tpc) \<Rightarrow> addr set \<Rightarrow> bool" where
  "push_ok pcs busy \<longleftrightarrow> (\<forall>t n. pushing (pcs t) = Some n \<longrightarrow> ptr_ok n \<and> n \<notin> busy) \<and>
     (\<forall>t u n. pushing (pcs t) = Some n \<and> pushing (pcs u) = Some n \<longrightarrow> t = u)"

definition ts_inv :: "tstack \<Rightarrow> addr list \<Rightarrow> bool" where
  "ts_inv s as \<longleftrightarrow> chain (ts_next s) (ptr_of (ts_top s)) as \<and> tagged (ts_pushes s) (ts_top s) \<and>
     (\<forall>a\<in>set as. ptr_ok a) \<and> (\<forall>a\<in>ts_out s. ptr_ok a \<and> a \<notin> set as) \<and> (\<forall>t. tpc_ok s as (ts_pc s t)) \<and>
     push_ok (ts_pc s) (set as \<union> ts_out s)"

lemma push_okD:
  assumes "push_ok pcs busy" and "pushing (pcs t) = Some n"
  shows "ptr_ok n" and "n \<notin> busy" and "u \<noteq> t \<Longrightarrow> pushing (pcs u) \<noteq> Some n"
  using assms unfolding push_ok_def by metis+

lemma push_ok_move:
  assumes "push_ok pcs busy" and "pushing p = pushing (pcs t) \<or> pushing p = None"
  shows "push_ok (pcs(t := p)) busy"
proof -
  have "pushing ((pcs(t := p)) u) = Some m \<Longrightarrow> pushing (pcs u) = Some m" for u m
    using assms(2) by (cases "u = t") auto
  then show ?thesis using assms(1) unfolding push_ok_def by blast
qed

lemma push_ok_leave:
  assumes "push_ok pcs busy" and "pushing (pcs t) = Some n" and "pushing p = None" and "busy' \<subseteq> insert n busy"
  shows "push_ok (pcs(t := p)) busy'"
proof -
  have sub: "pushing ((pcs(t := p)) u) = Some m \<Longrightarrow> pushing (pcs u) = Some m \<and> u \<noteq> t" for u m
    using assms(3) by (cases "u = t") simp_all
  moreover have "m \<noteq> n" if "pushing (pcs u) = Some m" "u \<noteq> t" for u m
    using push_okD(3) [OF assms(1,2) that(2)] that(1) by auto
  ultimately show ?thesis using assms(1,4) unfolding push_ok_def by blast
qed

lemma push_ok_enter:
  assumes "push_ok pcs busy" and "pushing (pcs t) = None" and "pushing p = Some n" and "ptr_ok n" and "n \<in> busy"
  shows "push_ok (pcs(t := p)) (busy - {n})"
proof -
  have "pushing ((pcs(t := p)) u) = Some m \<longleftrightarrow> (if u = t then m = n else pushing (pcs u) = Some m)" for u m
    using assms(3) by auto
  moreover have "m \<noteq> n" if "pushing (pcs u) = Some m" for u m using push_okD(2) [OF assms(1) that] assms(5) by auto
  ultimately show ?thesis using assms(1,4) unfolding push_ok_def by auto
qed

text \<open>A step that only moves one thread keeps what the others know.\<close>

lemma ts_inv_move:
  assumes "ts_inv s as" and "tpc_ok s as p" and "pushing p = pushing (ts_pc s t) \<or> pushing p = None"
  shows "ts_inv (tgoto t p s) as"
proof -
  have "tpc_ok (tgoto t p s) as q = tpc_ok s as q" for q by (cases q) simp_all
  moreover have "push_ok ((ts_pc s)(t := p)) (set as \<union> ts_out s)"
    using push_ok_move assms(1,3) unfolding ts_inv_def by blast
  ultimately show ?thesis using assms(1,2) by (simp add: ts_inv_def)
qed

lemma ts_push_start:
  assumes inv: "ts_inv s as" and pc: "ts_pc s t = TIdle" and n: "n \<in> ts_out s"
  shows "ts_inv ((tgoto t (PushRead n) s)\<lparr>ts_out := ts_out s - {n}\<rparr>) as"
proof -
  have "tpc_ok ((tgoto t (PushRead n) s)\<lparr>ts_out := ts_out s - {n}\<rparr>) as q = tpc_ok s as q" for q by (cases q) simp_all
  moreover have "push_ok ((ts_pc s)(t := PushRead n)) (set as \<union> ts_out s - {n})"
    using inv n pc by (intro push_ok_enter) (auto simp: ts_inv_def)
  moreover have "set as \<union> ts_out s - {n} = set as \<union> (ts_out s - {n})" using inv n by (auto simp: ts_inv_def)
  ultimately show ?thesis using inv by (simp add: ts_inv_def)
qed

lemma ts_push_link:
  assumes inv: "ts_inv s as" and pc: "ts_pc s t = PushLink n w"
  shows "ts_inv ((tgoto t (PushCAS n w) s)\<lparr>ts_next := (ts_next s)(n := ptr_of w)\<rparr>) as"
proof -
  let ?s = "(tgoto t (PushCAS n w) s)\<lparr>ts_next := (ts_next s)(n := ptr_of w)\<rparr>"
  have po: "push_ok (ts_pc s) (set as \<union> ts_out s)" using inv by (simp add: ts_inv_def)
  have pn: "pushing (ts_pc s t) = Some n" using pc by simp
  have n: "n \<notin> set as" using push_okD(2) [OF po pn] by simp
  have "tpc_ok ?s as (ts_pc s u)" if "u \<noteq> t" for u
  proof -
    have "tpc_ok s as (ts_pc s u)" using inv by (simp add: ts_inv_def)
    then show ?thesis using push_okD(3) [OF po pn that] n by (cases "ts_pc s u") auto
  qed
  then have "tpc_ok ?s as (ts_pc ?s u)" for u by simp
  moreover have "push_ok (ts_pc ?s) (set as \<union> ts_out s)" using push_ok_move [OF po, of _ t] pc by simp
  ultimately show ?thesis using inv n by (simp add: ts_inv_def)
qed

lemma ts_push_cas:
  assumes inv: "ts_inv s as" and pc: "ts_pc s t = PushCAS n w" and top: "ts_top s = w"
  shows "ts_inv ((tgoto t TIdle s)\<lparr>ts_top := push_top n w, ts_pushes := Suc (ts_pushes s)\<rparr>) (n # as)"
proof -
  let ?s = "(tgoto t TIdle s)\<lparr>ts_top := push_top n w, ts_pushes := Suc (ts_pushes s)\<rparr>"
  have po: "push_ok (ts_pc s) (set as \<union> ts_out s)" using inv by (simp add: ts_inv_def)
  have pn: "pushing (ts_pc s t) = Some n" using pc by simp
  have n: "ptr_ok n" "n \<notin> set as \<union> ts_out s" using push_okD(1,2) [OF po pn] .
  have "tpc_ok s as (PushCAS n w)" using inv pc unfolding ts_inv_def by metis
  then have next_n: "ts_next s n = ptr_of w" by simp
  have "tpc_ok ?s (n # as) (ts_pc s u)" for u
  proof -
    have "tpc_ok s as (ts_pc s u)" using inv by (simp add: ts_inv_def)
    then show ?thesis by (cases "ts_pc s u") auto
  qed
  then have "tpc_ok ?s (n # as) (ts_pc ?s u)" for u by simp
  moreover have "push_ok (ts_pc ?s) (set (n # as) \<union> ts_out s)" using push_ok_leave [OF po pn, of TIdle] by simp
  moreover have "ptr_of (push_top n w) = n" "tagged (Suc (ts_pushes s)) (push_top n w)"
    using push_top_parts [of n "ts_pushes s" w] n inv top by (auto simp: ptr_ok_def ts_inv_def)
  moreover have "chain (ts_next s) n (n # as)" using inv n next_n top by (simp add: ts_inv_def ptr_ok_def)
  ultimately show ?thesis using inv n by (auto simp: ts_inv_def)
qed

text \<open>The exchange of a pop succeeds only if the top it read is still the top, with the same successor.\<close>

lemma ts_pop_cas:
  assumes inv: "ts_inv s as" and pc: "ts_pc s t = PopCAS w nxt k" and top: "ts_top s = w"
    and recent: "ts_pushes s < k + 2 ^ 17"
  shows "\<exists>bs. as = ptr_of w # bs \<and>
    ts_inv ((tgoto t TIdle s)\<lparr>ts_top := pop_top nxt w, ts_out := insert (ptr_of w) (ts_out s)\<rparr>) bs"
proof -
  let ?s = "(tgoto t TIdle s)\<lparr>ts_top := pop_top nxt w, ts_out := insert (ptr_of w) (ts_out s)\<rparr>"
  have ok: "tpc_ok s as (PopCAS w nxt k)" using inv pc unfolding ts_inv_def by metis
  have tag: "tagged (ts_pushes s) w" using inv top by (simp add: ts_inv_def)
  have k: "ts_pushes s = k" using tagged_inject [of k w "ts_pushes s"] ok tag recent by simp
  have ch: "chain (ts_next s) (ptr_of w) as" using inv top by (simp add: ts_inv_def)
  then obtain bs where as: "as = ptr_of w # bs" and bs: "chain (ts_next s) (ts_next s (ptr_of w)) bs"
    using ok by (auto simp: chain_nonnull)
  have nxt: "nxt = ts_next s (ptr_of w)" using ok k as by simp
  have okbs: "\<forall>b\<in>set bs. ptr_ok b" "ptr_ok (ptr_of w)" using inv as by (auto simp: ts_inv_def)
  have d: "ptr_of w \<notin> set bs" using chain_distinct [OF ch] as by simp
  have "tpc_ok ?s bs (ts_pc s u)" for u
  proof -
    have "tpc_ok s as (ts_pc s u)" using inv by (simp add: ts_inv_def)
    then show ?thesis by (cases "ts_pc s u") (auto simp: as)
  qed
  then have "\<forall>u. tpc_ok ?s bs (ts_pc ?s u)" by auto
  moreover have "ptr_of (pop_top nxt w) = nxt" "tagged (ts_pushes s) (pop_top nxt w)"
    using pop_top_parts [OF chain_head_untagged [OF bs okbs(1)] tag] nxt by simp_all
  moreover have "push_ok (ts_pc ?s) (set as \<union> ts_out s)"
    using push_ok_move [of "ts_pc s" "set as \<union> ts_out s" TIdle t] inv by (simp add: ts_inv_def)
  then have "push_ok (ts_pc ?s) (set bs \<union> insert (ptr_of w) (ts_out s))" using as by simp
  ultimately show ?thesis using inv okbs d bs nxt as by (auto simp: ts_inv_def)
qed

lemma ts_step_refines:
  "ts_step s l s' \<Longrightarrow> ts_inv s as \<Longrightarrow> \<exists>as'. ts_inv s' as' \<and> spec_step as l as'"
proof (induction rule: ts_step.induct)
  case (push_start s t n)
  then show ?case using ts_push_start by (blast intro: spec_step.intros)
next
  case (push_link s t n w)
  then show ?case using ts_push_link by (blast intro: spec_step.intros)
next
  case (push_cas s t n w)
  then have "n \<notin> set as" using push_okD(2) [of "ts_pc s" "set as \<union> ts_out s" t n] by (simp add: ts_inv_def)
  then show ?case using ts_push_cas [OF push_cas(3,1,2)] by (blast intro: spec_step.intros)
next
  case (pop_empty s t)
  then have "as = []" by (auto simp: ts_inv_def chain_null)
  then show ?case using ts_inv_move [OF pop_empty(3), of TIdle t] by (auto intro: spec_step.intros)
next
  case (pop_load s t w k)
  then have "tpc_ok s as (PopLoad w k)" unfolding ts_inv_def by metis
  then have "ts_inv (tgoto t (PopCAS w (ts_next s (ptr_of w)) k) s) as"
    using pop_load by (intro ts_inv_move) simp_all
  then show ?case by (blast intro: spec_step.intros)
next
  case (pop_cas s t w nxt k)
  then show ?case using ts_pop_cas [OF pop_cas(4,1,2,3)] by (auto intro: spec_step.intros)
next
  case (pop_read s t)
  then have "tagged (ts_pushes s) (ts_top s)" by (simp add: ts_inv_def)
  then show ?case using ts_inv_move [OF pop_read(3), of "PopLoad (ts_top s) (ts_pushes s)" t] pop_read
    by (auto intro: spec_step.intros)
next
  case (push_read s t n)
  then show ?case using ts_inv_move [OF push_read(2), of "PushLink n (ts_top s)" t] by (auto intro: spec_step.intros)
next
  case (push_retry s t n w)
  then show ?case using ts_inv_move [OF push_retry(3), of "PushRead n" t] by (auto intro: spec_step.intros)
next
  case (pop_start s t)
  then show ?case using ts_inv_move [OF pop_start(2), of PopRead t] by (auto intro: spec_step.intros)
next
  case (pop_retry s t w nxt k)
  then show ?case using ts_inv_move [OF pop_retry(3), of PopRead t] by (auto intro: spec_step.intros)
qed

lemma ts_run_refines:
  "ts_run s ls s' \<Longrightarrow> ts_inv s as \<Longrightarrow> \<exists>bs. ts_inv s' bs \<and> spec_run as ls bs"
proof (induction rule: ts_run.induct)
  case (ts_run_nil s)
  then show ?case by (blast intro: spec_nil)
next
  case (ts_run_snoc s ls s' l s'')
  then show ?case using ts_step_refines by (blast intro: spec_snoc)
qed

lemma ts_inv_init: "\<forall>a\<in>N. ptr_ok a \<Longrightarrow> ts_inv (ts_init N) []"
  using tagged_zero [of 0] by (simp add: ts_inv_def ts_init_def push_ok_def)

subsection \<open>Properties\<close>

text \<open>
  A \<^verbatim>\<open>LockFreeStack\<close> returns what was pushed, last in first out, and reports an empty stack exactly when it is
  empty: any sequence of pushes and pops gives the results it gives on a list, and \<^verbatim>\<open>size()\<close> is the
  length of that list, although the nodes of popped elements are recycled through the pool.
\<close>

theorem lockfree_stack_refines_list:
  assumes "distinct (as @ fresh_addrs ops)" and "\<forall>a\<in>set (as @ fresh_addrs ops). ptr_ok a"
  shows "fst (stack_run (ls_Push z) ls_Pop ops (ls_new z as)) = fst (list_run ops []) \<and>
    ls_size (snd (stack_run (ls_Push z) ls_Pop ops (ls_new z as))) = of_nat (length (snd (list_run ops [])))"
proof -
  have "ls_vals (ls_new z as) (set as) []" using assms by (intro ls_new_vals) auto
  then obtain s' L where "stack_run (ls_Push z) ls_Pop ops (ls_new z as) = (fst (list_run ops []), s')"
      "ls_vals s' L (snd (list_run ops []))"
    using lfs.run_refines [of "ls_new z as" "set as" "[]" ops z] assms by auto
  then show ?thesis using ls_vals_size by auto
qed

theorem lockfree_stack_refines_list_witness:
  "fst (stack_run (ls_Push 0) ls_Pop [SPush (1 :: nat) 16, SPush 2 32, SPop, SPush 3 48, SPop, SPop, SPop] (ls_new 0 [64])) =
    [Some 2, Some 3, Some 1, None]"
  using lockfree_stack_refines_list [of "[64]" "[SPush 1 16, SPush 2 32, SPop, SPush 3 48, SPop, SPop, SPop]" "0 :: nat"]
  by (simp add: ptr_ok_def pointerMask_def)

text \<open>
  C29. The lock-free stack under concurrency: in every interleaving of the push and pop loops of any number of
  threads, with no thread overtaken by \<open>2 ^ 17\<close> pushes inside one round of its loop, the successful exchanges
  act as pushes and pops of one abstract stack of nodes, in the order they happen: a pop returns the node
  on top, reports empty only when the stack is empty, and no node is handed to two threads (the nodes
  outside the stack, those being pushed and those on it stay disjoint).
\<close>

theorem concurrent_stack_refines:
  assumes "\<forall>a\<in>N. ptr_ok a" and "ts_run (ts_init N) ls s"
  shows "\<exists>as. spec_run [] ls as \<and> chain (ts_next s) (ptr_of (ts_top s)) as \<and> set as \<inter> ts_out s = {} \<and>
    (\<forall>t n. pushing (ts_pc s t) = Some n \<longrightarrow> n \<notin> set as \<union> ts_out s)"
proof -
  obtain as where "ts_inv s as" "spec_run [] ls as" using ts_run_refines [OF assms(2) ts_inv_init [OF assms(1)]] by blast
  then show ?thesis by (intro exI [of _ as]) (auto simp: ts_inv_def dest: push_okD(2))
qed

text \<open>One thread pushes a node and another pops it.\<close>

lemma ts_run_example:
  "\<exists>s. ts_run (ts_init {16}) [Tau, Tau, Tau, Pushed 16, Tau, Tau, Tau, Popped 16] s \<and> 16 \<in> ts_out s"
proof -
  let ?a = "(tgoto 0 (PushRead 16) (ts_init {16}))\<lparr>ts_out := {}\<rparr>"
  let ?b = "tgoto 0 (PushLink 16 0) ?a"
  let ?c = "(tgoto 0 (PushCAS 16 0) ?b)\<lparr>ts_next := (ts_next ?b)(16 := ptr_of 0)\<rparr>"
  define d where "d = (tgoto 0 TIdle ?c)\<lparr>ts_top := push_top 16 0, ts_pushes := Suc (ts_pushes ?c)\<rparr>"
  have p16: "ptr_of (push_top 16 0) = 16"
    using push_top_parts(1) [of 16 0 0] tagged_zero [of 0] by (simp add: pointerMask_def)
  have init: "ts_pc (ts_init {16}) = (\<lambda>_. TIdle)" "ts_out (ts_init {16}) = {16}" "ts_top (ts_init {16}) = 0"
    by (simp_all add: ts_init_def)
  have 1: "ts_step (ts_init {16}) Tau ?a" using push_start [of "ts_init {16}" 0 16] by (simp add: init)
  have 2: "ts_step ?a Tau ?b" using push_read [of ?a 0 16] by (simp add: init)
  have 3: "ts_step ?b Tau ?c" using push_link [of ?b 0 16 0] by simp
  have 4: "ts_step ?c (Pushed 16) d" using push_cas [of ?c 0 16 0] by (simp add: init d_def)
  note pushed = ts_run_snoc [OF ts_run_snoc [OF ts_run_snoc [OF ts_run_snoc [OF ts_run_nil 1] 2] 3] 4]
  have sel: "ts_pc d 1 = TIdle" "ts_top d = push_top 16 0" by (simp_all add: d_def init)
  let ?e = "tgoto 1 PopRead d"
  let ?f = "tgoto 1 (PopLoad (push_top 16 0) (ts_pushes d)) ?e"
  let ?g = "tgoto 1 (PopCAS (push_top 16 0) (ts_next d 16) (ts_pushes d)) ?f"
  let ?h = "(tgoto 1 TIdle ?g)\<lparr>ts_top := pop_top (ts_next d 16) (push_top 16 0), ts_out := insert 16 (ts_out ?g)\<rparr>"
  have 5: "ts_step d Tau ?e" using pop_start [of d 1] sel by simp
  have 6: "ts_step ?e Tau ?f" using pop_read [of ?e 1] by (simp add: sel p16)
  have 7: "ts_step ?f Tau ?g" using pop_load [of ?f 1] by (simp add: p16)
  have 8: "ts_step ?g (Popped 16) ?h" using pop_cas [of ?g 1 "push_top 16 0"] by (simp add: p16 sel)
  have "ts_run (ts_init {16}) (((((((([] @ [Tau]) @ [Tau]) @ [Tau]) @ [Pushed 16]) @ [Tau]) @ [Tau]) @ [Tau]) @ [Popped 16]) ?h"
    by (rule ts_run_snoc [OF ts_run_snoc [OF ts_run_snoc [OF ts_run_snoc [OF pushed 5] 6] 7] 8])
  then show ?thesis by (intro exI [of _ ?h]) simp
qed

theorem concurrent_stack_refines_witness:
  "\<exists>as. spec_run [] [Tau, Tau, Tau, Pushed 16, Tau, Tau, Tau, Popped 16] as \<and> 16 \<notin> set as"
proof -
  obtain s where s: "ts_run (ts_init {16}) [Tau, Tau, Tau, Pushed 16, Tau, Tau, Tau, Popped 16] s" "16 \<in> ts_out s"
    using ts_run_example by blast
  have "\<forall>a\<in>{16}. ptr_ok a" by (simp add: ptr_ok_def pointerMask_def)
  from concurrent_stack_refines [OF this s(1)] show ?thesis using s(2) by blast
qed

end
