(* ===== verification/Tls_Pool.thy ===== *)
theory Tls_Pool
  imports Lockfree_Stack
begin

section \<open>The thread-local buffer pool\<close>

text \<open>
  \<^verbatim>\<open>TLSPool.h\<close>: every thread allocates from a \<open>SingleThreadObjectPool\<close> of its own and exchanges whole buckets of
  nodes with a shared stack when its pool runs empty or grows beyond twice the bucket size. \<^verbatim>\<open>CSendBuffer\<close>
  objects come from such a pool. The nodes of all threads live in one heap; the shared \<^verbatim>\<open>LockFreeStack\<close> of
  buckets is the list it implements (theory \<open>Lockfree_Stack\<close>). \<open>sz\<close> is \<^verbatim>\<open>sizeof(Node)\<close>, \<open>d\<close> a default-constructed
  object, and \<open>b1\<close>, \<open>b2\<close> are the addresses the two calls of \<^verbatim>\<open>malloc\<close> in \<^verbatim>\<open>AcquireNode\<close> return.
\<close>

subsection \<open>State\<close>

record 'a heap =
  hp_next :: "addr \<Rightarrow> addr"
  hp_data :: "addr \<Rightarrow> 'a option"

record controlData =
  cd_front :: addr
  cd_end :: addr

record local_pool =
  lo_top :: addr
  lo_objectCount :: i32
  lo_allocCount :: i32

record 'a tlspool =
  tp_heap :: "'a heap"
  tp_local :: "nat \<Rightarrow> local_pool option"
  tp_nextBucket :: "controlData list"
  tp_localPoolSize :: nat
  tp_pooledNodeSize :: i32
  tp_acquireCount :: i32
  tp_releaseCount :: i32
  tp_poolEmptyCount :: u32

subsection \<open>Buckets\<close>

definition construct_node :: "'a \<Rightarrow> addr \<Rightarrow> addr \<Rightarrow> 'a heap \<Rightarrow> 'a heap" where
  "construct_node d node tail h = h\<lparr>hp_data := (hp_data h)(node \<mapsto> d), hp_next := (hp_next h)(node := tail)\<rparr>"

fun MakeControl_loop :: "'a \<Rightarrow> u64 \<Rightarrow> nat \<Rightarrow> addr \<Rightarrow> 'a heap \<Rightarrow> addr \<times> 'a heap" where
  "MakeControl_loop d sz 0 newNode h = (newNode, h)"
| "MakeControl_loop d sz (Suc i) newNode h = MakeControl_loop d sz i (newNode + sz) (construct_node d newNode (newNode + sz) h)"

definition MakeControl :: "'a \<Rightarrow> u64 \<Rightarrow> nat \<Rightarrow> addr \<Rightarrow> 'a heap \<Rightarrow> controlData \<times> 'a heap" where
  "MakeControl d sz n newTop h =
     (let (newNode, h1) = MakeControl_loop d sz (n - 1) newTop h
      in (\<lparr>cd_front = newTop, cd_end = newNode\<rparr>, construct_node d newNode 0 h1))"

text \<open>The constructor of the pool pushes \<^verbatim>\<open>globalPoolMultiplier\<close> buckets.\<close>

definition tls_new :: "'a \<Rightarrow> u64 \<Rightarrow> nat \<Rightarrow> addr list \<Rightarrow> 'a tlspool" where
  "tls_new d sz n bases =
     (let (cs, h) = fold (\<lambda>b (cs, h). let (c, h') = MakeControl d sz n b h in (c # cs, h')) bases
        ([], \<lparr>hp_next = (\<lambda>_. 0), hp_data = (\<lambda>_. None)\<rparr>)
      in \<lparr>tp_heap = h, tp_local = (\<lambda>_. None), tp_nextBucket = cs, tp_localPoolSize = n,
          tp_pooledNodeSize = of_nat (length bases), tp_acquireCount = 0, tp_releaseCount = 0, tp_poolEmptyCount = 0\<rparr>)"

definition AcquireNode :: "'a \<Rightarrow> u64 \<Rightarrow> i32 \<Rightarrow> addr \<Rightarrow> addr \<Rightarrow> 'a tlspool \<Rightarrow> controlData \<times> 'a tlspool" where
  "AcquireNode d sz cnt b1 b2 s =
     (let s1 = s\<lparr>tp_acquireCount := tp_acquireCount s + 1\<rparr>
      in case tp_nextBucket s1 of
           [] \<Rightarrow>
             (let (cb1, h1) = MakeControl d sz (tp_localPoolSize s1) b1 (tp_heap s1);
                  (retCb, h2) = MakeControl d sz (tp_localPoolSize s1) b2 h1
              in (retCb, s1\<lparr>tp_heap := h2, tp_nextBucket := cb1 # tp_nextBucket s1,
                    tp_poolEmptyCount := tp_poolEmptyCount s1 + 1, tp_pooledNodeSize := tp_pooledNodeSize s1 + cnt\<rparr>))
         | c # cs \<Rightarrow> (c, s1\<lparr>tp_nextBucket := cs, tp_pooledNodeSize := tp_pooledNodeSize s1 - cnt\<rparr>))"

definition ReleaseNode :: "addr \<Rightarrow> addr \<Rightarrow> i32 \<Rightarrow> 'a tlspool \<Rightarrow> 'a tlspool" where
  "ReleaseNode h e cnt s =
     s\<lparr>tp_nextBucket := \<lparr>cd_front = h, cd_end = e\<rparr> # tp_nextBucket s,
       tp_releaseCount := tp_releaseCount s + 1, tp_pooledNodeSize := tp_pooledNodeSize s + cnt\<rparr>"

definition AllocatedCount :: "'a tlspool \<Rightarrow> i32" where
  "AllocatedCount s = (tp_acquireCount s - tp_releaseCount s) * of_nat (tp_localPoolSize s)"

subsection \<open>Allocation and return\<close>

text \<open>The calling thread's pool: it is created empty on first use and works on the shared heap.\<close>

definition get_local :: "nat \<Rightarrow> 'a tlspool \<Rightarrow> local_pool" where
  "get_local t s = (case tp_local s t of Some lo \<Rightarrow> lo | None \<Rightarrow> \<lparr>lo_top = 0, lo_objectCount = 0, lo_allocCount = 0\<rparr>)"

definition local_view :: "nat \<Rightarrow> 'a tlspool \<Rightarrow> 'a pool" where
  "local_view t s =
     (let lo = get_local t s
      in \<lparr>pl_next = hp_next (tp_heap s), pl_data = hp_data (tp_heap s), pl_top = lo_top lo,
          pl_objectCount = lo_objectCount lo, pl_allocCount = lo_allocCount lo\<rparr>)"

definition put_local :: "nat \<Rightarrow> 'a pool \<Rightarrow> 'a tlspool \<Rightarrow> 'a tlspool" where
  "put_local t pl s =
     s\<lparr>tp_heap := \<lparr>hp_next = pl_next pl, hp_data = pl_data pl\<rparr>,
       tp_local := (tp_local s)(t \<mapsto> \<lparr>lo_top = pl_top pl, lo_objectCount = pl_objectCount pl, lo_allocCount = pl_allocCount pl\<rparr>)\<rparr>"

definition tls_Alloc :: "bool \<Rightarrow> 'a \<Rightarrow> u64 \<Rightarrow> nat \<Rightarrow> addr \<Rightarrow> addr \<Rightarrow> addr \<Rightarrow> 'a tlspool \<Rightarrow> addr \<times> 'a tlspool" where
  "tls_Alloc usePlacement d sz t b1 b2 p s =
     (let pool = local_view t s;
          (pool1, s1) =
            (if pl_objectCount pool = 0
             then (let (cb, s') = AcquireNode d sz 1 b1 b2 s
                   in ((local_view t s')\<lparr>pl_top := cd_front cb, pl_objectCount := of_nat (tp_localPoolSize s')\<rparr>, s'))
             else (pool, s));
          (a, pool2) = sp_Alloc usePlacement d p pool1
      in (a, put_local t pool2 s1))"

text \<open>The walk to the last node of the bucket that leaves the thread's pool.\<close>

fun walk :: "(addr \<Rightarrow> addr) \<Rightarrow> nat \<Rightarrow> addr \<Rightarrow> addr" where
  "walk nx 0 a = a"
| "walk nx (Suc i) a = walk nx i (nx a)"

definition tls_Free :: "bool \<Rightarrow> nat \<Rightarrow> addr \<Rightarrow> 'a tlspool \<Rightarrow> 'a tlspool" where
  "tls_Free usePlacement t a s =
     (let (_, pool) = sp_Free usePlacement a (local_view t s);
          n = tp_localPoolSize s
      in if sint (pl_objectCount pool) > sint (of_nat n * 2 :: i32)
         then
           (let releaseHead = pl_top pool;
                releaseTail = walk (pl_next pool) (n - 1) (pl_top pool);
                newHead = pl_next pool releaseTail;
                pool1 = pool\<lparr>pl_next := (pl_next pool)(releaseTail := 0), pl_top := newHead\<rparr>;
                s1 = ReleaseNode releaseHead releaseTail 1 (put_local t pool1 s)
            in put_local t (pool1\<lparr>pl_objectCount := pl_objectCount pool1 - of_nat n\<rparr>) s1)
         else put_local t pool s)"

subsection \<open>Nodes of a bucket\<close>

definition node_addrs :: "u64 \<Rightarrow> nat \<Rightarrow> addr \<Rightarrow> addr list" where
  "node_addrs sz n b = map (\<lambda>i. b + of_nat i * sz) [0..<n]"

lemma node_addrs_Suc: "node_addrs sz (Suc n) b = b # node_addrs sz n (b + sz)"
proof -
  have "node_addrs sz (Suc n) b = (b + of_nat 0 * sz) # map (\<lambda>i. b + of_nat i * sz) (map Suc [0..<n])"
    by (simp add: node_addrs_def upt_conv_Cons map_Suc_upt del: upt_Suc)
  then show ?thesis by (simp add: node_addrs_def comp_def algebra_simps)
qed

lemma length_node_addrs [simp]: "length (node_addrs sz n b) = n"
  by (simp add: node_addrs_def)

lemma MakeControl_loop_chain:
  assumes "distinct (node_addrs sz (Suc i) b)" and "0 \<notin> set (node_addrs sz (Suc i) b)"
    and "MakeControl_loop d sz i b h = (l, h1)" and "h2 = construct_node d l 0 h1"
  shows "chain (hp_next h2) b (node_addrs sz (Suc i) b) \<and> l = last (node_addrs sz (Suc i) b) \<and>
    (\<forall>x. x \<notin> set (node_addrs sz (Suc i) b) \<longrightarrow> hp_next h2 x = hp_next h x)"
  using assms
proof (induction i arbitrary: b h)
  case 0
  then show ?case by (auto simp: node_addrs_def construct_node_def)
next
  case (Suc i)
  let ?h = "construct_node d b (b + sz) h"
  have IH: "chain (hp_next h2) (b + sz) (node_addrs sz (Suc i) (b + sz))" "l = last (node_addrs sz (Suc i) (b + sz))"
      "\<forall>x. x \<notin> set (node_addrs sz (Suc i) (b + sz)) \<longrightarrow> hp_next h2 x = hp_next ?h x"
    using Suc.IH [of "b + sz" ?h, OF _ _ _ Suc.prems(4)] Suc.prems(1-3) by (simp_all add: node_addrs_Suc [of _ "Suc i" b])
  have "b \<notin> set (node_addrs sz (Suc i) (b + sz))" using Suc.prems(1) by (simp add: node_addrs_Suc [of _ "Suc i" b])
  then have "hp_next h2 b = b + sz" using IH(3) by (simp add: construct_node_def)
  moreover have "node_addrs sz (Suc i) (b + sz) \<noteq> []" by (simp add: node_addrs_def)
  ultimately show ?case
    using IH Suc.prems(2) by (auto simp: node_addrs_Suc [of _ "Suc i" b] construct_node_def)
qed

lemma MakeControl_chain:
  assumes "0 < n" and "distinct (node_addrs sz n b)" and "0 \<notin> set (node_addrs sz n b)" and "MakeControl d sz n b h = (c, h')"
  shows "chain (hp_next h') (cd_front c) (node_addrs sz n b)"
    and "\<And>x. x \<notin> set (node_addrs sz n b) \<Longrightarrow> hp_next h' x = hp_next h x"
proof -
  obtain m where n: "n = Suc m" using assms(1) by (cases n) auto
  obtain l h1 where l: "MakeControl_loop d sz m b h = (l, h1)" by (cases "MakeControl_loop d sz m b h") auto
  then have c: "c = \<lparr>cd_front = b, cd_end = l\<rparr>" "h' = construct_node d l 0 h1"
    using assms(4) n by (auto simp: MakeControl_def)
  note MakeControl_loop_chain [OF _ _ l c(2)]
  then show "chain (hp_next h') (cd_front c) (node_addrs sz n b)"
    "\<And>x. x \<notin> set (node_addrs sz n b) \<Longrightarrow> hp_next h' x = hp_next h x"
    using assms(2,3) n c by auto
qed

subsection \<open>The invariant\<close>

text \<open>\<open>locs\<close> are the free lists of the threads, \<open>bks\<close> the buckets of the shared stack.\<close>

definition disj_lists :: "(nat \<Rightarrow> addr list) \<Rightarrow> addr list list \<Rightarrow> bool" where
  "disj_lists locs bks \<longleftrightarrow> distinct (concat bks) \<and> (\<forall>t a. a \<in> set (locs t) \<longrightarrow> a \<notin> set (concat bks)) \<and>
     (\<forall>t u a. a \<in> set (locs t) \<longrightarrow> a \<in> set (locs u) \<longrightarrow> t = u)"

definition free_nodes :: "(nat \<Rightarrow> addr list) \<Rightarrow> addr list list \<Rightarrow> addr set" where
  "free_nodes locs bks = (\<Union>t. set (locs t)) \<union> set (concat bks)"

definition tls_inv :: "'a tlspool \<Rightarrow> (nat \<Rightarrow> addr list) \<Rightarrow> addr list list \<Rightarrow> bool" where
  "tls_inv s locs bks \<longleftrightarrow>
     (let n = tp_localPoolSize s; nx = hp_next (tp_heap s)
      in 0 < n \<and> n < 2 ^ 28 \<and> disj_lists locs bks \<and>
         (\<forall>t. chain nx (lo_top (get_local t s)) (locs t) \<and> length (locs t) \<le> 2 * n \<and>
              lo_objectCount (get_local t s) = of_nat (length (locs t))) \<and>
         list_all2 (\<lambda>c b. chain nx (cd_front c) b \<and> length b = n) (tp_nextBucket s) bks \<and>
         tp_pooledNodeSize s = of_nat (length bks))"

lemma disj_listsD:
  assumes "disj_lists locs bks"
  shows "distinct (concat bks)" and "a \<in> set (locs t) \<Longrightarrow> a \<notin> set (concat bks)"
    and "a \<in> set (locs t) \<Longrightarrow> u \<noteq> t \<Longrightarrow> a \<notin> set (locs u)"
  using assms unfolding disj_lists_def by metis+

text \<open>Replacing one thread's list by a list of nodes nobody else has.\<close>

lemma disj_update:
  assumes "disj_lists locs bks" and "distinct (concat bks')" and "\<And>a u. a \<in> set as \<Longrightarrow> u \<noteq> t \<Longrightarrow> a \<notin> set (locs u)"
    and "\<And>a. a \<in> set as \<Longrightarrow> a \<notin> set (concat bks')" and "\<And>a u. a \<in> set (locs u) \<Longrightarrow> u \<noteq> t \<Longrightarrow> a \<notin> set (concat bks')"
  shows "disj_lists (locs(t := as)) bks'"
proof -
  have "a \<notin> set (concat bks')" if "a \<in> set ((locs(t := as)) u)" for a u
    using that assms(4) [of a] assms(5) [of a u] by (cases "u = t") simp_all
  moreover have "u = v" if "a \<in> set ((locs(t := as)) u)" "a \<in> set ((locs(t := as)) v)" for u v a
  proof (rule ccontr)
    assume "u \<noteq> v"
    then show False
      using that assms(3) [of a u] assms(3) [of a v] disj_listsD(3) [OF assms(1), of a u v]
      by (cases "u = t"; cases "v = t") simp_all
  qed
  ultimately show ?thesis using assms(2) unfolding disj_lists_def by blast
qed

lemma disj_take_bucket:
  assumes "disj_lists locs (b # bks)"
  shows "disj_lists (locs(t := b)) bks"
proof (rule disj_update [OF assms])
  show "distinct (concat bks)" using disj_listsD(1) [OF assms] by simp
  show "a \<notin> set (locs u)" if "a \<in> set b" for a u using disj_listsD(2) [OF assms, of a u] that by auto
  show "a \<notin> set (concat bks)" if "a \<in> set b" for a using disj_listsD(1) [OF assms] that by auto
  show "a \<notin> set (concat bks)" if "a \<in> set (locs u)" for a u using disj_listsD(2) [OF assms that] by simp
qed

lemma disj_shrink:
  assumes "disj_lists locs bks" and "set as \<subseteq> set (locs t)"
  shows "disj_lists (locs(t := as)) bks"
proof (rule disj_update [OF assms(1) disj_listsD(1) [OF assms(1)]])
  show "a \<notin> set (locs u)" if "a \<in> set as" "u \<noteq> t" for a u
    using disj_listsD(3) [OF assms(1), of a t u] that assms(2) by blast
  show "a \<notin> set (concat bks)" if "a \<in> set as" for a using disj_listsD(2) [OF assms(1), of a t] that assms(2) by blast
  show "a \<notin> set (concat bks)" if "a \<in> set (locs u)" for a u by (rule disj_listsD(2) [OF assms(1) that])
qed

lemma disj_grow:
  assumes "disj_lists locs bks" and "a \<notin> free_nodes locs bks"
  shows "disj_lists (locs(t := a # locs t)) bks"
proof (rule disj_update [OF assms(1) disj_listsD(1) [OF assms(1)]])
  show "b \<notin> set (locs u)" if "b \<in> set (a # locs t)" "u \<noteq> t" for b u
    using disj_listsD(3) [OF assms(1), of b t u] that assms(2) by (auto simp: free_nodes_def)
  show "b \<notin> set (concat bks)" if "b \<in> set (a # locs t)" for b
    using disj_listsD(2) [OF assms(1), of b t] that assms(2) by (auto simp: free_nodes_def)
  show "b \<notin> set (concat bks)" if "b \<in> set (locs u)" for b u by (rule disj_listsD(2) [OF assms(1) that])
qed

lemma disj_give_bucket:
  assumes "disj_lists locs bks" and "locs t = xs @ ys" and "distinct (xs @ ys)"
  shows "disj_lists (locs(t := ys)) (xs # bks)"
proof (rule disj_update [OF assms(1)])
  have xs: "a \<notin> set (concat bks)" if "a \<in> set (xs @ ys)" for a
    using disj_listsD(2) [OF assms(1)] that unfolding assms(2) [symmetric] .
  show "distinct (concat (xs # bks))"
  proof -
    have "set xs \<inter> set (concat bks) = {}" using xs unfolding set_append by blast
    then show ?thesis using disj_listsD(1) [OF assms(1)] assms(3) by (simp only: concat.simps distinct_append)
  qed
  show "a \<notin> set (locs u)" if "a \<in> set ys" "u \<noteq> t" for a u
    using disj_listsD(3) [OF assms(1), of a t u] that assms(2) by simp
  show "a \<notin> set (concat (xs # bks))" if "a \<in> set ys" for a using xs [of a] that assms(3) by auto
  show "a \<notin> set (concat (xs # bks))" if "a \<in> set (locs u)" "u \<noteq> t" for a u
    using disj_listsD(2) [OF assms(1) that(1)] disj_listsD(3) [OF assms(1) that(1), of t] that assms(2) by auto
qed

lemma disj_fresh:
  assumes "disj_lists locs bks" and "distinct as" and "set as \<inter> free_nodes locs bks = {}"
  shows "disj_lists locs (as # bks)"
  using assms unfolding disj_lists_def free_nodes_def by auto

lemma chain_frame:
  assumes "chain nx a as" and "\<And>b. b \<notin> A \<Longrightarrow> nx' b = nx b" and "set as \<inter> A = {}"
  shows "chain nx' a as"
proof -
  have "chain nx' a as = chain nx a as" using assms(2,3) by (intro chain_cong) auto
  then show ?thesis using assms(1) by simp
qed

text \<open>Taking a bucket: from the shared stack, or freshly made together with one for the stack.\<close>

definition bases_ok :: "u64 \<Rightarrow> nat \<Rightarrow> addr \<Rightarrow> addr \<Rightarrow> addr set \<Rightarrow> bool" where
  "bases_ok sz n b1 b2 K \<longleftrightarrow> distinct (node_addrs sz n b1 @ node_addrs sz n b2) \<and>
     0 \<notin> set (node_addrs sz n b1 @ node_addrs sz n b2) \<and> set (node_addrs sz n b1 @ node_addrs sz n b2) \<inter> K = {}"

lemma AcquireNode_bucket:
  assumes inv: "tls_inv s locs bks" and "bases_ok sz (tp_localPoolSize s) b1 b2 (free_nodes locs bks)"
  shows "\<exists>c s' B bks'. AcquireNode d sz 1 b1 b2 s = (c, s') \<and> tls_inv s' locs bks' \<and> disj_lists locs (B # bks') \<and>
    chain (hp_next (tp_heap s')) (cd_front c) B \<and> length B = tp_localPoolSize s \<and>
    tp_local s' = tp_local s \<and> tp_localPoolSize s' = tp_localPoolSize s \<and>
    free_nodes locs (B # bks') \<subseteq> free_nodes locs bks \<union> set (node_addrs sz (tp_localPoolSize s) b1 @ node_addrs sz (tp_localPoolSize s) b2)
    \<and> free_nodes locs bks \<subseteq> free_nodes locs (B # bks')"
proof (cases "tp_nextBucket s")
  case (Cons c cs)
  then obtain B bks' where bks: "bks = B # bks'" using inv by (auto simp: tls_inv_def Let_def list_all2_Cons1)
  let ?s = "s\<lparr>tp_acquireCount := tp_acquireCount s + 1, tp_nextBucket := cs, tp_pooledNodeSize := tp_pooledNodeSize s - 1\<rparr>"
  have "AcquireNode d sz 1 b1 b2 s = (c, ?s)" by (simp add: AcquireNode_def Cons)
  moreover have "disj_lists locs bks'" using inv unfolding tls_inv_def bks disj_lists_def Let_def by auto
  then have "tls_inv ?s locs bks'" using inv Cons by (simp add: tls_inv_def Let_def bks get_local_def)
  moreover have "disj_lists locs (B # bks')" "chain (hp_next (tp_heap s)) (cd_front c) B" "length B = tp_localPoolSize s"
    using inv Cons by (simp_all add: tls_inv_def Let_def bks)
  ultimately show ?thesis by (intro exI [of _ c] exI [of _ ?s] exI [of _ B] exI [of _ bks']) (simp add: bks)
next
  case Nil
  let ?n = "tp_localPoolSize s"
  let ?A1 = "node_addrs sz ?n b1" and ?A2 = "node_addrs sz ?n b2"
  have n: "0 < ?n" and bks: "bks = []" and d0: "disj_lists locs []" using inv Nil by (auto simp: tls_inv_def Let_def)
  have f: "distinct ?A1" "distinct ?A2" "set ?A1 \<inter> set ?A2 = {}" "0 \<notin> set ?A1" "0 \<notin> set ?A2"
      "(set ?A1 \<union> set ?A2) \<inter> free_nodes locs [] = {}"
    using assms(2) by (auto simp: bases_ok_def bks)
  obtain c1 h1 where m1: "MakeControl d sz ?n b1 (tp_heap s) = (c1, h1)" by (cases "MakeControl d sz ?n b1 (tp_heap s)")
  obtain c2 h2 where m2: "MakeControl d sz ?n b2 h1 = (c2, h2)" by (cases "MakeControl d sz ?n b2 h1")
  note mc1 = MakeControl_chain [OF n f(1,4) m1] and mc2 = MakeControl_chain [OF n f(2,5) m2]
  have ch1: "chain (hp_next h2) (cd_front c1) ?A1" using f(3) by (intro chain_frame [OF mc1(1) mc2(2)]) auto
  have fr: "hp_next h2 x = hp_next (tp_heap s) x" if "x \<notin> set ?A1 \<union> set ?A2" for x using mc1(2) mc2(2) that by simp
  let ?s = "s\<lparr>tp_acquireCount := tp_acquireCount s + 1, tp_heap := h2, tp_nextBucket := [c1],
    tp_poolEmptyCount := tp_poolEmptyCount s + 1, tp_pooledNodeSize := tp_pooledNodeSize s + 1\<rparr>"
  have "AcquireNode d sz 1 b1 b2 s = (c2, ?s)" by (simp add: AcquireNode_def Nil m1 m2)
  moreover have "chain (hp_next h2) (lo_top (get_local t s)) (locs t)" for t
  proof (rule chain_frame [of "hp_next (tp_heap s)"])
    show "chain (hp_next (tp_heap s)) (lo_top (get_local t s)) (locs t)" using inv by (simp add: tls_inv_def Let_def)
    show "set (locs t) \<inter> (set ?A1 \<union> set ?A2) = {}" using f(6) by (auto simp: free_nodes_def)
  qed (rule fr)
  then have "tls_inv ?s locs [?A1]"
    using inv ch1 disj_fresh [OF d0 f(1)] f(6) by (simp add: tls_inv_def Let_def get_local_def bks Int_Un_distrib2)
  moreover have "disj_lists locs [?A2, ?A1]"
    using f by (intro disj_fresh [OF disj_fresh [OF d0]]) (auto simp: free_nodes_def)
  ultimately show ?thesis using mc2(1)
    by (intro exI [of _ c2] exI [of _ ?s] exI [of _ ?A2] exI [of _ "[?A1]"]) (auto simp: bks free_nodes_def)
qed

text \<open>Installing a thread's new pool.\<close>

definition others_ok :: "nat \<Rightarrow> (addr \<Rightarrow> addr) \<Rightarrow> 'a tlspool \<Rightarrow> (nat \<Rightarrow> addr list) \<Rightarrow> bool" where
  "others_ok t nx s locs \<longleftrightarrow> (\<forall>u. u \<noteq> t \<longrightarrow> chain nx (lo_top (get_local u s)) (locs u) \<and>
     length (locs u) \<le> 2 * tp_localPoolSize s \<and> lo_objectCount (get_local u s) = of_nat (length (locs u)))"

lemma put_local_sel [simp]:
  "tp_localPoolSize (put_local t pl s) = tp_localPoolSize s" "tp_nextBucket (put_local t pl s) = tp_nextBucket s"
  "tp_pooledNodeSize (put_local t pl s) = tp_pooledNodeSize s" "hp_next (tp_heap (put_local t pl s)) = pl_next pl"
  "get_local u (put_local t pl s) = (if u = t then
     \<lparr>lo_top = pl_top pl, lo_objectCount = pl_objectCount pl, lo_allocCount = pl_allocCount pl\<rparr> else get_local u s)"
  by (simp_all add: put_local_def get_local_def)

lemma put_local_inv:
  assumes "0 < tp_localPoolSize s" and "tp_localPoolSize s < 2 ^ 28" and "disj_lists (locs(t := as)) bks"
    and "others_ok t (pl_next pl) s locs" and "chain (pl_next pl) (pl_top pl) as" and "length as \<le> 2 * tp_localPoolSize s"
    and "pl_objectCount pl = of_nat (length as)" and "tp_pooledNodeSize s = of_nat (length bks)"
    and "list_all2 (\<lambda>c b. chain (pl_next pl) (cd_front c) b \<and> length b = tp_localPoolSize s) (tp_nextBucket s) bks"
  shows "tls_inv (put_local t pl s) (locs(t := as)) bks"
  using assms unfolding tls_inv_def others_ok_def Let_def by simp

lemma tls_invD:
  assumes "tls_inv s locs bks"
  shows "0 < tp_localPoolSize s" and "tp_localPoolSize s < 2 ^ 28" and "disj_lists locs bks"
    and "others_ok t (hp_next (tp_heap s)) s locs" and "chain (hp_next (tp_heap s)) (lo_top (get_local t s)) (locs t)"
    and "length (locs t) \<le> 2 * tp_localPoolSize s" and "lo_objectCount (get_local t s) = of_nat (length (locs t))"
    and "tp_pooledNodeSize s = of_nat (length bks)"
    and "list_all2 (\<lambda>c b. chain (hp_next (tp_heap s)) (cd_front c) b \<and> length b = tp_localPoolSize s) (tp_nextBucket s) bks"
  using assms unfolding tls_inv_def others_ok_def Let_def by simp_all

lemma free_nodes_pop:
  assumes "disj_lists locs bks" and "locs t = a # as" and "a \<notin> set as"
  shows "a \<notin> free_nodes (locs(t := as)) bks" and "free_nodes locs bks = insert a (free_nodes (locs(t := as)) bks)"
proof -
  have a: "a \<in> set (locs t)" using assms(2) by simp
  have "a \<notin> set ((locs(t := as)) u)" for u
    using disj_listsD(3) [OF assms(1) a, of u] assms(3) by (cases "u = t") simp_all
  then show "a \<notin> free_nodes (locs(t := as)) bks"
    using disj_listsD(2) [OF assms(1) a] unfolding free_nodes_def by blast
  have "(\<Union>u. set (locs u)) = insert a (\<Union>u. set ((locs(t := as)) u))"
    using assms(2) by (auto split: if_splits) (metis list.set_intros(1) list.set_intros(2) set_ConsD)+
  then show "free_nodes locs bks = insert a (free_nodes (locs(t := as)) bks)" unfolding free_nodes_def by blast
qed

lemma sp_Alloc_top:
  "pl_top pl \<noteq> 0 \<Longrightarrow> sp_Alloc u d p pl = (pl_top pl, pl\<lparr>pl_top := pl_next pl (pl_top pl), pl_objectCount := pl_objectCount pl - 1,
     pl_data := (if u then (pl_data pl)(pl_top pl \<mapsto> d) else pl_data pl)\<rparr>)"
  by (simp add: sp_Alloc_def Let_def)

text \<open>Taking the head of a thread's list, installed in any state whose other lists are in order.\<close>

lemma take_head:
  assumes inv: "tls_inv s locs bks" and d: "disj_lists (locs(t := a # as)) bks"
    and ch: "chain (hp_next (tp_heap s)) top' (a # as)" and len: "length (a # as) \<le> 2 * tp_localPoolSize s"
  shows "\<exists>pl2. sp_Alloc u v p ((local_view t s)\<lparr>pl_top := top', pl_objectCount := of_nat (length (a # as))\<rparr>) = (a, pl2) \<and>
    tls_inv (put_local t pl2 s) (locs(t := as)) bks"
proof -
  define pl where "pl = (local_view t s)\<lparr>pl_top := top', pl_objectCount := of_nat (length (a # as))\<rparr>"
  have nx: "pl_next pl = hp_next (tp_heap s)" and top: "pl_top pl = a" "a \<noteq> 0" "pl_objectCount pl = of_nat (Suc (length as))"
    using ch by (simp_all add: pl_def local_view_def Let_def)
  define pl2 where "pl2 = pl\<lparr>pl_top := pl_next pl a, pl_objectCount := pl_objectCount pl - 1,
     pl_data := (if u then (pl_data pl)(a \<mapsto> v) else pl_data pl)\<rparr>"
  have "sp_Alloc u v p pl = (a, pl2)" using sp_Alloc_top [of pl u v p] top(1,2) unfolding pl2_def by simp
  moreover have "tls_inv (put_local t pl2 s) (locs(t := as)) bks"
  proof (rule put_local_inv [OF tls_invD(1,2) [OF inv]])
    show "disj_lists (locs(t := as)) bks" using disj_shrink [OF d, of as t] by auto
    show "others_ok t (pl_next pl2) s locs" using tls_invD(4) [OF inv] by (simp add: pl2_def nx)
    show "chain (pl_next pl2) (pl_top pl2) as" using ch by (simp add: pl2_def nx)
    show "length as \<le> 2 * tp_localPoolSize s" using len by simp
    show "pl_objectCount pl2 = of_nat (length as)" by (simp add: pl2_def top)
    show "tp_pooledNodeSize s = of_nat (length bks)" by (rule tls_invD(8) [OF inv])
    show "list_all2 (\<lambda>c b. chain (pl_next pl2) (cd_front c) b \<and> length b = tp_localPoolSize s) (tp_nextBucket s) bks"
      using tls_invD(9) [OF inv] by (simp add: pl2_def nx)
  qed
  ultimately show ?thesis unfolding pl_def by blast
qed

lemma i32_count_zero:
  assumes "n < 2 ^ 30"
  shows "(of_nat n :: i32) = 0 \<longleftrightarrow> n = 0"
proof -
  have "unat (of_nat n :: i32) = n" using assms by (intro unat_of_nat_small) simp
  then show ?thesis using unat_eq_zero [of "of_nat n :: i32"] by simp
qed

lemma tls_Alloc_ok:
  assumes inv: "tls_inv s locs bks" and fresh: "bases_ok sz (tp_localPoolSize s) b1 b2 (free_nodes locs bks)"
  shows "\<exists>a s' locs' bks'. tls_Alloc u d sz t b1 b2 p s = (a, s') \<and> tls_inv s' locs' bks' \<and>
    tp_localPoolSize s' = tp_localPoolSize s \<and> a \<notin> free_nodes locs' bks' \<and> free_nodes locs bks \<subseteq> insert a (free_nodes locs' bks') \<and>
    insert a (free_nodes locs' bks') \<subseteq>
      free_nodes locs bks \<union> set (node_addrs sz (tp_localPoolSize s) b1 @ node_addrs sz (tp_localPoolSize s) b2)"
proof (cases "locs t")
  case Nil
  obtain c s1 B bks' where acq: "AcquireNode d sz 1 b1 b2 s = (c, s1)" and inv1: "tls_inv s1 locs bks'"
      and dB: "disj_lists locs (B # bks')" and chB: "chain (hp_next (tp_heap s1)) (cd_front c) B"
      and len: "length B = tp_localPoolSize s" and n1: "tp_localPoolSize s1 = tp_localPoolSize s"
      and F: "free_nodes locs (B # bks') \<subseteq> free_nodes locs bks \<union>
        set (node_addrs sz (tp_localPoolSize s) b1 @ node_addrs sz (tp_localPoolSize s) b2)"
        "free_nodes locs bks \<subseteq> free_nodes locs (B # bks')"
    using AcquireNode_bucket [OF inv fresh, of d] by blast
  obtain a as where B: "B = a # as" using len tls_invD(1) [OF inv] by (cases B) auto
  have d1: "disj_lists (locs(t := a # as)) bks'" using disj_take_bucket [OF dB] B by simp
  obtain pl2 where pl2: "sp_Alloc u d p ((local_view t s1)\<lparr>pl_top := cd_front c, pl_objectCount := of_nat (length (a # as))\<rparr>) = (a, pl2)"
      "tls_inv (put_local t pl2 s1) (locs(t := as)) bks'"
    using take_head [OF inv1 d1 chB [unfolded B], of u d p] len n1 B by auto
  have zero: "pl_objectCount (local_view t s) = 0" using tls_invD(7) [OF inv, of t] Nil by (simp add: local_view_def Let_def)
  have cnt: "of_nat (length (a # as)) = (of_nat (tp_localPoolSize s1) :: i32)" using len B n1 by simp
  have "tls_Alloc u d sz t b1 b2 p s = (a, put_local t pl2 s1)"
    using pl2(1) unfolding cnt by (simp add: tls_Alloc_def Let_def zero acq)
  moreover have "free_nodes locs (B # bks') = insert a (free_nodes (locs(t := as)) bks')" "a \<notin> free_nodes (locs(t := as)) bks'"
  proof -
    have "distinct B" using chain_distinct [OF chB] .
    then have "a \<notin> set as" using B by simp
    moreover have "free_nodes locs (B # bks') = free_nodes (locs(t := a # as)) bks'"
      unfolding free_nodes_def B using Nil by (auto split: if_splits) (metis empty_iff list.set(1))
    ultimately show "free_nodes locs (B # bks') = insert a (free_nodes (locs(t := as)) bks')" "a \<notin> free_nodes (locs(t := as)) bks'"
      using free_nodes_pop [OF d1, of t a as] by simp_all
  qed
  ultimately show ?thesis using pl2(2) F n1 by (intro exI [of _ a] exI [of _ "put_local t pl2 s1"] exI) simp
next
  case (Cons a as)
  have d1: "disj_lists (locs(t := a # as)) bks" using tls_invD(3) [OF inv] Cons by (metis fun_upd_triv)
  have view: "(local_view t s)\<lparr>pl_top := lo_top (get_local t s), pl_objectCount := of_nat (length (a # as))\<rparr> = local_view t s"
    using tls_invD(7) [OF inv, of t] Cons by (simp add: local_view_def Let_def)
  have "length (a # as) < 2 ^ 30" using tls_invD(2) [OF inv] tls_invD(6) [OF inv, of t] Cons by simp
  then have nz: "pl_objectCount (local_view t s) \<noteq> 0"
    using tls_invD(7) [OF inv, of t] Cons i32_count_zero [of "length (a # as)"] by (simp add: local_view_def Let_def del: of_nat_Suc)
  obtain pl2 where pl2: "sp_Alloc u d p (local_view t s) = (a, pl2)" "tls_inv (put_local t pl2 s) (locs(t := as)) bks"
    using take_head [OF inv d1, of "lo_top (get_local t s)" u d p] tls_invD(5,6) [OF inv, of t] Cons view by auto
  have "tls_Alloc u d sz t b1 b2 p s = (a, put_local t pl2 s)" using pl2(1) nz by (simp add: tls_Alloc_def Let_def)
  moreover have "a \<notin> set as" using chain_distinct [OF tls_invD(5) [OF inv, of t]] Cons by simp
  note free_nodes_pop [OF tls_invD(3) [OF inv] Cons this]
  ultimately show ?thesis using pl2(2) by (intro exI [of _ a] exI [of _ "put_local t pl2 s"] exI) auto
qed

lemma walk_chain:
  assumes "chain nx a (xs @ ys)" and "xs \<noteq> []"
  shows "walk nx (length xs - 1) a = last xs" and "chain nx (nx (last xs)) ys" and "chain (nx(last xs := 0)) a xs"
proof -
  have "walk nx (length xs - 1) a = last xs \<and> chain nx (nx (last xs)) ys \<and> chain (nx(last xs := 0)) a xs"
    using assms
  proof (induction xs arbitrary: a)
    case (Cons x xs)
    show ?case
    proof (cases "xs = []")
      case True
      then show ?thesis using Cons.prems by simp
    next
      case False
      have "chain nx (nx x) (xs @ ys)" using Cons.prems(1) by simp
      then have IH: "walk nx (length xs - 1) (nx x) = last xs" "chain nx (nx (last xs)) ys" "chain (nx(last xs := 0)) (nx x) xs"
        using Cons.IH False by blast+
      have "x \<notin> set xs" using chain_distinct [OF Cons.prems(1)] by simp
      then have "x \<noteq> last xs" using False by auto
      moreover obtain m where "length xs = Suc m" using False by (cases xs) auto
      ultimately show ?thesis using IH False Cons.prems(1) by (simp add: fun_upd_def)
    qed
  qed simp
  then show "walk nx (length xs - 1) a = last xs" "chain nx (nx (last xs)) ys" "chain (nx(last xs := 0)) a xs" by blast+
qed

lemma others_frame:
  assumes "others_ok t nx s locs" and "\<And>b. b \<notin> A \<Longrightarrow> nx' b = nx b" and "\<And>u. u \<noteq> t \<Longrightarrow> set (locs u) \<inter> A = {}"
  shows "others_ok t nx' s locs"
  using assms chain_frame unfolding others_ok_def by blast

lemma buckets_frame:
  assumes "list_all2 (\<lambda>c b. chain nx (cd_front c) b \<and> length b = n) cs bks" and "\<And>b. b \<notin> A \<Longrightarrow> nx' b = nx b"
    and "set (concat bks) \<inter> A = {}"
  shows "list_all2 (\<lambda>c b. chain nx' (cd_front c) b \<and> length b = n) cs bks"
  using assms(1,3)
proof (induction cs bks rule: list_all2_induct)
  case (Cons c cs b bks)
  have A: "set b \<inter> A = {}" "set (concat bks) \<inter> A = {}" using Cons.prems by auto
  have "chain nx' (cd_front c) b" using Cons.hyps(1) A(1) by (intro chain_frame [OF _ assms(2)]) simp_all
  then show ?case using Cons.hyps(1) Cons.IH [OF A(2)] by simp
qed simp

text \<open>The state after the object is back on the thread's list, before the bucket is given away.\<close>

lemma free_push:
  assumes inv: "tls_inv s locs bks" and a: "a \<notin> free_nodes locs bks" "a \<noteq> 0"
    and pl: "sp_Free u a (local_view t s) = (ok, pl)"
  shows "chain (pl_next pl) (pl_top pl) (a # locs t)" and "pl_objectCount pl = of_nat (Suc (length (locs t)))"
    and "others_ok t (pl_next pl) s locs"
    and "list_all2 (\<lambda>c b. chain (pl_next pl) (cd_front c) b \<and> length b = tp_localPoolSize s) (tp_nextBucket s) bks"
proof -
  have nx: "pl_next pl = (hp_next (tp_heap s))(a := lo_top (get_local t s))" and top: "pl_top pl = a"
      and cnt: "pl_objectCount pl = lo_objectCount (get_local t s) + 1"
    using pl by (auto simp: sp_Free_def local_view_def push_node_def Let_def)
  have outl: "a \<notin> set (locs u)" for u using a(1) unfolding free_nodes_def by blast
  have outb: "a \<notin> set (concat bks)" using a(1) unfolding free_nodes_def by blast
  show "chain (pl_next pl) (pl_top pl) (a # locs t)" using tls_invD(5) [OF inv, of t] outl [of t] a(2) by (simp add: nx top)
  show "pl_objectCount pl = of_nat (Suc (length (locs t)))" using tls_invD(7) [OF inv, of t] by (simp add: cnt)
  show "others_ok t (pl_next pl) s locs"
    using outl by (intro others_frame [OF tls_invD(4) [OF inv], of "{a}"]) (simp_all add: nx)
  show "list_all2 (\<lambda>c b. chain (pl_next pl) (cd_front c) b \<and> length b = tp_localPoolSize s) (tp_nextBucket s) bks"
    using outb by (intro buckets_frame [OF tls_invD(9) [OF inv], of "{a}"]) (simp_all add: nx)
qed

lemma count_compare:
  assumes "m \<le> 2 ^ 30" and "n < 2 ^ 28"
  shows "sint (of_nat m :: i32) > sint (of_nat n * 2 :: i32) \<longleftrightarrow> m > 2 * n"
proof -
  have "(of_nat n * 2 :: i32) = of_nat (2 * n)" by (simp add: mult.commute)
  moreover have "sint (of_nat m :: i32) = int m" using assms by (intro i32_of_nat_small) simp
  moreover have "sint (of_nat (2 * n) :: i32) = int (2 * n)" using assms by (intro i32_of_nat_small) simp
  ultimately show ?thesis by (simp only: of_nat_less_iff)
qed

lemma others_ReleaseNode [simp]: "others_ok t nx (ReleaseNode h e c (put_local t q s)) locs = others_ok t nx s locs"
  by (simp add: others_ok_def ReleaseNode_def get_local_def put_local_def)

lemma free_nodes_update:
  assumes "set as \<union> set (concat bks') = insert a (set (locs t) \<union> set (concat bks))"
  shows "free_nodes (locs(t := as)) bks' = insert a (free_nodes locs bks)"
proof -
  have split: "(\<Union>u. set (f u)) = set (f t) \<union> (\<Union>u\<in>- {t}. set (f u))" for f :: "nat \<Rightarrow> addr list" by auto
  have "(\<Union>u\<in>- {t}. set ((locs(t := as)) u)) = (\<Union>u\<in>- {t}. set (locs u))" by auto
  then have "free_nodes (locs(t := as)) bks' = (set as \<union> set (concat bks')) \<union> (\<Union>u\<in>- {t}. set (locs u))"
    using split [of "locs(t := as)"] unfolding free_nodes_def by auto
  then show ?thesis using split [of locs] assms unfolding free_nodes_def by auto
qed

lemma tls_Free_ok:
  assumes inv: "tls_inv s locs bks" and a: "a \<notin> free_nodes locs bks" "a \<noteq> 0"
  shows "\<exists>locs' bks'. tls_inv (tls_Free u t a s) locs' bks' \<and> tp_localPoolSize (tls_Free u t a s) = tp_localPoolSize s \<and>
    free_nodes locs' bks' = insert a (free_nodes locs bks)"
proof -
  obtain ok pl where pl: "sp_Free u a (local_view t s) = (ok, pl)" by (cases "sp_Free u a (local_view t s)")
  note push = free_push [OF inv a pl]
  let ?n = "tp_localPoolSize s" and ?L = "a # locs t"
  have n: "0 < ?n" "?n < 2 ^ 28" and len: "length (locs t) \<le> 2 * ?n" using tls_invD(1,2) [OF inv] tls_invD(6) [OF inv, of t] .
  have dL: "disj_lists (locs(t := ?L)) bks" by (rule disj_grow [OF tls_invD(3) [OF inv] a(1)])
  have cmp: "sint (pl_objectCount pl) > sint (of_nat ?n * 2 :: i32) \<longleftrightarrow> length ?L > 2 * ?n"
    unfolding push(2) using count_compare [of "length ?L" ?n] len n by simp
  show ?thesis
  proof (cases "length ?L > 2 * ?n")
    case False
    then have "tls_Free u t a s = put_local t pl s" using cmp by (simp add: tls_Free_def pl Let_def del: of_nat_Suc)
    moreover have "tls_inv (put_local t pl s) (locs(t := ?L)) bks"
      using put_local_inv [OF n dL push(3,1) _ _ tls_invD(8) [OF inv] push(4)] push(2) False by simp
    ultimately show ?thesis using free_nodes_update [of ?L bks a locs t bks] by auto
  next
    case True
    define xs ys where "xs = take ?n ?L" and "ys = drop ?n ?L"
    have L: "?L = xs @ ys" by (simp add: xs_def ys_def)
    have lx: "length xs = ?n" "length ys = Suc ?n" using True len n by (simp_all add: xs_def ys_def)
    then have "xs \<noteq> []" using n by auto
    note w = walk_chain [OF push(1) [unfolded L] this]
    have dist: "distinct (xs @ ys)" using chain_distinct [OF push(1)] L by simp
    define e where "e = last xs"
    have e: "e \<in> set xs" using \<open>xs \<noteq> []\<close> by (simp add: e_def)
    define pl1 where "pl1 = pl\<lparr>pl_next := (pl_next pl)(e := 0), pl_top := pl_next pl e\<rparr>"
    define s1 where "s1 = ReleaseNode (pl_top pl) e 1 (put_local t pl1 s)"
    define pl2 where "pl2 = pl1\<lparr>pl_objectCount := pl_objectCount pl1 - of_nat ?n\<rparr>"
    have res: "tls_Free u t a s = put_local t pl2 s1"
      using True cmp w(1) lx(1) by (simp add: tls_Free_def pl Let_def s1_def pl1_def pl2_def e_def del: of_nat_Suc)
    have nx: "pl_next pl2 = (pl_next pl)(e := 0)" "pl_top pl2 = pl_next pl e" by (simp_all add: pl2_def pl1_def)
    have eL: "e \<in> set ((locs(t := ?L)) t)" using e L by (simp del: list.set)
    have out: "e \<notin> set (concat bks)" using disj_listsD(2) [OF dL eL] .
    have outu: "e \<notin> set (locs v)" if "v \<noteq> t" for v using disj_listsD(3) [OF dL eL that] that by simp
    have "tls_inv (put_local t pl2 s1) (locs(t := ys)) (xs # bks)"
    proof (rule put_local_inv)
      show "0 < tp_localPoolSize s1" "tp_localPoolSize s1 < 2 ^ 28" using n by (simp_all add: s1_def ReleaseNode_def)
      show "disj_lists (locs(t := ys)) (xs # bks)" using disj_give_bucket [OF dL, of t xs ys] dist L by simp
      show "others_ok t (pl_next pl2) s1 locs" unfolding s1_def others_ReleaseNode
        using outu by (intro others_frame [OF push(3), of "{e}"]) (simp_all add: nx)
      have "e \<notin> set ys" using dist e by auto
      then show "chain (pl_next pl2) (pl_top pl2) ys" using w(2) by (simp add: nx e_def)
      show "length ys \<le> 2 * tp_localPoolSize s1" using lx n by (simp add: s1_def ReleaseNode_def)
      show "pl_objectCount pl2 = of_nat (length ys)"
        using lx push(2) L by (metis (no_types, lifting) pl2_def pl1_def pool.select_convs(4) pool.surjective pool.update_convs(1,3,4) add_diff_cancel_left' length_Cons length_append of_nat_add)
      show "tp_pooledNodeSize s1 = of_nat (length (xs # bks))" using tls_invD(8) [OF inv] by (simp add: s1_def ReleaseNode_def)
      have "list_all2 (\<lambda>c b. chain (pl_next pl2) (cd_front c) b \<and> length b = ?n) (tp_nextBucket s) bks"
        using out by (intro buckets_frame [OF push(4), of "{e}"]) (simp_all add: nx)
      moreover have "chain (pl_next pl2) (pl_top pl) xs" using w(3) by (simp add: nx e_def)
      ultimately show "list_all2 (\<lambda>c b. chain (pl_next pl2) (cd_front c) b \<and> length b = tp_localPoolSize s1) (tp_nextBucket s1) (xs # bks)"
        using lx by (simp add: s1_def ReleaseNode_def)
    qed
    moreover have "set ys \<union> set (concat (xs # bks)) = insert a (set (locs t) \<union> set (concat bks))"
      using arg_cong [OF L, of set] by auto
    note free_nodes_update [of ys "xs # bks" a locs t bks, OF this]
    ultimately show ?thesis unfolding res by (intro exI conjI) (auto simp: s1_def ReleaseNode_def)
  qed
qed

subsection \<open>Clients on many threads\<close>

text \<open>
  A run of allocations and returns by the threads. \<open>None\<close> is a thread that gives back an object nobody owns, or a
  runtime that hands out memory in use.
\<close>

datatype tls_op = TAlloc nat addr addr addr | TFree nat addr

fun tls_run :: "bool \<Rightarrow> 'a \<Rightarrow> u64 \<Rightarrow> tls_op list \<Rightarrow> 'a tlspool \<Rightarrow> addr list \<Rightarrow> addr list \<Rightarrow> (addr list \<times> 'a tlspool) option" where
  "tls_run u d sz [] s own known = Some (own, s)"
| "tls_run u d sz (TAlloc t b1 b2 p # ops) s own known =
     (let n = tp_localPoolSize s
      in if bases_ok sz n b1 b2 (set known)
         then (let (a, s') = tls_Alloc u d sz t b1 b2 p s
               in tls_run u d sz ops s' (a # own) (node_addrs sz n b1 @ node_addrs sz n b2 @ known))
         else None)"
| "tls_run u d sz (TFree t a # ops) s own known =
     (if a \<in> set own then tls_run u d sz ops (tls_Free u t a s) (remove1 a own) known else None)"

definition tls_safe :: "'a tlspool \<Rightarrow> addr list \<Rightarrow> addr set \<Rightarrow> bool" where
  "tls_safe s own K \<longleftrightarrow> distinct own \<and> 0 \<notin> set own \<and>
     (\<exists>locs bks. tls_inv s locs bks \<and> set own \<inter> free_nodes locs bks = {} \<and> K \<subseteq> set own \<union> free_nodes locs bks)"

lemma free_nodes_nonnull:
  assumes "tls_inv s locs bks"
  shows "0 \<notin> free_nodes locs bks"
proof -
  have "0 \<notin> set (locs t)" for t using chain_no_null [OF tls_invD(5) [OF assms, of t]] .
  moreover have "0 \<notin> set b" if "b \<in> set bks" for b
    using tls_invD(9) [OF assms] that by (metis (no_types, lifting) chain_no_null in_set_conv_nth list_all2_conv_all_nth)
  ultimately show ?thesis by (auto simp: free_nodes_def)
qed

lemma tls_run_safe:
  assumes "tls_run u d sz ops s own known = Some (own', s')" and "distinct own" and "0 \<notin> set own"
    and "tls_inv s locs bks" and "set own \<inter> free_nodes locs bks = {}" and "set own \<union> free_nodes locs bks \<subseteq> set known"
    and "K \<subseteq> set own \<union> free_nodes locs bks"
  shows "tls_safe s' own' K"
  using assms
proof (induction ops arbitrary: s own known locs bks)
  case Nil
  then show ?case by (auto simp: tls_safe_def)
next
  case (Cons op ops)
  let ?n = "tp_localPoolSize s"
  show ?case
  proof (cases op)
    case (TAlloc t b1 b2 p)
    define A where "A = node_addrs sz ?n b1 @ node_addrs sz ?n b2"
    have ok: "bases_ok sz ?n b1 b2 (set known)" using Cons.prems(1) TAlloc by (auto simp: Let_def split: if_splits)
    then have "bases_ok sz ?n b1 b2 (free_nodes locs bks)" using Cons.prems(6) by (auto simp: bases_ok_def)
    then obtain a s1 locs' bks' where al: "tls_Alloc u d sz t b1 b2 p s = (a, s1)" and inv: "tls_inv s1 locs' bks'"
        and a: "a \<notin> free_nodes locs' bks'" "free_nodes locs bks \<subseteq> insert a (free_nodes locs' bks')"
          "insert a (free_nodes locs' bks') \<subseteq> free_nodes locs bks \<union> set A"
      using tls_Alloc_ok [OF Cons.prems(4)] unfolding A_def by metis
    have run: "tls_run u d sz ops s1 (a # own) (A @ known) = Some (own', s')"
      using Cons.prems(1) TAlloc ok al by (simp add: A_def Let_def)
    have A0: "set A \<inter> set known = {}" "0 \<notin> set A" using ok by (auto simp: bases_ok_def A_def)
    have "a \<notin> set own" "a \<noteq> 0" using a(3) A0 Cons.prems(5,6) free_nodes_nonnull [OF Cons.prems(4)] by auto
    moreover have "set own \<inter> free_nodes locs' bks' = {}" using a(3) A0(1) Cons.prems(5,6) by blast
    ultimately show ?thesis using Cons.prems(2,3,6,7) a by (intro Cons.IH [OF run _ _ inv]) auto
  next
    case (TFree t a)
    have a: "a \<in> set own" and run: "tls_run u d sz ops (tls_Free u t a s) (remove1 a own) known = Some (own', s')"
      using Cons.prems(1) TFree by (auto split: if_splits)
    have "a \<notin> free_nodes locs bks" "a \<noteq> 0" using a Cons.prems(3,5) by auto
    then obtain locs' bks' where inv: "tls_inv (tls_Free u t a s) locs' bks'" and fr: "free_nodes locs' bks' = insert a (free_nodes locs bks)"
      using tls_Free_ok [OF Cons.prems(4)] by blast
    have own: "set (remove1 a own) = set own - {a}" using Cons.prems(2) by simp
    show ?thesis using Cons.prems a by (intro Cons.IH [OF run _ _ inv]) (auto simp: own fr)
  qed
qed

lemma tls_new_fold:
  assumes "0 < n" and "distinct (concat (map (node_addrs sz n) (rev bs) @ bks))"
    and "0 \<notin> set (concat (map (node_addrs sz n) bs))"
    and "list_all2 (\<lambda>c b. chain (hp_next h) (cd_front c) b \<and> length b = n) cs bks"
    and "fold (\<lambda>b (cs, h). let (c, h') = MakeControl d sz n b h in (c # cs, h')) bs (cs, h) = (cs', h')"
  shows "list_all2 (\<lambda>c b. chain (hp_next h') (cd_front c) b \<and> length b = n) cs' (map (node_addrs sz n) (rev bs) @ bks)"
  using assms
proof (induction bs arbitrary: cs h bks)
  case Nil
  then show ?case by simp
next
  case (Cons b bs)
  obtain c h1 where mk: "MakeControl d sz n b h = (c, h1)" by (cases "MakeControl d sz n b h")
  let ?A = "node_addrs sz n b"
  have A: "distinct ?A" "0 \<notin> set ?A" "set ?A \<inter> set (concat bks) = {}" using Cons.prems(2,3) by auto
  note mc = MakeControl_chain [OF Cons.prems(1) A(1,2) mk]
  have "list_all2 (\<lambda>c b. chain (hp_next h1) (cd_front c) b \<and> length b = n) cs bks"
    using A(3) by (intro buckets_frame [OF Cons.prems(4) mc(2)]) auto
  then have "list_all2 (\<lambda>c b. chain (hp_next h1) (cd_front c) b \<and> length b = n) (c # cs) (?A # bks)" using mc(1) by simp
  then show ?case using Cons.IH [of "?A # bks" h1 "c # cs"] Cons.prems mk by simp
qed

lemma tls_new_inv:
  assumes "0 < n" and "n < 2 ^ 28" and "distinct (concat (map (node_addrs sz n) (rev bases)))"
    and "0 \<notin> set (concat (map (node_addrs sz n) bases))"
  shows "tls_inv (tls_new d sz n bases) (\<lambda>_. []) (map (node_addrs sz n) (rev bases)) \<and> tp_localPoolSize (tls_new d sz n bases) = n"
proof -
  obtain cs h where f: "fold (\<lambda>b (cs, h). let (c, h') = MakeControl d sz n b h in (c # cs, h')) bases
      ([], \<lparr>hp_next = (\<lambda>_. 0), hp_data = (\<lambda>_. None)\<rparr>) = (cs, h)" by fastforce
  then have "list_all2 (\<lambda>c b. chain (hp_next h) (cd_front c) b \<and> length b = n) cs (map (node_addrs sz n) (rev bases))"
    using tls_new_fold [OF assms(1) _ assms(4) _ f, of "[]"] assms(3) by simp
  then show ?thesis
    using assms f by (auto simp: tls_inv_def tls_new_def get_local_def disj_lists_def Let_def)
qed

subsection \<open>Properties\<close>



end
