(* ===== verification/Lockfree_Queue.thy ===== *)
theory Lockfree_Queue
  imports Lockfree_Stack
begin

section \<open>The linked lock-free queues\<close>

text \<open>
  \<^verbatim>\<open>LockFreeQueue.h\<close>, \<^verbatim>\<open>TLSLockFreeQueue.h\<close> and \<^verbatim>\<open>TLSLockFreeQueue2.h\<close>: a linked queue with a dummy node whose
  pointers carry a counter in their high bits. The calls are modelled run alone, including the rounds in which
  an enqueue first has to move a tail that lags behind. The address of a new node is what the node pool
  returns; a dequeue gives its old dummy back to the pool. The end of the list is marked by \<open>lq_queueId\<close>: null
  in \<^verbatim>\<open>LockFreeQueue\<close>, the number of the queue in \<^verbatim>\<open>TLSLockFreeQueue\<close>.
\<close>

subsection \<open>State and operations\<close>

record 'a lqueue =
  lq_next :: "addr \<Rightarrow> u64"
  lq_data :: "addr \<Rightarrow> 'a"
  lq_head :: u64
  lq_tail :: u64
  lq_size :: i32
  lq_tailCount :: u16
  lq_queueId :: u64

text \<open>\<^verbatim>\<open>newNode | (unsigned long long)count << 47\<close>; the 16-bit counter is signed and is extended first.\<close>

definition tag_tail :: "addr \<Rightarrow> u16 \<Rightarrow> u64" where
  "tag_tail newNode count = newNode OR push_bit 47 (scast count)"

partial_function (option) enq_loop :: "u64 \<Rightarrow> nat \<Rightarrow> 'a lqueue \<Rightarrow> (nat \<times> 'a lqueue) option" where
  "enq_loop newTail loop s =
     (let tail = lq_tail s; tailNode = ptr_of tail
      in if lq_next s tailNode = lq_queueId s
         then Some (loop, s\<lparr>lq_next := (lq_next s)(tailNode := newTail), lq_tail := newTail\<rparr>)
         else enq_loop newTail (Suc loop) (s\<lparr>lq_tail := lq_next s tailNode\<rparr>))"

definition tq_new :: "u64 \<Rightarrow> (addr \<Rightarrow> u64) \<Rightarrow> (addr \<Rightarrow> 'a) \<Rightarrow> addr \<Rightarrow> 'a lqueue" where
  "tq_new queueId nx dat dummy =
     \<lparr>lq_next = nx(dummy := queueId), lq_data = dat, lq_head = dummy, lq_tail = dummy, lq_size = 0, lq_tailCount = 0,
      lq_queueId = queueId\<rparr>"

definition tq_Enqueue :: "'a \<Rightarrow> addr \<Rightarrow> 'a lqueue \<Rightarrow> 'a lqueue option" where
  "tq_Enqueue data p s =
     (let s1 = s\<lparr>lq_data := (lq_data s)(p := data), lq_next := (lq_next s)(p := lq_queueId s)\<rparr>;
          headCount = lq_tailCount s1 + 1;
          newTail = tag_tail p headCount
      in Option.bind (enq_loop newTail 0 (s1\<lparr>lq_tailCount := headCount\<rparr>))
           (\<lambda>(_, s2). Some (s2\<lparr>lq_size := lq_size s2 + 1\<rparr>)))"

text \<open>The node given back to the pool is the third component.\<close>

definition tq_Dequeue :: "'a lqueue \<Rightarrow> 'a option \<times> 'a lqueue \<times> addr option" where
  "tq_Dequeue s =
     (if lq_size s = 0 then (None, s, None)
      else
        (let head = lq_head s; headNode = ptr_of head;
             nxt = lq_next s headNode; nextNode = ptr_of nxt
         in if nextNode < 64000 then (None, s, None)
            else
              (let tail = lq_tail s;
                   s1 = s\<lparr>lq_head := nxt\<rparr>;
                   s2 = (if tail = head then s1\<lparr>lq_tail := lq_next s1 (ptr_of tail)\<rparr> else s1)
               in (Some (lq_data s nextNode), s2\<lparr>lq_size := lq_size s2 - 1\<rparr>, Some headNode))))"

definition lfq_new :: "(addr \<Rightarrow> u64) \<Rightarrow> (addr \<Rightarrow> 'a) \<Rightarrow> addr \<Rightarrow> 'a lqueue" where
  "lfq_new nx dat dummy =
     \<lparr>lq_next = nx(dummy := 0), lq_data = dat, lq_head = dummy, lq_tail = dummy, lq_size = 0, lq_tailCount = 0,
      lq_queueId = 0\<rparr>"

text \<open>\<^verbatim>\<open>LockFreeQueue::Enqueue\<close> returns the number of rounds it lost.\<close>

definition lfq_Enqueue :: "'a \<Rightarrow> addr \<Rightarrow> 'a lqueue \<Rightarrow> (nat \<times> 'a lqueue) option" where
  "lfq_Enqueue data p s =
     (let s1 = s\<lparr>lq_data := (lq_data s)(p := data), lq_next := (lq_next s)(p := 0)\<rparr>;
          nextTailCount = lq_tailCount s1 + 1;
          newTail = tag_tail p nextTailCount
      in Option.bind (enq_loop newTail 0 (s1\<lparr>lq_tailCount := nextTailCount\<rparr>))
           (\<lambda>(loop, s2). Some (loop, s2\<lparr>lq_size := lq_size s2 + 1\<rparr>)))"

text \<open>
  \<^verbatim>\<open>LockFreeQueue::Dequeue\<close> returns an \<^verbatim>\<open>int\<close>: -1 when the size is zero, the number of lost rounds after a success, and
  \<^verbatim>\<open>false\<close>, that is 0, when the dummy has no successor. The second component is what was written to \<^verbatim>\<open>data\<close>.
\<close>

definition lfq_Dequeue :: "'a lqueue \<Rightarrow> int \<times> 'a option \<times> 'a lqueue \<times> addr option" where
  "lfq_Dequeue s =
     (if lq_size s = 0 then (- 1, None, s, None)
      else
        (let head = lq_head s; headNode = ptr_of head;
             nxt = lq_next s headNode; nextNode = ptr_of nxt
         in if nxt = 0 then (0, None, s, None)
            else
              (let tail = lq_tail s;
                   s1 = s\<lparr>lq_head := nxt\<rparr>;
                   s2 = (if tail = head then s1\<lparr>lq_tail := lq_next s1 (ptr_of tail)\<rparr> else s1)
               in (0, Some (lq_data s nextNode), s2\<lparr>lq_size := lq_size s2 - 1\<rparr>, Some headNode))))"

subsection \<open>The list of nodes\<close>

primrec qpath :: "(addr \<Rightarrow> u64) \<Rightarrow> u64 \<Rightarrow> addr list \<Rightarrow> u64 \<Rightarrow> bool" where
  "qpath nx w [] e \<longleftrightarrow> w = e"
| "qpath nx w (n # ns) e \<longleftrightarrow> ptr_of w = n \<and> w \<noteq> e \<and> qpath nx (nx n) ns e"

text \<open>
  The nodes are \<open>n # ns\<close>, \<open>n\<close> the dummy, and hold the values \<open>xs\<close>. The tail pointer is the pointer to some node of the list.
\<close>

definition node_ok :: "u64 \<Rightarrow> addr \<Rightarrow> bool" where
  "node_ok e a \<longleftrightarrow> a AND pointerMask = a \<and> 64000 \<le> a \<and> e < 64000"

definition queue_inv :: "'a lqueue \<Rightarrow> addr list \<Rightarrow> 'a list \<Rightarrow> bool" where
  "queue_inv s ns xs \<longleftrightarrow> (\<exists>n ms us v vs. ns = n # ms \<and> ns = us @ v # vs \<and> qpath (lq_next s) (lq_head s) ns (lq_queueId s) \<and>
     lq_tail s = (if us = [] then lq_head s else lq_next s (last us)) \<and> distinct ns \<and>
     (\<forall>a\<in>set ns. node_ok (lq_queueId s) a) \<and> xs = map (lq_data s) ms \<and> lq_size s = of_nat (length xs) \<and> length xs < 2 ^ 31)"

lemma qpath_upd: "b \<notin> set ns \<Longrightarrow> qpath (nx(b := c)) w ns e = qpath nx w ns e"
  by (induction ns arbitrary: w) auto

lemma qpath_append:
  "qpath nx w (us @ vs) e \<Longrightarrow> vs \<noteq> [] \<Longrightarrow> qpath nx (if us = [] then w else nx (last us)) vs e"
proof (induction us arbitrary: w)
  case (Cons u us)
  then have "qpath nx (if us = [] then nx u else nx (last us)) vs e" by simp
  then show ?case by (cases "us = []") simp_all
qed simp

lemma tag_tail_ptr:
  assumes "a AND pointerMask = a"
  shows "ptr_of (tag_tail a c) = a"
proof -
  have b: "bit a n \<Longrightarrow> n < 47" for n by (rule untagged_bits [OF assms])
  show ?thesis
    using b by (intro bit_word_eqI) (auto simp: ptr_of_def tag_tail_def pointerMask_mask bit_simps)
qed

lemma node_ok_pointer:
  assumes "node_ok e a" and "ptr_of w = a"
  shows "w \<noteq> e"
proof
  assume "w = e"
  then have "e < 64000" "64000 \<le> e AND pointerMask" using assms by (simp_all add: node_ok_def ptr_of_def)
  moreover have "e AND pointerMask \<le> e" by (rule word_and_le2)
  ultimately show False by simp
qed

text \<open>An enqueue moves a lagging tail to the end of the list and links the new node there.\<close>

lemma enq_loop_ends:
  assumes "qpath (lq_next s) (lq_tail s) (v # vs) (lq_queueId s)"
  shows "enq_loop nt k s = Some (k + length vs,
    s\<lparr>lq_next := (lq_next s)(last (v # vs) := nt), lq_tail := nt\<rparr>)"
  using assms
proof (induction vs arbitrary: v s k)
  case Nil
  then show ?case by (subst enq_loop.simps) (simp add: Let_def)
next
  case (Cons u us)
  let ?s = "s\<lparr>lq_tail := lq_next s (ptr_of (lq_tail s))\<rparr>"
  have "lq_next s (ptr_of (lq_tail s)) \<noteq> lq_queueId s" using Cons.prems by auto
  moreover have "enq_loop nt (Suc k) ?s = Some (Suc k + length us, ?s\<lparr>lq_next := (lq_next ?s)(last (u # us) := nt), lq_tail := nt\<rparr>)"
  proof (rule Cons.IH)
    show "qpath (lq_next ?s) (lq_tail ?s) (u # us) (lq_queueId ?s)" using Cons.prems by auto
  qed
  ultimately show ?case by (subst enq_loop.simps) (simp add: Let_def fun_upd_def)
qed

lemma qpath_link:
  assumes "qpath nx w (ns @ [l]) e" and "distinct (ns @ [l])" and "p \<notin> set (ns @ [l])" and "ptr_of nt = p" and "nt \<noteq> e" and "nx p = e"
  shows "qpath (nx(l := nt)) w (ns @ [l, p]) e"
  using assms(1-3)
proof (induction ns arbitrary: w)
  case Nil
  then show ?case using assms(4-6) by auto
next
  case (Cons n ns)
  have "qpath (nx(l := nt)) (nx n) (ns @ [l, p]) e" by (rule Cons.IH) (use Cons.prems in simp_all)
  then show ?case using Cons.prems by (auto simp: fun_upd_def)
qed

text \<open>Appending a node.\<close>

lemma link_inv:
  assumes inv: "queue_inv s ns xs" and p: "node_ok (lq_queueId s) p" "p \<notin> set ns" and room: "Suc (length xs) < 2 ^ 31"
    and s1: "s1 = s\<lparr>lq_data := (lq_data s)(p := x), lq_next := (lq_next s)(p := lq_queueId s), lq_tailCount := c\<rparr>"
  shows "\<exists>k s2. enq_loop (tag_tail p c) 0 s1 = Some (k, s2) \<and> lq_queueId s2 = lq_queueId s \<and>
    queue_inv (s2\<lparr>lq_size := lq_size s2 + 1\<rparr>) (ns @ [p]) (xs @ [x])"
proof -
  obtain n ms us v vs where ns: "ns = n # ms" "ns = us @ v # vs" and h: "qpath (lq_next s) (lq_head s) ns (lq_queueId s)"
      and t: "lq_tail s = (if us = [] then lq_head s else lq_next s (last us))" and d: "distinct ns"
      and ok: "\<forall>a\<in>set ns. node_ok (lq_queueId s) a" and xs: "xs = map (lq_data s) ms" "lq_size s = of_nat (length xs)"
    using inv unfolding queue_inv_def by blast
  let ?e = "lq_queueId s" and ?nt = "tag_tail p c" and ?l = "last (v # vs)"
  have pv: "p \<notin> set (v # vs)" using p(2) ns(2) by simp
  have "qpath (lq_next s) (lq_tail s) (v # vs) ?e" using qpath_append [of "lq_next s" "lq_head s" us "v # vs"] h ns(2) t by simp
  then have t1: "qpath (lq_next s1) (lq_tail s1) (v # vs) (lq_queueId s1)"
    unfolding s1 using qpath_upd [OF pv, of "lq_next s" "?e" "lq_tail s" ?e] by simp
  define s2 where "s2 = s1\<lparr>lq_next := (lq_next s1)(?l := ?nt), lq_tail := ?nt\<rparr>"
  have loop: "enq_loop ?nt 0 s1 = Some (length vs, s2)" using enq_loop_ends [OF t1, of ?nt 0] by (simp add: s2_def)
  have nt: "ptr_of ?nt = p" using p(1) by (intro tag_tail_ptr) (simp add: node_ok_def)
  then have nte: "?nt \<noteq> ?e" using node_ok_pointer [OF p(1)] by blast
  obtain bs where bs: "ns = bs @ [?l]" using ns by (metis append_butlast_last_id last_appendR list.distinct(1))
  have h1: "qpath (lq_next s1) (lq_head s) ns ?e" unfolding s1 using h qpath_upd [OF p(2), of "lq_next s" "?e" "lq_head s" ?e] by simp
  have "qpath ((lq_next s1)(?l := ?nt)) (lq_head s) (bs @ [?l, p]) ?e"
  proof (rule qpath_link)
    show "qpath (lq_next s1) (lq_head s) (bs @ [?l]) ?e" "distinct (bs @ [?l])" "p \<notin> set (bs @ [?l])"
      using h1 d p(2) bs by simp_all
    show "ptr_of ?nt = p" "?nt \<noteq> ?e" "lq_next s1 p = ?e" using nt nte by (simp_all add: s1)
  qed
  moreover have "ns @ [p] = bs @ [?l, p]" using bs by (metis append.assoc append_Cons append_Nil)
  ultimately have head: "qpath (lq_next s2) (lq_head s2) (ns @ [p]) (lq_queueId s2)" by (simp add: s2_def s1)
  have tail: "lq_tail s2 = lq_next s2 (last ns)" using bs by (simp add: s2_def ns(2))
  have "p \<notin> set ms" using p(2) ns(1) by simp
  then have vals: "xs @ [x] = map (lq_data s2) (ms @ [p])" by (auto simp: s2_def s1 xs)
  have sz: "lq_size s2 + 1 = of_nat (length (xs @ [x]))" "lq_queueId s2 = ?e" by (simp_all add: s2_def s1 xs(2))
  have "queue_inv (s2\<lparr>lq_size := lq_size s2 + 1\<rparr>) (ns @ [p]) (xs @ [x])"
    unfolding queue_inv_def
  proof (intro exI conjI)
    show "ns @ [p] = n # (ms @ [p])" "ns @ [p] = ns @ p # []" using ns(1) by simp_all
    show "qpath (lq_next (s2\<lparr>lq_size := lq_size s2 + 1\<rparr>)) (lq_head (s2\<lparr>lq_size := lq_size s2 + 1\<rparr>)) (ns @ [p]) (lq_queueId (s2\<lparr>lq_size := lq_size s2 + 1\<rparr>))"
      using head by simp
  qed (use tail ns(1) d p ok vals sz room in auto)
  then show ?thesis using loop sz(2) by blast
qed

text \<open>Unlinking the dummy: its successor becomes the dummy.\<close>

definition unlink :: "'a lqueue \<Rightarrow> 'a lqueue" where
  "unlink s = (let head = lq_head s; tail = lq_tail s; s1 = s\<lparr>lq_head := lq_next s (ptr_of head)\<rparr>;
     s2 = (if tail = head then s1\<lparr>lq_tail := lq_next s1 (ptr_of tail)\<rparr> else s1)
   in s2\<lparr>lq_size := lq_size s2 - 1\<rparr>)"

lemma unlink_inv:
  assumes inv: "queue_inv s ns (x # xs)"
  shows "\<exists>n m ms. ns = n # m # ms \<and> ptr_of (lq_head s) = n \<and> ptr_of (lq_next s n) = m \<and> lq_data s m = x \<and> lq_size s \<noteq> 0 \<and>
    lq_next s n \<noteq> 0 \<and> \<not> m < 64000 \<and> queue_inv (unlink s) (m # ms) xs"
proof -
  obtain n ks us v vs where ns: "ns = n # ks" "ns = us @ v # vs" and h: "qpath (lq_next s) (lq_head s) ns (lq_queueId s)"
      and t: "lq_tail s = (if us = [] then lq_head s else lq_next s (last us))" and d: "distinct ns"
      and ok: "\<forall>a\<in>set ns. node_ok (lq_queueId s) a" and vals: "x # xs = map (lq_data s) ks"
      and sz: "lq_size s = of_nat (length (x # xs))" "length (x # xs) < 2 ^ 31"
    using inv unfolding queue_inv_def by (elim exE conjE)
  obtain m ms where ks: "ks = m # ms" using vals by (cases ks) auto
  have hn: "ptr_of (lq_head s) = n" "ptr_of (lq_next s n) = m" "qpath (lq_next s) (lq_next s n) (m # ms) (lq_queueId s)"
    using h ns ks by auto
  have m: "node_ok (lq_queueId s) m" using ok ns ks by simp
  have nz: "lq_size s \<noteq> 0" using i32_of_nat_small(1) [OF sz(2)] sz(1) by auto
  have "lq_next s n \<noteq> 0" using hn(2) m by (auto simp: node_ok_def)
  have sel: "lq_next (unlink s) = lq_next s" "lq_head (unlink s) = lq_next s n" "lq_data (unlink s) = lq_data s"
      "lq_queueId (unlink s) = lq_queueId s" "lq_size (unlink s) = of_nat (length xs)"
      "lq_tail (unlink s) = (if lq_tail s = lq_head s then lq_next s n else lq_tail s)"
    by (simp_all add: unlink_def Let_def hn(1) sz(1))
  have rest: "distinct (m # ms)" "\<forall>a\<in>set (m # ms). node_ok (lq_queueId s) a" "xs = map (lq_data s) ms" "length xs < 2 ^ 31"
    using d ok vals sz(2) ns(1) ks by simp_all
  have "\<exists>us' v vs. m # ms = us' @ v # vs \<and> lq_tail (unlink s) = (if us' = [] then lq_next s n else lq_next s (last us'))"
  proof (cases us)
    case Nil
    then have "lq_tail (unlink s) = lq_next s n" using t by (simp add: sel)
    then show ?thesis by (intro exI [of _ "[]"]) auto
  next
    case (Cons u us')
    then have us': "m # ms = us' @ v # vs" "u = n" using ns ks by simp_all
    have tl: "lq_tail s = (if us' = [] then lq_next s n else lq_next s (last us'))" using t Cons us'(2) by simp
    have "qpath (lq_next s) (lq_tail s) (v # vs) (lq_queueId s)"
      using qpath_append [of "lq_next s" "lq_head s" us "v # vs"] h ns(2) t by simp
    then have "ptr_of (lq_tail s) = v" by simp
    moreover have "v \<noteq> n" using d ns Cons us'(2) by auto
    ultimately have "lq_tail s \<noteq> lq_head s" using hn(1) by auto
    then show ?thesis using tl us'(1) by (intro exI [of _ us'] exI [of _ v] exI [of _ vs]) (simp add: sel)
  qed
  then obtain us' v' vs' where "m # ms = us' @ v' # vs'" "lq_tail (unlink s) = (if us' = [] then lq_next s n else lq_next s (last us'))"
    by blast
  then have "queue_inv (unlink s) (m # ms) xs"
    unfolding queue_inv_def sel(1-5) using rest hn(3) by blast
  then show ?thesis using hn m nz \<open>lq_next s n \<noteq> 0\<close> vals ks ns by (auto simp: node_ok_def)
qed

subsection \<open>The contract of a queue of linked nodes\<close>

datatype 'a queue_op = QEnq 'a addr | QDeq

fun list_queue_run :: "'a queue_op list \<Rightarrow> 'a list \<Rightarrow> 'a option list" where
  "list_queue_run [] xs = []"
| "list_queue_run (QEnq x p # ops) xs = list_queue_run ops (xs @ [x])"
| "list_queue_run (QDeq # ops) [] = None # list_queue_run ops []"
| "list_queue_run (QDeq # ops) (x # xs) = Some x # list_queue_run ops xs"

fun queue_run :: "('a \<Rightarrow> addr \<Rightarrow> 's \<Rightarrow> 's option) \<Rightarrow> ('s \<Rightarrow> 'a option \<times> 's) \<Rightarrow> 'a queue_op list \<Rightarrow> 's \<Rightarrow> 'a option list option" where
  "queue_run enq deq [] s = Some []"
| "queue_run enq deq (QEnq x p # ops) s = Option.bind (enq x p s) (queue_run enq deq ops)"
| "queue_run enq deq (QDeq # ops) s = (let (r, s') = deq s in Option.bind (queue_run enq deq ops s') (\<lambda>rs. Some (r # rs)))"

text \<open>
  The pool never returns a node that is linked into the queue; a node that has left the queue may come back. \<open>ns\<close>
  are the nodes of the queue, the dummy first.
\<close>

fun nodes_fresh :: "(addr \<Rightarrow> bool) \<Rightarrow> 'a queue_op list \<Rightarrow> addr list \<Rightarrow> bool" where
  "nodes_fresh ok [] ns \<longleftrightarrow> True"
| "nodes_fresh ok (QEnq x p # ops) ns \<longleftrightarrow> ok p \<and> p \<notin> set ns \<and> nodes_fresh ok ops (ns @ [p])"
| "nodes_fresh ok (QDeq # ops) ns \<longleftrightarrow> nodes_fresh ok ops (if length ns \<le> 1 then ns else tl ns)"

locale linked_fifo =
  fixes enq :: "'a \<Rightarrow> addr \<Rightarrow> 's \<Rightarrow> 's option"
    and deq :: "'s \<Rightarrow> 'a option \<times> 's"
    and inv :: "'s \<Rightarrow> addr list \<Rightarrow> 'a list \<Rightarrow> bool"
    and ok :: "addr \<Rightarrow> bool"
  assumes nodes: "inv s ns xs \<Longrightarrow> length ns = Suc (length xs)"
    and enq_app: "inv s ns xs \<Longrightarrow> ok p \<Longrightarrow> p \<notin> set ns \<Longrightarrow> Suc (length xs) < 2 ^ 31 \<Longrightarrow>
      \<exists>s'. enq x p s = Some s' \<and> inv s' (ns @ [p]) (xs @ [x])"
    and deq_some: "inv s ns (x # xs) \<Longrightarrow> \<exists>s'. deq s = (Some x, s') \<and> inv s' (tl ns) xs"
    and deq_none: "inv s ns [] \<Longrightarrow> deq s = (None, s)"
begin

lemma run_fifo:
  assumes "inv s ns xs" and "nodes_fresh ok ops ns" and "length xs + length ops < 2 ^ 31"
  shows "queue_run enq deq ops s = Some (list_queue_run ops xs)"
  using assms
proof (induction ops xs arbitrary: s ns rule: list_queue_run.induct)
  case (1 xs)
  then show ?case by simp
next
  case (2 x p ops xs)
  then obtain s' where "enq x p s = Some s'" "inv s' (ns @ [p]) (xs @ [x])" using enq_app [of s ns xs p x] by auto
  then show ?case using 2 by simp
next
  case (3 ops)
  have "length ns = 1" using nodes [OF 3(2)] by simp
  then show ?case using 3 deq_none [OF 3(2)] by simp
next
  case (4 ops x xs)
  obtain s' where s': "deq s = (Some x, s')" "inv s' (tl ns) xs" using deq_some [OF 4(2)] by blast
  have "\<not> length ns \<le> 1" using nodes [OF 4(2)] by simp
  then have "queue_run enq deq ops s' = Some (list_queue_run ops xs)" using 4 s'(2) by simp
  then show ?case using s'(1) by simp
qed

end

abbreviation tq_deq :: "'a lqueue \<Rightarrow> 'a option \<times> 'a lqueue" where
  "tq_deq s \<equiv> (case tq_Dequeue s of (r, s', _) \<Rightarrow> (r, s'))"

abbreviation lfq_enq :: "'a \<Rightarrow> addr \<Rightarrow> 'a lqueue \<Rightarrow> 'a lqueue option" where
  "lfq_enq x p s \<equiv> map_option snd (lfq_Enqueue x p s)"

abbreviation lfq_deq :: "'a lqueue \<Rightarrow> 'a option \<times> 'a lqueue" where
  "lfq_deq s \<equiv> (case lfq_Dequeue s of (_, r, s', _) \<Rightarrow> (r, s'))"

definition tagged_queue :: "u64 \<Rightarrow> 'a lqueue \<Rightarrow> addr list \<Rightarrow> 'a list \<Rightarrow> bool" where
  "tagged_queue e s ns xs \<longleftrightarrow> queue_inv s ns xs \<and> lq_queueId s = e"

lemma queue_inv_nodes:
  assumes "queue_inv s ns xs"
  shows "length ns = Suc (length xs)"
proof -
  obtain n ms where "ns = n # ms" "xs = map (lq_data s) ms" using assms unfolding queue_inv_def by blast
  then show ?thesis by simp
qed

lemma queue_inv_empty: "queue_inv s ns [] \<Longrightarrow> lq_size s = 0"
  by (auto simp: queue_inv_def)

lemma enqueue_links:
  assumes "tagged_queue e s ns xs" and "node_ok e p" and "p \<notin> set ns" and "Suc (length xs) < 2 ^ 31"
  shows "\<exists>k s2. enq_loop (tag_tail p c) 0 (s\<lparr>lq_data := (lq_data s)(p := x), lq_next := (lq_next s)(p := e), lq_tailCount := c\<rparr>) = Some (k, s2) \<and>
    tagged_queue e (s2\<lparr>lq_size := lq_size s2 + 1\<rparr>) (ns @ [p]) (xs @ [x])"
proof -
  have e: "lq_queueId s = e" "queue_inv s ns xs" using assms(1) by (simp_all add: tagged_queue_def)
  obtain k s2 where "enq_loop (tag_tail p c) 0 (s\<lparr>lq_data := (lq_data s)(p := x), lq_next := (lq_next s)(p := e), lq_tailCount := c\<rparr>) = Some (k, s2)"
      "lq_queueId s2 = e" "queue_inv (s2\<lparr>lq_size := lq_size s2 + 1\<rparr>) (ns @ [p]) (xs @ [x])"
    using link_inv [OF e(2), of p] assms(2-4) e(1) by blast
  then show ?thesis unfolding tagged_queue_def by fastforce
qed

lemma unlink_queueId: "lq_queueId (unlink s) = lq_queueId s"
  by (simp add: unlink_def Let_def)

interpretation tlsq: linked_fifo tq_Enqueue tq_deq "tagged_queue e" "node_ok e"
  for e :: u64
proof unfold_locales
  show "length ns = Suc (length xs)" if "tagged_queue e s ns xs" for s :: "'a lqueue" and ns xs
    using that queue_inv_nodes by (auto simp: tagged_queue_def)
  show "\<exists>s'. tq_Enqueue x p s = Some s' \<and> tagged_queue e s' (ns @ [p]) (xs @ [x])"
    if "tagged_queue e s ns xs" "node_ok e p" "p \<notin> set ns" "Suc (length xs) < 2 ^ 31" for s :: "'a lqueue" and ns xs p x
    using enqueue_links [OF that, of "lq_tailCount s + 1" x] that(1) by (auto simp: tq_Enqueue_def Let_def tagged_queue_def)
  show "\<exists>s'. tq_deq s = (Some x, s') \<and> tagged_queue e s' (tl ns) xs" if q: "tagged_queue e s ns (x # xs)" for s :: "'a lqueue" and ns x xs
  proof -
    have "queue_inv s ns (x # xs)" "lq_queueId s = e" using q by (simp_all add: tagged_queue_def)
    from unlink_inv [OF this(1)] this(2) show ?thesis
      by (auto simp: tq_Dequeue_def Let_def unlink_def tagged_queue_def)
  qed
  show "tq_deq s = (None, s)" if "tagged_queue e s ns []" for s :: "'a lqueue" and ns
    using that queue_inv_empty by (auto simp: tq_Dequeue_def tagged_queue_def)
qed

interpretation lfq: linked_fifo lfq_enq lfq_deq "tagged_queue 0" "node_ok 0"
proof unfold_locales
  show "length ns = Suc (length xs)" if "tagged_queue 0 s ns xs" for s :: "'a lqueue" and ns xs
    using that queue_inv_nodes by (auto simp: tagged_queue_def)
  show "\<exists>s'. lfq_enq x p s = Some s' \<and> tagged_queue 0 s' (ns @ [p]) (xs @ [x])"
    if "tagged_queue 0 s ns xs" "node_ok 0 p" "p \<notin> set ns" "Suc (length xs) < 2 ^ 31" for s :: "'a lqueue" and ns xs p x
    using enqueue_links [OF that, of "lq_tailCount s + 1" x] by (auto simp: lfq_Enqueue_def Let_def)
  show "\<exists>s'. lfq_deq s = (Some x, s') \<and> tagged_queue 0 s' (tl ns) xs" if q: "tagged_queue 0 s ns (x # xs)" for s :: "'a lqueue" and ns x xs
  proof -
    have "queue_inv s ns (x # xs)" "lq_queueId s = 0" using q by (simp_all add: tagged_queue_def)
    from unlink_inv [OF this(1)] this(2) show ?thesis
      by (auto simp: lfq_Dequeue_def Let_def unlink_def tagged_queue_def)
  qed
  show "lfq_deq s = (None, s)" if "tagged_queue 0 s ns []" for s :: "'a lqueue" and ns
    using that queue_inv_empty by (auto simp: lfq_Dequeue_def tagged_queue_def)
qed

subsection \<open>TLSLockFreeQueue2: one queue per producer\<close>

text \<open>
  Every producing thread has a queue of its own; a consumer scans them cyclically, starting where it last
  found something. \<open>q2_tls\<close> is the thread's queue as an index, \<open>q2_last\<close> the consumer's \<^verbatim>\<open>lastQueueIndex\<close>. The arguments
  of \<open>tq2_enqueue\<close> besides the data are the node the pool returns, and the number, memory and dummy of a new queue.
\<close>

record 'a tq2 =
  q2_queues :: "'a lqueue list"
  q2_tls :: "nat \<Rightarrow> nat option"
  q2_queueCount :: nat
  q2_last :: "nat \<Rightarrow> nat"

definition tq2_new :: "(nat \<Rightarrow> nat) \<Rightarrow> 'a tq2" where
  "tq2_new last0 = \<lparr>q2_queues = [], q2_tls = (\<lambda>_. None), q2_queueCount = 0, q2_last = last0\<rparr>"

definition tq2_enqueue ::
  "nat \<Rightarrow> u64 \<Rightarrow> (addr \<Rightarrow> u64) \<Rightarrow> (addr \<Rightarrow> 'a) \<Rightarrow> addr \<Rightarrow> 'a \<Rightarrow> addr \<Rightarrow> 'a tq2 \<Rightarrow> 'a tq2 option" where
  "tq2_enqueue t gid nx dat dummy data p s =
     (let (k, s1) =
        (case q2_tls s t of
           Some k \<Rightarrow> (k, s)
         | None \<Rightarrow> (length (q2_queues s),
             s\<lparr>q2_tls := (q2_tls s)(t \<mapsto> length (q2_queues s)), q2_queues := q2_queues s @ [tq_new gid nx dat dummy],
               q2_queueCount := q2_queueCount s + 1\<rparr>))
      in Option.bind (tq_Enqueue data p (q2_queues s1 ! k)) (\<lambda>q. Some (s1\<lparr>q2_queues := (q2_queues s1)[k := q]\<rparr>)))"

definition nextQueue :: "'a lqueue list \<Rightarrow> nat \<Rightarrow> nat" where
  "nextQueue qs i = (if Suc i \<noteq> length qs then Suc i else 0)"

fun tq2_scan :: "'a lqueue list \<Rightarrow> nat \<Rightarrow> nat \<Rightarrow> nat \<Rightarrow> ('a option \<times> 'a lqueue list \<times> nat) res" where
  "tq2_scan qs n i 0 = Inr (None, qs, n)"
| "tq2_scan qs n i (Suc left) =
     (if i \<ge> length qs then Inl OutOfBounds
      else (case tq_Dequeue (qs ! i) of
              (Some x, q, _) \<Rightarrow> Inr (Some x, qs[i := q], n)
            | (None, q, _) \<Rightarrow> tq2_scan (qs[i := q]) (Suc n) (nextQueue qs i) left))"

definition tq2_dequeue :: "nat \<Rightarrow> 'a tq2 \<Rightarrow> ('a option \<times> 'a tq2) res" where
  "tq2_dequeue t s =
     bind_res (tq2_scan (q2_queues s) 0 (q2_last s t) (q2_queueCount s)) (\<lambda>(r, qs, n).
       Inr (r, s\<lparr>q2_queues := qs,
         q2_last := (if r = None then q2_last s else (q2_last s)(t := (q2_last s t + n) mod q2_queueCount s))\<rparr>))"

lemma nextQueue_mod: "i < length qs \<Longrightarrow> nextQueue qs i = Suc i mod length qs"
  by (simp add: nextQueue_def)

lemma tq_Dequeue_cases:
  assumes "queue_inv q ns xs"
  shows "(\<exists>o'. tq_Dequeue q = (None, q, o')) \<and> xs = [] \<or>
    (\<exists>x ys q' o'. xs = x # ys \<and> tq_Dequeue q = (Some x, q', o') \<and> queue_inv q' (tl ns) ys)"
proof (cases xs)
  case Nil
  then show ?thesis using queue_inv_empty assms by (auto simp: tq_Dequeue_def)
next
  case (Cons x ys)
  then show ?thesis using unlink_inv [of q ns x ys] assms by (auto simp: tq_Dequeue_def Let_def unlink_def)
qed

lemma tq_new_inv:
  assumes "node_ok e dummy"
  shows "queue_inv (tq_new e nx dat dummy) [dummy] []"
proof -
  have "ptr_of dummy = dummy" using assms by (simp add: node_ok_def ptr_of_def)
  then show ?thesis unfolding queue_inv_def
    using assms node_ok_pointer [OF assms] by (intro exI [of _ dummy] exI [of _ "[]"]) (auto simp: tq_new_def)
qed

text \<open>The scan visits the queues from \<open>i\<close> on, wrapping around, and stops at the first one that holds something.\<close>

lemma tq2_scan_spec:
  assumes "i < length qs" and "length nss = length qs" and "length xss = length qs"
    and "\<forall>k<length qs. queue_inv (qs ! k) (nss ! k) (xss ! k)"
  shows "(\<forall>m<left. xss ! ((i + m) mod length qs) = []) \<and> tq2_scan qs n i left = Inr (None, qs, n + left) \<or>
    (\<exists>m<left. \<exists>x ys q. xss ! ((i + m) mod length qs) = x # ys \<and> (\<forall>k<m. xss ! ((i + k) mod length qs) = []) \<and>
      tq2_scan qs n i left = Inr (Some x, qs[(i + m) mod length qs := q], n + m) \<and>
      queue_inv q (tl (nss ! ((i + m) mod length qs))) ys)"
  using assms(1)
proof (induction left arbitrary: i n)
  case (Suc left)
  have L: "0 < length qs" using Suc.prems by linarith
  consider o' where "tq_Dequeue (qs ! i) = (None, qs ! i, o')" "xss ! i = []"
    | x ys q o' where "xss ! i = x # ys" "tq_Dequeue (qs ! i) = (Some x, q, o')" "queue_inv q (tl (nss ! i)) ys"
    using tq_Dequeue_cases [of "qs ! i"] assms(4) Suc.prems by blast
  then show ?case
  proof cases
    case 1
    have step: "tq2_scan qs n i (Suc left) = tq2_scan qs (Suc n) (Suc i mod length qs) left"
      using Suc.prems 1(1) by (simp add: nextQueue_mod)
    have idx: "(Suc i mod length qs + m) mod length qs = (i + Suc m) mod length qs" for m by (simp add: mod_add_left_eq)
    have z: "\<forall>k<Suc m. xss ! ((i + k) mod length qs) = []" if "\<forall>k<m. xss ! ((i + Suc k) mod length qs) = []" for m
      using that 1(2) Suc.prems by (auto simp: less_Suc_eq_0_disj)
    from Suc.IH [OF mod_less_divisor [OF L], of "Suc i" "Suc n"] show ?thesis unfolding idx
    proof (elim disjE exE conjE)
      assume "\<forall>m<left. xss ! ((i + Suc m) mod length qs) = []"
        and "tq2_scan qs (Suc n) (Suc i mod length qs) left = Inr (None, qs, Suc n + left)"
      then show ?thesis unfolding step using z [of left] by (intro disjI1) simp
    next
      fix m x ys q
      assume "m < left" and "xss ! ((i + Suc m) mod length qs) = x # ys" and "\<forall>k<m. xss ! ((i + Suc k) mod length qs) = []"
        and "tq2_scan qs (Suc n) (Suc i mod length qs) left = Inr (Some x, qs[(i + Suc m) mod length qs := q], Suc n + m)"
        and "queue_inv q (tl (nss ! ((i + Suc m) mod length qs))) ys"
      then show ?thesis unfolding step using z [of m]
        by (intro disjI2 exI [of _ "Suc m"] conjI exI [of _ x] exI [of _ ys] exI [of _ q]) simp_all
    qed
  next
    case (2 x ys q o')
    then have "tq2_scan qs n i (Suc left) = Inr (Some x, qs[i := q], n)" using Suc.prems by simp
    then show ?thesis using 2 Suc.prems by (intro disjI2 exI [of _ 0]) auto
  qed
qed simp

subsection \<open>Properties\<close>

text \<open>
  C31. The linked queues are first in first out: any sequence of enqueues and dequeues on a new
  \<^verbatim>\<open>TLSLockFreeQueue\<close> or \<^verbatim>\<open>LockFreeQueue\<close> terminates and returns what it returns on a list, even though the nodes
  carry counters and come back from the pool while the queue is in use.
\<close>

theorem linked_queues_fifo:
  assumes "node_ok e dummy" and "nodes_fresh (node_ok e) ops [dummy]" and "nodes_fresh (node_ok 0) ops [dummy]"
    and "length ops < 2 ^ 31"
  shows "queue_run tq_Enqueue tq_deq ops (tq_new e nx dat dummy) = Some (list_queue_run ops []) \<and>
    queue_run lfq_enq lfq_deq ops (lfq_new nx dat dummy) = Some (list_queue_run ops [])"
proof -
  have "node_ok 0 dummy" using assms(1) by (simp add: node_ok_def)
  moreover have "lfq_new nx dat dummy = tq_new 0 nx dat dummy" by (simp add: lfq_new_def tq_new_def)
  ultimately have "tagged_queue e (tq_new e nx dat dummy) [dummy] []" "tagged_queue 0 (lfq_new nx dat dummy) [dummy] []"
    using assms(1) tq_new_inv by (auto simp: tagged_queue_def tq_new_def)
  from tlsq.run_fifo [OF this(1) assms(2)] lfq.run_fifo [OF this(2) assms(3)] show ?thesis using assms(4) by simp
qed

theorem linked_queues_fifo_witness:
  "queue_run tq_Enqueue tq_deq [QEnq (1 :: nat) 131072, QEnq 2 196608, QDeq, QEnq 3 65536, QDeq, QDeq, QDeq]
     (tq_new 7 (\<lambda>_. 0) (\<lambda>_. 0) 65536) = Some [Some 1, Some 2, Some 3, None]"
  using linked_queues_fifo [of 7 65536 "[QEnq (1 :: nat) 131072, QEnq 2 196608, QDeq, QEnq 3 65536, QDeq, QDeq, QDeq]" "\<lambda>_. 0" "\<lambda>_. 0"]
  by (simp add: node_ok_def pointerMask_def del: queue_run.simps)

text \<open>
  A consumer of \<^verbatim>\<open>TLSLockFreeQueue2\<close> finds an element if and only if some producer's queue holds one. It takes
  the first element of the first non-empty queue in cyclic order from where it last found one, leaves the
  others alone, and remembers that queue.
\<close>

theorem tq2_dequeue_finds:
  assumes "q2_last s t < length (q2_queues s)" and "q2_queueCount s = length (q2_queues s)"
    and "length nss = length (q2_queues s)" and "length xss = length (q2_queues s)"
    and "\<forall>k<length (q2_queues s). queue_inv (q2_queues s ! k) (nss ! k) (xss ! k)"
  shows "(\<forall>xs\<in>set xss. xs = []) \<and> tq2_dequeue t s = Inr (None, s) \<or>
    (\<exists>j<length xss. \<exists>x ys q. xss ! j = x # ys \<and> queue_inv q (tl (nss ! j)) ys \<and>
      tq2_dequeue t s = Inr (Some x, s\<lparr>q2_queues := (q2_queues s)[j := q], q2_last := (q2_last s)(t := j)\<rparr>))"
proof -
  let ?L = "length (q2_queues s)" and ?i = "q2_last s t"
  from tq2_scan_spec [OF assms(1,3,4,5), of ?L 0] show ?thesis
  proof (elim disjE exE conjE)
    assume all: "\<forall>m<?L. xss ! ((?i + m) mod ?L) = []" and sc: "tq2_scan (q2_queues s) 0 ?i ?L = Inr (None, q2_queues s, 0 + ?L)"
    have "xss ! k = []" if "k < ?L" for k
    proof -
      have "(?i + (k + ?L - ?i) mod ?L) mod ?L = k" using that assms(1) by (simp add: mod_add_right_eq)
      moreover have "(k + ?L - ?i) mod ?L < ?L" by (intro mod_less_divisor) (use assms(1) in linarith)
      ultimately show ?thesis using all by metis
    qed
    then have "\<forall>xs\<in>set xss. xs = []" using assms(4) by (auto simp: in_set_conv_nth)
    then show ?thesis using sc assms(2) by (simp add: tq2_dequeue_def)
  next
    fix m x ys q
    assume m: "m < ?L" "xss ! ((?i + m) mod ?L) = x # ys" "queue_inv q (tl (nss ! ((?i + m) mod ?L))) ys"
      and sc: "tq2_scan (q2_queues s) 0 ?i ?L = Inr (Some x, (q2_queues s)[(?i + m) mod ?L := q], 0 + m)"
    have "(?i + m) mod ?L < length xss" unfolding assms(4) by (intro mod_less_divisor) (use assms(1) in linarith)
    then show ?thesis using m sc assms(2)
      by (intro disjI2 exI [of _ "(?i + m) mod ?L"] conjI exI [of _ x] exI [of _ ys] exI [of _ q]) (simp_all add: tq2_dequeue_def)
  qed
qed

theorem tq2_dequeue_finds_witness:
  "\<exists>s s'. length (q2_queues s) = 2 \<and> q2_last s 0 = 0 \<and> tq2_dequeue 0 s = Inr (Some (5 :: nat), s') \<and> q2_last s' 0 = 1"
proof -
  have ok: "node_ok 7 65536" "node_ok 7 131072" by (simp_all add: node_ok_def pointerMask_def)
  let ?q = "tq_new 7 (\<lambda>_. 0) (\<lambda>_. 0 :: nat) 65536"
  have q: "tagged_queue 7 ?q [65536] []" using tq_new_inv [OF ok(1)] by (simp add: tagged_queue_def tq_new_def)
  obtain q' where q': "tagged_queue 7 q' [65536, 131072] [5 :: nat]" using tlsq.enq_app [OF q ok(2), of 5] by auto
  define s where "s = \<lparr>q2_queues = [?q, q'], q2_tls = (\<lambda>_. None)(1 \<mapsto> 0, 2 \<mapsto> 1), q2_queueCount = 2, q2_last = (\<lambda>_. 0)\<rparr>"
  have "\<forall>k<2. queue_inv (q2_queues s ! k) ([[65536], [65536, 131072]] ! k) ([[], [5]] ! k)"
    using q q' by (simp add: s_def tagged_queue_def less_2_cases_iff)
  then have "\<exists>s'. tq2_dequeue 0 s = Inr (Some 5, s') \<and> q2_last s' 0 = 1"
    using tq2_dequeue_finds [of s 0 "[[65536], [65536, 131072]]" "[[], [5]]"]
    by (auto simp: s_def less_2_cases_iff numeral_2_eq_2 less_Suc_eq)
  moreover have "length (q2_queues s) = 2" "q2_last s 0 = 0" by (simp_all add: s_def)
  ultimately show ?thesis by blast
qed

end
