(* ===== verification/Modern_Pool.thy ===== *)
theory Modern_Pool
  imports Object_Pool
begin

section \<open>ModernObjectPool\<close>

text \<open>
  \<^verbatim>\<open>ModernObjectPool.h\<close>: a pool that keeps its free storage in a \<^verbatim>\<open>std::vector\<close> and hands out smart pointers that
  return the object when they die. The vector is the list of its elements (the back is the end of the list)
  and its capacity; \<open>grow\<close> is the implementation's choice of a new capacity when the vector is full. The
  addresses \<^verbatim>\<open>new\<close> returns are arguments.
\<close>

record 'a vpool =
  vp_pool :: "addr list"
  vp_capacity :: nat
  vp_data :: "addr \<Rightarrow> 'a option"

definition mo_emplace_back :: "(nat \<Rightarrow> nat) \<Rightarrow> addr \<Rightarrow> 'a vpool \<Rightarrow> 'a vpool" where
  "mo_emplace_back grow a s =
     s\<lparr>vp_pool := vp_pool s @ [a],
       vp_capacity := (if length (vp_pool s) = vp_capacity s then grow (vp_capacity s) else vp_capacity s)\<rparr>"

fun mo_expandPool :: "(nat \<Rightarrow> nat) \<Rightarrow> addr list \<Rightarrow> 'a vpool \<Rightarrow> 'a vpool res" where
  "mo_expandPool grow [] s = Inr s"
| "mo_expandPool grow (a # as) s = (if a = 0 then Inl DebugBreak else mo_expandPool grow as (mo_emplace_back grow a s))"

definition mo_integrity :: "'a vpool \<Rightarrow> bool res" where
  "mo_integrity s = (if 0 \<in> set (vp_pool s) then Inl DebugBreak else Inr True)"

definition mo_new :: "(nat \<Rightarrow> nat) \<Rightarrow> addr list \<Rightarrow> 'a vpool res" where
  "mo_new grow as = mo_expandPool grow as \<lparr>vp_pool = [], vp_capacity = 0, vp_data = (\<lambda>_. None)\<rparr>"

definition mo_Size :: "'a vpool \<Rightarrow> nat" where
  "mo_Size s = length (vp_pool s)"

definition mo_Free :: "(nat \<Rightarrow> nat) \<Rightarrow> addr \<Rightarrow> 'a vpool \<Rightarrow> 'a vpool res" where
  "mo_Free grow obj s =
     (let s1 = mo_emplace_back grow obj (s\<lparr>vp_data := (vp_data s)(obj := None)\<rparr>)
      in bind_res (mo_integrity s1) (\<lambda>_. Inr s1))"

text \<open>\<open>as\<close> are the addresses of the storage an empty pool allocates, \<^verbatim>\<open>capacity() + 1\<close> of them.\<close>

definition mo_Alloc :: "(nat \<Rightarrow> nat) \<Rightarrow> 'a \<Rightarrow> addr list \<Rightarrow> 'a vpool \<Rightarrow> (addr \<times> 'a vpool) res" where
  "mo_Alloc grow v as s =
     bind_res (if vp_pool s = [] then mo_expandPool grow (take (vp_capacity s + 1) as) s else Inr s) (\<lambda>s1.
       if vp_pool s1 = [] then Inl OutOfBounds
       else
         (let objPtr = last (vp_pool s1)
          in if objPtr = 0 then Inl DebugBreak
             else
               (let s2 = s1\<lparr>vp_pool := butlast (vp_pool s1), vp_data := (vp_data s1)(objPtr \<mapsto> v)\<rparr>
                in bind_res (mo_integrity s2) (\<lambda>_. Inr (objPtr, s2)))))"

subsection \<open>Lemmas\<close>

text \<open>What the standard promises of a vector's growth.\<close>

definition vector_growth :: "(nat \<Rightarrow> nat) \<Rightarrow> bool" where
  "vector_growth grow \<longleftrightarrow> (\<forall>c. c < grow c)"

definition vp_ok :: "'a vpool \<Rightarrow> bool" where
  "vp_ok s \<longleftrightarrow> 0 \<notin> set (vp_pool s) \<and> length (vp_pool s) \<le> vp_capacity s"

lemma mo_expandPool_ok:
  assumes "vector_growth grow" and "vp_ok s" and "0 \<notin> set as"
  shows "\<exists>s'. mo_expandPool grow as s = Inr s' \<and> vp_ok s' \<and> vp_pool s' = vp_pool s @ as \<and> vp_data s' = vp_data s"
  using assms(2,3)
proof (induction as arbitrary: s)
  case (Cons a as)
  have "vp_ok (mo_emplace_back grow a s)"
    using Cons.prems assms(1) by (auto simp: vp_ok_def mo_emplace_back_def vector_growth_def Suc_le_eq)
  then show ?case using Cons.IH [of "mo_emplace_back grow a s"] Cons.prems by (auto simp: mo_emplace_back_def)
qed simp

lemma mo_Alloc_ok:
  assumes "vector_growth grow" and "vp_ok s" and "0 \<notin> set as" and "length as = Suc (vp_capacity s)"
    and xs: "xs = (if vp_pool s = [] then as else vp_pool s)"
  shows "\<exists>s'. mo_Alloc grow v as s = Inr (last xs, s') \<and> vp_ok s' \<and> vp_pool s' = butlast xs \<and> vp_data s' = (vp_data s)(last xs \<mapsto> v)"
proof -
  obtain s1 where s1: "(if vp_pool s = [] then mo_expandPool grow (take (vp_capacity s + 1) as) s else Inr s) = Inr s1"
      "vp_ok s1" "vp_pool s1 = xs" "vp_data s1 = vp_data s"
    using mo_expandPool_ok [OF assms(1-3)] assms(2,4) xs by (cases "vp_pool s = []") auto
  have "xs \<noteq> []" using assms(4) xs by auto
  then have "last xs \<noteq> 0" using s1(2,3) by (metis last_in_set vp_ok_def)
  moreover have "0 \<notin> set (butlast xs)" using s1(2,3) by (auto simp: vp_ok_def dest: in_set_butlastD)
  ultimately show ?thesis using s1 \<open>xs \<noteq> []\<close>
    by (auto simp: mo_Alloc_def mo_integrity_def Let_def vp_ok_def)
qed

subsection \<open>Properties\<close>

text \<open>
  \<^verbatim>\<open>ModernObjectPool\<close> never breaks on its own storage and reuses it last in first out: allocating takes the last
  free storage (after making \<^verbatim>\<open>capacity() + 1\<close> new pieces when there is none) and constructs the object in it, and when
  the smart pointer dies the object is destroyed, the size is what it was before, and the next
  allocation returns the same storage.
\<close>

theorem modern_pool_reuses:
  assumes "vector_growth grow" and "vp_ok s" and "0 \<notin> set as" and "length as = Suc (vp_capacity s)"
  shows "\<exists>a s1 s2. mo_Alloc grow v as s = Inr (a, s1) \<and> vp_data s1 a = Some v \<and>
    mo_Size s1 = (if mo_Size s = 0 then vp_capacity s else mo_Size s - 1) \<and>
    mo_Free grow a s1 = Inr s2 \<and> vp_data s2 a = None \<and> vp_ok s2 \<and> mo_Size s2 = Suc (mo_Size s1) \<and>
    (\<forall>w bs. 0 \<notin> set bs \<longrightarrow> length bs = Suc (vp_capacity s2) \<longrightarrow> (\<exists>s3. mo_Alloc grow w bs s2 = Inr (a, s3)))"
proof -
  define xs where "xs = (if vp_pool s = [] then as else vp_pool s)"
  obtain s1 where s1: "mo_Alloc grow v as s = Inr (last xs, s1)" "vp_ok s1" "vp_pool s1 = butlast xs"
      "vp_data s1 = (vp_data s)(last xs \<mapsto> v)"
    using mo_Alloc_ok [OF assms xs_def] by blast
  have "xs \<noteq> []" using assms(4) by (auto simp: xs_def)
  moreover have "0 \<notin> set xs" using assms(2,3) by (simp add: xs_def vp_ok_def)
  ultimately have a: "last xs \<noteq> 0" by (metis last_in_set)
  define s2 where "s2 = mo_emplace_back grow (last xs) (s1\<lparr>vp_data := (vp_data s1)(last xs := None)\<rparr>)"
  have ok2: "vp_ok s2" using s1(2) a assms(1) by (auto simp: s2_def vp_ok_def mo_emplace_back_def vector_growth_def Suc_le_eq)
  have "mo_Free grow (last xs) s1 = Inr s2" using ok2 by (simp add: mo_Free_def Let_def mo_integrity_def vp_ok_def s2_def)
  moreover have "vp_pool s2 = vp_pool s1 @ [last xs]" "vp_data s2 (last xs) = None" by (simp_all add: s2_def mo_emplace_back_def)
  moreover have "\<exists>s3. mo_Alloc grow w bs s2 = Inr (last xs, s3)" if "0 \<notin> set bs" "length bs = Suc (vp_capacity s2)" for w bs
    using mo_Alloc_ok [OF assms(1) ok2 that refl, of w] calculation(2) by auto
  moreover have "length (butlast xs) = (if mo_Size s = 0 then vp_capacity s else mo_Size s - 1)"
    using assms(4) by (simp add: xs_def mo_Size_def)
  ultimately show ?thesis using s1 ok2
    by (intro exI [of _ "last xs"] exI [of _ s1] exI [of _ s2]) (auto simp: mo_Size_def)
qed

theorem modern_pool_reuses_witness:
  "\<exists>a s1. mo_Alloc Suc (3 :: nat) [16, 32] \<lparr>vp_pool = [], vp_capacity = 1, vp_data = (\<lambda>_. None)\<rparr> = Inr (a, s1) \<and> mo_Size s1 = 1"
  using modern_pool_reuses [of Suc "\<lparr>vp_pool = [], vp_capacity = 1, vp_data = (\<lambda>_. None :: nat option)\<rparr>" "[16, 32]" 3]
  by (auto simp: vector_growth_def vp_ok_def mo_Size_def)

end
