(* ===== verification/Recv_Reject.thy ===== *)
theory Recv_Reject
  imports Recv_Path
begin

section \<open>Packets the receive path rejects\<close>

text \<open>
  The error branches of \<^verbatim>\<open>RecvExecutable::RecvHandler<NetHeader>\<close> composed with the rest of the completion: a
  packet with a wrong code, one longer than the session allows, or one whose checksum does not match
  after decoding closes the session. The packets before it are delivered, nothing of it or after it
  is, and no further receive is posted; the completion's reference is given back instead.
\<close>

text \<open>A complete packet whose checksum byte is not the sum of the decoded payload.\<close>

definition damaged :: "u8 \<Rightarrow> u8 list \<Rightarrow> bool" where
  "damaged key bs =
     (let h = NetHeader_of bs; d = decode_bytes key (nh_randomKey h) 1 0 0 (take (Suc (unat (nh_len h))) (drop 4 bs))
      in checksum (tl d) \<noteq> hd d)"

definition rejected :: "u8 \<Rightarrow> nat \<Rightarrow> u8 list \<Rightarrow> bool" where
  "rejected key maxLen bs \<longleftrightarrow> 5 \<le> length bs \<and>
     (let h = NetHeader_of bs
      in nh_code h \<noteq> dfPACKET_CODE \<or> unat (nh_len h) > maxLen \<or>
         (unat (nh_len h) + 5 \<le> length bs \<and> damaged key bs))"

lemma NetHeader_of_any_decoded:
  assumes "5 \<le> length c" and "d \<noteq> []"
  shows "nh_len (NetHeader_of (take 4 c @ d @ rest)) = nh_len (NetHeader_of c)"
    and "nh_checkSum (NetHeader_of (take 4 c @ d @ rest)) = hd d"
proof -
  have "take 2 (drop 1 (take 4 c @ d @ rest)) = take 2 (drop 1 c)" using assms(1) by (simp add: drop_take min_absorb2)
  then show "nh_len (NetHeader_of (take 4 c @ d @ rest)) = nh_len (NetHeader_of c)"
    by (simp only: NetHeader_of_def NetHeader.simps)
  show "nh_checkSum (NetHeader_of (take 4 c @ d @ rest)) = hd d"
    using assms by (simp add: NetHeader_of_def nth_append hd_conv_nth)
qed

text \<open>Decoding and checking a damaged packet at the front of the ring.\<close>

lemma damaged_at_front:
  assumes ok: "ring_ok r" and "unat (nh_len (NetHeader_of (content r))) + 5 \<le> length (content r)" and "damaged key (content r)"
  obtains r1 where "Ring_Decode r key = Inr r1" and "ChecksumValid r1 = Inr False"
proof -
  let ?c = "content r" and ?len = "unat (nh_len (NetHeader_of (content r)))"
  let ?d = "decode_bytes key (nh_randomKey (NetHeader_of ?c)) 1 0 0 (take (Suc ?len) (drop 4 ?c))"
  have enough: "?len + 5 \<le> Ring_Size r" using assms(2) length_content [OF ok] by simp
  obtain r1 where r1: "Ring_Decode r key = Inr r1" "ring_ok r1" "Ring_Size r1 = Ring_Size r"
      "content r1 = take 4 ?c @ ?d @ drop (?len + 5) ?c"
    using Ring_Decode_content [OF ok refl enough] by metis
  have ld: "length ?d = Suc ?len" using assms(2) by simp
  then have nd: "?d \<noteq> []" by (metis length_0_conv nat.distinct(1))
  have h1: "nh_len (NetHeader_of (content r1)) = nh_len (NetHeader_of ?c)" "nh_checkSum (NetHeader_of (content r1)) = hd ?d"
    using NetHeader_of_any_decoded [OF _ nd] assms(2) r1(4) by simp_all
  have "take ?len (drop 5 (content r1)) = tl ?d"
  proof -
    have "drop 5 (content r1) = tl ?d @ drop (?len + 5) ?c"
      using assms(2) r1(4) nd by (cases ?d) (simp_all add: min_absorb2)
    then show ?thesis using ld by simp
  qed
  then have "ChecksumValid r1 = Inr False"
    using ChecksumValid_content [OF r1(2), of ?len] h1 enough r1(3) assms(3) by (simp add: damaged_def Let_def)
  then show ?thesis using that r1(1) by blast
qed

text \<open>The loop stops at a rejected packet and closes the session.\<close>

lemma RecvHandler_reject:
  assumes ok: "ring_ok (ss_recvQ (sy_sessions s k))" and "ss_groupId (sy_sessions s k) = 0"
    and rej: "rejected (ss_staticKey (sy_sessions s k)) (unat (ss_maxPacketLen (sy_sessions s k))) (content (ss_recvQ (sy_sessions s k)))"
    and cancel: "\<And>n. os_CancelIoEx e n \<in> {None, Some ERROR_NOT_FOUND}"
  shows "\<exists>s'. RecvHandler_loop e upd True k (Suc n) lc s = Inr (lc, s') \<and> \<not> ss_connect (sy_sessions s' k) \<and>
    ss_sessionId (sy_sessions s' k) = ss_sessionId (sy_sessions s k) \<and> refs s' k = refs s k \<and>
    ss_socket (sy_sessions s' k) = ss_socket (sy_sessions s k) \<and>
    sy_trace s' = sy_trace s @ [EvCancelIO (ss_socket (sy_sessions s k))]"
proof -
  let ?x = "sy_sessions s k" and ?r = "ss_recvQ (sy_sessions s k)" and ?h = "NetHeader_of (content (ss_recvQ (sy_sessions s k)))"
  have len: "5 \<le> length (content ?r)" using rej by (simp add: rejected_def)
  then have size: "5 \<le> Ring_Size ?r" using length_content [OF ok] by simp
  have pk: "Ring_Peek ?r 5 = Inr (take 5 (content ?r))" using Ring_Peek_content [OF ok] size by simp
  have h5: "NetHeader_of (take 5 (content ?r)) = ?h" by (simp add: NetHeader_of_take)
  obtain s1 where s1: "Session_Close e k s = Inr s1" "sy_sessions s1 = (sy_sessions s)(k := ?x\<lparr>ss_connect := False\<rparr>)"
      "sy_trace s1 = sy_trace s @ [EvCancelIO (ss_socket ?x)]"
    using Session_Close_ok [OF cancel, where s = s and k = k] by blast
  consider "nh_code ?h \<noteq> dfPACKET_CODE \<or> unat (nh_len ?h) > unat (ss_maxPacketLen ?x)"
    | "nh_code ?h = dfPACKET_CODE" "unat (nh_len ?h) \<le> unat (ss_maxPacketLen ?x)" "unat (nh_len ?h) + 5 \<le> length (content ?r)"
      "damaged (ss_staticKey ?x) (content ?r)"
    using rej unfolding rejected_def Let_def by linarith
  then show ?thesis
  proof cases
    case 1
    then have "RecvHandler_loop e upd True k (Suc n) lc s = Inr (lc, s1)"
      using assms(2) size pk s1(1) by (auto simp: Let_def header_size_def header_len_def h5)
    then show ?thesis using s1 by simp
  next
    case 2
    obtain r1 where r1: "Ring_Decode ?r (ss_staticKey ?x) = Inr r1" "ChecksumValid r1 = Inr False"
      using damaged_at_front [OF ok 2(3,4)] by blast
    let ?s = "upd_session k (ss_recvQ_update (\<lambda>_. r1)) s"
    obtain s2 where s2: "Session_Close e k ?s = Inr s2" "sy_sessions s2 = (sy_sessions ?s)(k := (sy_sessions ?s k)\<lparr>ss_connect := False\<rparr>)"
        "sy_trace s2 = sy_trace ?s @ [EvCancelIO (ss_socket (sy_sessions ?s k))]"
      using Session_Close_ok [OF cancel, where s = ?s and k = k] by blast
    have "RecvHandler_loop e upd True k (Suc n) lc s = Inr (lc, s2)"
      using assms(2) size pk 2(1-3) r1 s2(1) length_content [OF ok] by (simp add: Let_def header_size_def header_len_def h5)
    then show ?thesis using s2 by simp
  qed
qed

subsection \<open>Properties\<close>

text \<open>
  C2. A rejected packet. A receive completion of a session with a key leaves some whole packets in the ring and
  then one that is rejected: wrong code, longer than the session allows, or damaged. The application
  is handed the packets before it and nothing else, the session is marked closed and its pending
  I/O is cancelled, no further receive is posted, and the reference of the receive is released.
\<close>

theorem bad_packet_closes:
  assumes "reads_all e k" and "receiving e k s" and "ss_staticKey (sy_sessions s k) \<noteq> 0"
    and "0 < length bs" and "length bs \<le> FreeSize (ss_recvQ (sy_sessions s k))"
    and "content (ss_recvQ (sy_sessions s k)) @ bs = concat (map (net_frame (ss_staticKey (sy_sessions s k))) ps) @ bad"
    and "\<And>p. p \<in> set ps \<Longrightarrow> length p \<le> unat (ss_maxPacketLen (sy_sessions s k))"
    and "rejected (ss_staticKey (sy_sessions s k)) (unat (ss_maxPacketLen (sy_sessions s k))) bad"
    and "length ps < en_fuel e" and "\<And>n. os_CancelIoEx e n \<in> {None, Some ERROR_NOT_FOUND}"
  shows "\<exists>s1. recv_round e upd k bs s = bind_res (Release e upd k s1) (\<lambda>(_, s'). Inr (True, s')) \<and>
    \<not> ss_connect (sy_sessions s1 k) \<and> last (sy_trace s1) = EvCancelIO (ss_socket (sy_sessions s1 k)) \<and>
    packets_of (ss_sessionId (sy_sessions s k)) (sy_trace s1) = packets_of (ss_sessionId (sy_sessions s k)) (sy_trace s) @ ps"
proof -
  let ?x = "sy_sessions s k"
  obtain s1 q1 where s1: "sy_sessions s1 k = ?x\<lparr>ss_recvQ := q1\<rparr>" "sy_trace s1 = sy_trace s" "ring_ok q1"
      "content q1 = content (ss_recvQ ?x) @ bs" "recv_round e upd k bs s =
      bind_res (RecvHandler e upd (ss_staticKey ?x \<noteq> 0) k s1) (\<lambda>s2. bind_res (RecvNotIncrease e upd k s2) (\<lambda>s'. Inr (True, s')))"
    by (rule recv_round_filled [OF assms(2,4,5), of upd])
  obtain n where n: "en_fuel e = length ps + Suc n" using assms(9) by (metis add_Suc_right less_imp_Suc_add)
  have c1: "content (ss_recvQ (sy_sessions s1 k)) = concat (map (frame True (ss_staticKey (sy_sessions s1 k))) ps) @ bad"
    using s1(1,4) assms(6) by (simp add: frame_def [abs_def])
  obtain s2 where s2: "RecvHandler_loop e upd True k (length ps + Suc n) 0 s1 = RecvHandler_loop e upd True k (Suc n) (length ps) s2"
      "rx_frame ?x (sy_sessions s2 k)" "ring_ok (ss_recvQ (sy_sessions s2 k))" "content (ss_recvQ (sy_sessions s2 k)) = bad"
      "packets_of (ss_sessionId ?x) (sy_trace s2) = packets_of (ss_sessionId ?x) (sy_trace s) @ ps"
    using RecvHandler_loop_prefix [OF assms(1) _ _ _ c1, of upd "Suc n" 0] assms(2,7) s1(1,2,3)
    by (auto simp: receiving_def simp del: RecvHandler_loop.simps)
  obtain s3 where s3: "RecvHandler_loop e upd True k (Suc n) (length ps) s2 = Inr (length ps, s3)" "\<not> ss_connect (sy_sessions s3 k)"
      "sy_trace s3 = sy_trace s2 @ [EvCancelIO (ss_socket (sy_sessions s3 k))]"
    using RecvHandler_reject [OF s2(3) _ _ assms(10), of upd n "length ps"] s2(2,4) assms(2,8)
    by (auto simp: rx_frame_def receiving_def simp del: RecvHandler_loop.simps)
  define s4 where "s4 = (if length ps > 0 then IncreaseRecvCount (length ps) s3 else s3)"
  have s4: "sy_sessions s4 = sy_sessions s3" "sy_trace s4 = sy_trace s3" by (simp_all add: s4_def)
  have "RecvHandler e upd (ss_staticKey ?x \<noteq> 0) k s1 = Inr s4"
    using s2(1) s3(1) n assms(3) by (simp add: RecvHandler_def s4_def del: RecvHandler_loop.simps)
  moreover have "RecvNotIncrease e upd k s4 = bind_res (Release e upd k s4) (\<lambda>(_, s'). Inr s')"
    using s3(2) s4(1) by (simp add: RecvNotIncrease_def)
  ultimately have "recv_round e upd k bs s = bind_res (Release e upd k s4) (\<lambda>(_, s'). Inr (True, s'))"
    using s1(5) by (simp add: bind_res_assoc case_prod_unfold)
  moreover have "packets_of (ss_sessionId ?x) (sy_trace s4) = packets_of (ss_sessionId ?x) (sy_trace s) @ ps"
    using s2(5) s3(3) s4(2) by (simp add: packets_of_def)
  ultimately show ?thesis using s3 s4 by (intro exI [of _ s4]) simp
qed

theorem bad_packet_closes_witness:
  "\<exists>s1. recv_round quiet_env (\<lambda>_ s. Inr s) 0 (net_frame 50 [1, 2] @ [0, 0, 0, 0, 0]) one_session =
      bind_res (Release quiet_env (\<lambda>_ s. Inr s) 0 s1) (\<lambda>(_, s'). Inr (True, s')) \<and>
    \<not> ss_connect (sy_sessions s1 0) \<and> packets_of 1 (sy_trace s1) = [[1, 2]]"
proof -
  let ?x = "sy_sessions one_session 0" and ?bad = "[0, 0, 0, 0, 0] :: u8 list"
  have x: "ss_staticKey ?x = 50" "unat (ss_maxPacketLen ?x) = 5000" "content (ss_recvQ ?x) = []" "ss_sessionId ?x = 1"
      "FreeSize (ss_recvQ ?x) = 8191"
    by (simp_all add: one_session_slot new_Session_def new_ring_sizes)
  have rej: "rejected 50 5000 ?bad" by (simp add: rejected_def NetHeader_of_def dfPACKET_CODE_def)
  have p: "packets_of 1 (sy_trace one_session) = []" by (simp add: one_session_def quiet_sys_def)
  show ?thesis
    using bad_packet_closes [OF reads_all_quiet_env one_session_receiving, of "net_frame 50 [1, 2] @ ?bad" "[[1, 2]]" ?bad "\<lambda>_ s. Inr s"]
      x rej p by (auto simp: quiet_env_def)
qed

end
