(* ===== verification/Setting_Parser.thy ===== *)
theory Setting_Parser
  imports Prelude
begin

section \<open>The settings file\<close>

text \<open>
  \<^verbatim>\<open>SettingParser.cpp\<close> and \<^verbatim>\<open>SettingParser.h\<close>: a tokenizer and a parser of groups of \<^verbatim>\<open>key : value\<close> pairs. Characters are
  16-bit numbers. The buffer is the file's characters followed by a null; reading at an index beyond it is
  \<open>OutOfBounds\<close>. \<open>Terminate\<close> is the invalid-parameter handler of \<^verbatim>\<open>wcsncpy_s\<close> when a word does not fit its array.
\<close>

type_synonym wstr = "u16 list"

subsection \<open>Characters\<close>

definition MAX_WORD_SIZE :: nat where
  "MAX_WORD_SIZE = 100"

definition MAXGROUPSIZE :: nat where
  "MAXGROUPSIZE = 10"

definition is_blank :: "u16 \<Rightarrow> bool" where
  "is_blank c \<longleftrightarrow> c = 0xFEFF \<or> c = 10 \<or> c = 32 \<or> c = 9 \<or> c = 13"

definition is_single :: "u16 \<Rightarrow> bool" where
  "is_single c \<longleftrightarrow> c = 58 \<or> c = 123 \<or> c = 125"

definition ends_word :: "u16 \<Rightarrow> bool" where
  "ends_word c \<longleftrightarrow> c = 10 \<or> c = 32 \<or> c = 9 \<or> c = 13 \<or> c = 0 \<or> is_single c"

subsection \<open>The tokenizer\<close>

text \<open>\<^verbatim>\<open>while (i < bufferSize)\<close> with a test that leaves the loop: \<open>n\<close> is \<^verbatim>\<open>bufferSize - i\<close>.\<close>

primrec scan :: "(nat \<Rightarrow> bool) \<Rightarrow> nat \<Rightarrow> nat \<Rightarrow> nat" where
  "scan leave 0 i = i"
| "scan leave (Suc n) i = (if leave i then i else scan leave n (Suc i))"

abbreviation scan_to :: "wstr \<Rightarrow> (nat \<Rightarrow> bool) \<Rightarrow> nat \<Rightarrow> nat" where
  "scan_to buf leave i \<equiv> scan leave (length buf - i) i"

text \<open>\<^verbatim>\<open>wcsncpy_s(word, MAX_WORD_SIZE, &buffer[i], n)\<close>: the characters up to a null.\<close>

definition copy_word :: "wstr \<Rightarrow> nat \<Rightarrow> nat \<Rightarrow> wstr res" where
  "copy_word buf i n =
     (let w = takeWhile (\<lambda>c. c \<noteq> 0) (take n (drop i buf))
      in if length w < MAX_WORD_SIZE then Inr w else Inl Terminate)"

text \<open>
  One token from \<open>i\<close> on: whether there is one, the word and the new index. A comment is skipped by calling the
  function again.
\<close>

lemma scan_ge: "i \<le> scan p n i"
  by (induction n arbitrary: i) (auto dest: Suc_leD)

lemma scan_le: "scan p n i \<le> i + n"
proof (induction n arbitrary: i)
  case (Suc n)
  then show ?case using Suc.IH [of "Suc i"] by auto
qed simp

function GetTok :: "wstr \<Rightarrow> nat \<Rightarrow> (bool \<times> wstr \<times> nat) res" where
  "GetTok buf i0 =
     (let i = scan_to buf (\<lambda>j. \<not> is_blank (buf ! j)) i0
      in if i \<ge> length buf then Inl OutOfBounds
         else if buf ! i = 0 then Inr (False, [], i)
         else if buf ! i = 47 \<and> Suc i \<ge> length buf then Inl OutOfBounds
         else
           (let wordEnd = Suc i
            in if buf ! i = 47 \<and> buf ! wordEnd = 47
               then (let e = scan_to buf (\<lambda>j. buf ! j = 10) wordEnd
                     in GetTok buf (if e < length buf then Suc e else e))
               else if buf ! i = 47 \<and> buf ! wordEnd = 42
               then (let e = scan_to buf (\<lambda>j. buf ! j = 42 \<and> Suc j < length buf \<and> buf ! Suc j = 47) wordEnd
                     in GetTok buf (if e < length buf then e + 2 else e))
               else if buf ! i = 34
               then (let e = scan_to buf (\<lambda>j. buf ! j = 34) wordEnd;
                         we = (if e < length buf then Suc e else e)
                     in if Suc i = length buf then Inr (False, [], Suc i)
                        else bind_res (copy_word buf (Suc i) (we - Suc i - 1)) (\<lambda>w. Inr (True, w, we)))
               else if is_single (buf ! i)
               then Inr (True, [buf ! i], wordEnd)
               else (let e = scan_to buf (\<lambda>j. ends_word (buf ! j)) wordEnd
                     in bind_res (copy_word buf i (e - i)) (\<lambda>w. Inr (True, w, e)))))"
  by pat_completeness auto

termination
proof (relation "measure (\<lambda>(buf, i). length buf - i)", goal_cases)
  case 1
  show ?case by simp
next
  case (2 buf i0 i wordEnd e)
  have "i0 \<le> i" using scan_ge 2(1) by simp
  moreover have "Suc i \<le> e" using scan_ge 2(5,7) by simp
  ultimately show ?case using 2(2,4) by auto
next
  case (3 buf i0 i wordEnd e)
  have "i0 \<le> i" using scan_ge 3(1) by simp
  moreover have "Suc i \<le> e" using scan_ge 3(5,8) by simp
  ultimately show ?case using 3(2,4) by auto
qed

declare GetTok.simps [simp del]

subsection \<open>The parser\<close>

record parser =
  ps_bufferIndex :: nat
  ps_groupIndex :: int
  ps_groupsName :: "wstr list"
  ps_settings :: "(wstr \<rightharpoonup> wstr) list"

definition new_SettingParser :: parser where
  "new_SettingParser = \<lparr>ps_bufferIndex = 0, ps_groupIndex = - 1, ps_groupsName = replicate MAXGROUPSIZE [], ps_settings = replicate MAXGROUPSIZE Map.empty\<rparr>"

text \<open>\<^verbatim>\<open>word[0]\<close> of a null-terminated word.\<close>

definition first_char :: "wstr \<Rightarrow> u16" where
  "first_char w = (case w of [] \<Rightarrow> 0 | c # _ \<Rightarrow> c)"

definition set_group :: "wstr \<Rightarrow> parser \<Rightarrow> parser res" where
  "set_group key p =
     (let g = ps_groupIndex p + 1
      in if g \<ge> int MAXGROUPSIZE then Inl OutOfBounds
         else Inr (p\<lparr>ps_groupIndex := g, ps_groupsName := (ps_groupsName p)[nat g := key]\<rparr>))"

text \<open>\<^verbatim>\<open>insert\<close> keeps an entry that is already there.\<close>

definition insert_setting :: "wstr \<Rightarrow> wstr \<Rightarrow> parser \<Rightarrow> parser res" where
  "insert_setting key value p =
     (if ps_groupIndex p < 0 then Inl OutOfBounds
      else (let g = nat (ps_groupIndex p); m = ps_settings p ! g
            in Inr (p\<lparr>ps_settings := (ps_settings p)[g := (if m key = None then m(key \<mapsto> value) else m)]\<rparr>)))"

text \<open>
  One round of the loop of \<^verbatim>\<open>Parse\<close>, with the index in the buffer and the settings: \<open>Inl\<close> is a \<^verbatim>\<open>break\<close>,
  \<open>Inr\<close> goes to the next round.
\<close>

definition Parse_step :: "wstr \<Rightarrow> nat \<Rightarrow> parser \<Rightarrow> (nat \<times> parser + nat \<times> parser) res" where
  "Parse_step buf i p =
     bind_res (GetTok buf i) (\<lambda>(ok, key, i1).
       if \<not> ok then Inr (Inl (i1, p))
       else if first_char key = 125 then Inr (Inr (i1, p))
       else
         bind_res (GetTok buf i1) (\<lambda>(ok, opr, i2).
           if \<not> ok then Inr (Inl (i2, p))
           else if first_char opr \<noteq> 58 then Inl RuntimeError
           else
             bind_res (GetTok buf i2) (\<lambda>(ok, value, i3).
               if \<not> ok then Inr (Inl (i3, p))
               else bind_res (if first_char value = 123 then set_group key p else insert_setting key value p)
                      (\<lambda>p'. Inr (Inr (i3, p'))))))"

fun Parse_loop :: "nat \<Rightarrow> wstr \<Rightarrow> nat \<Rightarrow> parser \<Rightarrow> (nat \<times> parser) res" where
  "Parse_loop 0 buf i p = Inl OutOfFuel"
| "Parse_loop (Suc n) buf i p =
     bind_res (Parse_step buf i p) (\<lambda>r. case r of Inl x \<Rightarrow> Inr x | Inr (i', p') \<Rightarrow> Parse_loop n buf i' p')"

text \<open>
  \<^verbatim>\<open>Init\<close>: the file (\<open>None\<close> when it cannot be opened, otherwise its size and the characters the stream
  delivers) is read into memory, if there is memory for it, and parsed.
\<close>

definition LoadSetting :: "bool \<Rightarrow> (nat \<times> wstr) option \<Rightarrow> wstr res" where
  "LoadSetting memory file =
     (case file of
        None \<Rightarrow> Inl RuntimeError
      | Some (fileSize, text) \<Rightarrow>
          if \<not> memory then Inl RuntimeError
          else if length text \<noteq> fileSize then Inl RuntimeError
          else Inr (text @ [0]))"

definition Parse :: "wstr \<Rightarrow> parser \<Rightarrow> parser res" where
  "Parse buf p =
     bind_res (Parse_loop (Suc (length buf)) buf (ps_bufferIndex p) p) (\<lambda>(i, p'). Inr (p'\<lparr>ps_bufferIndex := i\<rparr>))"

text \<open>The index in the buffer is a member that \<^verbatim>\<open>Init\<close> does not reset.\<close>

definition SettingParser_Init :: "bool \<Rightarrow> (nat \<times> wstr) option \<Rightarrow> parser \<Rightarrow> parser res" where
  "SettingParser_Init memory file p = bind_res (LoadSetting memory file) (\<lambda>buf. Parse buf p)"

text \<open>A file of the given text, read in full.\<close>

abbreviation text_file :: "wstr \<Rightarrow> (nat \<times> wstr) option" where
  "text_file text \<equiv> Some (length text, text)"

subsection \<open>Reading a setting\<close>

fun find_group :: "wstr \<Rightarrow> wstr list \<Rightarrow> nat \<Rightarrow> nat option" where
  "find_group g [] i = None"
| "find_group g (n # ns) i = (if n = g then Some i else find_group g ns (Suc i))"

text \<open>An ASCII literal \<^verbatim>\<open>L"..."\<close>.\<close>

definition wide :: "string \<Rightarrow> wstr" where
  "wide cs = map of_char cs"

text \<open>A name without a dot makes \<^verbatim>\<open>nameStart + npos\<close>, an iterator outside the string.\<close>

definition GetValueImpl :: "parser \<Rightarrow> wstr \<Rightarrow> wstr option res" where
  "GetValueImpl p name =
     (if 46 \<notin> set name then Inl OutOfBounds
      else
        (let group = takeWhile (\<lambda>c. c \<noteq> 46) name; typeName = tl (dropWhile (\<lambda>c. c \<noteq> 46) name)
         in case find_group group (take MAXGROUPSIZE (ps_groupsName p)) 0 of
              None \<Rightarrow> Inr None
            | Some i \<Rightarrow> Inr ((ps_settings p ! i) typeName)))"

text \<open>\<^verbatim>\<open>GetValueOrDefault\<close> for a \<^verbatim>\<open>String\<close> and, through \<^verbatim>\<open>static_cast<char>\<close>, for a \<^verbatim>\<open>std::string\<close>.\<close>

definition GetValue_String :: "parser \<Rightarrow> wstr \<Rightarrow> wstr \<Rightarrow> wstr res" where
  "GetValue_String p name defaultValue =
     bind_res (GetValueImpl p name) (\<lambda>r. Inr (case r of Some v \<Rightarrow> v | None \<Rightarrow> defaultValue))"

definition GetValue_string :: "parser \<Rightarrow> wstr \<Rightarrow> wstr \<Rightarrow> u8 list res" where
  "GetValue_string p name defaultValue =
     bind_res (GetValue_String p name defaultValue) (\<lambda>v. Inr (map ucast v))"

text \<open>\<^verbatim>\<open>std::stoi\<close>: white space, a sign, decimal digits.\<close>

definition is_space :: "u16 \<Rightarrow> bool" where
  "is_space c \<longleftrightarrow> c = 32 \<or> (9 \<le> c \<and> c \<le> 13)"

definition is_digit :: "u16 \<Rightarrow> bool" where
  "is_digit c \<longleftrightarrow> 48 \<le> c \<and> c \<le> 57"

definition stoi :: "wstr \<Rightarrow> int res" where
  "stoi w =
     (let w1 = dropWhile is_space w;
          (neg, w2) = (case w1 of [] \<Rightarrow> (False, []) | c # r \<Rightarrow> if c = 45 then (True, r) else if c = 43 then (False, r) else (False, w1));
          ds = takeWhile is_digit w2;
          v = foldl (\<lambda>a c. 10 * a + (uint c - 48)) 0 ds;
          x = (if neg then - v else v)
      in if ds = [] then Inl InvalidArgument
         else if - (2 ^ 31) \<le> x \<and> x < 2 ^ 31 then Inr x else Inl OutOfRange)"

definition GetValue_int :: "parser \<Rightarrow> wstr \<Rightarrow> wstr \<Rightarrow> int res" where
  "GetValue_int p name defaultValue = bind_res (GetValue_String p name defaultValue) stoi"

subsection \<open>Loops\<close>

lemma scan_stops:
  assumes "\<And>j. i \<le> j \<Longrightarrow> j < i + m \<Longrightarrow> \<not> leave j" and "leave (i + m)" and "m < n"
  shows "scan leave n i = i + m"
  using assms
proof (induction n arbitrary: i m)
  case (Suc n)
  show ?case
  proof (cases m)
    case 0
    then show ?thesis using Suc.prems by simp
  next
    case (Suc m')
    then have "\<not> leave i" using Suc.prems(1) [of i] by simp
    moreover have "scan leave n (Suc i) = Suc i + m'"
      by (rule Suc.IH) (use Suc.prems \<open>m = Suc m'\<close> in auto)
    ultimately show ?thesis using Suc by simp
  qed
qed simp

lemma scan_runs_out:
  assumes "\<And>j. i \<le> j \<Longrightarrow> j < i + n \<Longrightarrow> \<not> leave j"
  shows "scan leave n i = i + n"
  using assms
proof (induction n arbitrary: i)
  case (Suc n)
  have "scan leave n (Suc i) = Suc i + n" by (rule Suc.IH) (use Suc.prems in auto)
  then show ?case using Suc.prems [of i] by simp
qed simp

text \<open>Scanning a buffer written as a prefix, the characters passed, and the character it stops at.\<close>

lemma scan_text:
  assumes "\<forall>c\<in>set xs. \<not> P c" and "P c"
  shows "scan_to (pre @ xs @ c # rest) (\<lambda>j. P ((pre @ xs @ c # rest) ! j)) (length pre) = length pre + length xs"
proof (rule scan_stops)
  show "\<not> P ((pre @ xs @ c # rest) ! j)" if "length pre \<le> j" "j < length pre + length xs" for j
    using that assms(1) by (simp add: nth_append)
  show "P ((pre @ xs @ c # rest) ! (length pre + length xs))" using assms(2) by (simp add: nth_append)
qed simp

subsection \<open>Tokens\<close>

definition word_ok :: "wstr \<Rightarrow> bool" where
  "word_ok w \<longleftrightarrow> w \<noteq> [] \<and> length w < MAX_WORD_SIZE \<and> (\<forall>c\<in>set w. \<not> ends_word c \<and> c \<noteq> 0xFEFF) \<and> hd w \<noteq> 47 \<and> hd w \<noteq> 34"

lemma blank_char: "is_blank c \<Longrightarrow> c \<noteq> 0 \<and> c \<noteq> 47 \<and> c \<noteq> 34 \<and> \<not> is_single c"
  by (auto simp: is_blank_def is_single_def)

lemma word_char: "word_ok w \<Longrightarrow> c \<in> set w \<Longrightarrow> \<not> is_blank c \<and> c \<noteq> 0 \<and> \<not> is_single c"
  by (auto simp: word_ok_def ends_word_def is_blank_def)

lemma skip_blanks:
  assumes "\<forall>b\<in>set ws. is_blank b" and "\<not> is_blank c"
  shows "scan_to (pre @ ws @ c # rest) (\<lambda>j. \<not> is_blank ((pre @ ws @ c # rest) ! j)) (length pre) = length (pre @ ws)"
  using scan_text [of ws "\<lambda>c. \<not> is_blank c" c pre rest] assms by simp

lemma GetTok_end:
  assumes "\<forall>b\<in>set ws. is_blank b"
  shows "GetTok (pre @ ws @ [0]) (length pre) = Inr (False, [], length (pre @ ws))"
  using skip_blanks [OF assms, of 0 pre "[]"]
  by (subst GetTok.simps) (simp add: Let_def is_blank_def nth_append)

lemma GetTok_single:
  assumes "\<forall>b\<in>set ws. is_blank b" and "is_single c"
  shows "GetTok (pre @ ws @ c # rest) (length pre) = Inr (True, [c], Suc (length (pre @ ws)))"
proof -
  have "\<not> is_blank c" "c \<noteq> 0" "c \<noteq> 47" "c \<noteq> 34" using assms(2) by (auto simp: is_blank_def is_single_def)
  then show ?thesis
    using skip_blanks [OF assms(1), of c pre rest] assms(2)
    by (subst GetTok.simps) (simp add: Let_def nth_append)
qed

lemma GetTok_word:
  assumes "\<forall>b\<in>set ws. is_blank b" and "word_ok w" and "ends_word e"
  shows "GetTok (pre @ ws @ w @ e # rest) (length pre) = Inr (True, w, length (pre @ ws @ w))"
proof -
  obtain c v where w: "w = c # v" using assms(2) by (cases w) (auto simp: word_ok_def)
  have c: "\<not> is_blank c" "c \<noteq> 0" "c \<noteq> 47" "c \<noteq> 34" "\<not> is_single c"
    using assms(2) word_char [OF assms(2), of c] by (auto simp: w word_ok_def)
  let ?buf = "pre @ ws @ w @ e # rest" and ?i = "length (pre @ ws)"
  have sk: "scan_to ?buf (\<lambda>j. \<not> is_blank (?buf ! j)) (length pre) = ?i"
    using skip_blanks [OF assms(1) c(1), of pre "v @ e # rest"] by (simp add: w)
  have "\<forall>c\<in>set v. \<not> ends_word c" using assms(2) by (auto simp: word_ok_def w)
  then have sc: "scan_to ?buf (\<lambda>j. ends_word (?buf ! j)) (Suc ?i) = length (pre @ ws @ w)"
    using scan_text [of v ends_word e "pre @ ws @ [c]" rest] assms(3) by (simp add: w)
  have tw: "takeWhile (\<lambda>c. c \<noteq> 0) w = w" using word_char [OF assms(2)] by simp
  have "copy_word ?buf ?i (length (pre @ ws @ w) - ?i) = Inr w"
    using assms(2) by (simp add: copy_word_def word_ok_def Let_def tw)
  moreover have at: "?buf ! ?i = c" "?i < length ?buf" by (simp_all add: w nth_append)
  ultimately show ?thesis using sk sc c by (subst GetTok.simps) (simp add: Let_def)
qed

text \<open>Every token moves the index forward.\<close>

lemma GetTok_progress: "GetTok buf i0 = Inr (True, w, j) \<Longrightarrow> i0 < j \<and> j \<le> length buf"
proof (induction "length buf - i0" arbitrary: i0 rule: less_induct)
  case less
  define i where "i = scan_to buf (\<lambda>j. \<not> is_blank (buf ! j)) i0"
  have ge: "i0 \<le> i" unfolding i_def by (rule scan_ge)
  note eq = less.prems [unfolded GetTok.simps [of buf i0] i_def [symmetric] Let_def]
  have lt: "i < length buf" using eq by (auto split: if_splits)
  have e: "Suc i \<le> scan_to buf P (Suc i)" "scan_to buf P (Suc i) \<le> length buf" for P
    using scan_ge [of "Suc i" P] scan_le [of P "length buf - Suc i" "Suc i"] lt by simp_all
  have again: "i0 < j \<and> j \<le> length buf" if "GetTok buf k = Inr (True, w, j)" "i < k" for k
  proof -
    have "length buf - k < length buf - i0" using that(2) ge lt by linarith
    then show ?thesis using less.hyps [OF _ that(1)] that(2) ge by linarith
  qed
  show ?case
  proof (cases "buf ! i = 47 \<and> (buf ! Suc i = 47 \<or> buf ! Suc i = 42)")
    case True
    then obtain k where "GetTok buf k = Inr (True, w, j)" "i < k"
      using eq lt e by (auto split: if_splits simp: Suc_le_eq intro: less_SucI) (meson less_SucI)
    then show ?thesis by (rule again)
  next
    case False
    then show ?thesis using eq lt ge e [of "\<lambda>j. buf ! j = 34"] e [of "\<lambda>j. ends_word (buf ! j)"]
      by (auto split: if_splits simp: Suc_le_eq)
  qed
qed

text \<open>No token is lost to fuel: the tokenizer is total, so the parser's loop ends within the length of the file.\<close>

lemma copy_word_no_fuel: "bind_res (copy_word buf a b) (\<lambda>w. Inr (f w)) \<noteq> Inl OutOfFuel"
  by (simp add: copy_word_def Let_def)

lemma GetTok_no_fuel: "GetTok buf i0 \<noteq> Inl OutOfFuel"
proof (induction "length buf - i0" arbitrary: i0 rule: less_induct)
  case less
  define i where "i = scan_to buf (\<lambda>j. \<not> is_blank (buf ! j)) i0"
  have ge: "i0 \<le> i" unfolding i_def by (rule scan_ge)
  note eq = GetTok.simps [of buf i0, unfolded i_def [symmetric] Let_def]
  have again: "GetTok buf k \<noteq> Inl OutOfFuel" if "i < k" "i < length buf" for k
    using less.hyps [of k] that ge by simp
  show ?case
  proof (cases "i < length buf \<and> buf ! i = 47 \<and> Suc i < length buf \<and> (buf ! Suc i = 47 \<or> buf ! Suc i = 42)")
    case True
    have "Suc i \<le> scan_to buf P (Suc i)" for P using scan_ge [of "Suc i" P] by simp
    then have "\<exists>k. GetTok buf i0 = GetTok buf k \<and> i < k"
      unfolding eq using True by (auto simp: Suc_le_eq less_SucI)
    then show ?thesis using again True by metis
  next
    case False
    then show ?thesis unfolding eq
      by (cases "i < length buf"; cases "buf ! i = 47") (simp_all add: copy_word_no_fuel)
  qed
qed

lemma set_group_no_fuel: "set_group k p \<noteq> Inl OutOfFuel"
  by (simp add: set_group_def Let_def)

lemma insert_setting_no_fuel: "insert_setting k v p \<noteq> Inl OutOfFuel"
  by (simp add: insert_setting_def Let_def)

lemma bind_res_fuel:
  "bind_res r f = Inl OutOfFuel \<longleftrightarrow> r = Inl OutOfFuel \<or> (\<exists>x. r = Inr x \<and> f x = Inl OutOfFuel)"
  by (cases r) simp_all

lemma Parse_step_no_fuel: "Parse_step buf i p \<noteq> Inl OutOfFuel"
  by (auto simp: Parse_step_def bind_res_fuel GetTok_no_fuel set_group_no_fuel insert_setting_no_fuel split: if_splits)

lemma Parse_step_progress:
  assumes "Parse_step buf i p = Inr (Inr (i', p'))"
  shows "i < i' \<and> i' \<le> length buf"
proof -
  obtain ok key i1 where 1: "GetTok buf i = Inr (ok, key, i1)" using assms by (auto simp: Parse_step_def)
  then have ok: "ok" using assms by (auto simp: Parse_step_def split: if_splits)
  then have p1: "i < i1" "i1 \<le> length buf" using GetTok_progress 1 by simp_all
  show ?thesis
  proof (cases "first_char key = 125")
    case True
    then show ?thesis using assms 1 ok p1 by (simp add: Parse_step_def)
  next
    case False
    then obtain opr i2 v i3 where "GetTok buf i1 = Inr (True, opr, i2)" "GetTok buf i2 = Inr (True, v, i3)" "i' = i3"
      using assms 1 ok by (auto simp: Parse_step_def split: if_splits)
    then show ?thesis using GetTok_progress [of buf i1 opr i2] GetTok_progress [of buf i2 v i3] p1 by simp
  qed
qed

lemma GetTok_beyond: "length buf \<le> i \<Longrightarrow> GetTok buf i = Inl OutOfBounds"
  by (subst GetTok.simps) (simp add: Let_def)

lemma Parse_loop_ends:
  "length buf < i + n \<Longrightarrow> 0 < n \<Longrightarrow> Parse_loop n buf i p \<noteq> Inl OutOfFuel"
proof (induction n arbitrary: i p)
  case (Suc n)
  show ?case
  proof (cases "length buf \<le> i")
    case True
    then show ?thesis by (simp add: Parse_step_def GetTok_beyond)
  next
    case False
    then have "0 < n" using Suc.prems by simp
    then have "Parse_loop n buf j q \<noteq> Inl OutOfFuel" if "i < j" for j q
      using Suc.IH [of j q] Suc.prems that by simp
    then show ?thesis
      using Parse_step_progress [of buf i p] by (auto simp: bind_res_fuel Parse_step_no_fuel split: sum.splits)
  qed
qed simp

text \<open>The loop is left at the null character that ends the buffer, and a second pass from there reads nothing.\<close>

lemma GetTok_False:
  assumes "GetTok buf i0 = Inr (False, w, j)" and "buf \<noteq> []" and last: "last buf = 0"
  shows "j < length buf \<and> buf ! j = 0"
  using assms(1)
proof (induction "length buf - i0" arbitrary: i0 rule: less_induct)
  case less
  define i where "i = scan_to buf (\<lambda>j. \<not> is_blank (buf ! j)) i0"
  have ge: "i0 \<le> i" unfolding i_def by (rule scan_ge)
  note eq = less.prems [unfolded GetTok.simps [of buf i0] i_def [symmetric] Let_def]
  have lt: "i < length buf" using eq by (auto split: if_splits)
  have again: "j < length buf \<and> buf ! j = 0" if "GetTok buf k = Inr (False, w, j)" "i < k" for k
    using less.hyps [OF _ that(1)] that(2) ge lt by simp
  show ?case
  proof (cases "buf ! i = 47 \<and> (buf ! Suc i = 47 \<or> buf ! Suc i = 42)")
    case True
    have "Suc i \<le> scan_to buf P (Suc i)" for P using scan_ge [of "Suc i" P] by simp
    then obtain k where "GetTok buf k = Inr (False, w, j)" "i < k"
      using eq lt True by (auto split: if_splits simp: Suc_le_eq intro: less_SucI)
    then show ?thesis by (rule again)
  next
    case False
    have "buf ! i = 0" if "Suc i = length buf" using that last assms(2) by (simp add: last_conv_nth flip: that)
    then show ?thesis using eq lt False by (auto split: if_splits)
  qed
qed

lemma Parse_loop_left:
  assumes "buf \<noteq> []" and "last buf = 0"
  shows "Parse_loop n buf i p = Inr (j, p') \<Longrightarrow> j < length buf \<and> buf ! j = 0"
proof (induction n arbitrary: i p)
  case (Suc n)
  consider q where "Parse_step buf i p = Inr (Inl (j, q))"
    | i' q where "Parse_loop n buf i' q = Inr (j, p')"
    using Suc.prems by (auto split: sum.splits)
  then show ?case
  proof cases
    case 1
    then obtain w i' where "GetTok buf i' = Inr (False, w, j)" by (auto simp: Parse_step_def split: if_splits)
    then show ?thesis using GetTok_False assms by blast
  next
    case 2
    then show ?thesis by (rule Suc.IH)
  qed
qed simp

lemma GetTok_null: "j < length buf \<Longrightarrow> buf ! j = 0 \<Longrightarrow> GetTok buf j = Inr (False, [], j)"
  by (subst GetTok.simps) (cases "length buf - j", simp_all add: Let_def is_blank_def)

text \<open>A second \<^verbatim>\<open>Init\<close> on the same file leaves the settings as they are.\<close>

lemma Init_twice:
  assumes "SettingParser_Init memory file p = Inr q"
  shows "SettingParser_Init memory file q = Inr q"
proof -
  obtain cs where load: "LoadSetting memory file = Inr (cs @ [0])"
    using assms by (auto simp: SettingParser_Init_def LoadSetting_def split: option.splits if_splits)
  then have q: "Parse (cs @ [0]) p = Inr q" using assms by (simp add: SettingParser_Init_def)
  let ?j = "ps_bufferIndex q"
  have "?j < length (cs @ [0]) \<and> (cs @ [0]) ! ?j = 0"
    using q Parse_loop_left [of "cs @ [0]"] by (auto simp: Parse_def simp del: Parse_loop.simps)
  then have "Parse (cs @ [0]) q = Inr q" by (simp add: Parse_def Parse_step_def GetTok_null)
  then show ?thesis using load by (simp add: SettingParser_Init_def)
qed

subsection \<open>Writing a settings file\<close>

text \<open>The format the header of the class documents, as a printer.\<close>

fun print_pairs :: "(wstr \<times> wstr) list \<Rightarrow> wstr" where
  "print_pairs [] = []"
| "print_pairs ((k, v) # ps) = k @ [32, 58, 32] @ v @ [10] @ print_pairs ps"

fun print_groups :: "(wstr \<times> (wstr \<times> wstr) list) list \<Rightarrow> wstr" where
  "print_groups [] = []"
| "print_groups ((g, ps) # gs) = g @ [32, 58, 32, 123] @ [10] @ print_pairs ps @ [125, 10] @ print_groups gs"

definition pairs_ok :: "(wstr \<times> wstr) list \<Rightarrow> bool" where
  "pairs_ok ps \<longleftrightarrow> (\<forall>(k, v)\<in>set ps. word_ok k \<and> word_ok v)"

definition config_ok :: "(wstr \<times> (wstr \<times> wstr) list) list \<Rightarrow> bool" where
  "config_ok cfg \<longleftrightarrow> length cfg \<le> MAXGROUPSIZE \<and> (\<forall>(g, ps)\<in>set cfg. word_ok g \<and> pairs_ok ps)"

text \<open>What the parser holds after the groups of a configuration.\<close>

definition parsed :: "(wstr \<times> (wstr \<times> wstr) list) list \<Rightarrow> parser" where
  "parsed cfg = \<lparr>ps_bufferIndex = 0, ps_groupIndex = int (length cfg) - 1,
     ps_groupsName = map fst cfg @ replicate (MAXGROUPSIZE - length cfg) [],
     ps_settings = map (map_of \<circ> snd) cfg @ replicate (MAXGROUPSIZE - length cfg) Map.empty\<rparr>"

lemma new_index: "ps_bufferIndex new_SettingParser = 0"
  by (simp add: new_SettingParser_def)

lemma word_first: "word_ok w \<Longrightarrow> first_char w \<noteq> 125 \<and> first_char w \<noteq> 123 \<and> first_char w \<noteq> 58"
  by (cases w) (auto simp: word_ok_def first_char_def ends_word_def is_single_def)

lemma blank_simps [simp]: "is_blank 10" "is_blank 32"
  by (simp_all add: is_blank_def)

lemma ends_simps [simp]: "ends_word 10" "ends_word 32" "is_single 58" "is_single 123" "is_single 125"
  by (simp_all add: ends_word_def is_single_def)

lemma step_key:
  assumes "\<forall>b\<in>set ws. is_blank b" and "word_ok k" and buf: "buf = pre @ ws @ k @ [32, 58] @ rest"
  shows "Parse_step buf (length pre) p = bind_res (GetTok buf (length (pre @ ws @ k @ [32, 58]))) (\<lambda>(ok, value, i3).
    if \<not> ok then Inr (Inl (i3, p))
    else bind_res (if first_char value = 123 then set_group k p else insert_setting k value p) (\<lambda>p'. Inr (Inr (i3, p'))))"
proof -
  have 1: "GetTok buf (length pre) = Inr (True, k, length (pre @ ws @ k))"
    using GetTok_word [OF assms(1,2), of 32 pre "58 # rest"] by (simp add: buf)
  have 2: "GetTok buf (length (pre @ ws @ k)) = Inr (True, [58], length (pre @ ws @ k @ [32, 58]))"
    using GetTok_single [of "[32]" 58 "pre @ ws @ k" rest] by (simp add: buf)
  show ?thesis unfolding Parse_step_def using 1 2 word_first [OF assms(2)] by (simp add: first_char_def)
qed

lemma step_pair:
  assumes "\<forall>b\<in>set ws. is_blank b" and "word_ok k" and "word_ok v" and buf: "buf = pre @ ws @ k @ [32, 58, 32] @ v @ 10 # rest"
  shows "Parse_step buf (length pre) p =
    bind_res (insert_setting k v p) (\<lambda>p'. Inr (Inr (length (pre @ ws @ k @ [32, 58, 32] @ v), p')))"
proof -
  have "GetTok buf (length (pre @ ws @ k @ [32, 58])) = Inr (True, v, length (pre @ ws @ k @ [32, 58, 32] @ v))"
    using GetTok_word [of "[32]" v 10 "pre @ ws @ k @ [32, 58]" rest] assms(3) by (simp add: buf)
  then show ?thesis
    using step_key [OF assms(1,2), of buf pre "32 # v @ 10 # rest"] word_first [OF assms(3)] by (simp add: buf)
qed

lemma step_group:
  assumes "\<forall>b\<in>set ws. is_blank b" and "word_ok g" and buf: "buf = pre @ ws @ g @ [32, 58, 32, 123] @ rest"
  shows "Parse_step buf (length pre) p =
    bind_res (set_group g p) (\<lambda>p'. Inr (Inr (length (pre @ ws @ g @ [32, 58, 32, 123]), p')))"
proof -
  have "GetTok buf (length (pre @ ws @ g @ [32, 58])) = Inr (True, [123], length (pre @ ws @ g @ [32, 58, 32, 123]))"
    using GetTok_single [of "[32]" 123 "pre @ ws @ g @ [32, 58]" rest] by (simp add: buf)
  then show ?thesis
    using step_key [OF assms(1,2), of buf pre "32 # 123 # rest"] by (simp add: buf first_char_def)
qed

lemma step_close:
  assumes "\<forall>b\<in>set ws. is_blank b" and buf: "buf = pre @ ws @ 125 # rest"
  shows "Parse_step buf (length pre) p = Inr (Inr (length (pre @ ws @ [125]), p))"
  unfolding Parse_step_def using GetTok_single [OF assms(1), of 125 pre rest] by (simp add: buf first_char_def)

text \<open>Inserting the pairs of a group.\<close>

definition add_pairs :: "(wstr \<times> wstr) list \<Rightarrow> (wstr \<rightharpoonup> wstr) \<Rightarrow> (wstr \<rightharpoonup> wstr)" where
  "add_pairs ps m = map_of ps ++ m"

lemma add_pairs_Cons:
  "add_pairs ((k, v) # ps) m = add_pairs ps (if m k = None then m(k \<mapsto> v) else m)"
proof
  fix x
  show "add_pairs ((k, v) # ps) m x = add_pairs ps (if m k = None then m(k \<mapsto> v) else m) x"
    by (cases "m x"; cases "x = k") (auto simp: add_pairs_def map_add_def split: option.splits)
qed

lemma loop_pairs:
  assumes "pairs_ok ps" and "\<forall>b\<in>set ws. is_blank b" and "buf = pre @ ws @ print_pairs ps @ rest"
    and "0 \<le> ps_groupIndex p" and "nat (ps_groupIndex p) < length (ps_settings p)"
  shows "\<exists>pre' ws'. buf = pre' @ ws' @ rest \<and> (\<forall>b\<in>set ws'. is_blank b) \<and>
    Parse_loop (length ps + n) buf (length pre) p = Parse_loop n buf (length pre')
      (p\<lparr>ps_settings := (ps_settings p)[nat (ps_groupIndex p) := add_pairs ps (ps_settings p ! nat (ps_groupIndex p))]\<rparr>)"
  using assms
proof (induction ps arbitrary: pre ws p)
  case Nil
  then show ?case by (auto simp: add_pairs_def)
next
  case (Cons kv ps)
  obtain k v where kv: "kv = (k, v)" by (cases kv)
  have ok: "word_ok k" "word_ok v" "pairs_ok ps" using Cons.prems(1) by (auto simp: pairs_ok_def kv)
  let ?g = "nat (ps_groupIndex p)"
  let ?m = "ps_settings p ! ?g"
  define q where "q = p\<lparr>ps_settings := (ps_settings p)[?g := (if ?m k = None then ?m(k \<mapsto> v) else ?m)]\<rparr>"
  let ?pre = "pre @ ws @ k @ [32, 58, 32] @ v"
  have buf: "buf = pre @ ws @ k @ [32, 58, 32] @ v @ 10 # print_pairs ps @ rest" using Cons.prems(3) by (simp add: kv)
  have "insert_setting k v p = Inr q" using Cons.prems(4) by (simp add: insert_setting_def q_def Let_def)
  then have "Parse_loop (length (kv # ps) + n) buf (length pre) p = Parse_loop (length ps + n) buf (length ?pre) q"
    using step_pair [OF Cons.prems(2) ok(1,2) buf, of p] by simp
  moreover have "buf = ?pre @ [10] @ print_pairs ps @ rest" by (simp add: buf)
  from Cons.IH [OF ok(3) _ this, of q] have "\<exists>pre' ws'. buf = pre' @ ws' @ rest \<and> (\<forall>b\<in>set ws'. is_blank b) \<and>
      Parse_loop (length ps + n) buf (length ?pre) q = Parse_loop n buf (length pre')
        (q\<lparr>ps_settings := (ps_settings q)[?g := add_pairs ps (ps_settings q ! ?g)]\<rparr>)"
    using Cons.prems(4,5) by (simp add: q_def)
  moreover have "q\<lparr>ps_settings := (ps_settings q)[?g := add_pairs ps (ps_settings q ! ?g)]\<rparr> =
      p\<lparr>ps_settings := (ps_settings p)[?g := add_pairs (kv # ps) ?m]\<rparr>"
    using Cons.prems(5) by (simp add: q_def kv add_pairs_Cons)
  ultimately show ?case by simp
qed

fun rounds :: "(wstr \<times> (wstr \<times> wstr) list) list \<Rightarrow> nat" where
  "rounds [] = 0"
| "rounds ((g, ps) # gs) = Suc (length ps + Suc (rounds gs))"

text \<open>Starting a group and filling it extends the configuration the parser holds by that group.\<close>

lemma parsed_group:
  assumes "length cfg < MAXGROUPSIZE"
  shows "\<exists>p. set_group g (parsed cfg) = Inr p \<and> ps_groupIndex p = int (length cfg) \<and> length (ps_settings p) = MAXGROUPSIZE \<and>
    p\<lparr>ps_settings := (ps_settings p)[length cfg := add_pairs ps (ps_settings p ! length cfg)]\<rparr> = parsed (cfg @ [(g, ps)])"
proof -
  obtain m where m: "MAXGROUPSIZE - length cfg = Suc m" "MAXGROUPSIZE - length (cfg @ [(g, ps)]) = m"
    using assms by (cases "MAXGROUPSIZE - length cfg") auto
  define p where "p = (parsed cfg)\<lparr>ps_groupIndex := int (length cfg), ps_groupsName := (ps_groupsName (parsed cfg))[length cfg := g]\<rparr>"
  have "set_group g (parsed cfg) = Inr p" using assms by (simp add: set_group_def parsed_def p_def Let_def)
  moreover have "p\<lparr>ps_settings := (ps_settings p)[length cfg := add_pairs ps (ps_settings p ! length cfg)]\<rparr> = parsed (cfg @ [(g, ps)])"
    using m by (simp add: p_def parsed_def nth_append list_update_append add_pairs_def)
  ultimately show ?thesis using assms by (intro exI [of _ p]) (simp add: p_def parsed_def)
qed

lemma loop_groups:
  assumes "config_ok (cfg @ gs)" and "\<forall>b\<in>set ws. is_blank b" and "buf = pre @ ws @ print_groups gs @ [0]"
  shows "Parse_loop (rounds gs + Suc n) buf (length pre) (parsed cfg) = Inr (length buf - 1, parsed (cfg @ gs))"
  using assms
proof (induction gs arbitrary: cfg pre ws)
  case Nil
  then show ?case using GetTok_end [OF Nil(2), of pre] by (simp add: Parse_step_def)
next
  case (Cons gps gs)
  obtain g ps where g: "gps = (g, ps)" by (cases gps)
  have ok: "word_ok g" "pairs_ok ps" "length cfg < MAXGROUPSIZE" using Cons.prems(1) by (auto simp: config_ok_def g)
  obtain p where p: "set_group g (parsed cfg) = Inr p" "ps_groupIndex p = int (length cfg)" "length (ps_settings p) = MAXGROUPSIZE"
      "p\<lparr>ps_settings := (ps_settings p)[length cfg := add_pairs ps (ps_settings p ! length cfg)]\<rparr> = parsed (cfg @ [(g, ps)])"
    using parsed_group [OF ok(3)] by blast
  let ?pre = "pre @ ws @ g @ [32, 58, 32, 123]" and ?rest = "125 # 10 # print_groups gs @ [0]"
  have buf: "buf = pre @ ws @ g @ [32, 58, 32, 123] @ [10] @ print_pairs ps @ ?rest" using Cons.prems(3) by (simp add: g)
  let ?n = "Suc (rounds gs + Suc n)"
  have fuel: "rounds (gps # gs) + Suc n = Suc (length ps + ?n)" by (simp add: g)
  have "Parse_step buf (length pre) (parsed cfg) = Inr (Inr (length ?pre, p))"
    using step_group [OF Cons.prems(2) ok(1), of buf pre "[10] @ print_pairs ps @ ?rest" "parsed cfg"] buf p(1) by simp
  then have "Parse_loop (rounds (gps # gs) + Suc n) buf (length pre) (parsed cfg) = Parse_loop (length ps + ?n) buf (length ?pre) p"
    unfolding fuel Parse_loop.simps(2) by simp
  also have "\<dots> = Inr (length buf - 1, parsed (cfg @ gps # gs))"
  proof -
    have b2: "buf = ?pre @ [10] @ print_pairs ps @ ?rest" by (simp add: buf)
    obtain pre' ws' where r: "buf = pre' @ ws' @ ?rest" "\<forall>b\<in>set ws'. is_blank b"
        "Parse_loop (length ps + ?n) buf (length ?pre) p = Parse_loop ?n buf (length pre') (parsed (cfg @ [(g, ps)]))"
      using loop_pairs [OF ok(2) _ b2, of p ?n] p(2-4) ok(3) by auto
    have "Parse_loop ?n buf (length pre') (parsed (cfg @ [(g, ps)])) =
        Parse_loop (rounds gs + Suc n) buf (length (pre' @ ws' @ [125])) (parsed (cfg @ [(g, ps)]))"
      using step_close [OF r(2,1)] by simp
    also have "\<dots> = Inr (length buf - 1, parsed ((cfg @ [(g, ps)]) @ gs))"
      using Cons.prems(1) r(1) by (intro Cons.IH [of _ "[10]"]) (simp_all add: g)
    finally show ?thesis using r(3) g by simp
  qed
  finally show ?case .
qed

lemma rounds_le: "rounds gs \<le> length (print_groups gs)"
proof (induction gs rule: rounds.induct)
  case (2 g ps gs)
  have "length ps \<le> length (print_pairs ps)" by (induction ps rule: print_pairs.induct) auto
  then show ?case using 2 by simp
qed simp

lemma find_group_nth:
  assumes "i < length ns" and "distinct ns"
  shows "find_group (ns ! i) (ns @ ms) k = Some (k + i)"
  using assms
proof (induction ns arbitrary: i k)
  case (Cons n ns)
  then show ?case by (cases i) (auto simp: nth_mem)
qed simp

subsection \<open>Properties\<close>

text \<open>
  C33. A settings file written in the documented format is read back: for up to ten groups with different names,
  whose names, keys and values are words of fewer than 100 characters without separators, the parser accepts
  the text and \<^verbatim>\<open>group.key\<close> yields the value written for that key (the first one if it is repeated), and
  nothing for a key that was not written.
\<close>

theorem settings_roundtrip:
  assumes "config_ok cfg" and "distinct (map fst cfg)" and "(g, ps) \<in> set cfg" and "46 \<notin> set g"
  shows "\<exists>p. SettingParser_Init True (text_file (print_groups cfg)) new_SettingParser = Inr p \<and> GetValueImpl p (g @ 46 # k) = Inr (map_of ps k)"
proof -
  let ?buf = "print_groups cfg @ [0]"
  obtain n where n: "Suc (length ?buf) = rounds cfg + Suc n" using rounds_le [of cfg] by (auto simp: le_iff_add)
  have "new_SettingParser = parsed []" by (simp add: new_SettingParser_def parsed_def)
  then have "SettingParser_Init True (text_file (print_groups cfg)) new_SettingParser =
      Inr ((parsed cfg)\<lparr>ps_bufferIndex := length (print_groups cfg)\<rparr>)"
    using loop_groups [of "[]" cfg "[]" ?buf "[]" n] assms(1) n
    by (simp add: SettingParser_Init_def LoadSetting_def Parse_def new_index del: Parse_loop.simps)
  moreover obtain i where i: "i < length cfg" "cfg ! i = (g, ps)" using assms(3) by (metis in_set_conv_nth)
  have "find_group g (map fst cfg @ replicate (MAXGROUPSIZE - length cfg) []) 0 = Some i"
    using find_group_nth [of i "map fst cfg" _ 0] assms(2) i by simp
  moreover have "length cfg \<le> MAXGROUPSIZE" using assms(1) by (simp add: config_ok_def)
  moreover have "takeWhile (\<lambda>c. c \<noteq> 46) (g @ 46 # k) = g" "dropWhile (\<lambda>c. c \<noteq> 46) (g @ 46 # k) = 46 # k"
    using assms(4) by (induction g) auto
  ultimately show ?thesis using i
    by (intro exI [of _ "(parsed cfg)\<lparr>ps_bufferIndex := length (print_groups cfg)\<rparr>"]) (simp add: GetValueImpl_def parsed_def nth_append)
qed

theorem settings_roundtrip_witness:
  "\<exists>p. SettingParser_Init True (text_file (print_groups [([78], [([80], [56, 48]), ([81], [49])])])) new_SettingParser = Inr p \<and>
    GetValueImpl p [78, 46, 80] = Inr (Some [56, 48])"
  using settings_roundtrip [of "[([78], [([80], [56, 48]), ([81], [49])])]" "[78]" "[([80], [56, 48]), ([81], [49])]" "[80]"]
  by (simp add: config_ok_def pairs_ok_def word_ok_def ends_word_def is_single_def MAX_WORD_SIZE_def MAXGROUPSIZE_def)

text \<open>
  C34. Reading the settings always comes to an end, whatever the file contains: the loop that tokenizes and parses it
  never needs more rounds than the file has characters.
\<close>

theorem settings_parsing_terminates:
  "SettingParser_Init memory input p \<noteq> Inl OutOfFuel"
proof -
  have "LoadSetting memory input \<noteq> Inl OutOfFuel" by (auto simp: LoadSetting_def split: option.splits)
  moreover have "Parse buf p \<noteq> Inl OutOfFuel" for buf p
    using Parse_loop_ends [of buf "ps_bufferIndex p" "Suc (length buf)" p] by (auto simp: Parse_def bind_res_fuel simp del: Parse_loop.simps)
  ultimately show ?thesis by (simp add: SettingParser_Init_def bind_res_fuel)
qed

text \<open>
  A line comment on the last line of the file, without a line break after it, sends the tokenizer past the end of
  the buffer: the comment loop stops at the buffer's size and the next call reads the character there.
\<close>

theorem trailing_comment_overreads:
  assumes "10 \<notin> set cs"
  shows "SettingParser_Init True (text_file ([47, 47] @ cs)) new_SettingParser = Inl OutOfBounds"
proof -
  let ?buf = "[47, 47] @ cs @ [0]"
  have "scan_to ?buf (\<lambda>j. \<not> is_blank (?buf ! j)) 0 = 0" by (simp add: is_blank_def)
  moreover have "scan_to ?buf (\<lambda>j. ?buf ! j = 10) (Suc 0) = length ?buf"
  proof -
    have ne: "?buf ! j \<noteq> 10" if "j < length ?buf" for j
      using nth_mem [OF that] assms by auto
    have "scan (\<lambda>j. ?buf ! j = 10) (length ?buf - 1) 1 = 1 + (length ?buf - 1)"
      by (rule scan_runs_out, rule ne) simp
    then show ?thesis by simp
  qed
  moreover have "GetTok ?buf (length ?buf) = Inl OutOfBounds" by (subst GetTok.simps) (simp add: Let_def)
  ultimately have "GetTok ?buf 0 = Inl OutOfBounds" by (subst GetTok.simps) (simp add: Let_def)
  then show ?thesis by (simp add: SettingParser_Init_def LoadSetting_def Parse_def Parse_step_def new_SettingParser_def)
qed

theorem trailing_comment_overreads_witness:
  "SettingParser_Init True (text_file [47, 47, 120]) new_SettingParser = Inl OutOfBounds"
  using trailing_comment_overreads [of "[120]"] by simp

end
