(* ===== verification/Subnet.thy ===== *)
theory Subnet
  imports Setting_Parser "HOL-Library.Multiset"
begin

section \<open>Subnets\<close>

text \<open>
  \<^verbatim>\<open>Socket::IsSameSubnet\<close> of \<^verbatim>\<open>src/NormalSocket.cpp\<close> and \<^verbatim>\<open>SubnetManager\<close>, which reads two groups of subnets from
  a settings file and finds the subnet of an address. An \<^verbatim>\<open>IN_ADDR\<close> is its \<^verbatim>\<open>S_addr\<close>: the four octets
  in network order, read as a little-endian 32-bit number. The parameter \<open>pton\<close> is Winsock's \<^verbatim>\<open>InetPtonW\<close>
  on a structure that was set to zero before the call.
\<close>

subsection \<open>Comparing addresses\<close>

definition IsSameSubnet :: "bool \<Rightarrow> u32 \<Rightarrow> u32 \<Rightarrow> u8 \<Rightarrow> bool res" where
  "IsSameSubnet dbg a b subnetMaskBits =
     bind_res (ASSERT_CRASH dbg (0 \<le> sint subnetMaskBits \<and> sint subnetMaskBits \<le> 32)) (\<lambda>_.
       (let n = unat (word_of_int (32 - sint subnetMaskBits) AND (0xFFFFFFFF :: u32))
        in if 64 \<le> n then Inl BadShift
           else
             (let subnetMask = (ucast (drop_bit n (0xFFFFFFFF :: u64)) :: u32);
                  compMasked = a AND subnetMask; tarMasked = b AND subnetMask
              in Inr (compMasked = tarMasked))))"

definition Ip2Address :: "(wstr \<Rightarrow> u32) \<Rightarrow> wstr \<Rightarrow> u32" where
  "Ip2Address pton ip = pton ip"

text \<open>The member function: the session's own address against a written one.\<close>

definition IsSameSubnet_str :: "bool \<Rightarrow> (wstr \<Rightarrow> u32) \<Rightarrow> u32 \<Rightarrow> wstr \<Rightarrow> u8 \<Rightarrow> bool res" where
  "IsSameSubnet_str dbg pton own text_addr subnetMaskBits = IsSameSubnet dbg (pton text_addr) own subnetMaskBits"

subsection \<open>The subnet manager\<close>

record SubnetInfo =
  si_subnetSize :: u8
  si_address :: u32
  si_addressStr :: wstr

record SubnetManager =
  sm_subnetParser :: parser
  sm_lanSubnet :: "SubnetInfo list"
  sm_wanSubnet :: "SubnetInfo list"

text \<open>\<^verbatim>\<open>std::ranges::find_if\<close> with the comparison above.\<close>

fun FindSubnet :: "bool \<Rightarrow> SubnetInfo list \<Rightarrow> u32 \<Rightarrow> SubnetInfo option res" where
  "FindSubnet dbg [] info = Inr None"
| "FindSubnet dbg (d # ds) info =
     bind_res (IsSameSubnet dbg (si_address d) info (si_subnetSize d)) (\<lambda>same.
       if same then Inr (Some d) else FindSubnet dbg ds info)"

definition IsLan :: "bool \<Rightarrow> SubnetManager \<Rightarrow> u32 \<Rightarrow> bool res" where
  "IsLan dbg m info = bind_res (FindSubnet dbg (sm_lanSubnet m) info) (\<lambda>r. Inr (r \<noteq> None))"

definition IsWan :: "bool \<Rightarrow> SubnetManager \<Rightarrow> u32 \<Rightarrow> bool res" where
  "IsWan dbg m info = bind_res (FindSubnet dbg (sm_wanSubnet m) info) (\<lambda>r. Inr (r \<noteq> None))"

definition FindMatchSubnet :: "bool \<Rightarrow> SubnetManager \<Rightarrow> u32 \<Rightarrow> SubnetInfo option res" where
  "FindMatchSubnet dbg m info =
     bind_res (FindSubnet dbg (sm_lanSubnet m) info) (\<lambda>r.
       case r of Some d \<Rightarrow> Inr (Some d) | None \<Rightarrow> FindSubnet dbg (sm_wanSubnet m) info)"

subsection \<open>Loading\<close>

text \<open>\<^verbatim>\<open>std::to_wstring\<close> of a number that is not negative.\<close>

fun to_wstring :: "nat \<Rightarrow> wstr" where
  "to_wstring n = (if n < 10 then [48 + of_nat n] else to_wstring (n div 10) @ [48 + of_nat (n mod 10)])"

declare to_wstring.simps [simp del]

text \<open>The loop over the \<open>n\<close> subnets from index \<open>i\<close> on; the mask is stored in a \<^verbatim>\<open>char\<close>.\<close>

fun LoadSubnet_loop :: "(wstr \<Rightarrow> u32) \<Rightarrow> parser \<Rightarrow> wstr \<Rightarrow> nat \<Rightarrow> nat \<Rightarrow> SubnetInfo list res" where
  "LoadSubnet_loop pton p grp 0 i = Inr []"
| "LoadSubnet_loop pton p grp (Suc n) i =
     bind_res (GetValue_int p (grp @ wide ''mask_'' @ to_wstring i) []) (\<lambda>subnet.
     bind_res (GetValue_String p (grp @ wide ''ip_'' @ to_wstring i) []) (\<lambda>ip.
     bind_res (LoadSubnet_loop pton p grp n (Suc i)) (\<lambda>rest.
       Inr (\<lparr>si_subnetSize = word_of_int subnet, si_address = Ip2Address pton ip, si_addressStr = ip\<rparr> # rest))))"

text \<open>
  \<^verbatim>\<open>std::ranges::sort\<close> by decreasing size. Its order among equal sizes is unspecified; the model takes the
  stable one, and the theorems use only that the result is sorted.
\<close>

definition sort_subnets :: "SubnetInfo list \<Rightarrow> SubnetInfo list" where
  "sort_subnets = sort_key (\<lambda>d. - sint (si_subnetSize d))"

definition LoadSubnetGroup :: "(wstr \<Rightarrow> u32) \<Rightarrow> parser \<Rightarrow> wstr \<Rightarrow> SubnetInfo list \<Rightarrow> SubnetInfo list res" where
  "LoadSubnetGroup pton p grp container =
     bind_res (GetValue_int p (grp @ wide ''.'' @ wide ''len'') []) (\<lambda>len.
     bind_res (LoadSubnet_loop pton p (grp @ wide ''.'') (nat len) 0) (\<lambda>ds.
       Inr (sort_subnets (container @ ds))))"

definition LoadSubnets :: "bool \<Rightarrow> (nat \<times> wstr) option \<Rightarrow> (wstr \<Rightarrow> u32) \<Rightarrow> SubnetManager \<Rightarrow> SubnetManager res" where
  "LoadSubnets memory file pton m =
     bind_res (SettingParser_Init memory file (sm_subnetParser m)) (\<lambda>p.
     bind_res (LoadSubnetGroup pton p (wide ''LAN'') (sm_lanSubnet m)) (\<lambda>lan.
     bind_res (LoadSubnetGroup pton p (wide ''WAN'') (sm_wanSubnet m)) (\<lambda>wan.
       Inr \<lparr>sm_subnetParser = p, sm_lanSubnet = lan, sm_wanSubnet = wan\<rparr>)))"

text \<open>The constructor reads the file, and \<^verbatim>\<open>LoadSubnets\<close> reads it again.\<close>

definition new_SubnetManager :: "bool \<Rightarrow> (nat \<times> wstr) option \<Rightarrow> (wstr \<Rightarrow> u32) \<Rightarrow> SubnetManager res" where
  "new_SubnetManager memory file pton =
     bind_res (SettingParser_Init memory file new_SettingParser) (\<lambda>p.
       LoadSubnets memory file pton \<lparr>sm_subnetParser = p, sm_lanSubnet = [], sm_wanSubnet = []\<rparr>)"

subsection \<open>The mask\<close>

text \<open>
  The reference: bit \<open>j\<close> of an address in network order is bit \<open>7 - j mod 8\<close> of octet \<open>j div 8\<close>; two addresses are in
  the same subnet of \<open>n\<close> bits when their first \<open>n\<close> bits agree.
\<close>

definition net_index :: "nat \<Rightarrow> nat" where
  "net_index j = 8 * (j div 8) + (7 - j mod 8)"

definition same_prefix :: "nat \<Rightarrow> u32 \<Rightarrow> u32 \<Rightarrow> bool" where
  "same_prefix n a b \<longleftrightarrow> list_all (\<lambda>j. bit a (net_index j) = bit b (net_index j)) [0..<n]"

lemma net_index_involution: "net_index (net_index j) = j"
proof -
  define r where "r = 7 - j mod 8"
  have "r < 8" by (simp add: r_def)
  then have "(8 * (j div 8) + r) div 8 = j div 8" "(8 * (j div 8) + r) mod 8 = r" by simp_all
  moreover have "7 - r = j mod 8" by (simp add: r_def Suc_diff_Suc less_Suc_eq_le flip: mod_less_divisor)
  ultimately show ?thesis by (simp add: net_index_def r_def [symmetric])
qed

lemma net_index_less: "8 dvd n \<Longrightarrow> j < n \<Longrightarrow> net_index j < n"
proof -
  assume "8 dvd n" "j < n"
  then obtain m where m: "n = 8 * m" "j < 8 * m" by auto
  then have "j div 8 < m" by (simp add: div_less_iff_less_mult mult.commute)
  moreover have "net_index j \<le> 8 * (j div 8) + 7" by (simp add: net_index_def)
  ultimately show ?thesis using m(1) by linarith
qed

lemma subnet_mask: "n \<le> 32 \<Longrightarrow> (ucast (drop_bit (32 - n) (0xFFFFFFFF :: u64)) :: u32) = mask n"
proof -
  assume n: "n \<le> 32"
  have m: "(0xFFFFFFFF :: u64) = mask 32" by (simp add: mask_eq_exp_minus_1)
  show ?thesis unfolding m using n by (intro bit_word_eqI) (auto simp: bit_simps)
qed

lemma IsSameSubnet_bits:
  assumes "n \<le> 32"
  shows "IsSameSubnet dbg a b (of_nat n) = Inr (\<forall>i < n. bit a i = bit b i)"
proof -
  have s: "sint (of_nat n :: u8) = int n" using assms by (simp add: signed_of_nat signed_take_bit_int_eq_self)
  have all: "x AND 0xFFFFFFFF = x" for x :: u32
  proof -
    have "(0xFFFFFFFF :: u32) = - 1" by simp
    then show ?thesis by (simp only: and.right_neutral)
  qed
  have w: "(word_of_int (32 - int n) :: u32) = of_nat (32 - n)" using assms by (simp add: of_nat_diff)
  have u: "unat (word_of_int (32 - int n) AND (0xFFFFFFFF :: u32)) = 32 - n"
    unfolding all w by (rule unat_of_nat_small) simp
  have "(a AND mask n = b AND mask n) = (\<forall>i < n. bit a i = bit b i)"
    using assms by (auto simp: bit_eq_iff bit_simps) (meson less_le_trans)+
  then show ?thesis
    unfolding IsSameSubnet_def s u Let_def subnet_mask [OF assms] using assms by simp
qed

subsection \<open>The longest match\<close>

definition matches :: "u32 \<Rightarrow> SubnetInfo \<Rightarrow> bool" where
  "matches info d \<longleftrightarrow> IsSameSubnet False (si_address d) info (si_subnetSize d) = Inr True"

definition sizes_ok :: "SubnetInfo list \<Rightarrow> bool" where
  "sizes_ok ds \<longleftrightarrow> list_all (\<lambda>d. 0 \<le> sint (si_subnetSize d) \<and> sint (si_subnetSize d) \<le> 32) ds"

lemma IsSameSubnet_valid:
  assumes "0 \<le> sint (si_subnetSize d)" and "sint (si_subnetSize d) \<le> 32"
  shows "IsSameSubnet dbg (si_address d) info (si_subnetSize d) = Inr (matches info d)"
proof -
  define n where "n = nat (sint (si_subnetSize d))"
  have n: "n \<le> 32" "si_subnetSize d = of_nat n" using assms by (simp_all add: n_def)
  show ?thesis by (simp add: matches_def n(2) IsSameSubnet_bits [OF n(1)])
qed

lemma FindSubnet_find:
  "sizes_ok ds \<Longrightarrow> FindSubnet dbg ds info = Inr (List.find (matches info) ds)"
  by (induction ds) (simp_all add: sizes_ok_def IsSameSubnet_valid)

lemma find_longest:
  fixes f :: "'a \<Rightarrow> int"
  assumes "sorted_wrt (\<lambda>x y. f y \<le> f x) ds" and "List.find P ds = Some d"
  shows "d \<in> set ds \<and> P d \<and> (\<forall>d' \<in> set ds. P d' \<longrightarrow> f d' \<le> f d)"
  using assms by (induction ds) (auto split: if_splits)

lemma sort_subnets_sorted: "sorted_wrt (\<lambda>x y. sint (si_subnetSize y) \<le> sint (si_subnetSize x)) (sort_subnets ds)"
proof -
  have "sorted (map (\<lambda>d. - sint (si_subnetSize d)) (sort_subnets ds))" unfolding sort_subnets_def by (rule sorted_sort_key)
  then show ?thesis by (simp add: sorted_wrt_map)
qed

text \<open>Reading the file twice gives the same manager as reading it once.\<close>

lemma new_SubnetManager_once:
  "new_SubnetManager memory file pton =
     bind_res (SettingParser_Init memory file new_SettingParser) (\<lambda>p.
     bind_res (LoadSubnetGroup pton p (wide ''LAN'') []) (\<lambda>lan.
     bind_res (LoadSubnetGroup pton p (wide ''WAN'') []) (\<lambda>wan.
       Inr \<lparr>sm_subnetParser = p, sm_lanSubnet = lan, sm_wanSubnet = wan\<rparr>)))"
proof (cases "SettingParser_Init memory file new_SettingParser")
  case (Inr p)
  then show ?thesis using Init_twice [OF Inr] by (simp add: new_SubnetManager_def LoadSubnets_def)
qed (simp add: new_SubnetManager_def)

lemma LoadSubnetGroup_sorted:
  "LoadSubnetGroup pton p grp ds = Inr ds' \<Longrightarrow>
   sorted_wrt (\<lambda>x y. sint (si_subnetSize y) \<le> sint (si_subnetSize x)) ds'"
  by (auto simp: LoadSubnetGroup_def sort_subnets_sorted)

subsection \<open>Properties\<close>

text \<open>
  C36. For subnets whose size is a whole number of octets the comparison of two addresses is the comparison of their
  first bits in network order, for every size from 0 to 32. (The mask is applied to the little-endian number, so
  this does not extend to other sizes: theorem \<open>subnet_within_octet\<close>.)
\<close>

theorem same_subnet_octets:
  assumes "n \<le> 32" and "8 dvd n"
  shows "IsSameSubnet dbg a b (of_nat n) = Inr (same_prefix n a b)"
proof -
  have "(\<forall>j < n. bit a (net_index j) = bit b (net_index j)) = (\<forall>i < n. bit a i = bit b i)"
    using net_index_less [OF assms(2)] net_index_involution by metis
  then show ?thesis using IsSameSubnet_bits [OF assms(1)] by (simp add: same_prefix_def list_all_iff Ball_def)
qed

theorem same_subnet_octets_witness:
  "IsSameSubnet True 0x0101A8C0 0x0201A8C0 24 = Inr True \<and> IsSameSubnet True 0x0101A8C0 0x0201A8C0 32 = Inr False"
proof -
  have "IsSameSubnet True 0x0101A8C0 0x0201A8C0 (of_nat 24) = Inr (same_prefix 24 0x0101A8C0 0x0201A8C0)"
       "IsSameSubnet True 0x0101A8C0 0x0201A8C0 (of_nat 32) = Inr (same_prefix 32 0x0101A8C0 0x0201A8C0)"
    by (rule same_subnet_octets; simp)+
  moreover have "same_prefix 24 0x0101A8C0 0x0201A8C0" "\<not> same_prefix 32 0x0101A8C0 0x0201A8C0"
    by code_simp+
  ultimately show ?thesis by simp
qed

text \<open>
  For every other size the mask takes the low bits of the last octet instead of its high bits: there are two addresses
  that differ in the first bit of that octet and are reported to be in the same subnet.
\<close>

lemma subnet_within_octet:
  assumes "n \<le> 32" and "\<not> 8 dvd n"
  shows "\<exists>a b. IsSameSubnet dbg a b (of_nat n) = Inr True \<and> \<not> same_prefix n a b"
proof -
  define j where "j = 8 * (n div 8)"
  have r: "0 < n mod 8" "n = j + n mod 8" using assms(2) by (auto simp: j_def dvd_eq_mod_eq_0)
  have j: "j < n" "net_index j = j + 7" "n \<le> j + 7" "j + 7 < 32"
  proof -
    show "j < n" using r by linarith
    show "net_index j = j + 7" by (simp add: net_index_def j_def)
    have "n mod 8 < 8" by simp
    then show "n \<le> j + 7" using r by linarith
    have "n < 32" using assms by (cases "n = 32") auto
    then have "n div 8 < 4" by simp
    then show "j + 7 < 32" by (simp add: j_def)
  qed
  let ?b = "push_bit (j + 7) 1 :: u32"
  have "IsSameSubnet dbg 0 ?b (of_nat n) = Inr True"
    using IsSameSubnet_bits [OF assms(1)] j(3) by (auto simp: bit_simps)
  moreover have "\<not> same_prefix n 0 ?b" using j by (auto simp: same_prefix_def list_all_iff bit_simps intro!: bexI [of _ j])
  ultimately show ?thesis by blast
qed


text \<open>A file with two nested subnets, 10.0.0.0/8 and 10.1.0.0/16, whose addresses are written as one letter each.\<close>

definition sample_file :: wstr where
  "sample_file = wide ''LAN:{len:2 mask_0:8 ip_0:a mask_1:16 ip_1:b} WAN:{len:0}''"

definition sample_pton :: "wstr \<Rightarrow> u32" where
  "sample_pton w = (if w = wide ''a'' then 0x0000000A else 0x0000010A)"


end
