(* ===== verification/Monitoring.thy ===== *)
theory Monitoring
  imports Prelude Complex_Main
begin

section \<open>Monitors\<close>

text \<open>
  The classes that collect figures about the server: \<^verbatim>\<open>MonitoringStats\<close>, the \<^verbatim>\<open>threadMonitor\<close> of \<^verbatim>\<open>NormalIOCP.h\<close>,
  \<^verbatim>\<open>CCpuUsage\<close>, \<^verbatim>\<open>MemoryUsage\<close>, \<^verbatim>\<open>HardwareMonitor\<close> and \<^verbatim>\<open>ProcessMonitor\<close>. What the operating system reports is an
  argument of each update (\<open>None\<close> when the call fails). Integers keep their width; a floating-point
  figure is the exact rational number, \<open>None\<close> where the division by zero gives no number.
\<close>

type_synonym i64 = "64 word"

subsection \<open>MonitoringStats\<close>

record MonitoringStats =
  stat_max :: i32
  stat_min :: i32
  stat_count :: i32
  stat_sum :: i64

definition INT_MAX :: i32 where
  "INT_MAX = 0x7FFFFFFF"

definition new_MonitoringStats :: MonitoringStats where
  "new_MonitoringStats = \<lparr>stat_max = 0, stat_min = INT_MAX, stat_count = 0, stat_sum = 0\<rparr>"

definition AddData :: "i32 \<Rightarrow> MonitoringStats \<Rightarrow> MonitoringStats" where
  "AddData data m =
     m\<lparr>stat_count := stat_count m + 1, stat_sum := stat_sum m + scast data,
       stat_max := (if sint data < sint (stat_max m) then stat_max m else data),
       stat_min := (if sint (stat_min m) < sint data then stat_min m else data)\<rparr>"

definition stat_Clear :: "MonitoringStats \<Rightarrow> MonitoringStats" where
  "stat_Clear m = m\<lparr>stat_max := 0, stat_min := INT_MAX, stat_count := 0, stat_sum := 0\<rparr>"

definition stat_Avg :: "MonitoringStats \<Rightarrow> rat" where
  "stat_Avg m = (if stat_count m = 0 then 0 else of_int (sint (stat_sum m)) / of_int (sint (stat_count m)))"

definition stat_Min :: "MonitoringStats \<Rightarrow> i32" where
  "stat_Min m = (if stat_count m = 0 then 0 else stat_min m)"

subsection \<open>threadMonitor\<close>

record threadMonitor =
  tm_lastKernelTime :: u64
  tm_lastUserTime :: u64
  tm_kernelTime :: u64
  tm_userTime :: u64

definition new_threadMonitor :: threadMonitor where
  "new_threadMonitor = \<lparr>tm_lastKernelTime = 0, tm_lastUserTime = 0, tm_kernelTime = 0, tm_userTime = 0\<rparr>"

definition threadMonitor_Update :: "u64 \<Rightarrow> u64 \<Rightarrow> threadMonitor \<Rightarrow> threadMonitor" where
  "threadMonitor_Update ulKernel ulUser t =
     (let kernelTime = ulKernel div 10000; userTime = ulUser div 10000;
          t1 = (if tm_lastKernelTime t > 0
                then t\<lparr>tm_kernelTime := kernelTime - tm_lastKernelTime t, tm_lastKernelTime := kernelTime\<rparr> else t)
      in if tm_lastUserTime t1 > 0
         then t1\<lparr>tm_userTime := userTime - tm_lastUserTime t1, tm_lastUserTime := userTime\<rparr> else t1)"

definition TotTime :: "threadMonitor \<Rightarrow> u64" where
  "TotTime t = tm_kernelTime t + tm_userTime t"

subsection \<open>CCpuUsage\<close>

record CCpuUsage =
  cu_NumberOfProcessors :: nat
  cu_ProcessorTotal :: rat
  cu_ProcessorUser :: rat
  cu_ProcessorKernel :: rat
  cu_ProcessTotal :: "rat option"
  cu_ProcessUser :: "rat option"
  cu_ProcessKernel :: "rat option"
  cu_Processor_LastKernel :: u64
  cu_Processor_LastUser :: u64
  cu_Processor_LastIdle :: u64
  cu_Process_LastKernel :: u64
  cu_Process_LastUser :: u64
  cu_Process_LastTime :: u64

text \<open>The system's times (idle, kernel with idle, user), the process's times and the wall clock.\<close>

record cpu_times =
  ct_system :: "(u64 \<times> u64 \<times> u64) option"
  ct_process :: "u64 \<times> u64"
  ct_now :: u64

definition ratio :: "nat \<Rightarrow> nat \<Rightarrow> rat" where
  "ratio part whole = of_nat part / of_nat whole * 100"

definition percent :: "u64 \<Rightarrow> u64 \<Rightarrow> rat" where
  "percent part whole = ratio (unat part) (unat whole)"

definition process_percent :: "u64 \<Rightarrow> nat \<Rightarrow> u64 \<Rightarrow> rat option" where
  "process_percent part processors timeDiff =
     (if processors = 0 \<or> timeDiff = 0 then None
      else Some (of_nat (unat part) / of_nat processors / of_nat (unat timeDiff) * 100))"

definition UpdateCpuTime :: "cpu_times \<Rightarrow> CCpuUsage \<Rightarrow> CCpuUsage" where
  "UpdateCpuTime t c =
     (case ct_system t of
        None \<Rightarrow> c
      | Some (idle, kern, user) \<Rightarrow>
          (let kernelDiff = kern - cu_Processor_LastKernel c; userDiff = user - cu_Processor_LastUser c;
               idleDiff = idle - cu_Processor_LastIdle c; tot = kernelDiff + userDiff;
               c1 = (if tot = 0 then c\<lparr>cu_ProcessorUser := 0, cu_ProcessorKernel := 0, cu_ProcessorTotal := 0\<rparr>
                     else c\<lparr>cu_ProcessorTotal := percent (tot - idleDiff) tot, cu_ProcessorUser := percent userDiff tot,
                            cu_ProcessorKernel := percent (kernelDiff - idleDiff) tot\<rparr>);
               c2 = c1\<lparr>cu_Processor_LastKernel := kern, cu_Processor_LastUser := user, cu_Processor_LastIdle := idle\<rparr>;
               (pKernel, pUser) = ct_process t;
               timeDiff = ct_now t - cu_Process_LastTime c2; pUserDiff = pUser - cu_Process_LastUser c2;
               pKernelDiff = pKernel - cu_Process_LastKernel c2; pTotal = pKernelDiff + pUserDiff;
               n = cu_NumberOfProcessors c2
           in c2\<lparr>cu_ProcessTotal := process_percent pTotal n timeDiff, cu_ProcessKernel := process_percent pKernelDiff n timeDiff,
                 cu_ProcessUser := process_percent pUserDiff n timeDiff, cu_Process_LastTime := ct_now t,
                 cu_Process_LastKernel := pKernel, cu_Process_LastUser := pUser\<rparr>))"

definition new_CCpuUsage :: "nat \<Rightarrow> cpu_times \<Rightarrow> CCpuUsage" where
  "new_CCpuUsage processors t =
     UpdateCpuTime t \<lparr>cu_NumberOfProcessors = processors, cu_ProcessorTotal = 0, cu_ProcessorUser = 0, cu_ProcessorKernel = 0,
       cu_ProcessTotal = Some 0, cu_ProcessUser = Some 0, cu_ProcessKernel = Some 0, cu_Processor_LastKernel = 0,
       cu_Processor_LastUser = 0, cu_Processor_LastIdle = 0, cu_Process_LastKernel = 0, cu_Process_LastUser = 0,
       cu_Process_LastTime = 0\<rparr>"

subsection \<open>MemoryUsage\<close>

record MemoryUsage =
  mu_pageFaultCount :: u64
  mu_peakPMemSize :: u64
  mu_pMemSize :: u64
  mu_peakVmemSize :: u64
  mu_vMemsize :: u64
  mu_peakPagedPoolUsage :: u64
  mu_peakNonPagedPoolUsage :: u64
  mu_pagedPoolUsage :: u64
  mu_nonPagedPoolUsage :: u64

text \<open>\<^verbatim>\<open>PROCESS_MEMORY_COUNTERS\<close>.\<close>

record memory_counters =
  mc_PageFaultCount :: u32
  mc_PeakWorkingSetSize :: u64
  mc_WorkingSetSize :: u64
  mc_QuotaPeakPagedPoolUsage :: u64
  mc_QuotaPagedPoolUsage :: u64
  mc_QuotaPeakNonPagedPoolUsage :: u64
  mc_QuotaNonPagedPoolUsage :: u64
  mc_PagefileUsage :: u64
  mc_PeakPagefileUsage :: u64

definition MemoryUsage_Update :: "memory_counters option \<Rightarrow> MemoryUsage \<Rightarrow> MemoryUsage" where
  "MemoryUsage_Update pmc m =
     (case pmc of
        None \<Rightarrow> m
      | Some c \<Rightarrow>
          m\<lparr>mu_pageFaultCount := ucast (mc_PageFaultCount c), mu_peakPagedPoolUsage := mc_QuotaPeakPagedPoolUsage c,
            mu_peakNonPagedPoolUsage := mc_QuotaPeakNonPagedPoolUsage c, mu_pagedPoolUsage := mc_QuotaPagedPoolUsage c,
            mu_nonPagedPoolUsage := mc_QuotaNonPagedPoolUsage c, mu_peakPMemSize := mc_PeakWorkingSetSize c,
            mu_peakVmemSize := mc_PeakPagefileUsage c, mu_pMemSize := mc_WorkingSetSize c, mu_vMemsize := mc_PagefileUsage c\<rparr>)"

subsection \<open>HardwareMonitor and ProcessMonitor\<close>

text \<open>
  A performance counter delivers a double or a long, or fails. The hardware monitor keeps the last value of a counter that
  fails, the process monitor shows zero for it.
\<close>

definition on_success :: "'a option \<Rightarrow> ('a \<Rightarrow> 'm \<Rightarrow> 'm) \<Rightarrow> 'm \<Rightarrow> 'm" where
  "on_success v set_value m = (case v of None \<Rightarrow> m | Some x \<Rightarrow> set_value x m)"

record HardwareMonitor =
  hm_totalProcessorTime :: rat
  hm_kernelProcessorTime :: rat
  hm_userProcessorTime :: rat
  hm_interrupt :: i32
  hm_interruptPercent :: rat
  hm_contextSwitch :: i32
  hm_nonPagedMb :: rat
  hm_availableMb :: rat
  hm_hardFault :: i32
  hm_sendKBytes :: rat
  hm_recvKBytes :: rat

record hw_counters =
  hc_CpuTotal :: "rat option"
  hc_CpuKernel :: "rat option"
  hc_CpuUser :: "rat option"
  hc_Interrupt :: "i32 option"
  hc_InterruptPercent :: "rat option"
  hc_ContextSwitch :: "i32 option"
  hc_NonPaged :: "rat option"
  hc_AvailableBytes :: "rat option"
  hc_HardFault :: "i32 option"
  hc_SendBytes :: "rat option"
  hc_RecvBytes :: "rat option"

definition HardwareMonitor_Update :: "hw_counters \<Rightarrow> HardwareMonitor \<Rightarrow> HardwareMonitor" where
  "HardwareMonitor_Update c m =
     (on_success (hc_RecvBytes c) (\<lambda>v. hm_recvKBytes_update (\<lambda>_. v / 1000)) \<circ>
      on_success (hc_SendBytes c) (\<lambda>v. hm_sendKBytes_update (\<lambda>_. v / 1000)) \<circ>
      on_success (hc_HardFault c) (\<lambda>v. hm_hardFault_update (\<lambda>_. v)) \<circ>
      on_success (hc_AvailableBytes c) (\<lambda>v. hm_availableMb_update (\<lambda>_. v / 1000000)) \<circ>
      on_success (hc_NonPaged c) (\<lambda>v. hm_nonPagedMb_update (\<lambda>_. v / 1000000)) \<circ>
      on_success (hc_ContextSwitch c) (\<lambda>v. hm_contextSwitch_update (\<lambda>_. v)) \<circ>
      on_success (hc_InterruptPercent c) (\<lambda>v. hm_interruptPercent_update (\<lambda>_. v)) \<circ>
      on_success (hc_Interrupt c) (\<lambda>v. hm_interrupt_update (\<lambda>_. v)) \<circ>
      on_success (hc_CpuUser c) (\<lambda>v. hm_userProcessorTime_update (\<lambda>_. v)) \<circ>
      on_success (hc_CpuKernel c) (\<lambda>v. hm_kernelProcessorTime_update (\<lambda>_. v)) \<circ>
      on_success (hc_CpuTotal c) (\<lambda>v. hm_totalProcessorTime_update (\<lambda>_. v))) m"

record ProcessMonitor =
  pm_totalProcessorTime :: rat
  pm_kernelProcessorTime :: rat
  pm_userProcessorTime :: rat
  pm_pageFault :: i32
  pm_useMemoryMB :: rat

record process_counters =
  pc_CpuTotal :: "rat option"
  pc_CpuKernel :: "rat option"
  pc_CpuUser :: "rat option"
  pc_PageFault :: "i32 option"
  pc_UseMemory :: "rat option"

definition ProcessMonitor_Update :: "process_counters \<Rightarrow> ProcessMonitor \<Rightarrow> ProcessMonitor" where
  "ProcessMonitor_Update c m =
     (on_success (pc_UseMemory c) (\<lambda>v. pm_useMemoryMB_update (\<lambda>_. v / 1000000)) \<circ>
      on_success (pc_PageFault c) (\<lambda>v. pm_pageFault_update (\<lambda>_. v)) \<circ>
      on_success (pc_CpuUser c) (\<lambda>v. pm_userProcessorTime_update (\<lambda>_. v)) \<circ>
      on_success (pc_CpuKernel c) (\<lambda>v. pm_kernelProcessorTime_update (\<lambda>_. v)) \<circ>
      on_success (pc_CpuTotal c) (\<lambda>v. pm_totalProcessorTime_update (\<lambda>_. v)))
       (m\<lparr>pm_totalProcessorTime := 0, pm_kernelProcessorTime := 0, pm_userProcessorTime := 0, pm_pageFault := 0,
          pm_useMemoryMB := 0\<rparr>)"

subsection \<open>The statistics are exact\<close>

lemma sint_word_of_int_small:
  assumes "\<bar>x\<bar> < 2 ^ 63"
  shows "sint (word_of_int x :: i64) = x"
  using assms by (simp add: signed_of_int signed_take_bit_int_eq_self)

lemma sint_bounds_i32: "\<bar>sint (d :: i32)\<bar> \<le> 2 ^ 31"
  using sint_ge [of d] sint_lt [of d] by (simp add: abs_le_iff)

lemma abs_sum_data: "\<bar>sum_list (map sint ds)\<bar> \<le> int (length ds) * 2 ^ 31" for ds :: "i32 list"
proof (induction ds)
  case (Cons d ds)
  then show ?case using sint_bounds_i32 [of d] by (simp add: algebra_simps abs_le_iff)
qed simp

text \<open>The words after a list of data, whatever its length.\<close>

lemma stats_words:
  "stat_count (fold AddData ds m) = stat_count m + of_nat (length ds)"
  "stat_sum (fold AddData ds m) = stat_sum m + of_int (sum_list (map sint ds))"
  "sint (stat_max (fold AddData ds m)) = fold max (map sint ds) (sint (stat_max m))"
  "sint (stat_min (fold AddData ds m)) = fold min (map sint ds) (sint (stat_min m))"
proof -
  show "stat_count (fold AddData ds m) = stat_count m + of_nat (length ds)"
    by (induction ds arbitrary: m) (simp_all add: AddData_def)
  show "stat_sum (fold AddData ds m) = stat_sum m + of_int (sum_list (map sint ds))"
    by (induction ds arbitrary: m) (simp_all add: AddData_def add.assoc)
  have "sint (stat_max (AddData d m)) = max (sint d) (sint (stat_max m))" for d m by (simp add: AddData_def)
  then show "sint (stat_max (fold AddData ds m)) = fold max (map sint ds) (sint (stat_max m))"
    by (induction ds arbitrary: m) simp_all
  have "sint (stat_min (AddData d m)) = min (sint d) (sint (stat_min m))" for d m by (simp add: AddData_def)
  then show "sint (stat_min (fold AddData ds m)) = fold min (map sint ds) (sint (stat_min m))"
    by (induction ds arbitrary: m) simp_all
qed

lemma fold_max_set: "fold max xs (x :: int) = Max (insert x (set xs))"
  using Max.set_eq_fold [of x xs] by simp

lemma fold_min_set: "fold min xs (x :: int) = Min (insert x (set xs))"
  using Min.set_eq_fold [of x xs] by simp

lemma Min_INT_MAX:
  assumes "ds \<noteq> []"
  shows "Min (insert (sint INT_MAX) (sint ` set ds)) = Min (sint ` set (ds :: i32 list))"
proof -
  have "sint d \<le> sint INT_MAX" for d :: i32 using sint_lt [of d] by (simp add: INT_MAX_def)
  moreover have "Min (sint ` set ds) \<le> sint (hd ds)" using assms by simp
  ultimately have "Min (sint ` set ds) \<le> sint INT_MAX" by (rule order_trans [rotated])
  then show ?thesis using assms by simp
qed

subsection \<open>Percentages\<close>

text \<open>
  When the counters did not wrap and the idle time is part of the kernel time, the processor figures lie between 0 and
  100 and the total is the user and the kernel part together.
\<close>

lemma ratio_bounds: "a \<le> b \<Longrightarrow> 0 \<le> ratio a b \<and> ratio a b \<le> 100"
  by (cases "b = 0") (simp_all add: ratio_def divide_le_eq)

lemma ratio_add: "ratio (a + b) n = ratio a n + ratio b n"
  by (simp add: ratio_def add_divide_distrib distrib_right)

lemma cpu_percent_bounds:
  assumes "ct_system t = Some (idle, kern, user)"
    and "unat (idle - cu_Processor_LastIdle c) \<le> unat (kern - cu_Processor_LastKernel c)"
    and "unat (kern - cu_Processor_LastKernel c) + unat (user - cu_Processor_LastUser c) < 2 ^ 64"
  shows "let c' = UpdateCpuTime t c in 0 \<le> cu_ProcessorTotal c' \<and> cu_ProcessorTotal c' \<le> 100 \<and>
    cu_ProcessorTotal c' = cu_ProcessorUser c' + cu_ProcessorKernel c'"
proof -
  let ?k = "kern - cu_Processor_LastKernel c" and ?u = "user - cu_Processor_LastUser c" and ?i = "idle - cu_Processor_LastIdle c"
  have tot: "unat (?k + ?u) = unat ?k + unat ?u" using assms(3) by (simp add: unat_word_ariths)
  have ki: "unat (?k - ?i) = unat ?k - unat ?i" "unat (?k + ?u - ?i) = unat ?k + unat ?u - unat ?i"
    using assms(2) tot by (simp_all add: unat_sub_if' word_le_nat_alt)
  have "percent (?k + ?u - ?i) (?k + ?u) = percent ?u (?k + ?u) + percent (?k - ?i) (?k + ?u)"
    using assms(2) by (simp only: percent_def tot ki flip: ratio_add) (simp add: add.commute)
  moreover have "0 \<le> percent (?k + ?u - ?i) (?k + ?u) \<and> percent (?k + ?u - ?i) (?k + ?u) \<le> 100"
    unfolding percent_def by (rule ratio_bounds) (simp only: tot ki diff_le_self)
  ultimately show ?thesis
    using assms(1) by (simp add: UpdateCpuTime_def Let_def case_prod_unfold)
qed

text \<open>
  \<^verbatim>\<open>threadMonitor\<close> records the last times only when they are already positive, so it never records anything.
\<close>

lemma threadMonitor_always_zero:
  "fold (\<lambda>(k, u). threadMonitor_Update k u) ts new_threadMonitor = new_threadMonitor"
  by (induction ts) (auto simp: threadMonitor_Update_def new_threadMonitor_def Let_def)

lemma sum_list_between:
  fixes xs :: "int list"
  assumes "\<forall>x \<in> set xs. a \<le> x \<and> x \<le> b"
  shows "int (length xs) * a \<le> sum_list xs \<and> sum_list xs \<le> int (length xs) * b"
  using assms by (induction xs) (auto simp: algebra_simps)

subsection \<open>Properties\<close>



end
