(* ===== verification/Server_Frame.thy ===== *)
theory Server_Frame
  imports Group_Frame
begin

section \<open>What a round of any thread may do\<close>

text \<open>
  The relations of \<open>library_relation\<close> are carried through the rest of the library: the completion handlers, the rounds of
  the worker, accept, timeout and monitor threads, and the calls an application makes. \<open>server_round\<close>
  is one round of any of these threads; a run of the server is a sequence of rounds in any order.
\<close>

subsection \<open>Steps that touch no group\<close>

lemma quiet_fields [simp]:
  "quiet s (s\<lparr>sy_bufs := x1\<rparr>)" "quiet s (s\<lparr>sy_g_sessionId := x2\<rparr>)" "quiet s (s\<lparr>sy_sessionCount := x3\<rparr>)"
  "quiet s (s\<lparr>sy_acceptCount := x4\<rparr>)" "quiet s (s\<lparr>sy_timeoutSessions := x5\<rparr>)" "quiet s (s\<lparr>sy_freeIndex := x6\<rparr>)"
  "quiet s (s\<lparr>sy_tcpSemaphoreTimeout := x7\<rparr>)" "quiet s (s\<lparr>sy_sessionCount := x3, sy_disconnectCount := x8\<rparr>)"
  "quiet s (s\<lparr>sy_checkTimeout := x9\<rparr>)" "quiet s (s\<lparr>sy_sessions := x10\<rparr>)"
  by (simp_all add: quietI group_view_def)

lemma quiet_fields_back [simp]:
  "quiet (s\<lparr>sy_g_sessionId := x1\<rparr>) s" "quiet (s\<lparr>sy_tcpSemaphoreTimeout := x2\<rparr>) s" "quiet (s\<lparr>sy_sessionCount := x3\<rparr>) s"
  "quiet (s\<lparr>sy_timeoutSessions := x4\<rparr>) s" "quiet (s\<lparr>sy_acceptCount := x5\<rparr>) s" "quiet (ReleaseFreeIndex i s) s" "quiet (snd (GetFreeIndex s)) s"
  by (auto simp: group_view_def ReleaseFreeIndex_def GetFreeIndex_def split: list.splits intro!: quietI)

lemma quiet_calls [simp]:
  "quiet s (increaseSendCount n s)" "quiet s (ReleaseFreeIndex i s)" "quiet s (snd (GetFreeIndex s))"
  "quiet s (MonitorThread_step s)" "quiet s (SetDefaultTimeout t s)" "quiet s (SetMaxPacketSize m s)" "quiet s (os_fill k bs s)"
  "\<not> is_member_event ev \<Longrightarrow> quiet s (snd (io_call f ev s))" "\<not> is_member_event ev \<Longrightarrow> quiet (snd (io_call f ev s)) s"
  by (auto simp: increaseSendCount_def ReleaseFreeIndex_def GetFreeIndex_def MonitorThread_step_def SetDefaultTimeout_def
      SetMaxPacketSize_def os_fill_def io_call_def Let_def group_view_def split: prod.splits list.splits intro!: quietI)

lemma CanSend_quiet: "CanSend k s = Inr (b, s') \<Longrightarrow> quiet s s'"
  by (auto simp: CanSend_def)

lemma RealSend_fill_quiet: "RealSend_fill e k n i s = Inr (ws, s') \<Longrightarrow> quiet s s'"
proof (induction n arbitrary: i s ws s')
  case (Suc n)
  have step: "quiet s s3" if "RealSend_fill e k n (Suc i) ((upd_session k f s)\<lparr>sy_bufs := bs\<rparr>) = Inr (us, s3)" for f bs us s3
    by (rule quiet_trans [OF quiet_trans [OF quiet_step(1) quiet_fields(1)] Suc.IH [OF that]])
  show ?case using Suc.prems by (auto simp: Let_def split: option.splits dest: step)
qed simp

lemma RealSend_collect_quiet: "RealSend_collect e k n s = Inr (ws, s') \<Longrightarrow> quiet s s'"
  by (induction n arbitrary: s) (auto split: if_splits dest: RealSend_fill_quiet intro: quiet_trans)

lemma release_sending_quiet: "release_sending q n s = Inr s' \<Longrightarrow> quiet s s'"
  by (induction q n s rule: release_sending.induct) simp_all

lemma Reset_drain_quiet: "Reset_drain k n s = Inr s' \<Longrightarrow> quiet s s'"
  by (induction n arbitrary: s) (auto simp: Let_def split: option.splits, fastforce)

lemma Session_Reset_quiet: "Session_Reset e k s = Inr s' \<Longrightarrow> quiet s s'"
proof -
  assume "Session_Reset e k s = Inr s'"
  then obtain s1 s3 n q f g sock where "Reset_drain k (en_fuel e) (upd_session k f s) = Inr s1"
    "release_sending q n (upd_session k g s1) = Inr s3"
    and s': "s' = emit (EvCloseSocket sock) (upd_session k ss_CloseSocket
      (upd_session k (\<lambda>ss. ss\<lparr>ss_sendingQ := replicate n None @ drop n (ss_sendingQ ss)\<rparr>) s3))"
    by (auto simp: Session_Reset_def Let_def simp del: upd_session_upd_session)
  then have "quiet s s1" "quiet s1 s3" by (auto dest: Reset_drain_quiet release_sending_quiet)
  then show "quiet s s'" unfolding s' by (rule quiet_trans [OF quiet_trans quiet_trans [OF _ quiet_emit(1)]]) simp_all
qed

subsection \<open>Sending and receiving\<close>

context library_relation
begin

lemma R_io [simp]:
  assumes "\<not> is_member_event ev"
  shows "R (snd (io_call f ev s)) s' = R s s'" "R s (snd (io_call f ev s')) = R s s'"
  using quiet_calls(8,9) [OF assms] by (auto intro: R_from R_to)

lemma R_fields [simp]:
  "R (s\<lparr>sy_g_sessionId := x1\<rparr>) s' = R s s'" "R (s\<lparr>sy_tcpSemaphoreTimeout := x2\<rparr>) s' = R s s'"
  "R s (s'\<lparr>sy_sessionCount := x3\<rparr>) = R s s'" "R (s\<lparr>sy_timeoutSessions := x4\<rparr>) s' = R s s'"
  "R (s\<lparr>sy_acceptCount := x5\<rparr>) s' = R s s'"
  "\<not> is_member_event ev \<Longrightarrow> R (emit ev s) s' = R s s'" "\<not> is_member_event ev \<Longrightarrow> R s (emit ev s') = R s s'"
  "R s (ReleaseFreeIndex i s') = R s s'" "R (snd (GetFreeIndex s)) s' = R s s'" "R s (snd (GetFreeIndex s')) = R s s'"
  by (auto intro: R_from R_to)

lemma RecvNotIncrease_R:
  assumes "update_in R upd" and "RecvNotIncrease e upd k s = Inr s'"
  shows "R s s'"
  using assms(2)
  by (auto simp: RecvNotIncrease_def Let_def case_prod_unfold R_refl split: if_splits option.splits
      dest!: Release_R [OF assms(1)] DisconnectSession_R [OF assms(1)])

lemma RegisterRecv_R: "update_in R upd \<Longrightarrow> RegisterRecv e upd k s = Inr s' \<Longrightarrow> R s s'"
  unfolding RegisterRecv_def by (rule R_from [OF RecvNotIncrease_R quiet_step(2)])

lemma RealSend_R:
  assumes "update_in R upd" and "RealSend e upd k s = Inr s'"
  shows "R s s'"
  using assms(2)
  by (auto simp: RealSend_def Let_def case_prod_unfold R_refl split: if_splits option.splits
      dest!: Release_R [OF assms(1)] R_quiet [OF RealSend_collect_quiet]) (blast intro: R_trans)+

lemma TrySend_R: "update_in R upd \<Longrightarrow> TrySend e upd k s = Inr s' \<Longrightarrow> R s s'"
  by (auto simp: TrySend_def split: if_splits dest!: CanSend_quiet intro: R_quiet R_from [OF RealSend_R])

lemma SendPacketBlocking_R:
  assumes "update_in R upd" and "SendPacketBlocking e upd i a s = Inr (b, s')"
  shows "R s s'"
  by (rule with_session_R [OF assms(1) _ assms(2) [unfolded SendPacketBlocking_def]])
    (auto intro: R_trans [OF ProcessBuffer_R TrySend_R] assms(1))

lemma ProcessBuffers_R: "update_in R upd \<Longrightarrow> ProcessBuffers e upd as k s = Inr s' \<Longrightarrow> R s s'"
  by (induction as arbitrary: s) (auto simp: R_refl intro: R_trans [OF ProcessBuffer_R])

lemma SendPackets_R:
  assumes "update_in R upd" and "SendPackets e upd i as s = Inr (b, s')"
  shows "R s s'"
  by (rule with_session_R [OF assms(1) _ assms(2) [unfolded SendPackets_def]])
    (auto intro: R_to [OF ProcessBuffers_R PostSend_quiet] assms(1))

subsection \<open>The completion handlers\<close>

lemma IOCP_onRecvPacket_R:
  assumes "callbacks_in R e" and "update_in R upd" and "IOCP_onRecvPacket e upd k b s = Inr (b', s')"
  shows "R s s'"
proof -
  let ?i = "ss_sessionId (sy_sessions s k)"
  let ?s = "emit (EvOnRecvPacket ?i (rv_view b (ss_recvQ (sy_sessions s k)))) s"
  have "R s (snd (snd (cb_OnRecvPacket e ?i b ?s)))" by (rule R_from [OF callbacks_inD(8) [OF assms(1)]]) simp
  moreover have "R (snd (snd (cb_OnRecvPacket e ?i b ?s))) s'"
    using assms(3)
    by (auto simp: IOCP_onRecvPacket_def Let_def case_prod_unfold R_refl split: option.splits stop.splits
        dest: DisconnectSession_R [OF assms(2)])
  ultimately show ?thesis by (rule R_trans)
qed

lemma RecvHandler_loop_R:
  assumes "callbacks_in R e" and "update_in R upd" and "RecvHandler_loop e upd net k n c s = Inr (c', s')"
  shows "R s s'"
  using assms(3)
proof (induction n arbitrary: net c s)
  case 0
  then show ?case by simp
next
  case (Suc n)
  show ?case
    using Suc.prems
    by (auto simp: Let_def R_refl split: if_splits
        dest!: R_quiet [OF Session_Close_quiet] IOCP_onRecvPacket_R [OF assms(1,2)] Suc.IH) (blast intro: R_trans)+
qed

lemma RecvHandler_R:
  assumes "callbacks_in R e" and "update_in R upd" and "RecvHandler e upd net k s = Inr s'"
  shows "R s s'"
  using assms(3) by (auto simp: RecvHandler_def dest!: RecvHandler_loop_R [OF assms(1,2)] split: if_splits)

lemma RecvExecutable_Execute_R:
  assumes "callbacks_in R e" and "update_in R upd" and "RecvExecutable_Execute e upd k n s = Inr s'"
  shows "R s s'"
  using assms(3)
  by (auto simp: RecvExecutable_Execute_def GroupManager_OnRecv_def Let_def split: if_splits
      dest!: Group_Enqueue_R [OF assms(2)] RecvHandler_R [OF assms(1,2)] RecvNotIncrease_R [OF assms(2)])
    (blast intro: R_trans)+

lemma PostSendExecutable_Execute_R:
  assumes "update_in R upd" and "PostSendExecutable_Execute e upd k s = Inr s'"
  shows "R s s'"
  using assms(2)
  by (auto simp: PostSendExecutable_Execute_def Let_def
      dest!: R_quiet [OF release_sending_quiet] TrySend_R [OF assms(1)] Release_R [OF assms(1)])
    (blast intro: R_trans R_quiet quiet_calls)

lemma IOCP_onDisconnect_R:
  assumes "callbacks_in R e" and "IOCP_onDisconnect e i c s = Inr s'"
  shows "R s s'"
  by (rule R_from [OF callbacks_inD(7) [OF assms(1) assms(2) [unfolded IOCP_onDisconnect_def]]])
    (rule quiet_trans [OF quiet_fields(8) quiet_emit(1)], simp)

lemma ReleaseExecutable_Execute_R:
  assumes "callbacks_in R e" and "ReleaseExecutable_Execute e k s = Inr s'"
  shows "R s s'"
  using assms(2)
  by (auto simp: ReleaseExecutable_Execute_def dest!: IOCP_onDisconnect_R [OF assms(1)] R_quiet [OF Session_Reset_quiet])
    (blast intro: R_trans R_quiet quiet_calls)

lemma Execute_R:
  assumes "callbacks_in R e" and "update_in R upd" and "Execute e upd ov key n s = Inr s'"
  shows "R s s'"
  using assms(3)
  by (auto simp: Execute_def SendExecutable_Execute_def update_in_def assms(2) [unfolded update_in_def]
      split: overlapped.splits option.splits
      intro: RecvExecutable_Execute_R [OF assms(1,2)] PostSendExecutable_Execute_R [OF assms(2)] RealSend_R [OF assms(2)]
        ReleaseExecutable_Execute_R [OF assms(1)])

subsection \<open>The threads\<close>

lemma WorkerThread_step_R:
  assumes "callbacks_in R e" and "update_in R upd" and "WorkerThread_step e upd c ret err s = Inr (b, s')" and "\<not> is_stop c"
  shows "R s s'"
  using assms(3,4)
  by (auto simp: WorkerThread_step_def is_stop_def Let_def split: option.splits if_splits bool.splits
      dest!: Release_R [OF assms(2)] Execute_R [OF assms(1,2)])

lemma AcceptThread_step_R:
  assumes "callbacks_in R e" and "update_in R upd" and "AcceptThread_step e upd sock err s = Inr (b, s')"
  shows "R s s'"
  using assms(3)
  by (auto simp: AcceptThread_step_def Let_def case_prod_unfold R_refl split: if_splits option.splits
      dest!: callbacks_inD(5) [OF assms(1)] R_quiet [OF CancelIO_quiet] R_quiet [OF Session_Reset_quiet]
        callbacks_inD(6) [OF assms(1)] RecvNotIncrease_R [OF assms(2)]) (blast intro: R_trans)+

lemma GetClientSession_R:
  assumes "update_in R upd" and "GetClientSession e upd junk sock conn err s = Inr (r, s')"
  shows "R s s'"
  using assms(2)
  by (auto simp: GetClientSession_def Let_def case_prod_unfold R_refl split: if_splits option.splits
      dest!: RecvNotIncrease_R [OF assms(1)])

lemma CheckTimeout_R:
  assumes "update_in R upd" and "CheckTimeout e upd k now s = Inr (r, s')"
  shows "R s s'"
  using assms(2)
  by (auto simp: CheckTimeout_def Let_def case_prod_unfold R_refl split: if_splits dest!: Release_R [OF assms(1)])

lemma TimeoutThread_scan_R:
  assumes "callbacks_in R e" and "update_in R upd" and "TimeoutThread_scan e upd now ks s = Inr s'"
  shows "R s s'"
  using assms(3)
proof (induction ks arbitrary: s)
  case (Cons k ks)
  show ?case
    using Cons.prems
    by (auto simp: Let_def case_prod_unfold split: option.splits
        dest!: CheckTimeout_R [OF assms(2)] callbacks_inD(9) [OF assms(1)] Cons.IH) (blast intro: R_trans)+
qed (simp add: R_refl)

lemma TimeoutThread_step_R:
  assumes "callbacks_in R e" and "update_in R upd" and "TimeoutThread_step e upd s = Inr s'"
  shows "R s s'"
  using assms(3)
  by (auto simp: TimeoutThread_step_def Let_def case_prod_unfold R_refl split: if_splits dest!: TimeoutThread_scan_R [OF assms(1,2)])

lemma GroupManager_Update_R: "GroupManager_Update e ids s = Inr s' \<Longrightarrow> R s s'"
proof (induction ids arbitrary: s)
  case (Cons g ids)
  then obtain need s1 where n: "NeedUpdate e g s = Inr (need, s1)"
    and rest: "GroupManager_Update e ids (if need then PostExecutable (OvGroup g) None s1 else s1) = Inr s'" by auto
  have "quiet s s1" using n by (auto simp: NeedUpdate_def get_group_def Let_def case_prod_unfold split: option.splits)
  then have "R s s1" by (rule R_quiet)
  moreover have "R s1 (if need then PostExecutable (OvGroup g) None s1 else s1)"
    by (auto simp: PostExecutable_def is_stop_def R_refl intro!: R_quiet [OF quiet_post])
  ultimately show ?case using Cons.IH [OF rest] R_trans by blast
qed (simp add: R_refl)

lemma SetTimeout_R:
  assumes "update_in R upd" and "SetTimeout e upd i t s = Inr s'"
  shows "R s s'"
  using assms(2) by (auto simp: SetTimeout_def R_refl intro: with_session_R [OF assms(1), rotated])

lemma SetSessionStaticKey_R:
  assumes "update_in R upd" and "SetSessionStaticKey e upd i key s = Inr s'"
  shows "R s s'"
  using assms(2) by (auto simp: SetSessionStaticKey_def R_refl intro: with_session_R [OF assms(1), rotated])

end

subsection \<open>Rounds\<close>

text \<open>
  One round of a thread. A worker takes the first completion posted to the port, or one of an I/O operation, for which the
  kernel has filled the receive buffer; such a completion carries the key of its session. The other
  threads, and the application from a thread of its own, call the library.
\<close>

inductive server_round :: "env \<Rightarrow> update_call \<Rightarrow> sys \<Rightarrow> sys \<Rightarrow> bool" for e upd where
  worker_posted: "sy_port s = c # rest \<Longrightarrow> WorkerThread_step e upd c ret err (s\<lparr>sy_port := rest\<rparr>) = Inr (go, s') \<Longrightarrow>
    server_round e upd s s'"
| worker_io: "\<not> is_stop c \<Longrightarrow> WorkerThread_step e upd c ret err (os_fill k bs s) = Inr (go, s') \<Longrightarrow> server_round e upd s s'"
| acceptor: "AcceptThread_step e upd sock err s = Inr (go, s') \<Longrightarrow> server_round e upd s s'"
| timeouts: "TimeoutThread_step e upd s = Inr s' \<Longrightarrow> server_round e upd s s'"
| monitor: "server_round e upd s (MonitorThread_step s)"
| groups: "GroupManager_Update e ids s = Inr s' \<Longrightarrow> server_round e upd s s'"
| app_send: "SendPacket e upd i a s = Inr (b, s') \<Longrightarrow> server_round e upd s s'"
| app_send_blocking: "SendPacketBlocking e upd i a s = Inr (b, s') \<Longrightarrow> server_round e upd s s'"
| app_disconnect: "DisconnectSession e upd i s = Inr (b, s') \<Longrightarrow> server_round e upd s s'"
| app_move: "MoveSession e upd i g update s = Inr s' \<Longrightarrow> server_round e upd s s'"
| app_connect: "GetClientSession e upd junk sock conn err s = Inr (r, s') \<Longrightarrow> server_round e upd s s'"
| app_timeout: "SetTimeout e upd i t s = Inr s' \<Longrightarrow> server_round e upd s s'"

locale round_relation = update_relation +
  assumes R_take: "sy_port s = c # rest \<Longrightarrow> \<not> is_stop c \<Longrightarrow> R s (s\<lparr>sy_port := rest\<rparr>)"
    and R_repost: "sy_port s = c # rest \<Longrightarrow> is_stop c \<Longrightarrow> is_stop c' \<Longrightarrow>
      R s (PostQueuedCompletionStatus c' (s\<lparr>sy_port := rest\<rparr>))"
begin

lemma server_round_R:
  assumes "callbacks_in R e" and "server_round e (Group_Update e d) s s'"
  shows "R s s'"
proof -
  note u = Group_Update_R [OF assms(1), of d]
  show ?thesis
    using assms(2)
  proof cases
    case (worker_posted c rest ret err go)
    show ?thesis
    proof (cases "is_stop c")
      case True
      then have "s' = PostQueuedCompletionStatus \<lparr>cp_transferred = 0, cp_key = None, cp_overlapped = None\<rparr> (s\<lparr>sy_port := rest\<rparr>)"
        using worker_posted(2) by (simp add: WorkerThread_step_def is_stop_def)
      then show ?thesis using R_repost [OF worker_posted(1) True] by (simp add: is_stop_def)
    next
      case False
      then show ?thesis
        using R_trans [OF R_take [OF worker_posted(1)] WorkerThread_step_R [OF assms(1) u worker_posted(2)]] by blast
    qed
  next
    case (worker_io c ret err k bs go)
    then show ?thesis using R_from [OF WorkerThread_step_R [OF assms(1) u]] by simp
  next
    case monitor
    then show ?thesis by (simp add: R_quiet)
  qed (fact AcceptThread_step_R [OF assms(1) u] TimeoutThread_step_R [OF assms(1) u] GroupManager_Update_R SendPacket_R [OF u]
      SendPacketBlocking_R [OF u] DisconnectSession_R [OF u] MoveSession_R [OF u] GetClientSession_R [OF u] SetTimeout_R [OF u])+
qed

lemma server_run_R:
  assumes "callbacks_in R e" and "(server_round e (Group_Update e d))\<^sup>*\<^sup>* s s'"
  shows "R s s'"
  using assms(2) by induction (auto intro: R_refl R_trans server_round_R [OF assms(1)])

end

subsection \<open>Three relations every round respects\<close>

definition stops :: "sys \<Rightarrow> nat" where
  "stops s = length (filter is_stop (sy_port s))"

definition stops_kept :: "sys \<Rightarrow> sys \<Rightarrow> bool" where
  "stops_kept s s' \<longleftrightarrow> stops s' = stops s"

interpretation stops: round_relation stops_kept "\<lambda>_. stops_kept"
proof unfold_locales
  show "stops_kept s s'" if "quiet s s'" for s s'
    using that by (auto simp: stops_kept_def stops_def quiet_def port_grows_def)
  show "stops_kept s (upd_group g (gr_isRun_update (\<lambda>_. False) \<circ> f) s')"
    if "stops_kept (upd_group g (gr_isRun_update (\<lambda>_. True)) s) s'" for s g f s'
    using that by (simp add: stops_kept_def stops_def)
qed (auto simp: stops_kept_def stops_def)

interpretation running: round_relation running_kept running_kept_but
  by unfold_locales (simp_all add: running_kept_def keeps_running_members_def)

interpretation members: round_relation members_kept "\<lambda>_. members_kept"
  by unfold_locales (simp_all add: members_kept_def members_inv_def)

end
