(* ===== verification/Server_Start.thy ===== *)
theory Server_Start
  imports Server_Frame Group_Jobs Monitoring Setting_Parser
begin

section \<open>Starting and stopping the server\<close>

text \<open>
  The constructor, \<^verbatim>\<open>Init\<close>, \<^verbatim>\<open>ClientInit\<close>, \<^verbatim>\<open>Start\<close>, \<^verbatim>\<open>Stop\<close> and \<^verbatim>\<open>Wait\<close> of \<^verbatim>\<open>src/NormalIOCP.cpp\<close> and the loops
  of its threads. \<open>server\<close> adds to \<open>sys\<close> the members of \<^verbatim>\<open>NormalIOCP\<close> that only these functions use; what
  the operating system answers and what other threads do while a thread waits is in \<open>start_os\<close>.
\<close>

subsection \<open>State\<close>

type_synonym HANDLE = u64

definition INVALID_HANDLE_VALUE :: HANDLE where
  "INVALID_HANDLE_VALUE = - 1"

datatype entry = WorkerEntry | GroupEntry | TimeoutEntry | MonitorEntry | AcceptEntry

record server =
  sv_sys :: sys
  sv_iocp :: HANDLE
  sv_threadArray :: "(HANDLE \<times> u32) list"
  sv_ip :: wstr
  sv_maxNetThread :: u16
  sv_maxWorkerThread :: u16
  sv_port :: u16
  sv_backlog :: u16
  sv_settingParser :: parser
  sv_memMonitor :: MemoryUsage
  sv_cpuMonitor :: CCpuUsage
  sv_packetPoolSize :: u64
  sv_packetPoolEmpty :: u32
  sv_spawned :: nat
  sv_running :: "(HANDLE \<times> entry) list"
  sv_closed :: "HANDLE list"

text \<open>
  \<^verbatim>\<open>_beginthreadex\<close> and \<^verbatim>\<open>CreateIoCompletionPort\<close> answer 0 when they fail. \<open>so_WaitForSingleObject\<close> is \<open>None\<close> when the wait
  never ends; the waits give the state after what the other threads did meanwhile.
\<close>

record start_os =
  so_CreateIoCompletionPort :: HANDLE
  so_beginthreadex :: "nat \<Rightarrow> HANDLE"
  so_GetThreadId :: "HANDLE \<Rightarrow> u32"
  so_socket :: SOCKET
  so_bind :: "wstr \<Rightarrow> u16 \<Rightarrow> bool"
  so_listen :: "u16 \<Rightarrow> bool"
  so_memory :: bool
  so_file :: "(nat \<times> wstr) option"
  so_WaitForSingleObject :: "HANDLE \<Rightarrow> server \<Rightarrow> server option"
  so_WaitOnAddress :: "server \<Rightarrow> server"
  so_others :: "int \<Rightarrow> server \<Rightarrow> server"
  so_clock :: "server \<Rightarrow> int"
  so_pool :: "server \<Rightarrow> u64 \<times> u32"
  so_counters :: "server \<Rightarrow> memory_counters option"
  so_times :: "server \<Rightarrow> cpu_times"
  so_OnInit :: "server \<Rightarrow> server"
  so_OnStart :: "server \<Rightarrow> server"
  so_OnEnd :: "server \<Rightarrow> server"
  so_OnMonitorRun :: "server \<Rightarrow> server"

definition on_sys :: "(sys \<Rightarrow> sys) \<Rightarrow> server \<Rightarrow> server" where
  "on_sys f sv = sv\<lparr>sv_sys := f (sv_sys sv)\<rparr>"

definition on_sys_res :: "(sys \<Rightarrow> sys res) \<Rightarrow> server \<Rightarrow> server res" where
  "on_sys_res f sv = bind_res (f (sv_sys sv)) (\<lambda>s. Inr (sv\<lparr>sv_sys := s\<rparr>))"

subsection \<open>Construction\<close>

text \<open>
  The members as they are initialised; \<open>heap\<close> stands for the send buffers, which the pool makes on demand.
\<close>

definition new_sys :: "(addr \<Rightarrow> CSendBuffer) \<Rightarrow> sys" where
  "new_sys heap =
     \<lparr>sy_sessions = (\<lambda>_. new_Session), sy_freeIndex = [], sy_g_sessionId = 0, sy_staticKey = 0,
      sy_listenSocket = INVALID_SOCKET, sy_isRunning = False, sy_gracefulEnd = False, sy_checkTimeout = True,
      sy_port = [], sy_bufs = heap, sy_freed = [], sy_groups = (\<lambda>_. None), sy_g_GroupID = 0,
      sy_acceptCount = 0, sy_oldAcceptCount = 0, sy_acceptTps = 0, sy_disconnectCount = 0,
      sy_oldDisconnect = 0, sy_disconnectps = 0, sy_recvCount = 0, sy_recvTps = 0, sy_sendCount = 0,
      sy_sendTps = 0, sy_sessionCount = 0, sy_timeoutSessions = 0, sy_acceptErrorCount = 0,
      sy_tcpSemaphoreTimeout = 0, sy_localRecvCount = 0, sy_localSendCount = 0, sy_ticks = 0, sy_ios = 0,
      sy_trace = []\<rparr>"

definition new_MemoryUsage :: MemoryUsage where
  "new_MemoryUsage =
     \<lparr>mu_pageFaultCount = 0, mu_peakPMemSize = 0, mu_pMemSize = 0, mu_peakVmemSize = 0, mu_vMemsize = 0,
      mu_peakPagedPoolUsage = 0, mu_peakNonPagedPoolUsage = 0, mu_pagedPoolUsage = 0, mu_nonPagedPoolUsage = 0\<rparr>"

definition new_NormalIOCP :: "(addr \<Rightarrow> CSendBuffer) \<Rightarrow> CCpuUsage \<Rightarrow> server" where
  "new_NormalIOCP heap cpu =
     \<lparr>sv_sys = new_sys heap, sv_iocp = INVALID_HANDLE_VALUE, sv_threadArray = [], sv_ip = [], sv_maxNetThread = 0,
      sv_maxWorkerThread = 0, sv_port = 0, sv_backlog = 0, sv_settingParser = new_SettingParser,
      sv_memMonitor = new_MemoryUsage, sv_cpuMonitor = cpu, sv_packetPoolSize = 0, sv_packetPoolEmpty = 0, sv_spawned = 0, sv_running = [],
      sv_closed = []\<rparr>"

subsection \<open>Initialisation\<close>

text \<open>\<^verbatim>\<open>Socket::Close\<close> on the listening socket.\<close>

definition listen_Close :: "sys \<Rightarrow> sys" where
  "listen_Close s = emit (EvCloseSocket (sy_listenSocket s)) (s\<lparr>sy_listenSocket := INVALID_SOCKET\<rparr>)"

text \<open>Starting one thread: the code compares the handle with \<^verbatim>\<open>INVALID_HANDLE_VALUE\<close>; a thread runs if it is not 0.\<close>

definition spawn :: "start_os \<Rightarrow> entry \<Rightarrow> server \<Rightarrow> bool \<times> server" where
  "spawn os en sv =
     (let h = so_beginthreadex os (sv_spawned sv); sv1 = sv\<lparr>sv_spawned := Suc (sv_spawned sv)\<rparr>
      in if h = INVALID_HANDLE_VALUE then (False, on_sys listen_Close sv1)
         else (True, sv1\<lparr>sv_threadArray := sv_threadArray sv1 @ [(h, so_GetThreadId os h)],
                         sv_running := (if h = 0 then sv_running sv1 else sv_running sv1 @ [(h, en)])\<rparr>))"

definition and_then :: "bool \<times> server \<Rightarrow> (server \<Rightarrow> bool \<times> server) \<Rightarrow> bool \<times> server" where
  "and_then r f = (if fst r then f (snd r) else r)"

fun start_workers :: "start_os \<Rightarrow> nat \<Rightarrow> server \<Rightarrow> bool \<times> server" where
  "start_workers os 0 sv = (True, sv)"
| "start_workers os (Suc n) sv = and_then (spawn os WorkerEntry sv) (start_workers os n)"

definition ClientInit :: "start_os \<Rightarrow> u16 \<Rightarrow> u16 \<Rightarrow> u8 \<Rightarrow> bool \<Rightarrow> bool \<Rightarrow> bool \<Rightarrow> server \<Rightarrow> bool \<times> server" where
  "ClientInit os maxRunningThread workerThread staticKey useGroup useMonitor useTimeout sv =
     (let sv1 = (on_sys (\<lambda>s. s\<lparr>sy_staticKey := staticKey\<rparr>) sv)\<lparr>sv_iocp := so_CreateIoCompletionPort os\<rparr>
      in if sv_iocp sv1 = INVALID_HANDLE_VALUE then (False, on_sys listen_Close sv1)
         else
           and_then (start_workers os (unat workerThread) sv1) (\<lambda>sv2.
           and_then (if useGroup then spawn os GroupEntry sv2 else (True, sv2)) (\<lambda>sv3.
           and_then (if useTimeout then spawn os TimeoutEntry sv3 else (True, sv3)) (\<lambda>sv4.
             if useMonitor then spawn os MonitorEntry sv4 else (True, sv4)))))"

definition Init_with :: "start_os \<Rightarrow> wstr \<Rightarrow> u16 \<Rightarrow> u16 \<Rightarrow> u16 \<Rightarrow> u16 \<Rightarrow> u8 \<Rightarrow> server \<Rightarrow> bool \<times> server" where
  "Init_with os ip port backlog maxRunningThread workerThread staticKey sv =
     (let sv1 = (on_sys (\<lambda>s. s\<lparr>sy_staticKey := staticKey, sy_listenSocket := so_socket os\<rparr>) sv)
            \<lparr>sv_maxWorkerThread := workerThread, sv_backlog := backlog, sv_maxNetThread := maxRunningThread, sv_ip := ip,
             sv_port := port,
             sv_threadArray := take (unat workerThread) (sv_threadArray sv) @
               replicate (unat workerThread - length (sv_threadArray sv)) (0, 0)\<rparr>
      in if so_socket os = INVALID_SOCKET then (False, sv1)
         else if \<not> so_bind os ip port then (False, on_sys listen_Close sv1)
         else if \<not> so_listen os backlog then (False, on_sys listen_Close sv1)
         else
           and_then (spawn os AcceptEntry sv1) (\<lambda>sv2.
             (let (ok, sv3) = ClientInit os (sv_maxNetThread sv2) (sv_maxWorkerThread sv2) staticKey True True True sv2
              in if ok then (False, sv3) else (True, so_OnInit os sv3))))"

text \<open>\<^verbatim>\<open>GetValue\<close> into an integer of a given width; a value that is no number throws.\<close>

definition setting :: "parser \<Rightarrow> string \<Rightarrow> ('w :: len) word res" where
  "setting p name = bind_res (GetValue_int p (wide name) []) (\<lambda>v. Inr (word_of_int v))"

definition IOCP_Init :: "start_os \<Rightarrow> server \<Rightarrow> (bool \<times> server) res" where
  "IOCP_Init os sv =
     bind_res (SettingParser_Init (so_memory os) (so_file os) (sv_settingParser sv)) (\<lambda>p.
     bind_res (GetValue_String p (wide ''basic.ip'') []) (\<lambda>ip.
     bind_res (setting p ''basic.port'') (\<lambda>port.
     bind_res (setting p ''basic.backlog'') (\<lambda>backlog.
     bind_res (setting p ''basic.runningThreads'') (\<lambda>net.
     bind_res (setting p ''basic.workerThreads'') (\<lambda>workers.
     bind_res (setting p ''basic.staticKey'') (\<lambda>key.
       Inr (Init_with os ip port backlog net workers key (sv\<lparr>sv_settingParser := p\<rparr>)))))))))"

text \<open>The constructor pushes every index, the largest first, and initialises a server; it ignores the result.\<close>

definition fill_free :: "sys \<Rightarrow> sys" where
  "fill_free = fold ReleaseFreeIndex (map of_nat (rev [0..<MAX_SESSIONS]))"

definition new_IOCP :: "start_os \<Rightarrow> (addr \<Rightarrow> CSendBuffer) \<Rightarrow> CCpuUsage \<Rightarrow> bool \<Rightarrow> server res" where
  "new_IOCP os heap cpu is_server =
     (let sv = on_sys fill_free (new_NormalIOCP heap cpu)
      in if is_server then bind_res (IOCP_Init os sv) (\<lambda>(_, sv1). Inr sv1) else Inr sv)"

subsection \<open>Start, stop and wait\<close>

definition Start :: "start_os \<Rightarrow> server \<Rightarrow> server" where
  "Start os sv = so_OnStart os (on_sys (\<lambda>s. s\<lparr>sy_isRunning := True\<rparr>) sv)"

text \<open>What \<^verbatim>\<open>Stop\<close> does before it waits, the wait for every thread but the calling one, and \<^verbatim>\<open>Stop\<close>.\<close>

definition Stop_signal :: "sys \<Rightarrow> sys" where
  "Stop_signal s =
     PostQueuedCompletionStatus \<lparr>cp_transferred = 0, cp_key = None, cp_overlapped = None\<rparr>
       (listen_Close (s\<lparr>sy_isRunning := False\<rparr>))"

fun Stop_wait :: "start_os \<Rightarrow> u32 \<Rightarrow> (HANDLE \<times> u32) list \<Rightarrow> server \<Rightarrow> server option" where
  "Stop_wait os me [] sv = Some sv"
| "Stop_wait os me ((h, i) # ts) sv =
     (if i = me then Stop_wait os me ts sv
      else case so_WaitForSingleObject os h sv of None \<Rightarrow> None | Some sv' \<Rightarrow> Stop_wait os me ts sv')"

definition Stop :: "start_os \<Rightarrow> u32 \<Rightarrow> server \<Rightarrow> server option" where
  "Stop os me sv =
     (case Stop_wait os me (sv_threadArray sv) (on_sys Stop_signal sv) of
        None \<Rightarrow> None
      | Some sv1 \<Rightarrow> Some (so_OnEnd os (on_sys (\<lambda>s. s\<lparr>sy_gracefulEnd := True\<rparr>) sv1)))"

definition isEnd :: "server \<Rightarrow> bool" where
  "isEnd sv = sy_gracefulEnd (sv_sys sv)"

definition HandleInput :: "start_os \<Rightarrow> u32 \<Rightarrow> bool \<Rightarrow> server \<Rightarrow> server option" where
  "HandleInput os me keyD sv = (if keyD then Stop os me sv else Some sv)"

text \<open>\<^verbatim>\<open>Wait\<close> and \<^verbatim>\<open>WaitStart\<close>: \<open>n\<close> bounds the number of times the address is signalled.\<close>

fun Wait :: "start_os \<Rightarrow> nat \<Rightarrow> server \<Rightarrow> server option" where
  "Wait os 0 sv = None"
| "Wait os (Suc n) sv = (if sy_gracefulEnd (sv_sys sv) then Some sv else Wait os n (so_WaitOnAddress os sv))"

fun WaitStart :: "start_os \<Rightarrow> nat \<Rightarrow> server \<Rightarrow> server option" where
  "WaitStart os 0 sv = None"
| "WaitStart os (Suc n) sv = (if sy_isRunning (sv_sys sv) then Some sv else WaitStart os n (so_WaitOnAddress os sv))"

definition delete_NormalIOCP :: "server \<Rightarrow> server" where
  "delete_NormalIOCP sv = sv\<lparr>sv_closed := sv_closed sv @ sv_iocp sv # map fst (sv_threadArray sv)\<rparr>"

subsection \<open>The loops of the threads\<close>

text \<open>
  The group, monitor and timeout threads run a round, then sleep until the time planned for the next, which is one period
  after the last plan and not after the round; if it has passed they do not sleep.
\<close>

fun periodic :: "start_os \<Rightarrow> (server \<Rightarrow> server res) \<Rightarrow> int \<Rightarrow> nat \<Rightarrow> int \<Rightarrow> server \<Rightarrow> server res" where
  "periodic os thread_round period 0 plan sv = Inl OutOfFuel"
| "periodic os thread_round period (Suc n) plan sv =
     (if \<not> sy_isRunning (sv_sys sv) then Inr sv
      else bind_res (thread_round sv) (\<lambda>sv1.
        (let sleepTime = duration_ms (plan - so_clock os sv1)
         in periodic os thread_round period n (plan + ms period)
              (so_others os (if sleepTime > 0 then sleepTime else 0) sv1))))"

definition started :: "start_os \<Rightarrow> nat \<Rightarrow> server \<Rightarrow> (server \<Rightarrow> server res) \<Rightarrow> server res" where
  "started os m sv body = (case WaitStart os m sv of None \<Rightarrow> Inl OutOfFuel | Some sv1 \<Rightarrow> body sv1)"

definition GroupThread :: "start_os \<Rightarrow> env \<Rightarrow> (server \<Rightarrow> GroupID list) \<Rightarrow> nat \<Rightarrow> nat \<Rightarrow> server \<Rightarrow> server res" where
  "GroupThread os e ids m n sv =
     started os m sv (\<lambda>sv1.
       periodic os (\<lambda>sv. on_sys_res (GroupManager_Update e (ids sv)) sv) 1 n (ms (duration_ms (so_clock os sv1)) + ms 1) sv1)"

definition Monitor_round :: "start_os \<Rightarrow> server \<Rightarrow> server" where
  "Monitor_round os sv =
     so_OnMonitorRun os ((on_sys MonitorThread_step sv)
       \<lparr>sv_packetPoolSize := fst (so_pool os sv), sv_packetPoolEmpty := snd (so_pool os sv),
        sv_memMonitor := MemoryUsage_Update (so_counters os sv) (sv_memMonitor sv),
        sv_cpuMonitor := UpdateCpuTime (so_times os sv) (sv_cpuMonitor sv)\<rparr>)"

definition MonitorThread :: "start_os \<Rightarrow> nat \<Rightarrow> nat \<Rightarrow> server \<Rightarrow> server res" where
  "MonitorThread os m n sv =
     started os m sv (\<lambda>sv1. periodic os (\<lambda>sv. Inr (Monitor_round os sv)) 1000 n (so_clock os sv1 + ms 1000) sv1)"

definition TimeoutThread :: "start_os \<Rightarrow> env \<Rightarrow> update_call \<Rightarrow> nat \<Rightarrow> nat \<Rightarrow> server \<Rightarrow> server res" where
  "TimeoutThread os e upd m n sv =
     started os m sv (\<lambda>sv1.
       periodic os (on_sys_res (TimeoutThread_step e upd)) 1000 n (ms (duration_ms (so_clock os sv1)) + ms 1000) sv1)"

text \<open>\<open>accepts i\<close> is the \<open>i\<close>-th \<^verbatim>\<open>accept\<close>: the socket, the error code and the state after the wait.\<close>

fun AcceptThread_loop ::
  "env \<Rightarrow> update_call \<Rightarrow> (nat \<Rightarrow> server \<Rightarrow> SOCKET \<times> int \<times> server) \<Rightarrow> nat \<Rightarrow> nat \<Rightarrow> server \<Rightarrow> server res" where
  "AcceptThread_loop e upd accepts 0 i sv = Inl OutOfFuel"
| "AcceptThread_loop e upd accepts (Suc n) i sv =
     (if \<not> sy_isRunning (sv_sys sv) then Inr sv
      else
        (let (sock, err, sv1) = accepts i sv
         in bind_res (AcceptThread_step e upd sock err (sv_sys sv1)) (\<lambda>(go, s).
              if go then AcceptThread_loop e upd accepts n (Suc i) (sv1\<lparr>sv_sys := s\<rparr>) else Inr (sv1\<lparr>sv_sys := s\<rparr>))))"

definition AcceptThread ::
  "start_os \<Rightarrow> env \<Rightarrow> update_call \<Rightarrow> (nat \<Rightarrow> server \<Rightarrow> SOCKET \<times> int \<times> server) \<Rightarrow> nat \<Rightarrow> nat \<Rightarrow> server \<Rightarrow> server res" where
  "AcceptThread os e upd accepts m n sv = started os m sv (AcceptThread_loop e upd accepts n 0)"

text \<open>
  \<open>gqcs i\<close> is the \<open>i\<close>-th \<^verbatim>\<open>GetQueuedCompletionStatus\<close>: the completion, its result, the error code and the state after the
  wait, with the completion taken from the port.
\<close>

fun WorkerThread ::
  "env \<Rightarrow> update_call \<Rightarrow> (nat \<Rightarrow> server \<Rightarrow> completion \<times> bool \<times> int \<times> server) \<Rightarrow> nat \<Rightarrow> nat \<Rightarrow> server \<Rightarrow> server res" where
  "WorkerThread e upd gqcs 0 i sv = Inl OutOfFuel"
| "WorkerThread e upd gqcs (Suc n) i sv =
     (let (c, ret, err, sv1) = gqcs i sv
      in bind_res (WorkerThread_step e upd c ret err (sv_sys sv1)) (\<lambda>(go, s).
           if go then WorkerThread e upd gqcs n (Suc i) (sv1\<lparr>sv_sys := s\<rparr>) else Inr (sv1\<lparr>sv_sys := s\<rparr>)))"

subsection \<open>Starting\<close>

lemma fold_ReleaseFreeIndex: "sy_freeIndex (fold ReleaseFreeIndex is s) = rev is @ sy_freeIndex s"
  by (induction "is" arbitrary: s) (simp_all add: ReleaseFreeIndex_def)

lemma fill_free_indices: "sy_freeIndex (fill_free s) = map of_nat [0..<MAX_SESSIONS] @ sy_freeIndex s"
  by (simp only: fill_free_def fold_ReleaseFreeIndex rev_map rev_rev_ident)

lemma fold_ReleaseFreeIndex_sys: "fold ReleaseFreeIndex is s = s\<lparr>sy_freeIndex := rev is @ sy_freeIndex s\<rparr>"
  by (induction "is" arbitrary: s) (simp_all add: ReleaseFreeIndex_def)

text \<open>The threads that were started, and what \<^verbatim>\<open>Init\<close> reports about it.\<close>

definition spawns :: "start_os \<Rightarrow> bool" where
  "spawns os \<longleftrightarrow> (\<forall>n. so_beginthreadex os n \<notin> {0, INVALID_HANDLE_VALUE})"

lemma spawn_ok:
  "spawns os \<Longrightarrow> fst (spawn os en sv) \<and> map snd (sv_running (snd (spawn os en sv))) = map snd (sv_running sv) @ [en]"
  by (simp add: spawns_def spawn_def Let_def)

lemma start_workers_ok:
  "spawns os \<Longrightarrow> fst (start_workers os n sv) \<and>
    map snd (sv_running (snd (start_workers os n sv))) = map snd (sv_running sv) @ replicate n WorkerEntry"
  by (induction n arbitrary: sv) (simp_all add: and_then_def spawn_ok)

lemma ClientInit_ok:
  assumes "spawns os" and "so_CreateIoCompletionPort os \<noteq> INVALID_HANDLE_VALUE"
  shows "fst (ClientInit os net workers key True True True sv)"
    and "map snd (sv_running (snd (ClientInit os net workers key True True True sv))) =
      map snd (sv_running sv) @ replicate (unat workers) WorkerEntry @ [GroupEntry, TimeoutEntry, MonitorEntry]"
  using assms by (simp_all add: ClientInit_def Let_def and_then_def spawn_ok start_workers_ok on_sys_def)

text \<open>
  \<^verbatim>\<open>Init\<close> negates the result of \<^verbatim>\<open>ClientInit\<close>: with every thread running it reports failure and does not call
  \<^verbatim>\<open>OnInit\<close>, and it reports success only if \<^verbatim>\<open>ClientInit\<close> failed.
\<close>

lemma Init_reports_failure:
  assumes "spawns os" and "so_CreateIoCompletionPort os \<noteq> INVALID_HANDLE_VALUE" and "so_socket os \<noteq> INVALID_SOCKET"
    and "so_bind os ip port" and "so_listen os backlog"
  shows "\<not> fst (Init_with os ip port backlog net workers key sv)"
    and "map snd (sv_running (snd (Init_with os ip port backlog net workers key sv))) =
      map snd (sv_running sv) @ AcceptEntry # replicate (unat workers) WorkerEntry @ [GroupEntry, TimeoutEntry, MonitorEntry]"
  using assms ClientInit_ok [OF assms(1,2)]
  by (simp_all add: Init_with_def Let_def and_then_def spawn_ok case_prod_unfold) (simp_all add: spawn_def spawns_def Let_def on_sys_def)

lemma Init_success_means_failure:
  assumes "fst (Init_with os ip port backlog net workers key sv)"
  shows "\<exists>sv'. \<not> fst (ClientInit os (sv_maxNetThread sv') (sv_maxWorkerThread sv') key True True True sv')"
  using assms by (auto simp: Init_with_def Let_def and_then_def case_prod_unfold split: if_splits)

subsection \<open>Periodic threads\<close>

text \<open>The state before the check number \<open>k\<close> of the loop, as long as it goes on.\<close>

primrec periodic_state :: "start_os \<Rightarrow> (server \<Rightarrow> server res) \<Rightarrow> int \<Rightarrow> int \<Rightarrow> server \<Rightarrow> nat \<Rightarrow> server res" where
  "periodic_state os thread_round period plan sv 0 = Inr sv"
| "periodic_state os thread_round period plan sv (Suc k) =
     bind_res (periodic_state os thread_round period plan sv k) (\<lambda>sv1. bind_res (thread_round sv1) (\<lambda>sv2.
       Inr (so_others os (max 0 (duration_ms (plan + int k * ms period - so_clock os sv2))) sv2)))"

lemma periodic_state_Suc:
  "periodic_state os r period plan sv (Suc k) =
     bind_res (r sv) (\<lambda>sv1. periodic_state os r period (plan + ms period)
       (so_others os (max 0 (duration_ms (plan - so_clock os sv1))) sv1) k)"
proof (induction k)
  case 0
  then show ?case by simp
next
  case (Suc k)
  show ?case
    by (subst periodic_state.simps(2), subst Suc) (auto simp: bind_res_assoc algebra_simps)
qed

lemma periodic_until:
  assumes "\<And>j sv'. j < k \<Longrightarrow> periodic_state os r period plan sv j = Inr sv' \<Longrightarrow> sy_isRunning (sv_sys sv')"
    and "periodic_state os r period plan sv k = Inr sv1" and "\<not> sy_isRunning (sv_sys sv1)" and "k < n"
  shows "periodic os r period n plan sv = Inr sv1"
  using assms
proof (induction k arbitrary: n plan sv)
  case 0
  then show ?case by (cases n) simp_all
next
  case (Suc k)
  obtain n' where n: "n = Suc n'" using Suc.prems(4) by (cases n) auto
  have run: "sy_isRunning (sv_sys sv)" using Suc.prems(1) [of 0 sv] by simp
  obtain sv2 where sv2: "r sv = Inr sv2" using Suc.prems(2) unfolding periodic_state_Suc by (cases "r sv") auto
  let ?sv3 = "so_others os (max 0 (duration_ms (plan - so_clock os sv2))) sv2"
  have "periodic os r period n' (plan + ms period) ?sv3 = Inr sv1"
    using Suc.prems(1) [of "Suc j" for j] Suc.prems(2-4) by (intro Suc.IH) (simp_all add: periodic_state_Suc sv2 n del: periodic_state.simps)
  then show ?case
    using run sv2 by (cases "0 < duration_ms (plan - so_clock os sv2)") (simp_all add: n Let_def max_absorb1 max_absorb2)
qed

subsection \<open>Properties\<close>

lemma two_groups_port: "sy_port two_groups = []"
  by (simp add: two_groups_def one_session_def quiet_sys_def)

text \<open>
  C18. The members of every group are exactly the sessions for which the application has seen an enter and no
  leave since: any sequence of rounds of the server's threads and of calls of the application keeps it so, whatever
  groups they run.
\<close>

theorem members_match_events:
  assumes "callbacks_in members_kept e" and "members_inv s" and "(server_round e (Group_Update e d))\<^sup>*\<^sup>* s s'"
  shows "members_inv s'"
  using members.server_run_R [OF assms(1,3)] assms(2) by (simp add: members_kept_def)

theorem members_match_events_witness:
  "\<exists>s'. server_round still_env (Group_Update still_env 1) (two_groups\<lparr>sy_port := [\<lparr>cp_transferred = 2, cp_key = None,
     cp_overlapped = Some (OvGroup 1)\<rparr>]\<rparr>) s' \<and> members_inv s'"
proof -
  have cb: "callbacks_in members_kept still_env"
    by (simp add: callbacks_in_def still_env_def quiet_env_def members.R_refl)
  have inv: "members_inv two_groups"
    by (auto simp: members_inv_def two_groups_def entered_def new_Group_def split: if_splits)
  let ?c = "\<lparr>cp_transferred = 2, cp_key = None, cp_overlapped = Some (OvGroup 1)\<rparr>"
  obtain s' where s': "Group_Update still_env (Suc 0) 1 two_groups = Inr s'"
    using ready_update [OF _ two_groups_idle(1), of 0] by auto
  have "two_groups = two_groups\<lparr>sy_port := []\<rparr>" by (simp flip: two_groups_port)
  then have "WorkerThread_step still_env (Group_Update still_env 1) ?c True 0
      ((two_groups\<lparr>sy_port := [?c]\<rparr>)\<lparr>sy_port := []\<rparr>) = Inr (True, s')"
    using s' by (simp add: WorkerThread_step_def Execute_def del: Group_Update.simps)
  then have "server_round still_env (Group_Update still_env 1) (two_groups\<lparr>sy_port := [?c]\<rparr>) s'"
    by (intro server_round.worker_posted [of _ ?c "[]"]) simp_all
  moreover have "members_inv (two_groups\<lparr>sy_port := [?c]\<rparr>)" using inv by (simp add: members_inv_def)
  ultimately show ?thesis using members_match_events [OF cb _ r_into_rtranclp] by blast
qed

text \<open>
  C19. Shutting down the workers. However the threads of the server and the application's calls interleave, no worker ends
  before \<^verbatim>\<open>Stop\<close>; afterwards exactly one stop completion stays posted for good, a worker ends when it takes
  it, at whatever time, and by then has posted it again for the next worker.
\<close>

theorem workers_end_by_stop:
  assumes "callbacks_in stops_kept e" and "(server_round e (Group_Update e d))\<^sup>*\<^sup>* s0 s" and "stops s0 = 0"
  shows "(\<forall>c rest ret err s'. sy_port s = c # rest \<longrightarrow>
      WorkerThread_step e (Group_Update e d) c ret err (s\<lparr>sy_port := rest\<rparr>) \<noteq> Inr (False, s')) \<and>
    (\<forall>s1. (server_round e (Group_Update e d))\<^sup>*\<^sup>* (Stop_signal s) s1 \<longrightarrow> stops s1 = 1 \<and>
      (\<forall>c rest ret err. sy_port s1 = c # rest \<longrightarrow> is_stop c \<longrightarrow>
        (\<exists>s'. WorkerThread_step e (Group_Update e d) c ret err (s1\<lparr>sy_port := rest\<rparr>) = Inr (False, s') \<and> stops s' = 1)))"
proof -
  have ends: "is_stop c" if "WorkerThread_step e upd c ret err s1 = Inr (False, s')" for upd c ret err s1 s'
    using that by (auto simp: WorkerThread_step_def is_stop_def Let_def split: bool.splits option.splits if_splits)
  have s: "stops s = 0" using stops.server_run_R [OF assms(1,2)] assms(3) by (simp add: stops_kept_def)
  have sig: "stops (Stop_signal s) = 1"
    using s by (simp add: stops_def Stop_signal_def listen_Close_def is_stop_def)
  have "stops s1 = 1" if "(server_round e (Group_Update e d))\<^sup>*\<^sup>* (Stop_signal s) s1" for s1
    using stops.server_run_R [OF assms(1) that] sig by (simp add: stops_kept_def)
  moreover have "\<exists>s'. WorkerThread_step e (Group_Update e d) c ret err (s1\<lparr>sy_port := rest\<rparr>) = Inr (False, s') \<and> stops s' = 1"
    if "stops s1 = 1" "sy_port s1 = c # rest" "is_stop c" for s1 c rest ret err
    using that by (simp add: WorkerThread_step_def is_stop_def stops_def)
  moreover have "\<not> is_stop c" if "sy_port s = c # rest" for c rest using s that by (auto simp: stops_def split: if_splits)
  ultimately show ?thesis using ends by blast
qed

theorem workers_end_by_stop_witness:
  "\<exists>s'. WorkerThread_step still_env (Group_Update still_env 1) \<lparr>cp_transferred = 0, cp_key = None, cp_overlapped = None\<rparr> True 0
     ((Stop_signal two_groups)\<lparr>sy_port := []\<rparr>) = Inr (False, s') \<and> stops s' = 1"
proof -
  have cb: "callbacks_in stops_kept still_env"
    by (simp add: callbacks_in_def still_env_def quiet_env_def stops.R_refl)
  have "stops two_groups = 0" "sy_port (Stop_signal two_groups) = [\<lparr>cp_transferred = 0, cp_key = None, cp_overlapped = None\<rparr>]"
    by (simp_all add: stops_def two_groups_port Stop_signal_def listen_Close_def)
  then show ?thesis
    using workers_end_by_stop [OF cb rtranclp.rtrancl_refl [of "server_round still_env (Group_Update still_env 1)" two_groups]]
    by (auto simp: is_stop_def)
qed

end
