(* ===== verification/Send_Handle.thy ===== *)
theory Send_Handle
  imports Send_Buffer
begin

section \<open>The handle of a send buffer\<close>

text \<open>
  \<^verbatim>\<open>SendBuffer\<close> (\<^verbatim>\<open>src/SendBuffer.cpp\<close>) is the value type the application holds: it owns one reference of a pooled
  \<^verbatim>\<open>CSendBuffer\<close>. The state has the buffers, the live handle objects by name (a handle holds a pointer or null),
  the history of the pool (which addresses it gave out and got back, in order) and the number of references that are
  not held by handles but by the queues of the sessions. The pool chooses the address of an allocation; theory \<open>Tls_Pool\<close> shows
  that it gives out no address twice at a time.
\<close>

type_synonym buf_addr = nat

record handles =
  hs_bufs :: "buf_addr \<Rightarrow> CSendBuffer"
  hs_vars :: "nat \<Rightarrow> buf_addr option option"
  hs_alloced :: "buf_addr list"
  hs_freed :: "buf_addr list"
  hs_others :: "buf_addr \<Rightarrow> nat"

subsection \<open>Operations\<close>

definition h_IncreaseRef :: "buf_addr \<Rightarrow> handles \<Rightarrow> handles" where
  "h_IncreaseRef a st = st\<lparr>hs_bufs := (hs_bufs st)(a := snd (sb_IncreaseRef (hs_bufs st a)))\<rparr>"

definition h_Release :: "buf_addr \<Rightarrow> handles \<Rightarrow> handles" where
  "h_Release a st =
     (let (zero, b) = sb_Release (hs_bufs st a); st1 = st\<lparr>hs_bufs := (hs_bufs st)(a := b)\<rparr>
      in if zero then st1\<lparr>hs_freed := hs_freed st1 @ [a]\<rparr> else st1)"

definition CSendBuffer_Alloc :: "buf_addr \<Rightarrow> handles \<Rightarrow> handles" where
  "CSendBuffer_Alloc a st =
     h_IncreaseRef a (st\<lparr>hs_bufs := (hs_bufs st)(a := sb_Clear (hs_bufs st a)), hs_alloced := hs_alloced st @ [a]\<rparr>)"

definition SendBuffer_Alloc :: "nat \<Rightarrow> buf_addr \<Rightarrow> handles \<Rightarrow> handles" where
  "SendBuffer_Alloc v a st = (let st1 = CSendBuffer_Alloc a st in st1\<lparr>hs_vars := (hs_vars st1)(v := Some (Some a))\<rparr>)"

definition SendBuffer_swap :: "nat \<Rightarrow> nat \<Rightarrow> handles \<Rightarrow> handles" where
  "SendBuffer_swap v w st = st\<lparr>hs_vars := (hs_vars st)(v := hs_vars st w, w := hs_vars st v)\<rparr>"

definition SendBuffer_move :: "nat \<Rightarrow> nat \<Rightarrow> handles \<Rightarrow> handles" where
  "SendBuffer_move v w st = SendBuffer_swap v w (st\<lparr>hs_vars := (hs_vars st)(v := Some None)\<rparr>)"

definition SendBuffer_copy :: "nat \<Rightarrow> nat \<Rightarrow> handles \<Rightarrow> handles res" where
  "SendBuffer_copy v w st =
     (case hs_vars st w of
        Some (Some a) \<Rightarrow> Inr (h_IncreaseRef a (st\<lparr>hs_vars := (hs_vars st)(v := Some (Some a))\<rparr>))
      | _ \<Rightarrow> Inl NullDeref)"

definition SendBuffer_destroy :: "nat \<Rightarrow> handles \<Rightarrow> handles" where
  "SendBuffer_destroy v st =
     (let st1 = (case hs_vars st v of Some (Some a) \<Rightarrow> h_Release a st | _ \<Rightarrow> st)
      in st1\<lparr>hs_vars := (hs_vars st1)(v := None)\<rparr>)"

text \<open>Assignment takes its argument by value: \<open>t\<close> is that object, which dies at the end.\<close>

definition SendBuffer_assign :: "nat \<Rightarrow> nat \<Rightarrow> handles \<Rightarrow> handles" where
  "SendBuffer_assign v t st = SendBuffer_destroy t (SendBuffer_swap v t st)"

definition with_buffer :: "nat \<Rightarrow> (CSendBuffer \<Rightarrow> CSendBuffer res) \<Rightarrow> handles \<Rightarrow> handles res" where
  "with_buffer v f st =
     (case hs_vars st v of
        Some (Some a) \<Rightarrow> bind_res (f (hs_bufs st a)) (\<lambda>b. Inr (st\<lparr>hs_bufs := (hs_bufs st)(a := b)\<rparr>))
      | _ \<Rightarrow> Inl NullDeref)"

definition SendBuffer_push :: "nat \<Rightarrow> u8 list \<Rightarrow> handles \<Rightarrow> handles res" where
  "SendBuffer_push v bs = with_buffer v (\<lambda>b. sb_push b bs)"

definition SendBuffer_SetWstr :: "nat \<Rightarrow> u16 list \<Rightarrow> nat \<Rightarrow> handles \<Rightarrow> handles res" where
  "SendBuffer_SetWstr v arr n = with_buffer v (\<lambda>b. sb_SetWstr b arr n)"

definition SendBuffer_SetCstr :: "nat \<Rightarrow> u8 list \<Rightarrow> nat \<Rightarrow> handles \<Rightarrow> handles res" where
  "SendBuffer_SetCstr v arr n = with_buffer v (\<lambda>b. sb_SetCstr b arr n)"

definition SendBuffer_Size :: "nat \<Rightarrow> handles \<Rightarrow> u16 res" where
  "SendBuffer_Size v st =
     (case hs_vars st v of Some (Some a) \<Rightarrow> Inr (sb_GetDataSize (hs_bufs st a)) | _ \<Rightarrow> Inl NullDeref)"

definition SendBuffer_CanPushSize :: "nat \<Rightarrow> handles \<Rightarrow> int res" where
  "SendBuffer_CanPushSize v st =
     (case hs_vars st v of Some (Some a) \<Rightarrow> Inr (sb_CanPushSize (hs_bufs st a)) | _ \<Rightarrow> Inl NullDeref)"

subsection \<open>Programs with handles\<close>

definition holders :: "(nat \<Rightarrow> buf_addr option option) \<Rightarrow> buf_addr \<Rightarrow> nat set" where
  "holders vars a = {v. vars v = Some (Some a)}"

definition owned :: "handles \<Rightarrow> buf_addr \<Rightarrow> nat" where
  "owned st a = card (holders (hs_vars st) a) + hs_others st a"

text \<open>
  The steps of a program: objects are made, copied, moved, swapped, assigned, written and destroyed in any order, and the
  library takes and gives back references of its own to buffers in use. The premises are the rules of
  the language (a name denotes one live object) and the pool's (an allocated buffer is not in use); fewer than 2^31 references exist.
\<close>

inductive handle_step :: "handles \<Rightarrow> handles \<Rightarrow> bool" where
  alloc: "hs_vars st v = None \<Longrightarrow> owned st a = 0 \<Longrightarrow> handle_step st (SendBuffer_Alloc v a st)"
| copy: "hs_vars st v = None \<Longrightarrow> \<forall>a. owned st a < 2 ^ 31 - 1 \<Longrightarrow> SendBuffer_copy v w st = Inr st' \<Longrightarrow> handle_step st st'"
| move: "hs_vars st v = None \<Longrightarrow> hs_vars st w \<noteq> None \<Longrightarrow> handle_step st (SendBuffer_move v w st)"
| swap: "hs_vars st v \<noteq> None \<Longrightarrow> hs_vars st w \<noteq> None \<Longrightarrow> handle_step st (SendBuffer_swap v w st)"
| assign: "hs_vars st v \<noteq> None \<Longrightarrow> hs_vars st t \<noteq> None \<Longrightarrow> v \<noteq> t \<Longrightarrow> handle_step st (SendBuffer_assign v t st)"
| destroy: "hs_vars st v \<noteq> None \<Longrightarrow> handle_step st (SendBuffer_destroy v st)"
| push: "SendBuffer_push v bs st = Inr st' \<Longrightarrow> handle_step st st'"
| write_wide: "SendBuffer_SetWstr v arr n st = Inr st' \<Longrightarrow> handle_step st st'"
| write_bytes: "SendBuffer_SetCstr v bs n st = Inr st' \<Longrightarrow> handle_step st st'"
| share: "0 < owned st a \<Longrightarrow> owned st a < 2 ^ 31 - 1 \<Longrightarrow>
    handle_step st ((h_IncreaseRef a st)\<lparr>hs_others := (hs_others st)(a := hs_others st a + 1)\<rparr>)"
| unshare: "0 < hs_others st a \<Longrightarrow>
    handle_step st ((h_Release a st)\<lparr>hs_others := (hs_others st)(a := hs_others st a - 1)\<rparr>)"

text \<open>
  The count of a buffer is the number of its owners; it went out of the pool once more than it came back while it
  has owners, and as often when it has none.
\<close>

definition counted :: "handles \<Rightarrow> buf_addr \<Rightarrow> bool" where
  "counted st a \<longleftrightarrow> sb_refCount (hs_bufs st a) = of_nat (owned st a) \<and> owned st a < 2 ^ 31 \<and>
     count_list (hs_alloced st) a = count_list (hs_freed st) a + (if owned st a = 0 then 0 else 1)"

definition handles_ok :: "handles \<Rightarrow> bool" where
  "handles_ok st \<longleftrightarrow> finite {v. hs_vars st v \<noteq> None} \<and> (\<forall>a. counted st a)"

subsection \<open>Owners\<close>

lemma holders_upd:
  "holders (vars(v := x)) a = (if x = Some (Some a) then insert v (holders vars a) else holders vars a - {v})"
  by (auto simp: holders_def split: if_splits)

lemma finite_holders: "finite {v. vars v \<noteq> None} \<Longrightarrow> finite (holders vars a)"
  unfolding holders_def by (erule finite_subset [rotated]) auto

lemma card_holders_swap: "card (holders (vars(v := vars w, w := vars v)) a) = card (holders vars a)"
proof -
  define f where "f x = (if x = v then w else if x = w then v else x)" for x
  have f: "f (f x) = x" for x by (simp add: f_def)
  have "x \<in> holders (vars(v := vars w, w := vars v)) a \<longleftrightarrow> f x \<in> holders vars a" for x
    by (simp add: holders_def f_def)
  then have "holders (vars(v := vars w, w := vars v)) a = f ` holders vars a"
    using f by (auto simp: image_iff) (metis f)
  moreover have "inj_on f (holders vars a)" by (rule inj_on_inverseI [of _ f]) (rule f)
  ultimately show ?thesis by (simp add: card_image)
qed

lemma h_ops_sel [simp]:
  "hs_vars (h_IncreaseRef a st) = hs_vars st" "hs_others (h_IncreaseRef a st) = hs_others st"
  "hs_alloced (h_IncreaseRef a st) = hs_alloced st" "hs_freed (h_IncreaseRef a st) = hs_freed st"
  "hs_vars (h_Release a st) = hs_vars st" "hs_others (h_Release a st) = hs_others st"
  "hs_alloced (h_Release a st) = hs_alloced st"
  by (simp_all add: h_IncreaseRef_def h_Release_def Let_def split: prod.splits)

lemma SendBuffer_swap_ok: "handles_ok st \<Longrightarrow> handles_ok (SendBuffer_swap v w st)"
proof -
  assume ok: "handles_ok st"
  have "finite (insert v (insert w {x. hs_vars st x \<noteq> None}))" using ok unfolding handles_ok_def by blast
  then have "finite {x. hs_vars (SendBuffer_swap v w st) x \<noteq> None}"
    by (rule finite_subset [rotated]) (simp add: SendBuffer_swap_def, blast)
  moreover have "owned (SendBuffer_swap v w st) a = owned st a" for a
    by (simp add: owned_def SendBuffer_swap_def card_holders_swap)
  ultimately show ?thesis using ok by (simp add: handles_ok_def counted_def SendBuffer_swap_def)
qed

text \<open>One more owner, and one less.\<close>

lemma counted_gain:
  assumes "counted st a" and "owned st' a = owned st a + 1" and "owned st a < 2 ^ 31 - 1" and "0 < owned st a"
    and "hs_bufs st' a = snd (sb_IncreaseRef (hs_bufs st a))" and "hs_alloced st' = hs_alloced st" and "hs_freed st' = hs_freed st"
  shows "counted st' a"
  using assms by (simp add: counted_def sb_IncreaseRef_def)

lemma Release_zero:
  assumes "sb_refCount b = of_nat n" and "0 < n" and "n < 2 ^ 31"
  shows "fst (sb_Release b) \<longleftrightarrow> n = 1" and "sb_refCount (snd (sb_Release b)) = of_nat (n - 1)"
proof -
  have r: "sb_refCount b - 1 = of_nat (n - 1)" using assms(1,2) by (simp add: of_nat_diff)
  have "unat (of_nat (n - 1) :: 32 word) = n - 1" using assms(3) by (intro unat_of_nat_small) simp
  then have "(of_nat (n - 1) :: 32 word) = 0 \<longleftrightarrow> n - 1 = 0" unfolding unat_eq_zero [symmetric] by simp
  then show "fst (sb_Release b) \<longleftrightarrow> n = 1" using r assms(2) by (auto simp: sb_Release_def)
  show "sb_refCount (snd (sb_Release b)) = of_nat (n - 1)" using r by (simp add: sb_Release_def)
qed

lemma counted_lose:
  assumes "counted st a" and "owned st' a + 1 = owned st a" and "hs_bufs st' a = hs_bufs (h_Release a st) a"
    and "hs_alloced st' = hs_alloced st" and "hs_freed st' = hs_freed (h_Release a st)"
  shows "counted st' a"
proof -
  have "sb_refCount (hs_bufs st a) = of_nat (owned st a)" "0 < owned st a" "owned st a < 2 ^ 31"
    using assms(1,2) by (auto simp: counted_def)
  note z = Release_zero [OF this]
  have f: "hs_freed st' = hs_freed st @ (if owned st a = 1 then [a] else [])" "hs_bufs st' a = snd (sb_Release (hs_bufs st a))"
    using assms(3,5) z(1) by (auto simp: h_Release_def Let_def case_prod_unfold split: if_splits)
  have "owned st' a = owned st a - 1" using assms(2) by simp
  then show ?thesis using assms(1,2,4) f z(2) by (auto simp: counted_def)
qed

lemma counted_same:
  assumes "counted st a" and "owned st' a = owned st a" and "sb_refCount (hs_bufs st' a) = sb_refCount (hs_bufs st a)"
    and "count_list (hs_alloced st') a = count_list (hs_alloced st) a" and "count_list (hs_freed st') a = count_list (hs_freed st) a"
  shows "counted st' a"
  using assms by (simp add: counted_def)

lemma h_Release_other:
  "x \<noteq> a \<Longrightarrow> hs_bufs (h_Release a st) x = hs_bufs st x"
  "x \<noteq> a \<Longrightarrow> count_list (hs_freed (h_Release a st)) x = count_list (hs_freed st) x"
  by (simp_all add: h_Release_def Let_def split: prod.splits)

subsection \<open>Every step keeps the counts\<close>

lemma handles_okD: "handles_ok st \<Longrightarrow> counted st a" "handles_ok st \<Longrightarrow> finite (holders (hs_vars st) a)"
  using finite_holders by (auto simp: handles_ok_def)

text \<open>A change of one name and the count of one buffer.\<close>

lemma handles_ok_upd:
  assumes "handles_ok st" and "hs_vars st' = (hs_vars st)(v := x)" and "\<And>a. counted st' a"
  shows "handles_ok st'"
proof -
  have "finite (insert v {y. hs_vars st y \<noteq> None})" using assms(1) unfolding handles_ok_def by blast
  then have "finite {y. hs_vars st' y \<noteq> None}"
    by (rule finite_subset [rotated]) (simp add: assms(2), blast)
  then show ?thesis using assms(3) by (simp add: handles_ok_def)
qed

lemma handles_ok_same_vars:
  assumes "handles_ok st" and "hs_vars st' = hs_vars st" and "\<And>a. counted st' a"
  shows "handles_ok st'"
  using assms by (simp add: handles_ok_def)

lemma card_holders_add: "finite {v. vars v \<noteq> None} \<Longrightarrow> vars v = None \<Longrightarrow>
  card (holders (vars(v := Some (Some a))) x) = card (holders vars x) + (if x = a then 1 else 0)"
proof -
  assume f: "finite {v. vars v \<noteq> None}" and v: "vars v = None"
  have "v \<notin> holders vars x" using v by (simp add: holders_def)
  then show ?thesis using finite_holders [OF f, of x] by (cases "x = a") (simp_all add: holders_upd)
qed

lemma card_holders_drop:
  assumes "finite {v. vars v \<noteq> None}"
  shows "card (holders vars x) = card (holders (vars(v := None)) x) + (if vars v = Some (Some x) then 1 else 0)"
proof (cases "v \<in> holders vars x")
  case True
  then show ?thesis using card_Suc_Diff1 [OF finite_holders [OF assms] True] by (simp add: holders_upd) (simp add: holders_def)
next
  case False
  then show ?thesis by (simp add: holders_upd) (simp add: holders_def)
qed

lemma SendBuffer_Alloc_ok:
  assumes ok: "handles_ok st" and v: "hs_vars st v = None" and a: "owned st a = 0"
  shows "handles_ok (SendBuffer_Alloc v a st)"
proof (rule handles_ok_upd [OF ok])
  show "hs_vars (SendBuffer_Alloc v a st) = (hs_vars st)(v := Some (Some a))"
    by (simp add: SendBuffer_Alloc_def CSendBuffer_Alloc_def)
  fix x
  have fin: "finite {v. hs_vars st v \<noteq> None}" using ok unfolding handles_ok_def by blast
  have o: "owned (SendBuffer_Alloc v a st) x = owned st x + (if x = a then 1 else 0)"
    using card_holders_add [of "hs_vars st" v a x] fin v by (simp add: owned_def SendBuffer_Alloc_def CSendBuffer_Alloc_def)
  show "counted (SendBuffer_Alloc v a st) x"
    using handles_okD(1) [OF ok, of x] a o
    by (cases "x = a") (simp_all add: counted_def SendBuffer_Alloc_def CSendBuffer_Alloc_def h_IncreaseRef_def sb_IncreaseRef_def sb_Clear_def)
qed

lemma SendBuffer_copy_ok:
  assumes ok: "handles_ok st" and v: "hs_vars st v = None" and few: "\<forall>a. owned st a < 2 ^ 31 - 1" and c: "SendBuffer_copy v w st = Inr st'"
  shows "handles_ok st'"
proof -
  have fin: "finite {v. hs_vars st v \<noteq> None}" using ok unfolding handles_ok_def by blast
  obtain a where a: "hs_vars st w = Some (Some a)" and st': "st' = h_IncreaseRef a (st\<lparr>hs_vars := (hs_vars st)(v := Some (Some a))\<rparr>)"
    using c by (auto simp: SendBuffer_copy_def split: option.splits)
  have o: "owned st' x = owned st x + (if x = a then 1 else 0)" for x
    using card_holders_add [of "hs_vars st" v a x] fin v by (simp add: owned_def st')
  have "w \<in> holders (hs_vars st) a" using a by (simp add: holders_def)
  then have pos: "0 < owned st a" using handles_okD(2) [OF ok, of a] by (auto simp: owned_def card_gt_0_iff)
  show ?thesis
  proof (rule handles_ok_upd [OF ok])
    show "hs_vars st' = (hs_vars st)(v := Some (Some a))" by (simp add: st')
    show "counted st' x" for x
    proof (cases "x = a")
      case True
      then show ?thesis
        using counted_gain [OF handles_okD(1) [OF ok], of st' a] o [of a] few pos by (simp add: st' h_IncreaseRef_def)
    next
      case False
      then show ?thesis
        using counted_same [OF handles_okD(1) [OF ok], of st' x] o [of x] by (simp add: st' h_IncreaseRef_def)
    qed
  qed
qed

lemma SendBuffer_destroy_ok:
  assumes ok: "handles_ok st"
  shows "handles_ok (SendBuffer_destroy v st)"
proof (rule handles_ok_upd [OF ok])
  show "hs_vars (SendBuffer_destroy v st) = (hs_vars st)(v := None)"
    by (simp add: SendBuffer_destroy_def Let_def split: option.splits)
  fix x
  have fin: "finite {v. hs_vars st v \<noteq> None}" using ok unfolding handles_ok_def by blast
  have o: "owned st x = owned (SendBuffer_destroy v st) x + (if hs_vars st v = Some (Some x) then 1 else 0)"
    using card_holders_drop [OF fin, of x v] by (simp add: owned_def SendBuffer_destroy_def Let_def split: option.splits)
  show "counted (SendBuffer_destroy v st) x"
  proof (cases "hs_vars st v = Some (Some x)")
    case True
    then show ?thesis
      using counted_lose [OF handles_okD(1) [OF ok], of "SendBuffer_destroy v st" x] o by (simp add: SendBuffer_destroy_def)
  next
    case False
    then show ?thesis
      using counted_same [OF handles_okD(1) [OF ok], of "SendBuffer_destroy v st" x] o
      by (simp add: SendBuffer_destroy_def h_Release_other split: option.splits)
  qed
qed

lemma SendBuffer_move_ok:
  assumes ok: "handles_ok st" and v: "hs_vars st v = None"
  shows "handles_ok (SendBuffer_move v w st)"
proof -
  have "handles_ok (st\<lparr>hs_vars := (hs_vars st)(v := Some None)\<rparr>)"
  proof (rule handles_ok_upd [OF ok])
    show "counted (st\<lparr>hs_vars := (hs_vars st)(v := Some None)\<rparr>) x" for x
    proof -
      have "v \<notin> holders (hs_vars st) x" using v by (simp add: holders_def)
      then show ?thesis using handles_okD(1) [OF ok, of x] by (simp add: counted_def owned_def holders_upd)
    qed
  qed simp
  then show ?thesis unfolding SendBuffer_move_def by (rule SendBuffer_swap_ok)
qed

text \<open>Writing keeps the reference count, and so does every write through a handle.\<close>

lemma sb_append_refCount: "sb_append b bs = Inr b' \<Longrightarrow> sb_refCount b' = sb_refCount b"
  by (auto simp: sb_append_def Let_def split: if_splits)

lemma sb_write_refCount:
  "sb_push b bs = Inr b' \<Longrightarrow> sb_refCount b' = sb_refCount b"
  "sb_SetWstr b arr n = Inr b' \<Longrightarrow> sb_refCount b' = sb_refCount b"
  "sb_SetCstr b bs n = Inr b' \<Longrightarrow> sb_refCount b' = sb_refCount b"
  by (auto simp: sb_push_def sb_SetWstr_def sb_SetCstr_def dest: sb_append_refCount)

lemma with_buffer_ok:
  assumes ok: "handles_ok st" and w: "with_buffer v f st = Inr st'"
    and "\<And>b b'. f b = Inr b' \<Longrightarrow> sb_refCount b' = sb_refCount b"
  shows "handles_ok st'"
proof (rule handles_ok_same_vars [OF ok])
  show "hs_vars st' = hs_vars st" using w by (auto simp: with_buffer_def split: option.splits)
  show "counted st' a" for a
    using handles_okD(1) [OF ok, of a] w assms(3) by (auto simp: with_buffer_def counted_def owned_def split: option.splits)
qed

lemma share_ok:
  assumes ok: "handles_ok st" and "0 < owned st a" and "owned st a < 2 ^ 31 - 1"
  shows "handles_ok ((h_IncreaseRef a st)\<lparr>hs_others := (hs_others st)(a := hs_others st a + 1)\<rparr>)" (is "handles_ok ?st")
proof (rule handles_ok_same_vars [OF ok])
  show "hs_vars ?st = hs_vars st" by simp
  fix x
  show "counted ?st x"
    using counted_gain [OF handles_okD(1) [OF ok], of ?st a] counted_same [OF handles_okD(1) [OF ok], of ?st x] assms(2,3)
    by (cases "x = a") (simp_all add: owned_def h_IncreaseRef_def)
qed

lemma unshare_ok:
  assumes ok: "handles_ok st" and "0 < hs_others st a"
  shows "handles_ok ((h_Release a st)\<lparr>hs_others := (hs_others st)(a := hs_others st a - 1)\<rparr>)" (is "handles_ok ?st")
proof (rule handles_ok_same_vars [OF ok])
  show "hs_vars ?st = hs_vars st" by simp
  fix x
  show "counted ?st x"
    using counted_lose [OF handles_okD(1) [OF ok], of ?st a] counted_same [OF handles_okD(1) [OF ok], of ?st x] assms(2)
    by (cases "x = a") (simp_all add: owned_def h_Release_other)
qed

lemma handle_step_ok:
  assumes "handle_step st st'" and "handles_ok st"
  shows "handles_ok st'"
  using assms
proof cases
  case (push v bs)
  then show ?thesis using with_buffer_ok [OF assms(2)] sb_write_refCount(1) unfolding SendBuffer_push_def by blast
next
  case (write_wide v arr n)
  then show ?thesis using with_buffer_ok [OF assms(2)] sb_write_refCount(2) unfolding SendBuffer_SetWstr_def by blast
next
  case (write_bytes v bs n)
  then show ?thesis using with_buffer_ok [OF assms(2)] sb_write_refCount(3) unfolding SendBuffer_SetCstr_def by blast
next
  case (assign v t)
  then show ?thesis unfolding SendBuffer_assign_def using SendBuffer_destroy_ok SendBuffer_swap_ok assms(2) by blast
qed (use assms(2) in \<open>blast intro: SendBuffer_Alloc_ok SendBuffer_copy_ok SendBuffer_move_ok SendBuffer_swap_ok SendBuffer_destroy_ok share_ok unshare_ok\<close>)+

subsection \<open>Properties\<close>

text \<open>
  C37. However handles are made, copied, moved, swapped, assigned, written through and destroyed, and references handed
  to the sessions and taken back, the reference count of every buffer is the number of its owners, and
  the pool has got the buffer back exactly as often as it gave it out when it has no owner and once
  less while it has one: no buffer leaks, none is freed twice or while it is owned.
\<close>

theorem handles_own_buffers:
  assumes "handle_step\<^sup>*\<^sup>* st st'" and "handles_ok st"
  shows "sb_refCount (hs_bufs st' a) = of_nat (owned st' a) \<and>
    count_list (hs_alloced st') a = count_list (hs_freed st') a + (if owned st' a = 0 then 0 else 1)"
proof -
  have "handles_ok st'" using assms by (induction rule: rtranclp_induct) (auto intro: handle_step_ok)
  then show ?thesis by (simp add: handles_ok_def counted_def)
qed

definition no_handles :: handles where
  "no_handles = \<lparr>hs_bufs = (\<lambda>_. new_CSendBuffer (replicate 2053 0)), hs_vars = (\<lambda>_. None), hs_alloced = [], hs_freed = [],
     hs_others = (\<lambda>_. 0)\<rparr>"

lemma no_handles_ok: "handles_ok no_handles" "owned no_handles a = 0"
  by (simp_all add: no_handles_def handles_ok_def counted_def owned_def holders_def new_CSendBuffer_def)

theorem handles_own_buffers_witness:
  "\<exists>st'. handle_step\<^sup>*\<^sup>* no_handles st' \<and> owned st' 5 = 0 \<and> count_list (hs_freed st') 5 = 1"
proof -
  let ?s1 = "SendBuffer_Alloc 0 5 no_handles"
  let ?s2 = "SendBuffer_move 2 0 ?s1"
  let ?s3 = "SendBuffer_destroy 2 ?s2"
  have v: "hs_vars no_handles = (\<lambda>_. None)" by (simp add: no_handles_def)
  have v1: "hs_vars ?s1 = (\<lambda>_. None)(0 := Some (Some 5))"
    by (simp add: SendBuffer_Alloc_def CSendBuffer_Alloc_def Let_def v)
  have v2: "hs_vars ?s2 = (\<lambda>_. None)(0 := Some None, 2 := Some (Some 5))"
    by (auto simp: SendBuffer_move_def SendBuffer_swap_def v1)
  have "handle_step no_handles ?s1" "handle_step ?s1 ?s2" "handle_step ?s2 ?s3"
    using no_handles_ok(2) by (auto simp: v v1 v2 intro!: handle_step.alloc handle_step.move handle_step.destroy)
  then have run: "handle_step\<^sup>*\<^sup>* no_handles ?s3" by (blast intro: r_into_rtranclp rtranclp.rtrancl_into_rtrancl)
  have "holders (hs_vars ?s3) 5 = {}" "hs_others ?s3 5 = 0" "count_list (hs_alloced ?s3) 5 = 1"
    by (simp_all add: SendBuffer_destroy_def Let_def v2 holders_def SendBuffer_move_def SendBuffer_swap_def SendBuffer_Alloc_def
        CSendBuffer_Alloc_def no_handles_def split: option.splits)
  then show ?thesis using handles_own_buffers [OF run no_handles_ok(1), of 5] run by (auto simp: owned_def)
qed

end
