(* ===== verification/Queue_Threads.thy ===== *)
theory Queue_Threads
  imports Fixed_Queue
begin

section \<open>LockFreeFixedQueue with concurrent producers\<close>

text \<open>
  The calls of \<^verbatim>\<open>LockFreeFixedQueue\<close> (\<^verbatim>\<open>include/LockFreeFixedQueue.h\<close>) broken into their atomic accesses: any number
  of producers enqueue while one consumer dequeues, as the send queue of a session (the thread that set
  \<^verbatim>\<open>_isSending\<close>) and the job queue of a group (the thread that set \<^verbatim>\<open>_isRun\<close>) are used. The
  state carries two histories: the data in the order of the tickets (\<^verbatim>\<open>fetch_add\<close>) and what the consumer returned.
\<close>

subsection \<open>Threads\<close>

datatype 'a producer = PIdle | PTicket i32 'a | PChecked i32 'a | PWritten i32 'a | PRefused | PBroken

datatype 'a consumer = CIdle | CHead i32 | CSeen i32 | CTaken i32 | CRead i32 'a | CBroken

record 'a fq_run =
  fr_q :: "'a LockFreeFixedQueue"
  fr_prod :: "nat \<Rightarrow> 'a producer"
  fr_cons :: "'a consumer"
  fr_log :: "'a list"
  fr_out :: "'a list"

definition used :: "'a LockFreeFixedQueue \<Rightarrow> i32 \<Rightarrow> bool" where
  "used q w = fst (fq_buffer q ! fq_slot q w)"

definition stored :: "'a LockFreeFixedQueue \<Rightarrow> i32 \<Rightarrow> 'a" where
  "stored q w = snd (fq_buffer q ! fq_slot q w)"

definition set_used :: "bool \<Rightarrow> i32 \<Rightarrow> 'a LockFreeFixedQueue \<Rightarrow> 'a LockFreeFixedQueue" where
  "set_used b w q = q\<lparr>fq_buffer := (fq_buffer q)[fq_slot q w := (b, stored q w)]\<rparr>"

definition set_stored :: "'a \<Rightarrow> i32 \<Rightarrow> 'a LockFreeFixedQueue \<Rightarrow> 'a LockFreeFixedQueue" where
  "set_stored x w q = q\<lparr>fq_buffer := (fq_buffer q)[fq_slot q w := (used q w, x)]\<rparr>"

abbreviation pgoto :: "nat \<Rightarrow> 'a producer \<Rightarrow> 'a fq_run \<Rightarrow> 'a fq_run" where
  "pgoto t p s \<equiv> s\<lparr>fr_prod := (fr_prod s)(t := p)\<rparr>"

abbreviation on_q :: "('a LockFreeFixedQueue \<Rightarrow> 'a LockFreeFixedQueue) \<Rightarrow> 'a fq_run \<Rightarrow> 'a fq_run" where
  "on_q f s \<equiv> s\<lparr>fr_q := f (fr_q s)\<rparr>"

text \<open>
  A producer takes a ticket only while fewer elements are in the queue or on their way into it than the queue has slots; what
  happens otherwise is the subject of \<open>Fixed_Queue\<close>. A refused call and the two \<^verbatim>\<open>__debugbreak\<close> are states of their own.
\<close>

inductive fq_step :: "'a fq_run \<Rightarrow> 'a fq_run \<Rightarrow> bool" where
  fetch: "fr_prod s t = PIdle \<Longrightarrow> length (fr_log s) < length (fr_out s) + fq_cap (fr_q s) \<Longrightarrow>
    fq_step s ((pgoto t (PTicket (fq_tailIndex (fr_q s)) x) (on_q (fq_tailIndex_update (\<lambda>i. i + 1)) s))\<lparr>fr_log := fr_log s @ [x]\<rparr>)"
| check_free: "fr_prod s t = PTicket w x \<Longrightarrow> \<not> used (fr_q s) w \<Longrightarrow> fq_step s (pgoto t (PChecked w x) s)"
| check_used: "fr_prod s t = PTicket w x \<Longrightarrow> used (fr_q s) w \<Longrightarrow> fq_step s (pgoto t PRefused s)"
| store: "fr_prod s t = PChecked w x \<Longrightarrow> fq_step s (pgoto t (PWritten w x) (on_q (set_stored x w) s))"
| publish: "fr_prod s t = PWritten w x \<Longrightarrow> \<not> used (fr_q s) w \<Longrightarrow> fq_step s (pgoto t PIdle (on_q (set_used True w) s))"
| publish_break: "fr_prod s t = PWritten w x \<Longrightarrow> used (fr_q s) w \<Longrightarrow> fq_step s (pgoto t PBroken s)"
| load_head: "fr_cons s = CIdle \<Longrightarrow> fq_step s (s\<lparr>fr_cons := CHead (fq_headIndex (fr_q s))\<rparr>)"
| empty: "fr_cons s = CHead w \<Longrightarrow> \<not> used (fr_q s) w \<Longrightarrow> fq_step s (s\<lparr>fr_cons := CIdle\<rparr>)"
| seen: "fr_cons s = CHead w \<Longrightarrow> used (fr_q s) w \<Longrightarrow> fq_step s (s\<lparr>fr_cons := CSeen w\<rparr>)"
| cas: "fr_cons s = CSeen w \<Longrightarrow> fq_headIndex (fr_q s) = w \<Longrightarrow>
    fq_step s ((on_q (fq_headIndex_update (\<lambda>_. w + 1)) s)\<lparr>fr_cons := CTaken w\<rparr>)"
| cas_failed: "fr_cons s = CSeen w \<Longrightarrow> fq_headIndex (fr_q s) \<noteq> w \<Longrightarrow> fq_step s (s\<lparr>fr_cons := CIdle\<rparr>)"
| read: "fr_cons s = CTaken w \<Longrightarrow> fq_step s (s\<lparr>fr_cons := CRead w (stored (fr_q s) w)\<rparr>)"
| clear: "fr_cons s = CRead w x \<Longrightarrow> used (fr_q s) w \<Longrightarrow>
    fq_step s ((on_q (set_used False w) s)\<lparr>fr_cons := CIdle, fr_out := fr_out s @ [x]\<rparr>)"
| clear_break: "fr_cons s = CRead w x \<Longrightarrow> \<not> used (fr_q s) w \<Longrightarrow> fq_step s (s\<lparr>fr_cons := CBroken\<rparr>)"

definition fr_new :: "nat \<Rightarrow> 'a \<Rightarrow> 'a fq_run" where
  "fr_new n d = \<lparr>fr_q = fq_new n d, fr_prod = (\<lambda>_. PIdle), fr_cons = CIdle, fr_log = [], fr_out = []\<rparr>"

subsection \<open>Tickets and slots\<close>

text \<open>
  Ticket \<open>n\<close> is the \<open>n\<close>-th call of \<^verbatim>\<open>fetch_add\<close>; its 32-bit word wraps. Within one window of the queue's size different
  tickets have different words and different slots.
\<close>

lemma slot_ticket: "fq_wf q \<Longrightarrow> fq_slot q (of_nat n) = n mod fq_cap q"
  using masked_add [of "fq_cap q" "0 :: i32" n] by (simp add: fq_slot_masked fq_wf_def masked_def)

lemma window_slot:
  fixes n m c k :: nat
  assumes "c \<le> n" and "n < c + k" and "c \<le> m" and "m < c + k" and "n mod k = m mod k"
  shows "n = m"
proof -
  have "(c + (n - c)) mod k = (c + (m - c)) mod k" using assms by simp
  moreover have "n - c < k" "m - c < k" using assms by linarith+
  ultimately have "n - c = m - c" by (rule mod_add_cancel_lt [rotated 2])
  then show ?thesis using assms by linarith
qed

lemma window_word:
  assumes "pow2 k" and "c \<le> n" and "n < c + k" and "c \<le> m" and "m < c + k" and "(of_nat n :: i32) = of_nat m"
  shows "n = m"
proof -
  have "masked (of_nat n :: i32) k = masked (of_nat m :: i32) k" using assms(6) by simp
  then have "n mod k = m mod k"
    using masked_add [OF assms(1), of "0 :: i32"] by (simp add: masked_def)
  from window_slot [OF assms(2-5) this] show ?thesis .
qed

subsection \<open>The invariant\<close>

fun hold :: "'a producer \<Rightarrow> (i32 \<times> 'a) option" where
  "hold (PTicket w x) = Some (w, x)"
| "hold (PChecked w x) = Some (w, x)"
| "hold (PWritten w x) = Some (w, x)"
| "hold _ = None"

fun taken :: "'a consumer \<Rightarrow> nat" where
  "taken (CTaken w) = 1"
| "taken (CRead w x) = 1"
| "taken _ = 0"

definition outs :: "'a fq_run \<Rightarrow> nat" where
  "outs s = length (fr_out s)"

definition heads :: "'a fq_run \<Rightarrow> nat" where
  "heads s = outs s + taken (fr_cons s)"

definition tails :: "'a fq_run \<Rightarrow> nat" where
  "tails s = length (fr_log s)"

text \<open>A ticket between head and tail belongs to exactly one producer that has not published it, or its slot is in use.\<close>

definition owner :: "'a fq_run \<Rightarrow> nat \<Rightarrow> nat \<Rightarrow> bool" where
  "owner s t n \<longleftrightarrow> hold (fr_prod s t) = Some (of_nat n, fr_log s ! n)"

definition filled :: "'a fq_run \<Rightarrow> nat \<Rightarrow> bool" where
  "filled s n \<longleftrightarrow> used (fr_q s) (of_nat n) \<and> stored (fr_q s) (of_nat n) = fr_log s ! n"

definition producers_ok :: "'a fq_run \<Rightarrow> bool" where
  "producers_ok s \<longleftrightarrow> (\<forall>t. fr_prod s t = PIdle \<or> (\<exists>n. heads s \<le> n \<and> n < tails s \<and> owner s t n \<and> \<not> used (fr_q s) (of_nat n) \<and>
       (\<forall>w x. fr_prod s t = PWritten w x \<longrightarrow> stored (fr_q s) w = x)))"

definition tickets_ok :: "'a fq_run \<Rightarrow> bool" where
  "tickets_ok s \<longleftrightarrow>
     (\<forall>n t u. outs s \<le> n \<longrightarrow> n < tails s \<longrightarrow> owner s t n \<longrightarrow> owner s u n \<longrightarrow> t = u) \<and>
     (\<forall>n. heads s \<le> n \<longrightarrow> n < tails s \<longrightarrow> (\<exists>t. owner s t n) \<or> filled s n) \<and>
     (\<forall>k < fq_cap (fr_q s). (\<forall>n. outs s \<le> n \<longrightarrow> n < tails s \<longrightarrow> n mod fq_cap (fr_q s) \<noteq> k) \<longrightarrow> \<not> fst (fq_buffer (fr_q s) ! k))"

fun consumer_ok :: "'a fq_run \<Rightarrow> 'a consumer \<Rightarrow> bool" where
  "consumer_ok s CIdle = True"
| "consumer_ok s (CHead w) = (w = of_nat (outs s))"
| "consumer_ok s (CSeen w) = (w = of_nat (outs s) \<and> outs s < tails s \<and> filled s (outs s))"
| "consumer_ok s (CTaken w) = (w = of_nat (outs s) \<and> outs s < tails s \<and> filled s (outs s))"
| "consumer_ok s (CRead w x) = (w = of_nat (outs s) \<and> outs s < tails s \<and> filled s (outs s) \<and> x = fr_log s ! outs s)"
| "consumer_ok s CBroken = False"

definition run_ok :: "'a fq_run \<Rightarrow> bool" where
  "run_ok s \<longleftrightarrow> fq_wf (fr_q s) \<and> fq_headIndex (fr_q s) = of_nat (heads s) \<and> fq_tailIndex (fr_q s) = of_nat (tails s) \<and>
     heads s \<le> tails s \<and> tails s \<le> outs s + fq_cap (fr_q s) \<and> fr_out s = take (outs s) (fr_log s) \<and>
     producers_ok s \<and> tickets_ok s \<and> consumer_ok s (fr_cons s)"

lemma run_ok_new: "pow2 n \<Longrightarrow> run_ok (fr_new n d)"
  by (simp add: run_ok_def fr_new_def fq_new_def fq_wf_def fq_cap_def heads_def outs_def tails_def producers_ok_def tickets_ok_def)

subsection \<open>Reading and writing slots\<close>

lemma slot_in_range: "fq_wf q \<Longrightarrow> fq_slot q w < length (fq_buffer q)"
  using fq_slot_less [of q w] by (simp add: fq_cap_def)

lemma run_sel [simp]:
  "outs (s\<lparr>fr_cons := c\<rparr>) = outs s" "outs (s\<lparr>fr_prod := ps\<rparr>) = outs s" "outs (s\<lparr>fr_q := q\<rparr>) = outs s"
  "tails (s\<lparr>fr_cons := c\<rparr>) = tails s" "tails (s\<lparr>fr_prod := ps\<rparr>) = tails s" "tails (s\<lparr>fr_q := q\<rparr>) = tails s"
  "heads (s\<lparr>fr_prod := ps\<rparr>) = heads s" "heads (s\<lparr>fr_q := q\<rparr>) = heads s"
  "filled (s\<lparr>fr_cons := c\<rparr>) = filled s" "filled (s\<lparr>fr_prod := ps\<rparr>) = filled s"
  "owner (s\<lparr>fr_cons := c\<rparr>) = owner s" "owner (s\<lparr>fr_q := q\<rparr>) = owner s"
  by (auto simp: outs_def tails_def heads_def filled_def owner_def fun_eq_iff)

lemma write_sel [simp]:
  "fq_wf (set_used b w q) = fq_wf q" "fq_wf (set_stored x w q) = fq_wf q"
  "fq_cap (set_used b w q) = fq_cap q" "fq_cap (set_stored x w q) = fq_cap q"
  "fq_headIndex (set_used b w q) = fq_headIndex q" "fq_headIndex (set_stored x w q) = fq_headIndex q"
  "fq_tailIndex (set_used b w q) = fq_tailIndex q" "fq_tailIndex (set_stored x w q) = fq_tailIndex q"
  by (simp_all add: set_used_def set_stored_def fq_wf_def fq_cap_def)

lemma index_sel [simp]:
  "fq_wf (fq_tailIndex_update f q) = fq_wf q" "fq_wf (fq_headIndex_update f q) = fq_wf q"
  "fq_cap (fq_tailIndex_update f q) = fq_cap q" "fq_cap (fq_headIndex_update f q) = fq_cap q"
  "used (fq_tailIndex_update f q) w = used q w" "used (fq_headIndex_update f q) w = used q w"
  "stored (fq_tailIndex_update f q) w = stored q w" "stored (fq_headIndex_update f q) w = stored q w"
  by (simp_all add: fq_wf_def fq_cap_def used_def stored_def fq_slot_def)

lemma write_slots:
  assumes "fq_wf q"
  shows "used (set_used b w q) v = (if fq_slot q v = fq_slot q w then b else used q v)"
    and "stored (set_used b w q) v = stored q v"
    and "used (set_stored x w q) v = used q v"
    and "stored (set_stored x w q) v = (if fq_slot q v = fq_slot q w then x else stored q v)"
proof -
  have slot: "fq_slot (q\<lparr>fq_buffer := bs\<rparr>) v = fq_slot q v" for bs by (simp add: fq_slot_def)
  note len = slot_in_range [OF assms, of w]
  show "used (set_used b w q) v = (if fq_slot q v = fq_slot q w then b else used q v)"
    using len by (simp add: used_def set_used_def slot)
  show "stored (set_used b w q) v = stored q v"
    using len by (cases "fq_slot q v = fq_slot q w") (simp_all add: stored_def set_used_def slot)
  show "used (set_stored x w q) v = used q v"
    using len by (cases "fq_slot q v = fq_slot q w") (simp_all add: used_def set_stored_def slot)
  show "stored (set_stored x w q) v = (if fq_slot q v = fq_slot q w then x else stored q v)"
    using len by (simp add: stored_def set_stored_def slot)
qed

lemma write_flags:
  assumes "k < fq_cap q"
  shows "fst (fq_buffer (set_stored x w q) ! k) = fst (fq_buffer q ! k)"
    and "fst (fq_buffer (set_used b w q) ! k) = (if k = fq_slot q w then b else fst (fq_buffer q ! k))"
  using assms by (cases "k = fq_slot q w"; simp add: set_stored_def set_used_def used_def fq_cap_def)+

lemma write_same [simp]:
  assumes "fq_wf q"
  shows "used (set_used b w q) w = b" "stored (set_stored x w q) w = x"
  by (simp_all add: write_slots [OF assms])

lemma other_slot:
  assumes "fq_wf q" and "c \<le> n" and "n < c + fq_cap q" and "c \<le> m" and "m < c + fq_cap q" and "n \<noteq> m"
  shows "fq_slot q (of_nat n) \<noteq> fq_slot q (of_nat m)"
  using window_slot [of c n "fq_cap q" m] assms by (auto simp: slot_ticket)

subsection \<open>Every step keeps the invariant\<close>

lemma run_okD:
  assumes "run_ok s"
  shows "fq_wf (fr_q s)" "fq_headIndex (fr_q s) = of_nat (heads s)" "fq_tailIndex (fr_q s) = of_nat (tails s)"
    "heads s \<le> tails s" "tails s \<le> outs s + fq_cap (fr_q s)" "fr_out s = take (outs s) (fr_log s)"
    "producers_ok s" "tickets_ok s" "consumer_ok s (fr_cons s)" "outs s \<le> heads s" "pow2 (fq_cap (fr_q s))"
  using assms by (simp_all add: run_ok_def heads_def fq_wf_def)

lemma producer_ticket:
  assumes "run_ok s" and "hold (fr_prod s t) = Some (w, x)"
  obtains n where "heads s \<le> n" "n < tails s" "w = of_nat n" "x = fr_log s ! n" "owner s t n" "\<not> used (fr_q s) w"
    "\<And>v y. fr_prod s t = PWritten v y \<Longrightarrow> stored (fr_q s) w = x"
proof -
  have "fr_prod s t \<noteq> PIdle" using assms(2) by auto
  then obtain n where n: "heads s \<le> n" "n < tails s" "owner s t n" "\<not> used (fr_q s) (of_nat n)"
    "\<And>w x. fr_prod s t = PWritten w x \<Longrightarrow> stored (fr_q s) w = x"
    using run_okD(7) [OF assms(1)] unfolding producers_ok_def by blast
  have wx: "w = of_nat n" "x = fr_log s ! n" using n(3) assms(2) by (auto simp: owner_def)
  have "stored (fr_q s) w = x" if "fr_prod s t = PWritten v y" for v y using n(5) [OF that] that assms(2) by simp
  then show ?thesis using that n wx by blast
qed

lemma consumer_ok_keep:
  assumes "consumer_ok s c" and "outs s' = outs s" and "tails s \<le> tails s'"
    and "outs s < tails s \<Longrightarrow> filled s (outs s) \<Longrightarrow> filled s' (outs s)"
    and "outs s < tails s \<Longrightarrow> fr_log s' ! outs s = fr_log s ! outs s"
  shows "consumer_ok s' c"
  using assms by (cases c) auto

text \<open>Steps that change no slot and no ticket: a producer that keeps its ticket, a consumer that keeps its head.\<close>

lemma run_ok_producer:
  assumes "run_ok s" and "hold p = hold (fr_prod s t)" and "hold p \<noteq> None"
    and "\<And>w x. p = PWritten w x \<Longrightarrow> stored (fr_q s) w = x"
  shows "run_ok (pgoto t p s)"
proof -
  let ?s = "pgoto t p s"
  have own: "owner ?s u n = owner s u n" for u n using assms(2) by (simp add: owner_def)
  have "fr_prod s t \<noteq> PIdle" using assms(2,3) by auto
  then have "producers_ok ?s"
    using run_okD(7) [OF assms(1)] assms(4) unfolding producers_ok_def own by (auto split: if_splits)
  moreover have "tickets_ok ?s" using run_okD(8) [OF assms(1)] unfolding tickets_ok_def own by simp
  moreover have "consumer_ok ?s c = consumer_ok s c" for c by (cases c) simp_all
  ultimately show ?thesis using run_okD [OF assms(1)] by (simp add: run_ok_def)
qed

lemma run_ok_consumer:
  assumes "run_ok s" and "taken c = taken (fr_cons s)" and "consumer_ok s c"
  shows "run_ok (s\<lparr>fr_cons := c\<rparr>)"
proof -
  let ?s = "s\<lparr>fr_cons := c\<rparr>"
  have "heads ?s = heads s" using assms(2) by (simp add: heads_def)
  moreover have "consumer_ok ?s c = consumer_ok s c" by (cases c) simp_all
  ultimately show ?thesis
    using run_okD [OF assms(1)] assms(3) by (simp add: run_ok_def producers_ok_def tickets_ok_def)
qed

text \<open>Tickets in the window: different slots, different words.\<close>

lemma window_distinct:
  assumes "run_ok s" and "outs s \<le> n" and "n < outs s + fq_cap (fr_q s)" and "outs s \<le> m" and "m < outs s + fq_cap (fr_q s)" and "n \<noteq> m"
  shows "fq_slot (fr_q s) (of_nat n) \<noteq> fq_slot (fr_q s) (of_nat m)" and "(of_nat n :: i32) \<noteq> of_nat m"
  using other_slot [OF run_okD(1) [OF assms(1)] assms(2-6)] window_word [OF run_okD(11) [OF assms(1)] assms(2-5)] assms(6) by auto

lemma free_beyond:
  assumes "run_ok s" and "tails s < outs s + fq_cap (fr_q s)"
  shows "\<not> used (fr_q s) (of_nat (tails s))"
proof -
  let ?k = "tails s mod fq_cap (fr_q s)"
  have "n mod fq_cap (fr_q s) \<noteq> ?k" if "outs s \<le> n" "n < tails s" for n
    using window_slot [of "outs s" n "fq_cap (fr_q s)" "tails s"] that assms(2) by fastforce
  moreover have "?k < fq_cap (fr_q s)" using run_okD(11) [OF assms(1)] pow2_pos by simp
  ultimately have "\<not> fst (fq_buffer (fr_q s) ! ?k)"
    using run_okD(8) [OF assms(1)] unfolding tickets_ok_def by blast
  then show ?thesis by (simp add: used_def slot_ticket [OF run_okD(1) [OF assms(1)]])
qed

lemma run_ok_fetch:
  assumes ok: "run_ok s" and idle: "fr_prod s t = PIdle" and room: "tails s < outs s + fq_cap (fr_q s)"
  shows "run_ok ((pgoto t (PTicket (fq_tailIndex (fr_q s)) x) (on_q (fq_tailIndex_update (\<lambda>i. i + 1)) s))\<lparr>fr_log := fr_log s @ [x]\<rparr>)"
    (is "run_ok ?s")
proof -
  note D = run_okD [OF ok]
  have sel: "outs ?s = outs s" "heads ?s = heads s" "tails ?s = Suc (tails s)" by (simp_all add: outs_def heads_def tails_def)
  have fill: "filled ?s n = filled s n" if "n < tails s" for n using that by (simp add: filled_def nth_append tails_def)
  have own: "owner ?s u n = owner s u n" if n: "outs s \<le> n" "n < tails s" for u n
  proof -
    have "(of_nat (tails s) :: i32) \<noteq> of_nat n" using window_distinct(2) [OF ok _ room, of n] n room D(4,10) by simp
    then show ?thesis using n idle D(3) by (auto simp: owner_def nth_append tails_def)
  qed
  have new: "owner ?s t (tails s)" using D(3) by (simp add: owner_def nth_append tails_def)
  have sole: "u = t" if "owner ?s u (tails s)" for u
  proof (rule ccontr)
    assume "u \<noteq> t"
    then have "hold (fr_prod s u) = Some (of_nat (tails s), x)" using that by (simp add: owner_def tails_def)
    then obtain n where "heads s \<le> n" "n < tails s" "(of_nat (tails s) :: i32) = of_nat n" by (rule producer_ticket [OF ok])
    then show False using window_distinct(2) [OF ok _ room, of n] room D(4,10) by simp
  qed
  have "producers_ok ?s"
    unfolding producers_ok_def sel
  proof
    fix u
    show "fr_prod ?s u = PIdle \<or> (\<exists>n. heads s \<le> n \<and> n < Suc (tails s) \<and> owner ?s u n \<and> \<not> used (fr_q ?s) (of_nat n) \<and>
       (\<forall>w x. fr_prod ?s u = PWritten w x \<longrightarrow> stored (fr_q ?s) w = x))"
    proof (cases "u = t")
      case True
      then show ?thesis using new free_beyond [OF ok room] D(4) by auto
    next
      case False
      show ?thesis
      proof (cases "fr_prod s u = PIdle")
        case busy: False
        then obtain n where n: "heads s \<le> n" "n < tails s" "owner s u n" "\<not> used (fr_q s) (of_nat n)"
          "\<forall>w x. fr_prod s u = PWritten w x \<longrightarrow> stored (fr_q s) w = x"
          using D(7) unfolding producers_ok_def by blast
        then have "owner ?s u n" using own [of n u] D(10) \<open>u \<noteq> t\<close> by simp
        then show ?thesis using n \<open>u \<noteq> t\<close> by (intro disjI2 exI [of _ n]) simp
      qed (use False in simp)
    qed
  qed
  moreover have "tickets_ok ?s"
    unfolding tickets_ok_def sel
  proof (intro conjI allI impI)
    fix n t1 t2
    assume n: "outs s \<le> n" "n < Suc (tails s)" and o: "owner ?s t1 n" "owner ?s t2 n"
    show "t1 = t2"
    proof (cases "n = tails s")
      case True
      then show ?thesis using sole o by blast
    next
      case False
      then have "n < tails s" using n(2) by simp
      then show ?thesis using D(8) o own [OF n(1)] n(1) unfolding tickets_ok_def by blast
    qed
  next
    fix n
    assume n: "heads s \<le> n" "n < Suc (tails s)"
    show "(\<exists>u. owner ?s u n) \<or> filled ?s n"
    proof (cases "n = tails s")
      case True
      then show ?thesis using new by blast
    next
      case False
      then have "n < tails s" "outs s \<le> n" using n D(10) by simp_all
      then show ?thesis using D(8) own fill n(1) unfolding tickets_ok_def by blast
    qed
  next
    fix k
    assume "k < fq_cap (fr_q ?s)" "\<forall>n\<ge>outs s. n < Suc (tails s) \<longrightarrow> n mod fq_cap (fr_q ?s) \<noteq> k"
    then show "\<not> fst (fq_buffer (fr_q ?s) ! k)" using D(8) unfolding tickets_ok_def by simp
  qed
  moreover have "consumer_ok ?s (fr_cons s)"
  proof (rule consumer_ok_keep [OF D(9) sel(1)])
    show "tails s \<le> tails ?s" unfolding sel by simp
    show "filled ?s (outs s)" if "outs s < tails s" "filled s (outs s)" using fill that by blast
    show "fr_log ?s ! outs s = fr_log s ! outs s" if "outs s < tails s" using that by (simp add: nth_append tails_def)
  qed
  moreover have "fr_out ?s = take (outs ?s) (fr_log ?s)" using D(4,6,10) unfolding sel by (simp add: tails_def)
  ultimately show ?thesis using D room unfolding run_ok_def sel by simp
qed

text \<open>A slot of the window is written; no other ticket of the window notices.\<close>

lemma write_other:
  assumes "run_ok s" and "outs s \<le> n" and "n < tails s" and "outs s \<le> m" and "m < tails s" and "n \<noteq> m"
  shows "used (set_used b (of_nat n) (fr_q s)) (of_nat m) = used (fr_q s) (of_nat m)"
    and "stored (set_stored x (of_nat n) (fr_q s)) (of_nat m) = stored (fr_q s) (of_nat m)"
  using window_distinct(1) [OF assms(1), of m n] assms(2-6) run_okD(5) [OF assms(1)]
  by (simp_all add: write_slots [OF run_okD(1) [OF assms(1)]])

lemma run_ok_store:
  assumes ok: "run_ok s" and p: "fr_prod s t = PChecked w x"
  shows "run_ok (on_q (set_stored x w) s)"
proof -
  let ?s = "on_q (set_stored x w) s"
  note D = run_okD [OF ok]
  obtain n where n: "heads s \<le> n" "n < tails s" "w = of_nat n" "owner s t n" "\<not> used (fr_q s) w"
    using producer_ticket [OF ok, of t w x] p by auto
  have n': "outs s \<le> n" using n(1) D(10) by simp
  have u: "used (fr_q ?s) v = used (fr_q s) v" for v by (simp add: write_slots [OF D(1)])
  have fill: "filled ?s m = filled s m" if "outs s \<le> m" "m < tails s" for m
    using write_other(2) [OF ok n' n(2) that, of x] n(3,5) u by (cases "m = n") (auto simp: filled_def)
  have "producers_ok ?s"
    unfolding producers_ok_def
  proof
    fix v
    show "fr_prod ?s v = PIdle \<or> (\<exists>m. heads ?s \<le> m \<and> m < tails ?s \<and> owner ?s v m \<and> \<not> used (fr_q ?s) (of_nat m) \<and>
       (\<forall>w x. fr_prod ?s v = PWritten w x \<longrightarrow> stored (fr_q ?s) w = x))"
    proof (cases "fr_prod s v = PIdle")
      case False
      then obtain m where m: "heads s \<le> m" "m < tails s" "owner s v m" "\<not> used (fr_q s) (of_nat m)"
        "\<forall>w x. fr_prod s v = PWritten w x \<longrightarrow> stored (fr_q s) w = x"
        using D(7) unfolding producers_ok_def by blast
      have "stored (fr_q ?s) w' = y" if "fr_prod s v = PWritten w' y" for w' y
      proof -
        have "w' = of_nat m" using m(3) that by (simp add: owner_def)
        moreover have "m \<noteq> n" using D(8) m n(2,4) n' p that unfolding tickets_ok_def by (metis producer.distinct(19))
        ultimately show ?thesis using write_other(2) [OF ok n' n(2), of m x] m D(10) that n(3) by simp
      qed
      then show ?thesis using m u by (intro disjI2 exI [of _ m]) simp
    qed simp
  qed
  moreover have "tickets_ok ?s"
    using D(8,10) fill unfolding tickets_ok_def by (simp add: write_flags)
  moreover have "consumer_ok ?s (fr_cons ?s)"
    using D(10) by (simp, intro consumer_ok_keep [OF D(9)]) (simp_all add: fill)
  ultimately show ?thesis using D by (simp add: run_ok_def)
qed

lemma run_ok_publish:
  assumes ok: "run_ok s" and p: "fr_prod s t = PWritten w x"
  shows "run_ok (pgoto t PIdle (on_q (set_used True w) s))"
proof -
  let ?s = "pgoto t PIdle (on_q (set_used True w) s)"
  note D = run_okD [OF ok]
  obtain n where n: "heads s \<le> n" "n < tails s" "w = of_nat n" "x = fr_log s ! n" "owner s t n" "stored (fr_q s) w = x"
    using producer_ticket [OF ok, of t w x] p by (metis hold.simps(3))
  have n': "outs s \<le> n" using n(1) D(10) by simp
  have sel: "heads ?s = heads s" "outs ?s = outs s" "tails ?s = tails s" by simp_all
  have st: "stored (fr_q ?s) v = stored (fr_q s) v" for v by (simp add: write_slots [OF D(1)])
  have us: "used (fr_q ?s) (of_nat m) = used (fr_q s) (of_nat m)" if "outs s \<le> m" "m < tails s" "m \<noteq> n" for m
    using write_other(1) [OF ok n' n(2) that(1,2)] that(3) n(3) by simp
  have new: "filled ?s n" using n(3,4,6) D(1) st by (simp add: filled_def)
  have fill: "filled ?s m" if "outs s \<le> m" "m < tails s" "filled s m" for m
    using new us [OF that(1,2)] that(3) st by (cases "m = n") (simp_all add: filled_def)
  have own: "owner ?s u m = (u \<noteq> t \<and> owner s u m)" for u m by (simp add: owner_def)
  have "producers_ok ?s"
    unfolding producers_ok_def sel
  proof
    fix v
    show "fr_prod ?s v = PIdle \<or> (\<exists>m. heads s \<le> m \<and> m < tails s \<and> owner ?s v m \<and> \<not> used (fr_q ?s) (of_nat m) \<and>
       (\<forall>w x. fr_prod ?s v = PWritten w x \<longrightarrow> stored (fr_q ?s) w = x))"
    proof (cases "v = t \<or> fr_prod s v = PIdle")
      case False
      then obtain m where m: "heads s \<le> m" "m < tails s" "owner s v m" "\<not> used (fr_q s) (of_nat m)"
        "\<forall>w x. fr_prod s v = PWritten w x \<longrightarrow> stored (fr_q s) w = x"
        using D(7) unfolding producers_ok_def by blast
      have "m \<noteq> n" using D(8) m(3) n(2,5) n' False unfolding tickets_ok_def by blast
      then have "\<not> used (fr_q ?s) (of_nat m)" using us [of m] m(1,2,4) D(10) by simp
      moreover have "\<forall>w x. fr_prod ?s v = PWritten w x \<longrightarrow> stored (fr_q ?s) w = x" using m(5) False st by simp
      ultimately show ?thesis using m(1-3) own False by blast
    qed auto
  qed
  moreover have "tickets_ok ?s"
    unfolding tickets_ok_def sel
  proof (intro conjI allI impI)
    fix m u v
    assume "outs s \<le> m" "m < tails s" "owner ?s u m" "owner ?s v m"
    then show "u = v" using D(8) own unfolding tickets_ok_def by blast
  next
    fix m
    assume m: "heads s \<le> m" "m < tails s"
    show "(\<exists>u. owner ?s u m) \<or> filled ?s m"
    proof (cases "m = n")
      case False
      have "(\<exists>u. owner s u m) \<or> filled s m" using D(8) m unfolding tickets_ok_def by blast
      moreover have "u \<noteq> t" if "owner s u m" for u
      proof
        assume "u = t"
        then have "(of_nat m :: i32) = of_nat n" using that n(5) by (simp add: owner_def)
        then show False using window_distinct(2) [OF ok _ _ n' _ False] m n(2) D(5,10) by simp
      qed
      ultimately show ?thesis using own fill [of m] m D(10) by auto
    qed (use new in blast)
  next
    fix k
    assume k: "k < fq_cap (fr_q ?s)" "\<forall>m\<ge>outs s. m < tails s \<longrightarrow> m mod fq_cap (fr_q ?s) \<noteq> k"
    then have "k \<noteq> fq_slot (fr_q s) w" using n' n(2,3) slot_ticket [OF D(1)] by auto
    then show "\<not> fst (fq_buffer (fr_q ?s) ! k)" using k D(8) unfolding tickets_ok_def by (simp add: write_flags)
  qed
  moreover have "consumer_ok ?s (fr_cons s)"
  proof (rule consumer_ok_keep [OF D(9)])
    show "filled ?s (outs s)" if "outs s < tails s" "filled s (outs s)" using fill that by blast
  qed simp_all
  ultimately show ?thesis using D unfolding run_ok_def sel by simp
qed

lemma run_ok_cas:
  assumes ok: "run_ok s" and c: "fr_cons s = CSeen w"
  shows "run_ok ((on_q (fq_headIndex_update (\<lambda>_. w + 1)) s)\<lparr>fr_cons := CTaken w\<rparr>)" (is "run_ok ?s")
proof -
  note D = run_okD [OF ok]
  have w: "w = of_nat (outs s)" "outs s < tails s" "filled s (outs s)" "heads s = outs s"
    using D(9) c by (simp_all add: heads_def)
  have sel: "outs ?s = outs s" "tails ?s = tails s" "heads ?s = Suc (heads s)" using c by (simp_all add: heads_def outs_def tails_def)
  have fill: "filled (on_q (fq_headIndex_update f) s) = filled s" for f by (simp add: filled_def fun_eq_iff)
  have "producers_ok ?s"
    unfolding producers_ok_def sel
  proof
    fix v
    show "fr_prod ?s v = PIdle \<or> (\<exists>m. Suc (heads s) \<le> m \<and> m < tails s \<and> owner ?s v m \<and> \<not> used (fr_q ?s) (of_nat m) \<and>
       (\<forall>w x. fr_prod ?s v = PWritten w x \<longrightarrow> stored (fr_q ?s) w = x))"
    proof (cases "fr_prod s v = PIdle")
      case False
      then obtain m where m: "heads s \<le> m" "m < tails s" "owner s v m" "\<not> used (fr_q s) (of_nat m)"
        "\<forall>w x. fr_prod s v = PWritten w x \<longrightarrow> stored (fr_q s) w = x"
        using D(7) unfolding producers_ok_def by blast
      then have "m \<noteq> heads s" using w(3,4) by (auto simp: filled_def)
      then show ?thesis using m by (intro disjI2 exI [of _ m]) simp
    qed simp
  qed
  moreover have "tickets_ok ?s" using D(8) unfolding tickets_ok_def sel by (simp add: fill)
  ultimately show ?thesis using D w unfolding run_ok_def sel by (simp add: fill)
qed

lemma run_ok_clear:
  assumes ok: "run_ok s" and c: "fr_cons s = CRead w x"
  shows "run_ok ((on_q (set_used False w) s)\<lparr>fr_cons := CIdle, fr_out := fr_out s @ [x]\<rparr>)" (is "run_ok ?s")
proof -
  note D = run_okD [OF ok]
  have w: "w = of_nat (outs s)" "outs s < tails s" "heads s = Suc (outs s)" "x = fr_log s ! outs s"
    using D(9) c by (simp_all add: heads_def)
  have sel: "outs ?s = Suc (outs s)" "tails ?s = tails s" "heads ?s = heads s" using c by (simp_all add: heads_def outs_def tails_def)
  have own: "owner ?s = owner s" by (simp add: owner_def fun_eq_iff)
  have st: "stored (fr_q ?s) v = stored (fr_q s) v" for v by (simp add: write_slots [OF D(1)])
  have us: "used (fr_q ?s) (of_nat m) = used (fr_q s) (of_nat m)" if "Suc (outs s) \<le> m" "m < tails s" for m
    using write_other(1) [OF ok order_refl w(2), of m] that w(1) by simp
  have fill: "filled ?s m = filled s m" if "Suc (outs s) \<le> m" "m < tails s" for m
    using us [OF that] st by (simp add: filled_def)
  have "producers_ok ?s"
    using D(7) us st unfolding producers_ok_def sel own w(3) by simp metis
  moreover have "tickets_ok ?s"
    unfolding tickets_ok_def sel own
  proof (intro conjI allI impI)
    fix n t u
    assume "Suc (outs s) \<le> n" "n < tails s" "owner s t n" "owner s u n"
    then show "t = u" using D(8) unfolding tickets_ok_def by (meson Suc_leD)
  next
    fix n
    assume "heads s \<le> n" "n < tails s"
    then show "(\<exists>t. owner s t n) \<or> filled ?s n" using D(8) fill w(3) unfolding tickets_ok_def by metis
  next
    fix k
    assume k: "k < fq_cap (fr_q ?s)" "\<forall>n\<ge>Suc (outs s). n < tails s \<longrightarrow> n mod fq_cap (fr_q ?s) \<noteq> k"
    show "\<not> fst (fq_buffer (fr_q ?s) ! k)"
    proof (cases "k = fq_slot (fr_q s) w")
      case False
      then have "outs s mod fq_cap (fr_q s) \<noteq> k" using slot_ticket [OF D(1)] w(1) by simp
      moreover have "n mod fq_cap (fr_q s) \<noteq> k" if "Suc (outs s) \<le> n" "n < tails s" for n using k(2) that by simp
      ultimately have "\<forall>n\<ge>outs s. n < tails s \<longrightarrow> n mod fq_cap (fr_q s) \<noteq> k" using not_less_eq_eq order_antisym by blast
      then show ?thesis using D(8) k(1) False unfolding tickets_ok_def by (simp add: write_flags)
    qed (use k(1) in \<open>simp add: write_flags\<close>)
  qed
  moreover have "fr_out ?s = take (outs ?s) (fr_log ?s)"
    using D(6) w(2,4) unfolding sel by (simp add: take_Suc_conv_app_nth tails_def)
  ultimately show ?thesis using D w unfolding run_ok_def sel by simp
qed

lemma fq_step_ok:
  assumes "fq_step s s'" and "run_ok s"
  shows "run_ok s'"
  using assms
proof cases
  case (fetch t x)
  then show ?thesis using run_ok_fetch [OF assms(2)] by (simp add: tails_def outs_def)
next
  case (check_free t w x)
  then show ?thesis using run_ok_producer [OF assms(2), of "PChecked w x" t] by simp
next
  case (check_used t w x)
  then show ?thesis using producer_ticket [OF assms(2), of t w x] by auto
next
  case (store t w x)
  have "run_ok (on_q (set_stored x w) s)" by (rule run_ok_store [OF assms(2) store(2)])
  then show ?thesis
    unfolding store(1) using run_ok_producer [of "on_q (set_stored x w) s" "PWritten w x" t] store(2) run_okD(1) [OF assms(2)] by simp
next
  case (publish t w x)
  then show ?thesis using run_ok_publish [OF assms(2)] by simp
next
  case (publish_break t w x)
  then show ?thesis using producer_ticket [OF assms(2), of t w x] by auto
next
  case load_head
  then show ?thesis using run_ok_consumer [OF assms(2)] run_okD(2) [OF assms(2)] by (simp add: heads_def)
next
  case (empty w)
  then show ?thesis using run_ok_consumer [OF assms(2)] by simp
next
  case (seen w)
  have w: "w = of_nat (outs s)" "heads s = outs s" using run_okD(9) [OF assms(2)] seen(2) by (simp_all add: heads_def)
  have "outs s < tails s \<and> filled s (outs s)"
  proof (cases "outs s < tails s")
    case True
    have "\<not> owner s t (outs s)" for t
    proof
      assume "owner s t (outs s)"
      then have "hold (fr_prod s t) = Some (w, fr_log s ! outs s)" by (simp add: owner_def w(1))
      then show False by (rule producer_ticket [OF assms(2)]) (use seen(3) in blast)
    qed
    then show ?thesis using run_okD(8) [OF assms(2)] True w(2) unfolding tickets_ok_def by (metis order_refl)
  next
    case False
    then have "tails s = outs s" using run_okD(4,10) [OF assms(2)] w(2) by simp
    moreover have "0 < fq_cap (fr_q s)" using run_okD(11) [OF assms(2)] pow2_pos by blast
    ultimately show ?thesis using free_beyond [OF assms(2)] seen(3) w(1) by simp
  qed
  then show ?thesis using run_ok_consumer [OF assms(2), of "CSeen w"] seen w(1) by simp
next
  case (cas w)
  then show ?thesis using run_ok_cas [OF assms(2)] by simp
next
  case (cas_failed w)
  then show ?thesis using run_ok_consumer [OF assms(2)] by simp
next
  case (read w)
  then show ?thesis using run_ok_consumer [OF assms(2)] run_okD(9) [OF assms(2)] by (simp add: filled_def)
next
  case (clear w x)
  then show ?thesis using run_ok_clear [OF assms(2)] by simp
next
  case (clear_break w x)
  then show ?thesis using run_okD(9) [OF assms(2)] by (simp add: filled_def)
qed

lemma fq_steps_ok: "fq_step\<^sup>*\<^sup>* s s' \<Longrightarrow> run_ok s \<Longrightarrow> run_ok s'"
  by (induction rule: rtranclp_induct) (auto intro: fq_step_ok)

text \<open>Between the calls the next \<^verbatim>\<open>Dequeue\<close> returns the oldest element not yet returned.\<close>

lemma rest_dequeue:
  assumes ok: "run_ok s" and idle: "\<forall>t. fr_prod s t = PIdle" and c: "fr_cons s = CIdle"
  shows "\<exists>q. fq_Dequeue (fr_q s) = Inr (if outs s = tails s then None else Some (fr_log s ! outs s), q)"
proof -
  note D = run_okD [OF ok]
  have h: "heads s = outs s" "fq_headIndex (fr_q s) = of_nat (outs s)" using D(2) c by (simp_all add: heads_def)
  show ?thesis
  proof (cases "outs s = tails s")
    case True
    have "0 < fq_cap (fr_q s)" using D(11) pow2_pos by blast
    then have "\<not> used (fr_q s) (of_nat (outs s))" using free_beyond [OF ok] True by simp
    then show ?thesis using True h(2) by (simp add: fq_Dequeue_def used_def Let_def)
  next
    case False
    then have "outs s < tails s" using D(4,10) h(1) by simp
    moreover have "\<not> owner s t n" for t n using idle by (simp add: owner_def)
    ultimately have "filled s (outs s)" using D(8) h(1) unfolding tickets_ok_def by (metis order_refl)
    then show ?thesis using False h(2) by (simp add: filled_def fq_Dequeue_def used_def stored_def Let_def)
  qed
qed

lemma four_steps:
  assumes "fq_step s1 s2" and "fq_step s2 s3" and "fq_step s3 s4" and "fq_step s4 s5"
  shows "fq_step\<^sup>*\<^sup>* s1 s5"
  using assms by (meson converse_rtranclp_into_rtranclp r_into_rtranclp)

lemma producer_sane:
  assumes "run_ok s"
  shows "fr_prod s t \<notin> {PRefused, PBroken}"
proof -
  consider "fr_prod s t = PIdle" | n where "owner s t n" using run_okD(7) [OF assms] unfolding producers_ok_def by blast
  then show ?thesis by cases (auto simp: owner_def)
qed

subsection \<open>Properties\<close>

text \<open>
  C25. The queue with any number of concurrent producers and one consumer: as long as no producer takes a ticket while the
  queue is full, in every interleaving of the atomic accesses the consumer returns the data in ticket
  order, nothing lost, duplicated or torn, no producer is refused, neither \<^verbatim>\<open>__debugbreak\<close> is
  reached, and between the calls the next \<^verbatim>\<open>Dequeue\<close> returns the oldest element. The 32-bit counters may wrap.
\<close>

theorem concurrent_queue_fifo:
  assumes "pow2 n" and "fq_step\<^sup>*\<^sup>* (fr_new n d) s"
  shows "fr_out s = take (length (fr_out s)) (fr_log s) \<and> (\<forall>t. fr_prod s t \<notin> {PRefused, PBroken}) \<and> fr_cons s \<noteq> CBroken \<and>
    ((\<forall>t. fr_prod s t = PIdle) \<and> fr_cons s = CIdle \<longrightarrow>
      (\<exists>q. fq_Dequeue (fr_q s) =
        Inr (if length (fr_out s) = length (fr_log s) then None else Some (fr_log s ! length (fr_out s)), q)))"
proof -
  have ok: "run_ok s" by (rule fq_steps_ok [OF assms(2) run_ok_new [OF assms(1)]])
  have "fr_prod s t \<notin> {PRefused, PBroken}" for t by (rule producer_sane [OF ok])
  moreover have "fr_cons s \<noteq> CBroken" using run_okD(9) [OF ok] by auto
  moreover have "fr_out s = take (length (fr_out s)) (fr_log s)" using run_okD(6) [OF ok] unfolding outs_def .
  ultimately show ?thesis using rest_dequeue [OF ok, unfolded outs_def tails_def] by blast
qed

theorem concurrent_queue_fifo_witness:
  "\<exists>s q. fq_step\<^sup>*\<^sup>* (fr_new 2 (0 :: nat)) s \<and> fr_log s = [5] \<and> fq_Dequeue (fr_q s) = Inr (Some 5, q)"
proof -
  let ?s0 = "fr_new 2 (0 :: nat)"
  let ?s1 = "(pgoto 0 (PTicket (fq_tailIndex (fr_q ?s0)) 5) (on_q (fq_tailIndex_update (\<lambda>i. i + 1)) ?s0))\<lparr>fr_log := fr_log ?s0 @ [5]\<rparr>"
  let ?s2 = "pgoto 0 (PChecked 0 5) ?s1"
  let ?s3 = "pgoto 0 (PWritten 0 5) (on_q (set_stored 5 0) ?s2)"
  let ?s4 = "pgoto 0 PIdle (on_q (set_used True 0) ?s3)"
  have p: "pow2 2" unfolding pow2_def by (rule bexI [of _ 1]) simp_all
  note defs = fr_new_def fq_new_def fq_cap_def used_def fq_slot_def set_stored_def set_used_def
  have st1: "fq_step ?s0 ?s1" by (rule fq_step.fetch) (simp_all add: defs)
  have st2: "fq_step ?s1 ?s2" by (rule fq_step.check_free) (simp_all add: defs)
  have st3: "fq_step ?s2 ?s3" by (rule fq_step.store) simp
  have st4: "fq_step ?s3 ?s4" by (rule fq_step.publish) (simp_all add: defs)
  have run4: "fq_step\<^sup>*\<^sup>* ?s0 ?s4" by (rule four_steps [OF st1 st2 st3 st4])
  have "\<forall>t. fr_prod ?s4 t = PIdle" "fr_cons ?s4 = CIdle" "fr_log ?s4 = [5]" "fr_out ?s4 = []" by (simp_all add: fr_new_def)
  with run4 obtain s where run: "fq_step\<^sup>*\<^sup>* ?s0 s" and s: "\<forall>t. fr_prod s t = PIdle" "fr_cons s = CIdle" "fr_log s = [5]" "fr_out s = []"
    by (rule that)
  show ?thesis using concurrent_queue_fifo [OF p run] run s by auto
qed

end
