(* ===== verification/Queue_Links.thy ===== *)
theory Queue_Links
  imports Lockfree_Queue "HOL-Library.Multiset"
begin

section \<open>The linked queue with concurrent threads\<close>

text \<open>
  The loops of \<^verbatim>\<open>TLSLockFreeQueue::Enqueue\<close> and \<^verbatim>\<open>Dequeue\<close> (\<^verbatim>\<open>include/TLSLockFreeQueue.h\<close>), run by any number of
  threads, one shared access per step. The nodes come from a pool that all queues of a type share, so a node that
  is in the pool may change at any time (\<open>others\<close>). A dequeued node goes back to the pool while other calls may still
  have its address. With \<open>grace\<close> such a node is not allocated for this queue until those calls have let go of it; under this
  discipline the queue is first in first out. Without it an enqueue can return while its element cannot be reached.
\<close>

subsection \<open>Threads\<close>

text \<open>
  The program points of \<^verbatim>\<open>Enqueue\<close> (what it does next: write the data, write \<^verbatim>\<open>next\<close>, count, read \<^verbatim>\<open>_tail\<close>,
  read \<^verbatim>\<open>tailNode->next\<close>, exchange it, exchange \<^verbatim>\<open>_tail\<close>, count the size; or read \<^verbatim>\<open>tailNode->next\<close> again and help) and of
  \<^verbatim>\<open>Dequeue\<close> (read \<^verbatim>\<open>_head\<close>, its \<^verbatim>\<open>next\<close>, the data, exchange \<^verbatim>\<open>_head\<close>, read \<^verbatim>\<open>_tail\<close>, read \<^verbatim>\<open>tailNode->next\<close>, exchange
  \<^verbatim>\<open>_tail\<close>, free, count).
\<close>

datatype 'a qpc =
    QIdle
  | EData addr 'a
  | ENext addr 'a
  | ECount addr 'a
  | ELoop u64 'a
  | ETail u64 'a u64
  | ELink u64 'a u64
  | ESwing u64 'a u64
  | EReload u64 'a u64
  | EHelp u64 'a u64 u64
  | ESize 'a
  | DLoop
  | DHead u64
  | DNode u64 u64
  | DSwing u64 u64 'a
  | DWon u64 'a
  | DFix u64 'a
  | DHelp u64 'a u64
  | DFree u64 'a
  | DSize 'a

datatype 'a qlabel = QTau | Enqueued 'a | Dequeued 'a | FoundEmpty

text \<open>
  The last three fields are histories: the pointers linked into the list (the first dummy included), the
  data in the order it was linked, and the data in the order it was taken.
\<close>

record 'a lq_run =
  lr_q :: "'a lqueue"
  lr_pc :: "nat \<Rightarrow> 'a qpc"
  lr_pool :: "addr set"
  lr_ptrs :: "u64 list"
  lr_log :: "'a list"
  lr_out :: "'a list"

abbreviation at :: "nat \<Rightarrow> 'a qpc \<Rightarrow> 'a lq_run \<Rightarrow> 'a lq_run" where
  "at t p s \<equiv> s\<lparr>lr_pc := (lr_pc s)(t := p)\<rparr>"

abbreviation inq :: "('a lqueue \<Rightarrow> 'a lqueue) \<Rightarrow> 'a lq_run \<Rightarrow> 'a lq_run" where
  "inq f s \<equiv> s\<lparr>lr_q := f (lr_q s)\<rparr>"

abbreviation nxt_of :: "'a lq_run \<Rightarrow> addr \<Rightarrow> u64" where
  "nxt_of s \<equiv> lq_next (lr_q s)"

definition set_next :: "addr \<Rightarrow> u64 \<Rightarrow> 'a lqueue \<Rightarrow> 'a lqueue" where
  "set_next p w q = q\<lparr>lq_next := (lq_next q)(p := w)\<rparr>"

definition set_data :: "addr \<Rightarrow> 'a \<Rightarrow> 'a lqueue \<Rightarrow> 'a lqueue" where
  "set_data p x q = q\<lparr>lq_data := (lq_data q)(p := x)\<rparr>"

text \<open>A pointer a running call has read and may still use.\<close>

fun watching :: "'a qpc \<Rightarrow> u64 option" where
  "watching (ETail nt x w) = Some w"
| "watching (ELink nt x w) = Some w"
| "watching (ESwing nt x w) = Some w"
| "watching (EReload nt x w) = Some w"
| "watching (EHelp nt x w nx) = Some w"
| "watching (DHead w) = Some w"
| "watching (DNode w nx) = Some w"
| "watching (DSwing w nx x) = Some w"
| "watching _ = None"

definition unwatched :: "'a lq_run \<Rightarrow> addr \<Rightarrow> bool" where
  "unwatched s p \<longleftrightarrow> (\<forall>t w. watching (lr_pc s t) = Some w \<longrightarrow> ptr_of w \<noteq> p)"

inductive lq_step :: "bool \<Rightarrow> nat \<Rightarrow> 'a lq_run \<Rightarrow> 'a qlabel \<Rightarrow> 'a lq_run \<Rightarrow> bool" for grace n where
  alloc: "t < n \<Longrightarrow> lr_pc s t = QIdle \<Longrightarrow> p \<in> lr_pool s \<Longrightarrow> grace \<longrightarrow> unwatched s p \<Longrightarrow>
    lq_step grace n s QTau ((at t (EData p x) s)\<lparr>lr_pool := lr_pool s - {p}\<rparr>)"
| write_data: "t < n \<Longrightarrow> lr_pc s t = EData p x \<Longrightarrow> lq_step grace n s QTau (at t (ENext p x) (inq (set_data p x) s))"
| write_next: "t < n \<Longrightarrow> lr_pc s t = ENext p x \<Longrightarrow>
    lq_step grace n s QTau (at t (ECount p x) (inq (set_next p (lq_queueId (lr_q s))) s))"
| count: "t < n \<Longrightarrow> lr_pc s t = ECount p x \<Longrightarrow>
    lq_step grace n s QTau (at t (ELoop (tag_tail p (lq_tailCount (lr_q s) + 1)) x) (inq (lq_tailCount_update (\<lambda>c. c + 1)) s))"
| read_tail: "t < n \<Longrightarrow> lr_pc s t = ELoop nt x \<Longrightarrow> lq_step grace n s QTau (at t (ETail nt x (lq_tail (lr_q s))) s)"
| at_end: "t < n \<Longrightarrow> lr_pc s t = ETail nt x w \<Longrightarrow> nxt_of s (ptr_of w) = lq_queueId (lr_q s) \<Longrightarrow>
    lq_step grace n s QTau (at t (ELink nt x w) s)"
| not_at_end: "t < n \<Longrightarrow> lr_pc s t = ETail nt x w \<Longrightarrow> nxt_of s (ptr_of w) \<noteq> lq_queueId (lr_q s) \<Longrightarrow>
    lq_step grace n s QTau (at t (EReload nt x w) s)"
| link: "t < n \<Longrightarrow> lr_pc s t = ELink nt x w \<Longrightarrow> nxt_of s (ptr_of w) = lq_queueId (lr_q s) \<Longrightarrow>
    lq_step grace n s QTau ((at t (ESwing nt x w) (inq (set_next (ptr_of w) nt) s))\<lparr>lr_ptrs := lr_ptrs s @ [nt], lr_log := lr_log s @ [x]\<rparr>)"
| link_failed: "t < n \<Longrightarrow> lr_pc s t = ELink nt x w \<Longrightarrow> nxt_of s (ptr_of w) \<noteq> lq_queueId (lr_q s) \<Longrightarrow>
    lq_step grace n s QTau (at t (ELoop nt x) s)"
| swing: "t < n \<Longrightarrow> lr_pc s t = ESwing nt x w \<Longrightarrow> lq_tail (lr_q s) = w \<Longrightarrow>
    lq_step grace n s QTau (at t (ESize x) (inq (lq_tail_update (\<lambda>_. nt)) s))"
| swing_failed: "t < n \<Longrightarrow> lr_pc s t = ESwing nt x w \<Longrightarrow> lq_tail (lr_q s) \<noteq> w \<Longrightarrow> lq_step grace n s QTau (at t (ESize x) s)"
| reload: "t < n \<Longrightarrow> lr_pc s t = EReload nt x w \<Longrightarrow> lq_step grace n s QTau (at t (EHelp nt x w (nxt_of s (ptr_of w))) s)"
| lend: "t < n \<Longrightarrow> lr_pc s t = EHelp nt x w nx \<Longrightarrow> lq_tail (lr_q s) = w \<Longrightarrow>
    lq_step grace n s QTau (at t (ELoop nt x) (inq (lq_tail_update (\<lambda>_. nx)) s))"
| lend_failed: "t < n \<Longrightarrow> lr_pc s t = EHelp nt x w nx \<Longrightarrow> lq_tail (lr_q s) \<noteq> w \<Longrightarrow> lq_step grace n s QTau (at t (ELoop nt x) s)"
| enqueued: "t < n \<Longrightarrow> lr_pc s t = ESize x \<Longrightarrow>
    lq_step grace n s (Enqueued x) (at t QIdle (inq (lq_size_update (\<lambda>k. k + 1)) s))"
| size_zero: "t < n \<Longrightarrow> lr_pc s t = QIdle \<Longrightarrow> lq_size (lr_q s) = 0 \<Longrightarrow> lq_step grace n s FoundEmpty s"
| size_positive: "t < n \<Longrightarrow> lr_pc s t = QIdle \<Longrightarrow> lq_size (lr_q s) \<noteq> 0 \<Longrightarrow> lq_step grace n s QTau (at t DLoop s)"
| read_head: "t < n \<Longrightarrow> lr_pc s t = DLoop \<Longrightarrow> lq_step grace n s QTau (at t (DHead (lq_head (lr_q s))) s)"
| no_next: "t < n \<Longrightarrow> lr_pc s t = DHead w \<Longrightarrow> ptr_of (nxt_of s (ptr_of w)) < 64000 \<Longrightarrow>
    lq_step grace n s FoundEmpty (at t QIdle s)"
| read_next: "t < n \<Longrightarrow> lr_pc s t = DHead w \<Longrightarrow> \<not> ptr_of (nxt_of s (ptr_of w)) < 64000 \<Longrightarrow>
    lq_step grace n s QTau (at t (DNode w (nxt_of s (ptr_of w))) s)"
| read_data: "t < n \<Longrightarrow> lr_pc s t = DNode w nx \<Longrightarrow>
    lq_step grace n s QTau (at t (DSwing w nx (lq_data (lr_q s) (ptr_of nx))) s)"
| take: "t < n \<Longrightarrow> lr_pc s t = DSwing w nx x \<Longrightarrow> lq_head (lr_q s) = w \<Longrightarrow>
    lq_step grace n s QTau ((at t (DWon w x) (inq (lq_head_update (\<lambda>_. nx)) s))\<lparr>lr_out := lr_out s @ [x]\<rparr>)"
| take_failed: "t < n \<Longrightarrow> lr_pc s t = DSwing w nx x \<Longrightarrow> lq_head (lr_q s) \<noteq> w \<Longrightarrow> lq_step grace n s QTau (at t DLoop s)"
| was_tail: "t < n \<Longrightarrow> lr_pc s t = DWon w x \<Longrightarrow> lq_tail (lr_q s) = w \<Longrightarrow> lq_step grace n s QTau (at t (DFix w x) s)"
| not_tail: "t < n \<Longrightarrow> lr_pc s t = DWon w x \<Longrightarrow> lq_tail (lr_q s) \<noteq> w \<Longrightarrow> lq_step grace n s QTau (at t (DFree w x) s)"
| fix_next: "t < n \<Longrightarrow> lr_pc s t = DFix w x \<Longrightarrow> lq_step grace n s QTau (at t (DHelp w x (nxt_of s (ptr_of w))) s)"
| fix_tail: "t < n \<Longrightarrow> lr_pc s t = DHelp w x nx \<Longrightarrow> lq_tail (lr_q s) = w \<Longrightarrow>
    lq_step grace n s QTau (at t (DFree w x) (inq (lq_tail_update (\<lambda>_. nx)) s))"
| fix_failed: "t < n \<Longrightarrow> lr_pc s t = DHelp w x nx \<Longrightarrow> lq_tail (lr_q s) \<noteq> w \<Longrightarrow> lq_step grace n s QTau (at t (DFree w x) s)"
| free: "t < n \<Longrightarrow> lr_pc s t = DFree w x \<Longrightarrow>
    lq_step grace n s QTau ((at t (DSize x) s)\<lparr>lr_pool := insert (ptr_of w) (lr_pool s)\<rparr>)"
| dequeued: "t < n \<Longrightarrow> lr_pc s t = DSize x \<Longrightarrow>
    lq_step grace n s (Dequeued x) (at t QIdle (inq (lq_size_update (\<lambda>k. k - 1)) s))"
| others: "p \<in> lr_pool s \<Longrightarrow> w \<noteq> lq_queueId (lr_q s) \<Longrightarrow>
    lq_step grace n s QTau (inq (set_next p w \<circ> set_data p z) s)"

inductive lq_exec :: "bool \<Rightarrow> nat \<Rightarrow> 'a lq_run \<Rightarrow> 'a qlabel list \<Rightarrow> 'a lq_run \<Rightarrow> bool" for grace n where
  lq_nil: "lq_exec grace n s [] s"
| lq_snoc: "lq_exec grace n s ls s' \<Longrightarrow> lq_step grace n s' l s'' \<Longrightarrow> lq_exec grace n s (ls @ [l]) s''"

definition lr_new :: "u64 \<Rightarrow> (addr \<Rightarrow> u64) \<Rightarrow> (addr \<Rightarrow> 'a) \<Rightarrow> addr \<Rightarrow> addr set \<Rightarrow> 'a lq_run" where
  "lr_new e nx dat dummy pool =
     \<lparr>lr_q = tq_new e nx dat dummy, lr_pc = (\<lambda>_. QIdle), lr_pool = pool, lr_ptrs = [dummy], lr_log = [], lr_out = []\<rparr>"

subsection \<open>The invariant\<close>

text \<open>
  Positions count the pointers ever linked. \<open>h\<close> is the position of the head, \<open>k\<close> that of the tail and \<open>L\<close> the positions
  whose nodes have not gone back to the pool. The tail is never more than one behind the last node; it is behind the
  head only while the thread that moved the head is about to correct it.
\<close>

definition ptr_at :: "u64 list \<Rightarrow> nat \<Rightarrow> addr" where
  "ptr_at P i = ptr_of (P ! i)"

definition list_ok :: "u64 \<Rightarrow> (addr \<Rightarrow> u64) \<Rightarrow> (addr \<Rightarrow> 'a) \<Rightarrow> u64 list \<Rightarrow> 'a list \<Rightarrow> nat \<Rightarrow> nat \<Rightarrow> nat set \<Rightarrow> addr set \<Rightarrow> bool" where
  "list_ok e nx dat P log h k L pool \<longleftrightarrow> length P = Suc (length log) \<and> h < length P \<and> k \<in> L \<and> length P \<le> k + 2 \<and> h \<le> Suc k \<and>
     L \<subseteq> {..<length P} \<and> {h..<length P} \<subseteq> L \<and> inj_on (ptr_at P) L \<and> (\<forall>w\<in>set P. w \<noteq> e) \<and>
     (\<forall>i\<in>L. node_ok e (ptr_at P i) \<and> ptr_at P i \<notin> pool \<and> nx (ptr_at P i) = (if Suc i < length P then P ! Suc i else e)) \<and>
     (\<forall>i. h \<le> i \<longrightarrow> i < length log \<longrightarrow> dat (ptr_at P (Suc i)) = log ! i)"

fun fresh_of :: "'a qpc \<Rightarrow> addr option" where
  "fresh_of (EData p x) = Some p"
| "fresh_of (ENext p x) = Some p"
| "fresh_of (ECount p x) = Some p"
| "fresh_of (ELoop nt x) = Some (ptr_of nt)"
| "fresh_of (ETail nt x w) = Some (ptr_of nt)"
| "fresh_of (ELink nt x w) = Some (ptr_of nt)"
| "fresh_of (EReload nt x w) = Some (ptr_of nt)"
| "fresh_of (EHelp nt x w nx) = Some (ptr_of nt)"
| "fresh_of _ = None"

fun fixing :: "'a qpc \<Rightarrow> u64 option" where
  "fixing (DWon w x) = Some w"
| "fixing (DFix w x) = Some w"
| "fixing (DHelp w x nx) = Some w"
| "fixing _ = None"

fun removed :: "'a qpc \<Rightarrow> u64 option" where
  "removed (DFree w x) = Some w"
| "removed q = fixing q"

definition own_ok :: "u64 \<Rightarrow> (nat \<Rightarrow> 'a qpc) \<Rightarrow> addr set \<Rightarrow> addr set \<Rightarrow> bool" where
  "own_ok e pcs pool A \<longleftrightarrow>
     (\<forall>t p. fresh_of (pcs t) = Some p \<longrightarrow> node_ok e p \<and> p \<notin> pool \<and> p \<notin> A \<and> (\<forall>u w. watching (pcs u) = Some w \<longrightarrow> ptr_of w \<noteq> p) \<and>
       (\<forall>u. fresh_of (pcs u) = Some p \<longrightarrow> u = t)) \<and>
     (\<forall>t u w. removed (pcs t) = Some w \<longrightarrow> removed (pcs u) = Some w \<longrightarrow> t = u)"

text \<open>
  What a thread knows about a pointer it read at position \<open>i\<close>: no later position uses the node again, and
  once the node has left the list its \<^verbatim>\<open>next\<close> is not the end mark.
\<close>

definition watch_ok :: "'a lq_run \<Rightarrow> nat set \<Rightarrow> u64 \<Rightarrow> nat \<Rightarrow> bool" where
  "watch_ok s L w i \<longleftrightarrow> i < length (lr_ptrs s) \<and> lr_ptrs s ! i = w \<and>
     (\<forall>j. i < j \<longrightarrow> j < length (lr_ptrs s) \<longrightarrow> ptr_at (lr_ptrs s) j \<noteq> ptr_of w) \<and>
     (i \<in> L \<or> nxt_of s (ptr_of w) \<noteq> lq_queueId (lr_q s))"

definition ready :: "'a lq_run \<Rightarrow> addr \<Rightarrow> 'a \<Rightarrow> bool" where
  "ready s p x \<longleftrightarrow> lq_data (lr_q s) p = x \<and> nxt_of s p = lq_queueId (lr_q s)"

definition succ_at :: "'a lq_run \<Rightarrow> nat \<Rightarrow> u64 \<Rightarrow> bool" where
  "succ_at s i nx \<longleftrightarrow> Suc i < length (lr_ptrs s) \<and> lr_ptrs s ! Suc i = nx"

abbreviation hd_pos :: "'a lq_run \<Rightarrow> nat" where
  "hd_pos s \<equiv> length (lr_out s)"

fun qpc_ok :: "'a lq_run \<Rightarrow> nat \<Rightarrow> nat set \<Rightarrow> 'a qpc \<Rightarrow> bool" where
  "qpc_ok s k L (ENext p x) = (lq_data (lr_q s) p = x)"
| "qpc_ok s k L (ECount p x) = ready s p x"
| "qpc_ok s k L (ELoop nt x) = ready s (ptr_of nt) x"
| "qpc_ok s k L (ETail nt x w) = (ready s (ptr_of nt) x \<and> (\<exists>i\<le>k. watch_ok s L w i))"
| "qpc_ok s k L (ELink nt x w) = (ready s (ptr_of nt) x \<and> (\<exists>i\<le>k. watch_ok s L w i))"
| "qpc_ok s k L (EReload nt x w) = (ready s (ptr_of nt) x \<and>
     (\<exists>i\<le>k. watch_ok s L w i \<and> (i = k \<longrightarrow> Suc i < length (lr_ptrs s))))"
| "qpc_ok s k L (EHelp nt x w nx) = (ready s (ptr_of nt) x \<and> (\<exists>i\<le>k. watch_ok s L w i \<and> (i = k \<longrightarrow> succ_at s i nx)))"
| "qpc_ok s k L (ESwing nt x w) = (\<exists>i\<le>k. watch_ok s L w i \<and> succ_at s i nt)"
| "qpc_ok s k L (DHead w) = (\<exists>i\<le>hd_pos s. watch_ok s L w i)"
| "qpc_ok s k L (DNode w nx) = (\<exists>i\<le>hd_pos s. watch_ok s L w i \<and> (i = hd_pos s \<longrightarrow> succ_at s i nx))"
| "qpc_ok s k L (DSwing w nx x) = (\<exists>i\<le>hd_pos s. watch_ok s L w i \<and> (i = hd_pos s \<longrightarrow> succ_at s i nx \<and> x = lr_log s ! i))"
| "qpc_ok s k L (DWon w x) = (\<exists>i<hd_pos s. i \<in> L \<and> lr_ptrs s ! i = w)"
| "qpc_ok s k L (DFix w x) = (\<exists>i<hd_pos s. i \<in> L \<and> lr_ptrs s ! i = w)"
| "qpc_ok s k L (DHelp w x nx) = (\<exists>i<hd_pos s. i \<in> L \<and> lr_ptrs s ! i = w \<and> succ_at s i nx)"
| "qpc_ok s k L (DFree w x) = (\<exists>i<hd_pos s. i \<in> L \<and> lr_ptrs s ! i = w \<and> i < k)"
| "qpc_ok s k L _ = True"

definition lq_ok :: "'a lq_run \<Rightarrow> nat \<Rightarrow> nat set \<Rightarrow> bool" where
  "lq_ok s k L \<longleftrightarrow>
     list_ok (lq_queueId (lr_q s)) (nxt_of s) (lq_data (lr_q s)) (lr_ptrs s) (lr_log s) (hd_pos s) k L (lr_pool s) \<and>
     lq_head (lr_q s) = lr_ptrs s ! hd_pos s \<and> lq_tail (lr_q s) = lr_ptrs s ! k \<and>
     lr_out s = List.take (hd_pos s) (lr_log s) \<and> (\<forall>a\<in>lr_pool s. node_ok (lq_queueId (lr_q s)) a) \<and>
     own_ok (lq_queueId (lr_q s)) (lr_pc s) (lr_pool s) (ptr_at (lr_ptrs s) ` L) \<and>
     (k < hd_pos s \<longrightarrow> (\<exists>t. fixing (lr_pc s t) = Some (lr_ptrs s ! k)))"

definition lq_inv :: "'a lq_run \<Rightarrow> nat \<Rightarrow> nat set \<Rightarrow> bool" where
  "lq_inv s k L \<longleftrightarrow> lq_ok s k L \<and> (\<forall>t. qpc_ok s k L (lr_pc s t))"

subsection \<open>The list of linked pointers\<close>

lemma list_okD:
  assumes "list_ok e nx dat P log h k L pool"
  shows "length P = Suc (length log)" "h < length P" "k \<in> L" "length P \<le> k + 2" "h \<le> Suc k" "L \<subseteq> {..<length P}" "{h..<length P} \<subseteq> L"
    "inj_on (ptr_at P) L" "\<And>w. w \<in> set P \<Longrightarrow> w \<noteq> e" "k < length P" "h \<in> L"
    "\<And>i. i \<in> L \<Longrightarrow> node_ok e (ptr_at P i)" "\<And>i. i \<in> L \<Longrightarrow> ptr_at P i \<notin> pool"
    "\<And>i. i \<in> L \<Longrightarrow> nx (ptr_at P i) = (if Suc i < length P then P ! Suc i else e)"
    "\<And>i. h \<le> i \<Longrightarrow> i < length log \<Longrightarrow> dat (ptr_at P (Suc i)) = log ! i"
  using assms unfolding list_ok_def by auto

lemma list_tail:
  assumes l: "list_ok e nx dat P log h k L pool" and "Suc k < length P"
  shows "list_ok e nx dat P log h (Suc k) L pool"
proof -
  have "Suc k \<in> L" using list_okD(5,7) [OF l] assms(2) by auto
  then show ?thesis using l unfolding list_ok_def by auto
qed

lemma list_take:
  assumes l: "list_ok e nx dat P log h k L pool" and "Suc h < length P"
  shows "list_ok e nx dat P log (Suc h) k L pool"
  using assms unfolding list_ok_def by auto

lemma list_free:
  assumes l: "list_ok e nx dat P log h k L pool" and "i < h" and "i \<noteq> k" and "i \<in> L"
  shows "list_ok e nx dat P log h k (L - {i}) (insert (ptr_at P i) pool)"
proof -
  have "ptr_at P j \<noteq> ptr_at P i" if "j \<in> L" "j \<noteq> i" for j
    using inj_onD [OF list_okD(8) [OF l], of j i] that assms(4) by auto
  moreover have "inj_on (ptr_at P) (L - {i})" using list_okD(8) [OF l] by (rule inj_on_subset) auto
  ultimately show ?thesis using l assms(2,3) unfolding list_ok_def by auto
qed

lemma list_mem:
  assumes l: "list_ok e nx dat P log h k L pool" and "\<And>a. a \<in> ptr_at P ` L \<Longrightarrow> nx' a = nx a \<and> dat' a = dat a"
  shows "list_ok e nx' dat' P log h k L pool"
proof -
  have "ptr_at P (Suc i) \<in> ptr_at P ` L" if "h \<le> i" "i < length log" for i
    using list_okD(1,7) [OF l] that by (intro imageI) auto
  then have "\<forall>i. h \<le> i \<longrightarrow> i < length log \<longrightarrow> dat' (ptr_at P (Suc i)) = log ! i" using assms(2) list_okD(15) [OF l] by simp
  moreover have "\<forall>i\<in>L. nx' (ptr_at P i) = nx (ptr_at P i)" using assms(2) by simp
  ultimately show ?thesis using l unfolding list_ok_def by (elim conjE) (intro conjI; simp)
qed

lemma list_pool: "list_ok e nx dat P log h k L pool \<Longrightarrow> pool' \<subseteq> pool \<Longrightarrow> list_ok e nx dat P log h k L pool'"
  unfolding list_ok_def by blast

lemma ptr_at_append [simp]: "i < length P \<Longrightarrow> ptr_at (P @ Q) i = ptr_at P i"
  by (simp add: ptr_at_def nth_append)

lemma ptr_at_last [simp]: "ptr_at (P @ [w]) (length P) = ptr_of w"
  by (simp add: ptr_at_def)

text \<open>The end mark in a live node's \<^verbatim>\<open>next\<close> means it is the last one.\<close>

lemma list_last:
  assumes l: "list_ok e nx dat P log h k L pool" and "i \<in> L" and "nx (ptr_at P i) = e"
  shows "Suc i = length P"
proof (rule ccontr)
  assume "Suc i \<noteq> length P"
  then have "Suc i < length P" using list_okD(6) [OF l] assms(2) by auto
  then show False using list_okD(14) [OF l assms(2)] list_okD(9) [OF l nth_mem, of "Suc i"] assms(3) by simp
qed

lemma list_link:
  assumes l: "list_ok e nx dat P log h k L pool" and "Suc i = length P" and "i \<in> L" and "i \<le> k"
    and nt: "node_ok e (ptr_of nt)" "ptr_of nt \<notin> pool" "ptr_of nt \<notin> ptr_at P ` L" "nx (ptr_of nt) = e" "dat (ptr_of nt) = x"
  shows "list_ok e (nx(ptr_at P i := nt)) dat (P @ [nt]) (log @ [x]) h k (insert (length P) L) pool"
proof -
  have ne: "nt \<noteq> e" using node_ok_pointer [OF nt(1)] by blast
  have L: "j < length P" if "j \<in> L" for j using list_okD(6) [OF l] that by auto
  have inj: "inj_on (ptr_at (P @ [nt])) (insert (length P) L)"
    using list_okD(8) [OF l] nt(3) L unfolding inj_on_def by (auto simp: image_iff)
  have other: "ptr_at P j = ptr_at P i \<longleftrightarrow> j = i" if "j \<in> L" for j
    using inj_onD [OF list_okD(8) [OF l], of j i] that assms(3) by auto
  have new: "ptr_of nt \<noteq> ptr_at P i" using nt(3) assms(3) by auto
  have nodes: "\<forall>j\<in>insert (length P) L. node_ok e (ptr_at (P @ [nt]) j) \<and> ptr_at (P @ [nt]) j \<notin> pool \<and>
      (nx(ptr_at P i := nt)) (ptr_at (P @ [nt]) j) = (if Suc j < length (P @ [nt]) then (P @ [nt]) ! Suc j else e)"
  proof
    fix j assume j: "j \<in> insert (length P) L"
    show "node_ok e (ptr_at (P @ [nt]) j) \<and> ptr_at (P @ [nt]) j \<notin> pool \<and>
      (nx(ptr_at P i := nt)) (ptr_at (P @ [nt]) j) = (if Suc j < length (P @ [nt]) then (P @ [nt]) ! Suc j else e)"
    proof (cases "j = length P")
      case True
      then show ?thesis using nt new by simp
    next
      case False
      then have "j \<in> L" using j by simp
      then show ?thesis using L [of j] list_okD(12-14) [OF l, of j] other [of j] assms(2) by (auto simp: nth_append)
    qed
  qed
  have dats: "dat (ptr_at (P @ [nt]) (Suc j)) = (log @ [x]) ! j" if "h \<le> j" "j < length (log @ [x])" for j
    using that list_okD(1,15) [OF l] nt(5) by (cases "j = length log") (auto simp: nth_append ptr_at_def)
  have range: "insert (length P) L \<subseteq> {..<length (P @ [nt])}" "{h..<length (P @ [nt])} \<subseteq> insert (length P) L"
    using list_okD(6,7) [OF l] by (auto simp: subset_iff less_Suc_eq)
  show ?thesis
    unfolding list_ok_def using inj nodes dats range ne list_okD(1-3,5,9) [OF l] assms(2,4) by (intro conjI) auto
qed

subsection \<open>Who owns a node\<close>

lemma own_okD:
  assumes "own_ok e pcs pool A"
  shows "fresh_of (pcs t) = Some p \<Longrightarrow> node_ok e p" "fresh_of (pcs t) = Some p \<Longrightarrow> p \<notin> pool"
    "fresh_of (pcs t) = Some p \<Longrightarrow> p \<notin> A" "fresh_of (pcs t) = Some p \<Longrightarrow> watching (pcs u) = Some w \<Longrightarrow> ptr_of w \<noteq> p"
    "fresh_of (pcs t) = Some p \<Longrightarrow> fresh_of (pcs u) = Some p \<Longrightarrow> u = t"
    "removed (pcs t) = Some w \<Longrightarrow> removed (pcs u) = Some w \<Longrightarrow> t = u"
  using assms unfolding own_ok_def by blast+

lemma own_okI:
  assumes "\<And>t p. fresh_of (pcs t) = Some p \<Longrightarrow> node_ok e p \<and> p \<notin> pool \<and> p \<notin> A"
    and "\<And>t p u w. fresh_of (pcs t) = Some p \<Longrightarrow> watching (pcs u) = Some w \<Longrightarrow> ptr_of w \<noteq> p"
    and "\<And>t p u. fresh_of (pcs t) = Some p \<Longrightarrow> fresh_of (pcs u) = Some p \<Longrightarrow> u = t"
    and "\<And>t u w. removed (pcs t) = Some w \<Longrightarrow> removed (pcs u) = Some w \<Longrightarrow> t = u"
  shows "own_ok e pcs pool A"
  using assms unfolding own_ok_def by blast

lemma own_move:
  assumes o: "own_ok e pcs pool A" and "fresh_of q = fresh_of (pcs t) \<or> fresh_of q = None"
    and "\<And>w. watching q = Some w \<Longrightarrow> watching (pcs t) = Some w \<or> ptr_of w \<in> A"
    and "removed q = removed (pcs t) \<or> removed q = None"
  shows "own_ok e (pcs(t := q)) pool A"
proof -
  have f: "fresh_of (pcs u) = Some p" if "fresh_of ((pcs(t := q)) u) = Some p" for u p
    using that assms(2) by (cases "u = t") auto
  have w: "watching (pcs u) = Some w \<or> ptr_of w \<in> A" if "watching ((pcs(t := q)) u) = Some w" for u w
    using that assms(3) by (cases "u = t") auto
  have r: "removed (pcs u) = Some w" if "removed ((pcs(t := q)) u) = Some w" for u w
    using that assms(4) by (cases "u = t") auto
  show ?thesis
  proof (rule own_okI)
    show "node_ok e p \<and> p \<notin> pool \<and> p \<notin> A" if "fresh_of ((pcs(t := q)) u) = Some p" for u p
      using own_okD(1-3) [OF o f [OF that]] by blast
    show "ptr_of w \<noteq> p" if "fresh_of ((pcs(t := q)) u) = Some p" "watching ((pcs(t := q)) v) = Some w" for u p v w
      using w [OF that(2)] own_okD(3,4) [OF o f [OF that(1)]] by blast
    show "v = u" if "fresh_of ((pcs(t := q)) u) = Some p" "fresh_of ((pcs(t := q)) v) = Some p" for u p v
      using own_okD(5) [OF o f [OF that(1)] f [OF that(2)]] .
    show "u = v" if "removed ((pcs(t := q)) u) = Some w" "removed ((pcs(t := q)) v) = Some w" for u v w
      using own_okD(6) [OF o r [OF that(1)] r [OF that(2)]] .
  qed
qed

lemma own_alloc:
  assumes o: "own_ok e pcs pool A" and "p \<in> pool" and "p \<notin> A" and "node_ok e p" and "pcs t = QIdle"
    and "\<And>u w. watching (pcs u) = Some w \<Longrightarrow> ptr_of w \<noteq> p"
  shows "own_ok e (pcs(t := EData p x)) (pool - {p}) A"
proof -
  have f: "u = t \<and> a = p \<or> u \<noteq> t \<and> fresh_of (pcs u) = Some a" if "fresh_of ((pcs(t := EData p x)) u) = Some a" for u a
    using that by (cases "u = t") auto
  have w: "watching (pcs u) = Some w" if "watching ((pcs(t := EData p x)) u) = Some w" for u w
    using that by (cases "u = t") auto
  have r: "removed (pcs u) = Some w" if "removed ((pcs(t := EData p x)) u) = Some w" for u w
    using that by (cases "u = t") auto
  have np: "fresh_of (pcs u) \<noteq> Some p" for u using own_okD(2) [OF o] assms(2) by blast
  show ?thesis
  proof (rule own_okI)
    show "node_ok e a \<and> a \<notin> pool - {p} \<and> a \<notin> A" if "fresh_of ((pcs(t := EData p x)) u) = Some a" for u a
      using f [OF that] own_okD(1-3) [OF o] assms(3,4) by blast
    show "ptr_of w \<noteq> a" if "fresh_of ((pcs(t := EData p x)) u) = Some a" "watching ((pcs(t := EData p x)) v) = Some w" for u a v w
      using f [OF that(1)] own_okD(4) [OF o _ w [OF that(2)]] assms(6) [OF w [OF that(2)]] by blast
    show "v = u" if "fresh_of ((pcs(t := EData p x)) u) = Some a" "fresh_of ((pcs(t := EData p x)) v) = Some a" for u a v
      using f [OF that(1)] f [OF that(2)] own_okD(5) [OF o] np by blast
    show "u = v" if "removed ((pcs(t := EData p x)) u) = Some w" "removed ((pcs(t := EData p x)) v) = Some w" for u v w
      using own_okD(6) [OF o r [OF that(1)] r [OF that(2)]] .
  qed
qed

lemma own_link:
  assumes o: "own_ok e pcs pool A" and "fresh_of (pcs t) = Some p" and "fresh_of q = None" and "removed q = None"
    and "\<And>w. watching q = Some w \<Longrightarrow> watching (pcs t) = Some w"
  shows "own_ok e (pcs(t := q)) pool (insert p A)"
proof -
  have m: "own_ok e (pcs(t := q)) pool A" by (rule own_move [OF o]) (use assms(3-5) in auto)
  have "fresh_of ((pcs(t := q)) u) \<noteq> Some p" for u
    using own_okD(5) [OF o assms(2), of u] assms(3) by (cases "u = t") auto
  then have "a \<noteq> p" if "fresh_of ((pcs(t := q)) u) = Some a" for u a using that by blast
  then show ?thesis by (intro own_okI) (use own_okD [OF m] in \<open>blast+\<close>)
qed

lemma own_free: "own_ok e pcs pool A \<Longrightarrow> a \<in> A \<Longrightarrow> own_ok e pcs (insert a pool) (A - {a})"
  unfolding own_ok_def by blast

lemma own_win:
  assumes o: "own_ok e pcs pool A" and "fresh_of q = None" and "watching q = None" and "removed q = Some w"
    and "\<And>u. removed (pcs u) \<noteq> Some w"
  shows "own_ok e (pcs(t := q)) pool A"
proof -
  have f: "fresh_of (pcs u) = Some p" if "fresh_of ((pcs(t := q)) u) = Some p" for u p
    using that assms(2) by (cases "u = t") auto
  have w: "watching (pcs u) = Some v" if "watching ((pcs(t := q)) u) = Some v" for u v
    using that assms(3) by (cases "u = t") auto
  have r: "u = t \<and> v = w \<or> u \<noteq> t \<and> removed (pcs u) = Some v" if "removed ((pcs(t := q)) u) = Some v" for u v
    using that assms(4) by (cases "u = t") auto
  show ?thesis
  proof (rule own_okI)
    show "node_ok e p \<and> p \<notin> pool \<and> p \<notin> A" if "fresh_of ((pcs(t := q)) u) = Some p" for u p
      using own_okD(1-3) [OF o f [OF that]] by blast
    show "ptr_of v \<noteq> p" if "fresh_of ((pcs(t := q)) u) = Some p" "watching ((pcs(t := q)) u') = Some v" for u p u' v
      using own_okD(4) [OF o f [OF that(1)] w [OF that(2)]] .
    show "v = u" if "fresh_of ((pcs(t := q)) u) = Some p" "fresh_of ((pcs(t := q)) v) = Some p" for u p v
      using own_okD(5) [OF o f [OF that(1)] f [OF that(2)]] .
    show "u = u'" if "removed ((pcs(t := q)) u) = Some v" "removed ((pcs(t := q)) u') = Some v" for u u' v
      using r [OF that(1)] r [OF that(2)] own_okD(6) [OF o] assms(5) by blast
  qed
qed

subsection \<open>What a thread knows stays true\<close>

lemma succ_at_extend:
  assumes "succ_at s i nx" and "lr_ptrs s' = lr_ptrs s @ zs"
  shows "succ_at s' i nx"
  using assms by (auto simp: succ_at_def nth_append)

lemma qpc_keep:
  assumes ok: "qpc_ok s k L q" and ext: "lr_ptrs s' = lr_ptrs s @ zs" "lr_log s' = lr_log s @ ys" "length (lr_ptrs s) = Suc (length (lr_log s))"
    and le: "hd_pos s \<le> hd_pos s'" "k \<le> k'"
    and fresh: "\<And>p. fresh_of q = Some p \<Longrightarrow> lq_data (lr_q s') p = lq_data (lr_q s) p \<and> nxt_of s' p = nxt_of s p"
    and e: "lq_queueId (lr_q s') = lq_queueId (lr_q s)"
    and watch: "\<And>w i. watching q = Some w \<Longrightarrow> watch_ok s L w i \<Longrightarrow> watch_ok s' L' w i"
    and rem: "\<And>w i. removed q = Some w \<Longrightarrow> i \<in> L \<Longrightarrow> i < length (lr_ptrs s) \<Longrightarrow> lr_ptrs s ! i = w \<Longrightarrow> i \<in> L'"
    and L: "L \<subseteq> {..<length (lr_ptrs s)}"
  shows "qpc_ok s' k' L' q"
proof -
  note su = succ_at_extend [OF _ ext(1)]
  have rdy: "ready s' p x" if "ready s p x" "fresh_of q = Some p" for p x using that fresh e by (simp add: ready_def)
  have in_P: "i < length (lr_ptrs s) \<and> lr_ptrs s' ! i = lr_ptrs s ! i" if "i \<in> L" for i
    using L that ext(1) by (auto simp: nth_append)
  have tl: "\<exists>i\<le>k'. watch_ok s' L' w i \<and> (i = k' \<longrightarrow> B i)" if ex: "\<exists>i\<le>k. watch_ok s L w i \<and> (i = k \<longrightarrow> A i)"
      and AB: "\<And>i. A i \<Longrightarrow> B i" and wa: "watching q = Some w" for w A B
  proof -
    obtain i where i: "i \<le> k" "watch_ok s L w i" "i = k \<longrightarrow> A i" using ex by blast
    have "B i" if "i = k'"
    proof -
      have "i = k" using that i(1) le(2) by linarith
      then show ?thesis using i(3) AB by blast
    qed
    moreover have "i \<le> k'" using i(1) le(2) by linarith
    ultimately show ?thesis using watch [OF wa i(2)] by blast
  qed
  have hp: "\<exists>i\<le>hd_pos s'. watch_ok s' L' w i \<and> (i = hd_pos s' \<longrightarrow> B i)"
    if ex: "\<exists>i\<le>hd_pos s. watch_ok s L w i \<and> (i = hd_pos s \<longrightarrow> A i)" and AB: "\<And>i. A i \<Longrightarrow> B i" and wa: "watching q = Some w" for w A B
  proof -
    obtain i where i: "i \<le> hd_pos s" "watch_ok s L w i" "i = hd_pos s \<longrightarrow> A i" using ex by blast
    have "B i" if "i = hd_pos s'"
    proof -
      have "i = hd_pos s" using that i(1) le(1) by linarith
      then show ?thesis using i(3) AB by blast
    qed
    moreover have "i \<le> hd_pos s'" using i(1) le(1) by linarith
    ultimately show ?thesis using watch [OF wa i(2)] by blast
  qed
  have rm: "\<exists>i<hd_pos s'. i \<in> L' \<and> lr_ptrs s' ! i = w \<and> B i"
    if ex: "\<exists>i<hd_pos s. i \<in> L \<and> lr_ptrs s ! i = w \<and> A i" and AB: "\<And>i. A i \<Longrightarrow> B i" and re: "removed q = Some w" for w A B
  proof -
    obtain i where i: "i < hd_pos s" "i \<in> L" "lr_ptrs s ! i = w" "A i" using ex by blast
    have "i < hd_pos s'" using i(1) le(1) by linarith
    then show ?thesis using rem [OF re i(2) _ i(3)] in_P [OF i(2)] i(3) AB [OF i(4)] by auto
  qed
  have log: "lr_log s' ! i = lr_log s ! i" if "succ_at s i nx" for i nx
    using that ext(2,3) by (simp add: succ_at_def nth_append)
  show ?thesis
  proof (cases q)
    case (ETail nt x w)
    then show ?thesis using ok rdy tl [of w "\<lambda>_. True" "\<lambda>_. True"] by simp
  next
    case (ELink nt x w)
    then show ?thesis using ok rdy tl [of w "\<lambda>_. True" "\<lambda>_. True"] by simp
  next
    case (ESwing nt x w)
    then obtain i where i: "i \<le> k" "watch_ok s L w i" "succ_at s i nt" using ok by auto
    then have "watch_ok s' L' w i" "i \<le> k'" using watch ESwing le(2) by simp_all
    then show ?thesis using su [OF i(3)] ESwing by auto
  next
    case (EReload nt x w)
    then show ?thesis using ok rdy tl [of w "\<lambda>i. Suc i < length (lr_ptrs s)" "\<lambda>i. Suc i < length (lr_ptrs s')"] ext(1) by simp
  next
    case (EHelp nt x w nx)
    then show ?thesis using ok rdy tl [of w "\<lambda>i. succ_at s i nx" "\<lambda>i. succ_at s' i nx"] su by simp
  next
    case (DHead w)
    then show ?thesis using ok hp [of w "\<lambda>_. True" "\<lambda>_. True"] by simp
  next
    case (DNode w nx)
    then show ?thesis using ok hp [of w "\<lambda>i. succ_at s i nx" "\<lambda>i. succ_at s' i nx"] su by simp
  next
    case (DSwing w nx x)
    have "succ_at s' i nx \<and> x = lr_log s' ! i" if "succ_at s i nx \<and> x = lr_log s ! i" for i
      using that su log [OF conjunct1 [OF that]] by simp
    from hp [OF _ this, of w] show ?thesis using ok DSwing by simp
  next
    case (DWon w x)
    then show ?thesis using ok rm [of w "\<lambda>_. True" "\<lambda>_. True"] by simp
  next
    case (DFix w x)
    then show ?thesis using ok rm [of w "\<lambda>_. True" "\<lambda>_. True"] by simp
  next
    case (DHelp w x nx)
    then show ?thesis using ok rm [of w "\<lambda>i. succ_at s i nx" "\<lambda>i. succ_at s' i nx"] su by simp
  next
    case (DFree w x)
    then show ?thesis using ok rm [of w "\<lambda>i. i < k" "\<lambda>i. i < k'"] le(2) by auto
  qed (use ok rdy fresh in simp_all)
qed

subsection \<open>Steps of one thread\<close>

lemma lq_invD:
  assumes "lq_inv s k L"
  shows "list_ok (lq_queueId (lr_q s)) (nxt_of s) (lq_data (lr_q s)) (lr_ptrs s) (lr_log s) (hd_pos s) k L (lr_pool s)"
    "lq_head (lr_q s) = lr_ptrs s ! hd_pos s" "lq_tail (lr_q s) = lr_ptrs s ! k" "lr_out s = List.take (hd_pos s) (lr_log s)"
    "\<And>a. a \<in> lr_pool s \<Longrightarrow> node_ok (lq_queueId (lr_q s)) a"
    "own_ok (lq_queueId (lr_q s)) (lr_pc s) (lr_pool s) (ptr_at (lr_ptrs s) ` L)"
    "k < hd_pos s \<Longrightarrow> \<exists>t. fixing (lr_pc s t) = Some (lr_ptrs s ! k)" "qpc_ok s k L (lr_pc s t)"
  using assms unfolding lq_inv_def lq_ok_def by blast+

lemma qpc_at [simp]: "qpc_ok (s\<lparr>lr_pc := pcs\<rparr>) k L q = qpc_ok s k L q"
  by (cases q) (simp_all add: watch_ok_def ready_def succ_at_def)

lemma lq_inv_size [simp]: "lq_inv (inq (lq_size_update f) s) k L = lq_inv s k L"
proof -
  have "qpc_ok (inq (lq_size_update f) s) k L q = qpc_ok s k L q" for q
    by (cases q) (simp_all add: watch_ok_def ready_def succ_at_def)
  then show ?thesis by (simp add: lq_inv_def lq_ok_def)
qed

lemma lq_inv_count [simp]: "lq_inv (inq (lq_tailCount_update f) s) k L = lq_inv s k L"
proof -
  have "qpc_ok (inq (lq_tailCount_update f) s) k L q = qpc_ok s k L q" for q
    by (cases q) (simp_all add: watch_ok_def ready_def succ_at_def)
  then show ?thesis by (simp add: lq_inv_def lq_ok_def)
qed

lemma step_pc:
  assumes i: "lq_inv s k L" and q: "qpc_ok s k L q" "fresh_of q = fresh_of (lr_pc s t) \<or> fresh_of q = None"
    "\<And>w. watching q = Some w \<Longrightarrow> watching (lr_pc s t) = Some w \<or> ptr_of w \<in> ptr_at (lr_ptrs s) ` L"
    "removed q = removed (lr_pc s t) \<or> removed q = None"
    "k < hd_pos s \<Longrightarrow> fixing (lr_pc s t) = Some (lr_ptrs s ! k) \<Longrightarrow> fixing q = Some (lr_ptrs s ! k)"
  shows "lq_inv (at t q s) k L"
proof -
  have "own_ok (lq_queueId (lr_q s)) ((lr_pc s)(t := q)) (lr_pool s) (ptr_at (lr_ptrs s) ` L)"
    by (rule own_move [OF lq_invD(6) [OF i] q(2-4)])
  moreover have "\<exists>u. fixing (((lr_pc s)(t := q)) u) = Some (lr_ptrs s ! k)" if k: "k < hd_pos s"
  proof -
    obtain u where u: "fixing (lr_pc s u) = Some (lr_ptrs s ! k)" using lq_invD(7) [OF i k] by blast
    then show ?thesis using q(5) [OF k] by (cases "u = t") (auto intro!: exI [of _ u])
  qed
  ultimately show ?thesis using i q(1) unfolding lq_inv_def lq_ok_def by simp
qed

lemma step_tail:
  assumes i: "lq_inv s k L" and su: "succ_at s k nx"
  shows "lq_inv (inq (lq_tail_update (\<lambda>_. nx)) s) (Suc k) L"
proof -
  let ?s = "inq (lq_tail_update (\<lambda>_. nx)) s"
  have l: "list_ok (lq_queueId (lr_q s)) (nxt_of s) (lq_data (lr_q s)) (lr_ptrs s) (lr_log s) (hd_pos s) (Suc k) L (lr_pool s)"
    by (rule list_tail [OF lq_invD(1) [OF i]]) (use su in \<open>simp add: succ_at_def\<close>)
  have "qpc_ok ?s (Suc k) L (lr_pc s t)" for t
    by (rule qpc_keep [where zs = "[]" and ys = "[]", OF lq_invD(8) [OF i]])
      (use list_okD(1,6) [OF l] in \<open>simp_all add: watch_ok_def\<close>)
  moreover have "\<not> Suc k < hd_pos s" using list_okD(5) [OF lq_invD(1) [OF i]] by simp
  ultimately show ?thesis using l i su unfolding lq_inv_def lq_ok_def succ_at_def by simp
qed

lemma step_mem:
  assumes i: "lq_inv s k L" and p: "p \<notin> ptr_at (lr_ptrs s) ` L"
    and s': "s' = inq (set_next p w \<circ> set_data p z) s"
    and wat: "\<And>u v. watching (lr_pc s u) = Some v \<Longrightarrow> ptr_of v = p \<Longrightarrow> w \<noteq> lq_queueId (lr_q s)"
    and fr: "\<And>u. fresh_of (lr_pc s u) = Some p \<Longrightarrow> qpc_ok s' k L (lr_pc s u)"
  shows "lq_inv s' k L"
proof -
  have sel: "lr_ptrs s' = lr_ptrs s" "lr_log s' = lr_log s" "lr_out s' = lr_out s" "lr_pool s' = lr_pool s" "lr_pc s' = lr_pc s"
      "lq_queueId (lr_q s') = lq_queueId (lr_q s)" "lq_head (lr_q s') = lq_head (lr_q s)" "lq_tail (lr_q s') = lq_tail (lr_q s)"
      "nxt_of s' = (nxt_of s)(p := w)" "lq_data (lr_q s') = (lq_data (lr_q s))(p := z)"
    by (simp_all add: s' set_next_def set_data_def)
  note lo = lq_invD(1) [OF i]
  have "list_ok (lq_queueId (lr_q s)) (nxt_of s') (lq_data (lr_q s')) (lr_ptrs s) (lr_log s) (hd_pos s) k L (lr_pool s)"
    by (rule list_mem [OF lo]) (use p in \<open>auto simp: sel\<close>)
  moreover have "qpc_ok s' k L (lr_pc s u)" for u
  proof (cases "fresh_of (lr_pc s u) = Some p")
    case False
    have "watch_ok s' L v j" if "watching (lr_pc s u) = Some v" "watch_ok s L v j" for v j
      using that wat [OF that(1)] by (auto simp: watch_ok_def sel)
    then show ?thesis
      by (intro qpc_keep [where zs = "[]" and ys = "[]", OF lq_invD(8) [OF i]])
        (use list_okD(1,6) [OF lo] False in \<open>auto simp: sel\<close>)
  qed (rule fr)
  ultimately show ?thesis using i unfolding lq_inv_def lq_ok_def sel by blast
qed

lemma step_alloc:
  assumes i: "lq_inv s k L" and p: "p \<in> lr_pool s" "unwatched s p" and t: "lr_pc s t = QIdle"
  shows "lq_inv ((at t (EData p x) s)\<lparr>lr_pool := lr_pool s - {p}\<rparr>) k L"
proof -
  let ?s = "(at t (EData p x) s)\<lparr>lr_pool := lr_pool s - {p}\<rparr>"
  note lo = lq_invD(1) [OF i]
  have "own_ok (lq_queueId (lr_q s)) ((lr_pc s)(t := EData p x)) (lr_pool s - {p}) (ptr_at (lr_ptrs s) ` L)"
    by (rule own_alloc [OF lq_invD(6) [OF i]]) (use p t lq_invD(5) [OF i] list_okD(13) [OF lo] in \<open>auto simp: unwatched_def\<close>)
  moreover have "qpc_ok ?s k L q = qpc_ok s k L q" for q by (cases q) (simp_all add: watch_ok_def ready_def succ_at_def)
  moreover have "list_ok (lq_queueId (lr_q s)) (nxt_of s) (lq_data (lr_q s)) (lr_ptrs s) (lr_log s) (hd_pos s) k L (lr_pool s - {p})"
    by (rule list_pool [OF lo]) blast
  moreover have "\<exists>u. fixing (((lr_pc s)(t := EData p x)) u) = Some (lr_ptrs s ! k)" if k: "k < hd_pos s"
  proof -
    obtain u where u: "fixing (lr_pc s u) = Some (lr_ptrs s ! k)" using lq_invD(7) [OF i k] by blast
    moreover from u t have "u \<noteq> t" by auto
    ultimately show ?thesis by auto
  qed
  ultimately show ?thesis using i unfolding lq_inv_def lq_ok_def by simp
qed

lemma step_free:
  assumes i: "lq_inv s k L" and t: "lr_pc s t = DFree w x"
  shows "\<exists>L'. lq_inv ((at t (DSize x) s)\<lparr>lr_pool := insert (ptr_of w) (lr_pool s)\<rparr>) k L'"
proof -
  let ?s = "(at t (DSize x) s)\<lparr>lr_pool := insert (ptr_of w) (lr_pool s)\<rparr>" and ?P = "lr_ptrs s" and ?e = "lq_queueId (lr_q s)"
  note lo = lq_invD(1) [OF i]
  obtain m where m: "m < hd_pos s" "m \<in> L" "?P ! m = w" "m < k" using lq_invD(8) [OF i, of t] t by auto
  have pm: "ptr_at ?P m = ptr_of w" using m(3) by (simp add: ptr_at_def)
  have l: "list_ok ?e (nxt_of s) (lq_data (lr_q s)) ?P (lr_log s) (hd_pos s) k (L - {m}) (insert (ptr_of w) (lr_pool s))"
    using list_free [OF lo m(1) _ m(2)] m(4) pm by simp
  have nx: "nxt_of s (ptr_of w) \<noteq> ?e"
    using list_okD(14) [OF lo m(2)] list_okD(2,9) [OF lo] m(1) pm by simp
  have "inj_on (ptr_at ?P) L" by (rule list_okD(8) [OF lo])
  then have A: "ptr_at ?P ` L - {ptr_of w} = ptr_at ?P ` (L - {m})" using m(2) pm by (auto simp: inj_on_def)
  have "own_ok ?e ((lr_pc s)(t := DSize x)) (lr_pool s) (ptr_at ?P ` L)"
    by (rule own_move [OF lq_invD(6) [OF i]]) simp_all
  moreover have "ptr_of w \<in> ptr_at ?P ` L" using imageI [OF m(2), of "ptr_at ?P"] pm by simp
  ultimately have own: "own_ok ?e ((lr_pc s)(t := DSize x)) (insert (ptr_of w) (lr_pool s)) (ptr_at ?P ` (L - {m}))"
    using own_free A by fastforce
  have wt: "watch_ok ?s (L - {m}) v j" if "watch_ok s L v j" for v j
    using that nx m(3) by (cases "j = m") (auto simp: watch_ok_def)
  have "qpc_ok ?s k (L - {m}) (lr_pc s u)" if "u \<noteq> t" for u
  proof (rule qpc_keep [where zs = "[]" and ys = "[]", OF lq_invD(8) [OF i]])
    show "j \<in> L - {m}" if "removed (lr_pc s u) = Some v" "j \<in> L" "j < length ?P" "?P ! j = v" for v j
      using own_okD(6) [OF lq_invD(6) [OF i] that(1), of t] that \<open>u \<noteq> t\<close> t m(3) by auto
  qed (use list_okD(1,6) [OF lo] wt in simp_all)
  then have "qpc_ok ?s k (L - {m}) (((lr_pc s)(t := DSize x)) u)" for u by simp
  moreover have "\<exists>u. fixing (((lr_pc s)(t := DSize x)) u) = Some (?P ! k)" if k: "k < hd_pos s"
  proof -
    obtain u where u: "fixing (lr_pc s u) = Some (?P ! k)" using lq_invD(7) [OF i k] by blast
    moreover from u t have "u \<noteq> t" by auto
    ultimately show ?thesis by auto
  qed
  moreover have "node_ok ?e (ptr_of w)" using list_okD(12) [OF lo m(2)] pm by simp
  ultimately show ?thesis using i l own unfolding lq_inv_def lq_ok_def by (intro exI [of _ "L - {m}"]) simp
qed

text \<open>A pointer that compares equal is at the position it was read at: its node has not been used again.\<close>

lemma watch_same:
  assumes "watch_ok s L w i" and "i \<le> j" and "j < length (lr_ptrs s)" and "lr_ptrs s ! j = w"
  shows "i = j"
proof (rule ccontr)
  assume "i \<noteq> j"
  then have "ptr_at (lr_ptrs s) j \<noteq> ptr_of w" using assms(1-3) by (simp add: watch_ok_def)
  then show False using assms(4) by (simp add: ptr_at_def)
qed

lemma watch_tail: "lq_inv s k L \<Longrightarrow> watch_ok s L w i \<Longrightarrow> i \<le> k \<Longrightarrow> lq_tail (lr_q s) = w \<Longrightarrow> i = k"
  using watch_same list_okD(10) [OF lq_invD(1), of s k L] lq_invD(3) [of s k L] by simp

lemma watch_head: "lq_inv s k L \<Longrightarrow> watch_ok s L w i \<Longrightarrow> i \<le> hd_pos s \<Longrightarrow> lq_head (lr_q s) = w \<Longrightarrow> i = hd_pos s"
  using watch_same list_okD(2) [OF lq_invD(1), of s k L] lq_invD(2) [of s k L] by simp

lemma removed_pos:
  assumes "lq_inv s k L" and "removed (lr_pc s t) = Some w"
  obtains i where "i < hd_pos s" "i \<in> L" "lr_ptrs s ! i = w"
  using lq_invD(8) [OF assms(1), of t] assms(2) by (cases "lr_pc s t") auto

lemma same_pos:
  assumes "lq_inv s k L" and "i \<in> L" and "j \<in> L" and "lr_ptrs s ! i = lr_ptrs s ! j"
  shows "i = j"
  using inj_onD [OF list_okD(8) [OF lq_invD(1) [OF assms(1)]], of i j] assms(2-4) by (simp add: ptr_at_def)

lemma read_pos:
  assumes i: "lq_inv s k L" and j: "j \<in> L" "\<forall>m. j < m \<longrightarrow> m < length (lr_ptrs s) \<longrightarrow> m \<in> L"
  shows "watch_ok s L (lr_ptrs s ! j) j"
proof -
  have "ptr_at (lr_ptrs s) m \<noteq> ptr_at (lr_ptrs s) j" if "j < m" "m < length (lr_ptrs s)" for m
    using inj_onD [OF list_okD(8) [OF lq_invD(1) [OF i]], of m j] j that by auto
  then show ?thesis using j list_okD(6) [OF lq_invD(1) [OF i]] by (auto simp: watch_ok_def ptr_at_def)
qed

lemma live_next:
  assumes i: "lq_inv s k L" and "j \<in> L" and "lr_ptrs s ! j = w"
  shows "nxt_of s (ptr_of w) = lq_queueId (lr_q s) \<longleftrightarrow> Suc j = length (lr_ptrs s)"
    and "Suc j < length (lr_ptrs s) \<Longrightarrow> succ_at s j (nxt_of s (ptr_of w))"
proof -
  note lo = lq_invD(1) [OF i]
  have pj: "ptr_at (lr_ptrs s) j = ptr_of w" using assms(3) by (simp add: ptr_at_def)
  show "nxt_of s (ptr_of w) = lq_queueId (lr_q s) \<longleftrightarrow> Suc j = length (lr_ptrs s)"
    using list_last [OF lo assms(2)] list_okD(14) [OF lo assms(2)] pj by auto
  show "Suc j < length (lr_ptrs s) \<Longrightarrow> succ_at s j (nxt_of s (ptr_of w))"
    using list_okD(14) [OF lo assms(2)] pj by (simp add: succ_at_def)
qed

lemma step_take:
  assumes i: "lq_inv s k L" and t: "lr_pc s t = DSwing w nx x" and hd: "lq_head (lr_q s) = w"
  shows "lq_inv ((at t (DWon w x) (inq (lq_head_update (\<lambda>_. nx)) s))\<lparr>lr_out := lr_out s @ [x]\<rparr>) k L"
proof -
  let ?s = "(at t (DWon w x) (inq (lq_head_update (\<lambda>_. nx)) s))\<lparr>lr_out := lr_out s @ [x]\<rparr>" and ?P = "lr_ptrs s" and ?h = "hd_pos s"
  note lo = lq_invD(1) [OF i]
  obtain m where m: "m \<le> ?h" "watch_ok s L w m" "m = ?h \<longrightarrow> succ_at s m nx \<and> x = lr_log s ! m"
    using lq_invD(8) [OF i, of t] t by auto
  then have su: "succ_at s ?h nx" "x = lr_log s ! ?h" using watch_head [OF i m(2,1) hd] by simp_all
  have h: "Suc ?h < length ?P" "?h < length (lr_log s)" "?P ! ?h = w" "?h \<le> k"
    using su list_okD(1,4) [OF lo] hd lq_invD(2) [OF i] by (simp_all add: succ_at_def)
  have no: "removed (lr_pc s u) \<noteq> Some w" for u
  proof
    assume "removed (lr_pc s u) = Some w"
    then obtain j where "j < ?h" "j \<in> L" "?P ! j = w" by (rule removed_pos [OF i])
    then show False using same_pos [OF i _ list_okD(11) [OF lo], of j] h(3) by simp
  qed
  have own: "own_ok (lq_queueId (lr_q s)) ((lr_pc s)(t := DWon w x)) (lr_pool s) (ptr_at ?P ` L)"
    by (rule own_win [OF lq_invD(6) [OF i] _ _ _ no]) simp_all
  have "qpc_ok ?s k L (lr_pc s u)" for u
    by (rule qpc_keep [where zs = "[]" and ys = "[]", OF lq_invD(8) [OF i]])
      (use list_okD(1,6) [OF lo] in \<open>simp_all add: watch_ok_def\<close>)
  moreover have "qpc_ok ?s k L (DWon w x)" using list_okD(11) [OF lo] h(3) by auto
  ultimately have "qpc_ok ?s k L (((lr_pc s)(t := DWon w x)) u)" for u by simp
  moreover have "\<exists>u. fixing (((lr_pc s)(t := DWon w x)) u) = Some (?P ! k)" if "k < Suc ?h"
  proof -
    have "k = ?h" using that h(4) by linarith
    then show ?thesis using h(3) by (intro exI [of _ t]) simp
  qed
  moreover have "lr_out s @ [x] = List.take (Suc ?h) (lr_log s)"
    using su(2) take_Suc_conv_app_nth [OF h(2)] lq_invD(4) [OF i] by presburger
  ultimately show ?thesis
    using i own list_take [OF lo h(1)] su(1) unfolding lq_inv_def lq_ok_def
    by (simp add: succ_at_def min.absorb2 [OF Suc_leI [OF h(2)]])
qed

lemma step_link:
  assumes i: "lq_inv s k L" and t: "lr_pc s t = ELink nt x w" and nx: "nxt_of s (ptr_of w) = lq_queueId (lr_q s)"
  shows "\<exists>L'. lq_inv ((at t (ESwing nt x w) (inq (set_next (ptr_of w) nt) s))\<lparr>lr_ptrs := lr_ptrs s @ [nt], lr_log := lr_log s @ [x]\<rparr>) k L'"
proof -
  let ?P = "lr_ptrs s" and ?e = "lq_queueId (lr_q s)" and ?L = "insert (length (lr_ptrs s)) L"
  define s' where "s' = (at t (ESwing nt x w) (inq (set_next (ptr_of w) nt) s))\<lparr>lr_ptrs := ?P @ [nt], lr_log := lr_log s @ [x]\<rparr>"
  have sel: "lr_ptrs s' = ?P @ [nt]" "lr_log s' = lr_log s @ [x]" "lr_out s' = lr_out s" "lr_pool s' = lr_pool s"
      "lr_pc s' = (lr_pc s)(t := ESwing nt x w)" "lq_queueId (lr_q s') = ?e" "lq_head (lr_q s') = lq_head (lr_q s)"
      "lq_tail (lr_q s') = lq_tail (lr_q s)" "nxt_of s' = (nxt_of s)(ptr_of w := nt)" "lq_data (lr_q s') = lq_data (lr_q s)"
    by (simp_all add: s'_def set_next_def)
  note lo = lq_invD(1) [OF i] and oo = lq_invD(6) [OF i]
  have rdy: "ready s (ptr_of nt) x" using lq_invD(8) [OF i, of t] t by simp
  obtain m where m: "m \<le> k" "watch_ok s L w m" using lq_invD(8) [OF i, of t] t by auto
  have mL: "m \<in> L" "?P ! m = w" "ptr_at ?P m = ptr_of w" using m(2) nx by (auto simp: watch_ok_def ptr_at_def)
  have last: "Suc m = length ?P" using live_next(1) [OF i mL(1,2)] nx by simp
  have fr: "fresh_of (lr_pc s t) = Some (ptr_of nt)" "watching (lr_pc s t) = Some w" using t by simp_all
  have nt: "node_ok ?e (ptr_of nt)" "ptr_of nt \<notin> lr_pool s" "ptr_of nt \<notin> ptr_at ?P ` L" "nt \<noteq> ?e"
    using own_okD(1-3) [OF oo fr(1)] node_ok_pointer [OF own_okD(1) [OF oo fr(1)]] by blast+
  have l: "list_ok ?e (nxt_of s') (lq_data (lr_q s)) (?P @ [nt]) (lr_log s @ [x]) (hd_pos s) k ?L (lr_pool s)"
    using list_link [OF lo last mL(1) m(1) nt(1-3)] rdy mL(3) by (simp add: sel ready_def)
  have "own_ok ?e ((lr_pc s)(t := ESwing nt x w)) (lr_pool s) (insert (ptr_of nt) (ptr_at ?P ` L))"
    by (rule own_link [OF oo fr(1)]) (use fr(2) in simp_all)
  moreover have "ptr_at (?P @ [nt]) ` ?L = insert (ptr_of nt) (ptr_at ?P ` L)"
  proof -
    have "ptr_at (?P @ [nt]) ` L = ptr_at ?P ` L" using list_okD(6) [OF lo] by (intro image_cong) auto
    then show ?thesis by simp
  qed
  ultimately have own: "own_ok ?e ((lr_pc s)(t := ESwing nt x w)) (lr_pool s) (ptr_at (?P @ [nt]) ` ?L)" by simp
  have wat: "watch_ok s' ?L v j" if "watch_ok s L v j" "ptr_of v \<noteq> ptr_of nt" for v j
    using that nt(4) by (auto simp: watch_ok_def sel nth_append less_Suc_eq)
  have "qpc_ok s' k ?L (lr_pc s u)" if "u \<noteq> t" for u
  proof (rule qpc_keep [where zs = "[nt]" and ys = "[x]", OF lq_invD(8) [OF i]])
    show "watch_ok s' ?L v j" if "watching (lr_pc s u) = Some v" "watch_ok s L v j" for v j
      using wat [OF that(2)] own_okD(4) [OF oo fr(1) that(1)] by blast
    show "lq_data (lr_q s') p = lq_data (lr_q s) p \<and> nxt_of s' p = nxt_of s p" if "fresh_of (lr_pc s u) = Some p" for p
      using own_okD(4) [OF oo that fr(2)] by (auto simp: sel)
  qed (use list_okD(1,6) [OF lo] in \<open>simp_all add: sel\<close>)
  moreover have "qpc_ok s' k ?L (ESwing nt x w)"
  proof -
    have "watch_ok s' ?L w m" using wat [OF m(2)] own_okD(4) [OF oo fr] by blast
    moreover have "succ_at s' m nt" using last by (simp add: succ_at_def sel nth_append)
    ultimately show ?thesis using m(1) by auto
  qed
  ultimately have "qpc_ok s' k ?L (lr_pc s' u)" for u by (simp add: sel)
  moreover have "\<exists>u. fixing (lr_pc s' u) = Some (?P ! k)" if k: "k < hd_pos s"
  proof -
    obtain u where u: "fixing (lr_pc s u) = Some (?P ! k)" using lq_invD(7) [OF i k] by blast
    moreover from u t have "u \<noteq> t" by auto
    ultimately show ?thesis by (auto simp: sel)
  qed
  ultimately have "lq_inv s' k ?L"
    using i l own list_okD(1,2,10) [OF lo] unfolding lq_inv_def lq_ok_def by (simp add: sel nth_append)
  then show ?thesis unfolding s'_def by blast
qed

subsection \<open>Every step keeps the invariant\<close>

lemma set_same:
  "set_next p (lq_next q p) q = q" "set_data p (lq_data q p) q = q"
  by (simp_all add: set_next_def set_data_def)

lemma step_write:
  assumes i: "lq_inv s k L" and t: "lr_pc s t = EData p x"
  shows "lq_inv (at t (ENext p x) (inq (set_data p x) s)) k L"
proof -
  let ?s = "inq (set_data p x) s"
  note own = own_okD [OF lq_invD(6) [OF i], of t p]
  have "?s = inq (set_next p (nxt_of s p) \<circ> set_data p x) s" by (simp add: set_next_def set_data_def)
  then have "lq_inv ?s k L"
    by (rule step_mem [OF i, rotated]) (use own t in \<open>auto dest: own(5)\<close>)
  then show ?thesis by (rule step_pc) (use t in \<open>simp_all add: set_data_def\<close>)
qed

lemma step_mark:
  assumes i: "lq_inv s k L" and t: "lr_pc s t = ENext p x"
  shows "lq_inv (at t (ECount p x) (inq (set_next p (lq_queueId (lr_q s))) s)) k L"
proof -
  let ?s = "inq (set_next p (lq_queueId (lr_q s))) s"
  note own = own_okD [OF lq_invD(6) [OF i], of t p]
  have x: "lq_data (lr_q s) p = x" using lq_invD(8) [OF i, of t] t by simp
  have "?s = inq (set_next p (lq_queueId (lr_q s)) \<circ> set_data p (lq_data (lr_q s) p)) s" by (simp add: set_same)
  then have "lq_inv ?s k L"
  proof (rule step_mem [OF i, rotated])
    show "qpc_ok ?s k L (lr_pc s u)" if "fresh_of (lr_pc s u) = Some p" for u
    proof -
      have "u = t" using own(5) [OF _ that] t by simp
      then show ?thesis using t x by (simp add: set_next_def)
    qed
  qed (use own t in auto)
  then show ?thesis by (rule step_pc) (use t x in \<open>simp_all add: set_next_def ready_def\<close>)
qed

lemma step_others:
  assumes i: "lq_inv s k L" and "p \<in> lr_pool s" and "w \<noteq> lq_queueId (lr_q s)"
  shows "lq_inv (inq (set_next p w \<circ> set_data p z) s) k L"
proof (rule step_mem [OF i _ refl])
  show "p \<notin> ptr_at (lr_ptrs s) ` L" using list_okD(13) [OF lq_invD(1) [OF i]] assms(2) by blast
  show "qpc_ok s' k L (lr_pc s u)" if "fresh_of (lr_pc s u) = Some p" for s' u
    using own_okD(2) [OF lq_invD(6) [OF i] that] assms(2) by blast
qed (rule assms(3))

lemma step_count:
  assumes i: "lq_inv s k L" and t: "lr_pc s t = ECount p x"
  shows "lq_inv (at t (ELoop (tag_tail p c) x) s) k L"
proof -
  have "node_ok (lq_queueId (lr_q s)) p" using own_okD(1) [OF lq_invD(6) [OF i], of t p] t by simp
  then have p: "ptr_of (tag_tail p c) = p" by (simp add: node_ok_def tag_tail_ptr)
  show ?thesis by (rule step_pc [OF i]) (use lq_invD(8) [OF i, of t] t p in simp_all)
qed

lemma step_read_tail:
  assumes i: "lq_inv s k L" and t: "lr_pc s t = ELoop nt x"
  shows "lq_inv (at t (ETail nt x (lq_tail (lr_q s))) s) k L"
proof -
  note lo = lq_invD(1) [OF i]
  have "\<forall>m. k < m \<longrightarrow> m < length (lr_ptrs s) \<longrightarrow> m \<in> L" using list_okD(5,7) [OF lo] by (auto simp: subset_iff)
  then have "watch_ok s L (lq_tail (lr_q s)) k" using read_pos [OF i list_okD(3) [OF lo]] lq_invD(3) [OF i] by simp
  moreover have "ptr_of (lq_tail (lr_q s)) \<in> ptr_at (lr_ptrs s) ` L"
    using list_okD(3) [OF lo] lq_invD(3) [OF i] by (auto simp: ptr_at_def)
  ultimately show ?thesis by (intro step_pc [OF i]) (use lq_invD(8) [OF i, of t] t in auto)
qed

lemma step_read_head:
  assumes i: "lq_inv s k L" and t: "lr_pc s t = DLoop"
  shows "lq_inv (at t (DHead (lq_head (lr_q s))) s) k L"
proof -
  note lo = lq_invD(1) [OF i]
  have "\<forall>m. hd_pos s < m \<longrightarrow> m < length (lr_ptrs s) \<longrightarrow> m \<in> L" using list_okD(7) [OF lo] by (auto simp: subset_iff)
  then have "watch_ok s L (lq_head (lr_q s)) (hd_pos s)" using read_pos [OF i list_okD(11) [OF lo]] lq_invD(2) [OF i] by simp
  moreover have "ptr_of (lq_head (lr_q s)) \<in> ptr_at (lr_ptrs s) ` L"
    using list_okD(11) [OF lo] lq_invD(2) [OF i] by (auto simp: ptr_at_def)
  ultimately show ?thesis by (intro step_pc [OF i]) (use t in auto)
qed

lemma step_not_at_end:
  assumes i: "lq_inv s k L" and t: "lr_pc s t = ETail nt x w" and nx: "nxt_of s (ptr_of w) \<noteq> lq_queueId (lr_q s)"
  shows "lq_inv (at t (EReload nt x w) s) k L"
proof -
  note lo = lq_invD(1) [OF i]
  obtain m where m: "m \<le> k" "watch_ok s L w m" "ready s (ptr_of nt) x" using lq_invD(8) [OF i, of t] t by auto
  have "Suc m < length (lr_ptrs s)" if "m = k"
    using live_next(1) [OF i list_okD(3) [OF lo], of w] m(2) nx that by (auto simp: watch_ok_def)
  then show ?thesis by (intro step_pc [OF i]) (use t m in auto)
qed

lemma step_reload:
  assumes i: "lq_inv s k L" and t: "lr_pc s t = EReload nt x w"
  shows "lq_inv (at t (EHelp nt x w (nxt_of s (ptr_of w))) s) k L"
proof -
  note lo = lq_invD(1) [OF i]
  obtain m where m: "m \<le> k" "watch_ok s L w m" "m = k \<longrightarrow> Suc m < length (lr_ptrs s)" "ready s (ptr_of nt) x"
    using lq_invD(8) [OF i, of t] t by auto
  have "succ_at s m (nxt_of s (ptr_of w))" if "m = k"
    using live_next(2) [OF i list_okD(3) [OF lo], of w] m(2,3) that by (auto simp: watch_ok_def)
  then show ?thesis by (intro step_pc [OF i]) (use t m in auto)
qed

lemma step_lend:
  assumes i: "lq_inv s k L" and t: "lr_pc s t = EHelp nt x w nx" and w: "lq_tail (lr_q s) = w"
  shows "lq_inv (at t (ELoop nt x) (inq (lq_tail_update (\<lambda>_. nx)) s)) (Suc k) L"
proof -
  obtain m where m: "m \<le> k" "watch_ok s L w m" "m = k \<longrightarrow> succ_at s m nx" "ready s (ptr_of nt) x"
    using lq_invD(8) [OF i, of t] t by auto
  then have "succ_at s k nx" using watch_tail [OF i m(2,1) w] by simp
  from step_tail [OF i this] show ?thesis by (rule step_pc) (use t m(4) in \<open>simp_all add: ready_def\<close>)
qed

lemma step_swing:
  assumes i: "lq_inv s k L" and t: "lr_pc s t = ESwing nt x w" and w: "lq_tail (lr_q s) = w"
  shows "lq_inv (at t (ESize x) (inq (lq_tail_update (\<lambda>_. nt)) s)) (Suc k) L"
proof -
  obtain m where m: "m \<le> k" "watch_ok s L w m" "succ_at s m nt" using lq_invD(8) [OF i, of t] t by auto
  then have "succ_at s k nt" using watch_tail [OF i m(2,1) w] by simp
  from step_tail [OF i this] show ?thesis by (rule step_pc) (use t in simp_all)
qed

lemma ptr_of_le: "ptr_of w \<le> w"
  unfolding ptr_of_def by (rule word_and_le2)

lemma step_read_next:
  assumes i: "lq_inv s k L" and t: "lr_pc s t = DHead w" and nx: "\<not> ptr_of (nxt_of s (ptr_of w)) < 64000"
  shows "lq_inv (at t (DNode w (nxt_of s (ptr_of w))) s) k L"
proof -
  note lo = lq_invD(1) [OF i]
  obtain m where m: "m \<le> hd_pos s" "watch_ok s L w m" using lq_invD(8) [OF i, of t] t by auto
  have "lq_queueId (lr_q s) < 64000" using list_okD(12) [OF lo list_okD(11) [OF lo]] by (simp add: node_ok_def)
  then have ne: "nxt_of s (ptr_of w) \<noteq> lq_queueId (lr_q s)"
    using nx order_le_less_trans [OF ptr_of_le [of "nxt_of s (ptr_of w)"], of 64000] by auto
  have "succ_at s m (nxt_of s (ptr_of w))" if "m = hd_pos s"
  proof -
    have w: "lr_ptrs s ! hd_pos s = w" using m(2) that by (simp add: watch_ok_def)
    then have "Suc (hd_pos s) < length (lr_ptrs s)"
      using live_next(1) [OF i list_okD(11) [OF lo]] ne list_okD(2) [OF lo] by fastforce
    then show ?thesis using live_next(2) [OF i list_okD(11) [OF lo] w] that by simp
  qed
  then show ?thesis by (intro step_pc [OF i]) (use t m in auto)
qed

lemma step_read_data:
  assumes i: "lq_inv s k L" and t: "lr_pc s t = DNode w nx"
  shows "lq_inv (at t (DSwing w nx (lq_data (lr_q s) (ptr_of nx))) s) k L"
proof -
  note lo = lq_invD(1) [OF i]
  obtain m where m: "m \<le> hd_pos s" "watch_ok s L w m" "m = hd_pos s \<longrightarrow> succ_at s m nx" using lq_invD(8) [OF i, of t] t by auto
  have "lq_data (lr_q s) (ptr_of nx) = lr_log s ! m" if h: "m = hd_pos s"
  proof -
    have "ptr_at (lr_ptrs s) (Suc m) = ptr_of nx" "m < length (lr_log s)"
      using m(3) h list_okD(1) [OF lo] by (simp_all add: succ_at_def ptr_at_def)
    then show ?thesis using list_okD(15) [OF lo, of m] h by simp
  qed
  then show ?thesis by (intro step_pc [OF i]) (use t m in auto)
qed

lemma step_leave_tail:
  assumes i: "lq_inv s k L" and t: "lr_pc s t = DWon w x \<or> lr_pc s t = DHelp w x nx" and w: "lq_tail (lr_q s) \<noteq> w"
  shows "lq_inv (at t (DFree w x) s) k L"
proof -
  obtain m where m: "m < hd_pos s" "m \<in> L" "lr_ptrs s ! m = w" using lq_invD(8) [OF i, of t] t by auto
  have "m \<noteq> k" using m(3) w lq_invD(3) [OF i] by blast
  then have "m < k" using m(1) list_okD(5) [OF lq_invD(1) [OF i]] by linarith
  then show ?thesis by (intro step_pc [OF i]) (use t m w lq_invD(3) [OF i] in auto)
qed

lemma step_fix_next:
  assumes i: "lq_inv s k L" and t: "lr_pc s t = DFix w x"
  shows "lq_inv (at t (DHelp w x (nxt_of s (ptr_of w))) s) k L"
proof -
  obtain m where m: "m < hd_pos s" "m \<in> L" "lr_ptrs s ! m = w" using lq_invD(8) [OF i, of t] t by auto
  have "succ_at s m (nxt_of s (ptr_of w))"
    using live_next(2) [OF i m(2,3)] m(1) list_okD(2) [OF lq_invD(1) [OF i]] by simp
  then show ?thesis by (intro step_pc [OF i]) (use t m in auto)
qed

lemma step_fix_tail:
  assumes i: "lq_inv s k L" and t: "lr_pc s t = DHelp w x nx" and w: "lq_tail (lr_q s) = w"
  shows "lq_inv (at t (DFree w x) (inq (lq_tail_update (\<lambda>_. nx)) s)) (Suc k) L"
proof -
  note lo = lq_invD(1) [OF i]
  obtain m where m: "m < hd_pos s" "m \<in> L" "lr_ptrs s ! m = w" "succ_at s m nx" using lq_invD(8) [OF i, of t] t by auto
  have "m = k" using same_pos [OF i m(2) list_okD(3) [OF lo]] m(3) w lq_invD(3) [OF i] by simp
  then have "lq_inv (inq (lq_tail_update (\<lambda>_. nx)) s) (Suc k) L" using step_tail [OF i] m(4) by simp
  then show ?thesis
    by (rule step_pc) (use t m \<open>m = k\<close> list_okD(5) [OF lo] in auto)
qed

lemma lq_step_inv:
  assumes "lq_step True n s l s'" and i: "lq_inv s k L"
  shows "\<exists>k' L'. lq_inv s' k' L'"
  using assms(1)
proof cases
  case (alloc t p x)
  then show ?thesis using step_alloc [OF i] by blast
next
  case (count t p x)
  let ?s = "inq (lq_tailCount_update (\<lambda>c. c + 1)) s"
  have "lq_inv (at t (ELoop (tag_tail p (lq_tailCount (lr_q s) + 1)) x) ?s) k L"
    by (rule step_count) (use i count in simp_all)
  then show ?thesis using count by blast
next
  case (at_end t nt x w)
  have "lq_inv s' k L" unfolding at_end(2) by (rule step_pc [OF i]) (use lq_invD(8) [OF i, of t] at_end in auto)
  then show ?thesis by blast
next
  case (link_failed t nt x w)
  have "lq_inv s' k L" unfolding link_failed(2) by (rule step_pc [OF i]) (use lq_invD(8) [OF i, of t] link_failed in auto)
  then show ?thesis by blast
next
  case (swing_failed t nt x w)
  have "lq_inv s' k L" unfolding swing_failed(2) by (rule step_pc [OF i]) (use swing_failed in auto)
  then show ?thesis by blast
next
  case (lend_failed t nt x w nx)
  have "lq_inv s' k L" unfolding lend_failed(2) by (rule step_pc [OF i]) (use lq_invD(8) [OF i, of t] lend_failed in auto)
  then show ?thesis by blast
next
  case (size_positive t)
  have "lq_inv s' k L" unfolding size_positive(2) by (rule step_pc [OF i]) (use size_positive in auto)
  then show ?thesis by blast
next
  case (no_next t w)
  have "lq_inv s' k L" unfolding no_next(2) by (rule step_pc [OF i]) (use no_next in auto)
  then show ?thesis by blast
next
  case (take_failed t w nx x)
  have "lq_inv s' k L" unfolding take_failed(2) by (rule step_pc [OF i]) (use take_failed in auto)
  then show ?thesis by blast
next
  case (was_tail t w x)
  have "lq_inv s' k L" unfolding was_tail(2) by (rule step_pc [OF i]) (use lq_invD(8) [OF i, of t] was_tail in auto)
  then show ?thesis by blast
next
  case (enqueued t x)
  have "lq_inv (at t QIdle (inq (lq_size_update (\<lambda>k. k + 1)) s)) k L" by (rule step_pc) (use i enqueued in auto)
  then show ?thesis using enqueued by blast
next
  case (dequeued t x)
  have "lq_inv (at t QIdle (inq (lq_size_update (\<lambda>k. k - 1)) s)) k L" by (rule step_pc) (use i dequeued in auto)
  then show ?thesis using dequeued by blast
next
  case (write_data t p x)
  show ?thesis unfolding write_data(2) using step_write [OF i write_data(4)] by blast
next
  case (write_next t p x)
  show ?thesis unfolding write_next(2) using step_mark [OF i write_next(4)] by blast
next
  case (read_tail t nt x)
  show ?thesis unfolding read_tail(2) using step_read_tail [OF i read_tail(4)] by blast
next
  case (not_at_end t nt x w)
  show ?thesis unfolding not_at_end(2) using step_not_at_end [OF i not_at_end(4,5)] by blast
next
  case (link t nt x w)
  show ?thesis unfolding link(2) using step_link [OF i link(4,5)] by blast
next
  case (swing t nt x w)
  show ?thesis unfolding swing(2) using step_swing [OF i swing(4,5)] by blast
next
  case (reload t nt x w)
  show ?thesis unfolding reload(2) using step_reload [OF i reload(4)] by blast
next
  case (lend t nt x w nx)
  show ?thesis unfolding lend(2) using step_lend [OF i lend(4,5)] by blast
next
  case (read_head t)
  show ?thesis unfolding read_head(2) using step_read_head [OF i read_head(4)] by blast
next
  case (read_next t w)
  show ?thesis unfolding read_next(2) using step_read_next [OF i read_next(4,5)] by blast
next
  case (read_data t w nx)
  show ?thesis unfolding read_data(2) using step_read_data [OF i read_data(4)] by blast
next
  case (take t w nx x)
  show ?thesis unfolding take(2) using step_take [OF i take(4,5)] by blast
next
  case (not_tail t w x)
  show ?thesis unfolding not_tail(2) using step_leave_tail [OF i disjI1 [OF not_tail(4)] not_tail(5)] by blast
next
  case (fix_next t w x)
  show ?thesis unfolding fix_next(2) using step_fix_next [OF i fix_next(4)] by blast
next
  case (fix_tail t w x nx)
  show ?thesis unfolding fix_tail(2) using step_fix_tail [OF i fix_tail(4,5)] by blast
next
  case (fix_failed t w x nx)
  show ?thesis unfolding fix_failed(2) using step_leave_tail [OF i disjI2 [OF fix_failed(4)] fix_failed(5)] by blast
next
  case (free t w x)
  show ?thesis unfolding free(2) using step_free [OF i free(4)] by blast
next
  case (others p w z)
  show ?thesis unfolding others(2) using step_others [OF i others(3,4)] by blast
next
  case (size_zero t)
  show ?thesis unfolding size_zero(2) using i by blast
qed

lemma lq_new_inv:
  assumes "node_ok e dummy" and "\<forall>a\<in>pool. node_ok e a" and "dummy \<notin> pool"
  shows "lq_inv (lr_new e nx dat dummy pool) 0 {0}"
proof -
  have d: "ptr_at [dummy] 0 = dummy" using assms(1) by (simp add: ptr_at_def node_ok_def ptr_of_def)
  have "dummy \<noteq> e" by (rule node_ok_pointer [OF assms(1)]) (use assms(1) in \<open>simp add: node_ok_def ptr_of_def\<close>)
  then show ?thesis
    using assms d by (auto simp: lq_inv_def lq_ok_def list_ok_def own_ok_def lr_new_def tq_new_def)
qed

lemma lq_exec_inv:
  assumes "lq_exec True n s0 ls s" and "lq_inv s0 k L"
  shows "\<exists>k L. lq_inv s k L"
  using assms by (induction rule: lq_exec.induct) (blast dest: lq_step_inv)+

subsection \<open>Calls that have returned\<close>

fun enq_vals :: "'a qlabel list \<Rightarrow> 'a list" where
  "enq_vals [] = []"
| "enq_vals (Enqueued x # ls) = x # enq_vals ls"
| "enq_vals (_ # ls) = enq_vals ls"

fun deq_vals :: "'a qlabel list \<Rightarrow> 'a list" where
  "deq_vals [] = []"
| "deq_vals (Dequeued x # ls) = x # deq_vals ls"
| "deq_vals (_ # ls) = deq_vals ls"

lemma vals_append [simp]:
  "enq_vals (ls @ ls') = enq_vals ls @ enq_vals ls'" "deq_vals (ls @ ls') = deq_vals ls @ deq_vals ls'"
  by (induction ls rule: enq_vals.induct; simp) (induction ls rule: deq_vals.induct; simp)

text \<open>What a running call has linked or taken and not yet counted.\<close>

fun linked_by :: "'a qpc \<Rightarrow> 'a multiset" where
  "linked_by (ESwing nt x w) = {#x#}"
| "linked_by (ESize x) = {#x#}"
| "linked_by _ = {#}"

fun taken_by :: "'a qpc \<Rightarrow> 'a multiset" where
  "taken_by (DWon w x) = {#x#}"
| "taken_by (DFix w x) = {#x#}"
| "taken_by (DHelp w x nx) = {#x#}"
| "taken_by (DFree w x) = {#x#}"
| "taken_by (DSize x) = {#x#}"
| "taken_by _ = {#}"

definition pending :: "nat \<Rightarrow> ('a qpc \<Rightarrow> 'a multiset) \<Rightarrow> (nat \<Rightarrow> 'a qpc) \<Rightarrow> 'a multiset" where
  "pending n f pcs = (\<Sum>t<n. f (pcs t))"

lemma pending_same [simp]: "f q = f (pcs t) \<Longrightarrow> pending n f (pcs(t := q)) = pending n f pcs"
  unfolding pending_def by (intro sum.cong) auto

lemma pending_upd:
  assumes "t < n"
  shows "pending n f (pcs(t := q)) + f (pcs t) = pending n f pcs + f q"
proof -
  have t: "t \<in> {..<n}" using assms by simp
  have "(\<Sum>u\<in>{..<n} - {t}. f ((pcs(t := q)) u)) = (\<Sum>u\<in>{..<n} - {t}. f (pcs u))" by (intro sum.cong) auto
  then show ?thesis
    using sum.remove [OF finite_lessThan t, of "\<lambda>u. f ((pcs(t := q)) u)"] sum.remove [OF finite_lessThan t, of "\<lambda>u. f (pcs u)"]
    by (simp add: pending_def)
qed

lemma pending_enter: "t < n \<Longrightarrow> f (pcs t) = {#} \<Longrightarrow> pending n f (pcs(t := q)) = pending n f pcs + f q"
  using pending_upd [of t n f pcs q] by simp

lemma pending_leave: "t < n \<Longrightarrow> f q = {#} \<Longrightarrow> pending n f pcs = pending n f (pcs(t := q)) + f (pcs t)"
  using pending_upd [of t n f pcs q] by simp

definition counts_ok :: "nat \<Rightarrow> 'a lq_run \<Rightarrow> 'a qlabel list \<Rightarrow> bool" where
  "counts_ok n s ls \<longleftrightarrow> mset (lr_log s) = mset (enq_vals ls) + pending n linked_by (lr_pc s) \<and>
     mset (lr_out s) = mset (deq_vals ls) + pending n taken_by (lr_pc s) \<and>
     lq_size (lr_q s) = of_nat (length (enq_vals ls)) - of_nat (length (deq_vals ls))"

lemma set_size [simp]: "lq_size (set_next p w q) = lq_size q" "lq_size (set_data p x q) = lq_size q"
  by (simp_all add: set_next_def set_data_def)

lemma lq_step_counts:
  assumes "lq_step grace n s l s'" and c: "counts_ok n s ls"
  shows "counts_ok n s' (ls @ [l])"
  using assms(1)
proof cases
  case (link t nt x w)
  have "pending n linked_by ((lr_pc s)(t := ESwing nt x w)) = pending n linked_by (lr_pc s) + {#x#}"
    using pending_enter [of t n linked_by "lr_pc s" "ESwing nt x w"] link by simp
  then show ?thesis using c link by (simp add: counts_ok_def)
next
  case (enqueued t x)
  have "pending n linked_by (lr_pc s) = pending n linked_by ((lr_pc s)(t := QIdle)) + {#x#}"
    using pending_leave [of t n linked_by QIdle "lr_pc s"] enqueued by simp
  then show ?thesis using c enqueued by (simp add: counts_ok_def)
next
  case (take t w nx x)
  have "pending n taken_by ((lr_pc s)(t := DWon w x)) = pending n taken_by (lr_pc s) + {#x#}"
    using pending_enter [of t n taken_by "lr_pc s" "DWon w x"] take by simp
  then show ?thesis using c take by (simp add: counts_ok_def)
next
  case (dequeued t x)
  have "pending n taken_by (lr_pc s) = pending n taken_by ((lr_pc s)(t := QIdle)) + {#x#}"
    using pending_leave [of t n taken_by QIdle "lr_pc s"] dequeued by simp
  then show ?thesis using c dequeued by (simp add: counts_ok_def)
qed (use c in \<open>simp_all add: counts_ok_def\<close>)

lemma lq_exec_counts: "lq_exec grace n s0 ls s \<Longrightarrow> counts_ok n s0 [] \<Longrightarrow> counts_ok n s ls"
proof (induction rule: lq_exec.induct)
  case (lq_snoc s ls s' l s'')
  then show ?case using lq_step_counts [of grace n s' l s'' ls] by simp
qed simp

lemma counts_ok_new: "counts_ok n (lr_new e nx dat dummy pool) []"
  by (simp add: counts_ok_def lr_new_def tq_new_def pending_def)

subsection \<open>When no call is running\<close>

lemma live_path:
  assumes l: "list_ok e nx dat P log h k L pool" and "j < length P" and "{j..<length P} \<subseteq> L"
  shows "qpath nx (P ! j) (map (ptr_at P) [j..<length P]) e"
  using assms(2,3)
proof (induction "length P - j" arbitrary: j)
  case (Suc d)
  have j: "j \<in> L" "P ! j \<noteq> e" using Suc.prems list_okD(9) [OF l nth_mem] by auto
  have "qpath nx (nx (ptr_at P j)) (map (ptr_at P) [Suc j..<length P]) e"
  proof (cases "Suc j < length P")
    case True
    then have "qpath nx (P ! Suc j) (map (ptr_at P) [Suc j..<length P]) e" using Suc by (intro Suc.hyps(1)) auto
    then show ?thesis using list_okD(14) [OF l j(1)] True by simp
  next
    case False
    then show ?thesis using list_okD(14) [OF l j(1)] by simp
  qed
  then show ?case using j(2) Suc.prems(1) by (simp add: upt_conv_Cons ptr_at_def)
qed simp

lemma idle_queue:
  assumes i: "lq_inv s k L" and idle: "\<forall>t. lr_pc s t = QIdle" and c: "counts_ok n s ls" and len: "length (lr_log s) < 2 ^ 31"
  shows "queue_inv (lr_q s) (map (ptr_at (lr_ptrs s)) [hd_pos s..<length (lr_ptrs s)]) (drop (hd_pos s) (lr_log s))"
proof -
  let ?P = "lr_ptrs s" and ?h = "hd_pos s" and ?e = "lq_queueId (lr_q s)"
  note lo = lq_invD(1) [OF i]
  have hk: "?h \<le> k" using lq_invD(7) [OF i] idle by (metis fixing.simps(4) not_le option.distinct(1))
  have k: "k < length ?P" and h: "?h < length ?P" "length ?P = Suc (length (lr_log s))" using list_okD(1,2,10) [OF lo] by simp_all
  have sub: "{?h..<length ?P} \<subseteq> L" by (rule list_okD(7) [OF lo])
  have path: "qpath (nxt_of s) (lq_head (lr_q s)) (map (ptr_at ?P) [?h..<length ?P]) ?e"
    using live_path [OF lo h(1) sub] lq_invD(2) [OF i] by simp
  have split: "map (ptr_at ?P) [?h..<length ?P] = map (ptr_at ?P) [?h..<k] @ ptr_at ?P k # map (ptr_at ?P) [Suc k..<length ?P]"
    using hk k upt_add_eq_append [of ?h k "length ?P - k"] by (simp add: upt_conv_Cons)
  have tail: "lq_tail (lr_q s) = (if map (ptr_at ?P) [?h..<k] = [] then lq_head (lr_q s) else nxt_of s (last (map (ptr_at ?P) [?h..<k])))"
  proof (cases "?h = k")
    case True
    then show ?thesis using lq_invD(2,3) [OF i] by simp
  next
    case False
    then have k1: "?h \<le> k - 1" "k - 1 < length ?P" "Suc (k - 1) = k" "?h < k" using hk k by linarith+
    then have "k - 1 \<in> L" using sub by auto
    then have "nxt_of s (ptr_at ?P (k - 1)) = ?P ! k" using list_okD(14) [OF lo, of "k - 1"] k1(3) k by simp
    then show ?thesis using k1(4) lq_invD(3) [OF i] by (simp add: last_map)
  qed
  have d: "distinct (map (ptr_at ?P) [?h..<length ?P])"
    using inj_on_subset [OF list_okD(8) [OF lo] sub] by (simp add: distinct_map)
  have ok: "\<forall>a\<in>set (map (ptr_at ?P) [?h..<length ?P]). node_ok ?e a" using list_okD(12) [OF lo] sub by auto
  have vals: "drop ?h (lr_log s) = map (lq_data (lr_q s)) (map (ptr_at ?P) [Suc ?h..<length ?P])"
    using list_okD(15) [OF lo] h by (intro nth_equalityI) (auto simp del: upt_Suc)
  have lens: "length (lr_log s) = length (enq_vals ls)" "length (lr_out s) = length (deq_vals ls)"
    using c idle by (simp_all add: counts_ok_def pending_def flip: size_mset)
  then have sz: "lq_size (lr_q s) = of_nat (length (drop ?h (lr_log s)))"
    using c h by (simp add: counts_ok_def of_nat_diff)
  show ?thesis
    unfolding queue_inv_def
  proof (intro exI conjI)
    show "map (ptr_at ?P) [?h..<length ?P] = ptr_at ?P ?h # map (ptr_at ?P) [Suc ?h..<length ?P]" using h(1) by (simp add: upt_conv_Cons)
    show "length (drop ?h (lr_log s)) < 2 ^ 31" using len by simp
  qed (rule split path tail d ok vals sz)+
qed

subsection \<open>Running a schedule\<close>

text \<open>
  The next step of a thread as a function, for concrete schedules: \<open>Begin t p x\<close> lets an idle thread start to enqueue \<open>x\<close> with
  the node \<open>p\<close>, \<open>Go t\<close> lets a thread take its next step (an idle one starts to dequeue).
\<close>

datatype 'a sched = Begin nat addr 'a | Go nat

definition lq_go :: "nat \<Rightarrow> 'a lq_run \<Rightarrow> 'a qlabel \<times> 'a lq_run" where
  "lq_go t s = (let q = lr_q s; tl = lq_tail q; e = lq_queueId q in case lr_pc s t of
     QIdle \<Rightarrow> if lq_size q = 0 then (FoundEmpty, s) else (QTau, at t DLoop s)
   | EData p x \<Rightarrow> (QTau, at t (ENext p x) (inq (set_data p x) s))
   | ENext p x \<Rightarrow> (QTau, at t (ECount p x) (inq (set_next p e) s))
   | ECount p x \<Rightarrow> (QTau, at t (ELoop (tag_tail p (lq_tailCount q + 1)) x) (inq (lq_tailCount_update (\<lambda>c. c + 1)) s))
   | ELoop nt x \<Rightarrow> (QTau, at t (ETail nt x tl) s)
   | ETail nt x w \<Rightarrow> (QTau, at t (if nxt_of s (ptr_of w) = e then ELink nt x w else EReload nt x w) s)
   | ELink nt x w \<Rightarrow> (QTau, if nxt_of s (ptr_of w) = e
       then (at t (ESwing nt x w) (inq (set_next (ptr_of w) nt) s))\<lparr>lr_ptrs := lr_ptrs s @ [nt], lr_log := lr_log s @ [x]\<rparr>
       else at t (ELoop nt x) s)
   | ESwing nt x w \<Rightarrow> (QTau, if tl = w then at t (ESize x) (inq (lq_tail_update (\<lambda>_. nt)) s) else at t (ESize x) s)
   | EReload nt x w \<Rightarrow> (QTau, at t (EHelp nt x w (nxt_of s (ptr_of w))) s)
   | EHelp nt x w nx \<Rightarrow> (QTau, if tl = w then at t (ELoop nt x) (inq (lq_tail_update (\<lambda>_. nx)) s) else at t (ELoop nt x) s)
   | ESize x \<Rightarrow> (Enqueued x, at t QIdle (inq (lq_size_update (\<lambda>k. k + 1)) s))
   | DLoop \<Rightarrow> (QTau, at t (DHead (lq_head q)) s)
   | DHead w \<Rightarrow> if ptr_of (nxt_of s (ptr_of w)) < 64000 then (FoundEmpty, at t QIdle s)
       else (QTau, at t (DNode w (nxt_of s (ptr_of w))) s)
   | DNode w nx \<Rightarrow> (QTau, at t (DSwing w nx (lq_data q (ptr_of nx))) s)
   | DSwing w nx x \<Rightarrow> (QTau, if lq_head q = w
       then (at t (DWon w x) (inq (lq_head_update (\<lambda>_. nx)) s))\<lparr>lr_out := lr_out s @ [x]\<rparr> else at t DLoop s)
   | DWon w x \<Rightarrow> (QTau, at t (if tl = w then DFix w x else DFree w x) s)
   | DFix w x \<Rightarrow> (QTau, at t (DHelp w x (nxt_of s (ptr_of w))) s)
   | DHelp w x nx \<Rightarrow> (QTau, if tl = w then at t (DFree w x) (inq (lq_tail_update (\<lambda>_. nx)) s) else at t (DFree w x) s)
   | DFree w x \<Rightarrow> (QTau, (at t (DSize x) s)\<lparr>lr_pool := insert (ptr_of w) (lr_pool s)\<rparr>)
   | DSize x \<Rightarrow> (Dequeued x, at t QIdle (inq (lq_size_update (\<lambda>k. k - 1)) s)))"

definition let_go :: "nat \<Rightarrow> 'a lq_run \<Rightarrow> addr \<Rightarrow> bool" where
  "let_go n s p \<longleftrightarrow> list_all (\<lambda>t. case watching (lr_pc s t) of None \<Rightarrow> True | Some w \<Rightarrow> ptr_of w \<noteq> p) [0..<n]"

fun lq_play :: "bool \<Rightarrow> nat \<Rightarrow> 'a sched list \<Rightarrow> 'a qlabel list \<Rightarrow> 'a lq_run \<Rightarrow> ('a qlabel list \<times> 'a lq_run) option" where
  "lq_play g n [] ls s = Some (ls, s)"
| "lq_play g n (Begin t p x # cs) ls s =
     (if t < n \<and> lr_pc s t = QIdle \<and> p \<in> lr_pool s \<and> (g \<longrightarrow> let_go n s p)
      then lq_play g n cs (ls @ [QTau]) ((at t (EData p x) s)\<lparr>lr_pool := lr_pool s - {p}\<rparr>) else None)"
| "lq_play g n (Go t # cs) ls s =
     (if t < n then (let (l, s') = lq_go t s in lq_play g n cs (ls @ [l]) s') else None)"

lemma lq_go_step: "t < n \<Longrightarrow> lq_step grace n s (fst (lq_go t s)) (snd (lq_go t s))"
  unfolding lq_go_def Let_def
  by (cases "lr_pc s t") (auto intro: lq_step.intros [simplified])

lemma idle_step: "lq_step g n s l s' \<Longrightarrow> \<forall>t\<ge>n. lr_pc s t = QIdle \<Longrightarrow> \<forall>t\<ge>n. lr_pc s' t = QIdle"
  by (induction rule: lq_step.induct) auto

lemma let_go_unwatched:
  assumes "\<forall>t\<ge>n. lr_pc s t = QIdle" and "let_go n s p"
  shows "unwatched s p"
  unfolding unwatched_def
proof (intro allI impI)
  fix t w assume w: "watching (lr_pc s t) = Some w"
  then have "t < n" using assms(1) by (metis not_le option.distinct(1) watching.simps(9))
  then show "ptr_of w \<noteq> p" using assms(2) w by (auto simp: let_go_def list_all_iff split: option.splits)
qed

lemma lq_play_exec:
  "lq_exec g n s0 ls s \<Longrightarrow> \<forall>t\<ge>n. lr_pc s t = QIdle \<Longrightarrow> lq_play g n cs ls s = Some (ls', s') \<Longrightarrow>
    lq_exec g n s0 ls' s' \<and> (\<forall>t\<ge>n. lr_pc s' t = QIdle)"
proof (induction g n cs ls s rule: lq_play.induct)
  case (2 g n t p x cs ls s)
  then have ok: "t < n" "lr_pc s t = QIdle" "p \<in> lr_pool s" "g \<longrightarrow> let_go n s p" by (auto split: if_splits)
  then have st: "lq_step g n s QTau ((at t (EData p x) s)\<lparr>lr_pool := lr_pool s - {p}\<rparr>)"
    using let_go_unwatched 2(3) by (intro alloc) auto
  show ?case by (rule 2(1) [OF _ lq_snoc [OF 2(2) st] idle_step [OF st 2(3)]]) (use ok 2(4) in simp_all)
next
  case (3 g n t cs ls s)
  then have t: "t < n" by (auto split: if_splits)
  note st = lq_go_step [OF t, of g s]
  show ?case
    by (rule 3(1) [OF t refl prod.collapse lq_snoc [OF 3(2) st] idle_step [OF st 3(3)]])
      (use t 3(4) in \<open>simp add: Let_def split: prod.splits\<close>)
qed simp

subsection \<open>Two schedules\<close>

definition lq_demo :: "nat lq_run" where
  "lq_demo = lr_new 7 (\<lambda>_. 0) (\<lambda>_. 0) 65536 {131072, 196608}"

text \<open>
  The bad interleaving: thread 0 is about to link 2 behind the dummy; thread 1 enqueues and dequeues 1 and so
  frees the dummy; thread 2 gets the freed node for 3 and prepares it. Now the exchange of thread 0 succeeds on a node
  that is not in the queue.
\<close>

definition hiding_schedule :: "nat sched list" where
  "hiding_schedule =
     Begin 0 131072 2 # replicate 5 (Go 0) @ Begin 1 196608 1 # replicate 8 (Go 1) @ replicate 8 (Go 1) @
     Begin 2 65536 3 # replicate 2 (Go 2) @ replicate 3 (Go 0) @ replicate 3 (Go 1)"

text \<open>Threads 0 and 1 enqueue at the same time, thread 1 helps the tail, thread 2 takes one value while the tail lags.\<close>

definition helping_schedule :: "nat sched list" where
  "helping_schedule =
     Begin 0 131072 1 # Begin 1 196608 2 # replicate 4 (Go 1) @ replicate 6 (Go 0) @ replicate 3 (Go 1) @ replicate 2 (Go 0) @
     replicate 5 (Go 1) @ replicate 8 (Go 2)"

lemma helping_run:
  "map_option (\<lambda>(ls, s). (enq_vals ls, deq_vals ls, lr_log s, lr_out s, map (lr_pc s) [0..<3])) (lq_play True 3 helping_schedule [] lq_demo) =
     Some ([1, 2], [1], [1, 2], [1], [QIdle, QIdle, QIdle])"
  by code_simp

lemma hiding_run:
  "map_option (\<lambda>(ls, s). (enq_vals ls, deq_vals ls, last ls, lq_size (lr_q s), map (lr_pc s) [0..<3])) (lq_play False 3 hiding_schedule [] lq_demo) =
     Some ([1, 2], [1], FoundEmpty, 1, [QIdle, QIdle, ECount 65536 3])"
  by code_simp

lemma three: "map f [0..<3] = [a, b, c] \<longleftrightarrow> f 0 = a \<and> f 1 = b \<and> f (2 :: nat) = c"
  by (simp add: upt_rec numeral_2_eq_2)

lemma play_demo:
  assumes "lq_play g 3 cs [] lq_demo = Some (ls, s)"
  shows "lq_exec g 3 lq_demo ls s \<and> (\<forall>t\<ge>3. lr_pc s t = QIdle)"
  by (rule lq_play_exec [OF lq_nil _ assms]) (simp add: lq_demo_def lr_new_def)

subsection \<open>Properties\<close>

text \<open>
  C26. The linked queue is first in first out under any interleaving of any number of threads, if no node comes back
  into the queue while a call that has its address is running: the values taken are those linked, in that order; what
  calls returned was taken, what has returned from an enqueue was linked, both exactly once; head and tail are never in the pool. Once no
  call is running the state is that of a queue that holds the values not taken, with an exact size.
\<close>

theorem concurrent_linked_queue_fifo:
  assumes "node_ok e dummy" and "\<forall>a\<in>pool. node_ok e a" and "dummy \<notin> pool"
    and "lq_exec True n (lr_new e nx dat dummy pool) ls s"
  shows "lr_out s = List.take (length (lr_out s)) (lr_log s) \<and>
    mset (deq_vals ls) \<subseteq># mset (lr_out s) \<and> mset (enq_vals ls) \<subseteq># mset (lr_log s) \<and>
    ptr_of (lq_head (lr_q s)) \<notin> lr_pool s \<and> ptr_of (lq_tail (lr_q s)) \<notin> lr_pool s \<and>
    ((\<forall>t. lr_pc s t = QIdle) \<longrightarrow> mset (deq_vals ls) = mset (lr_out s) \<and> mset (enq_vals ls) = mset (lr_log s) \<and>
      (length (lr_log s) < 2 ^ 31 \<longrightarrow> (\<exists>ns. queue_inv (lr_q s) ns (drop (length (lr_out s)) (lr_log s)))))"
proof -
  obtain k L where i: "lq_inv s k L" using lq_exec_inv [OF assms(4) lq_new_inv [OF assms(1-3)]] by blast
  note lo = lq_invD(1) [OF i]
  have c: "counts_ok n s ls" by (rule lq_exec_counts [OF assms(4) counts_ok_new])
  have "ptr_of (lq_head (lr_q s)) \<notin> lr_pool s" "ptr_of (lq_tail (lr_q s)) \<notin> lr_pool s"
    using list_okD(13) [OF lo list_okD(11) [OF lo]] list_okD(13) [OF lo list_okD(3) [OF lo]] lq_invD(2,3) [OF i]
    by (simp_all add: ptr_at_def)
  moreover have "mset (deq_vals ls) = mset (lr_out s) \<and> mset (enq_vals ls) = mset (lr_log s)" if "\<forall>t. lr_pc s t = QIdle"
    using c that by (simp add: counts_ok_def pending_def)
  ultimately show ?thesis using lq_invD(4) [OF i] idle_queue [OF i _ c] c unfolding counts_ok_def by auto
qed

theorem concurrent_linked_queue_fifo_witness:
  "\<exists>ls s ns. lq_exec True 3 lq_demo ls s \<and> enq_vals ls = [1, 2] \<and> deq_vals ls = [1] \<and> lr_out s = [1] \<and> queue_inv (lr_q s) ns [2]"
proof -
  obtain ls s where play: "lq_play True 3 helping_schedule [] lq_demo = Some (ls, s)"
      and v: "enq_vals ls = [1, 2]" "deq_vals ls = [1]" "lr_log s = [1, 2]" "lr_out s = [1]" "map (lr_pc s) [0..<3] = [QIdle, QIdle, QIdle]"
    using helping_run by (auto simp del: lq_play.simps)
  have run: "lq_exec True 3 lq_demo ls s" "\<forall>t\<ge>3. lr_pc s t = QIdle" using play_demo [OF play] by simp_all
  have "lr_pc s t = QIdle" if "t < 3" for t
  proof -
    have "t = 0 \<or> t = 1 \<or> t = 2" using that by linarith
    then show ?thesis using v(5) unfolding three by blast
  qed
  then have "\<forall>t. lr_pc s t = QIdle" using run(2) by (meson not_le)
  then have "\<exists>ns. queue_inv (lr_q s) ns (drop (length (lr_out s)) (lr_log s))"
    using concurrent_linked_queue_fifo [of 7 65536 "{131072, 196608}" 3 "\<lambda>_. 0" "\<lambda>_. 0" ls s] run(1) v(3)
    by (simp add: lq_demo_def node_ok_def pointerMask_def)
  then show ?thesis using run(1) v by auto
qed


end
