(* ===== verification/Profiler.thy ===== *)
theory Profiler
  imports Monitoring "HOL-Library.List_Lexorder"
begin

section \<open>The profiler\<close>

text \<open>
  \<^verbatim>\<open>Profiler.h\<close> and \<^verbatim>\<open>Profiler.cpp\<close>: a \<^verbatim>\<open>ProfileItem\<close> measures the time between its construction and its destruction
  and adds it to the sample of its name in the table of its thread; \<^verbatim>\<open>ProfileManager\<close> adds up the tables of all
  threads. Times are microseconds in 64 bits. A name is a row of 16-bit characters ended by a null; a
  \<^verbatim>\<open>const wchar_t*\<close> is the characters from the pointer on to the end of the readable memory.
\<close>

subsection \<open>Names\<close>

definition MAX_NAME :: nat where
  "MAX_NAME = 64"

definition MAX_ITEM :: nat where
  "MAX_ITEM = 64"

fun wcscmp :: "u16 list \<Rightarrow> u16 list \<Rightarrow> int res" where
  "wcscmp (x # xs) (y # ys) = (if x < y then Inr (- 1) else if y < x then Inr 1 else if x = 0 then Inr 0 else wcscmp xs ys)"
| "wcscmp _ _ = Inl OutOfBounds"

text \<open>
  \<^verbatim>\<open>memcpy_s(dest, MAX_NAME, src, MAX_NAME)\<close> counts bytes: it copies half as many characters. The buffers have \<open>MAX_NAME\<close> characters.
\<close>

definition copy_name :: "u16 list \<Rightarrow> u16 list \<Rightarrow> u16 list res" where
  "copy_name dest src =
     (let n = MAX_NAME div 2 in if length src < n then Inl OutOfBounds else Inr (List.take n src @ drop n dest))"

subsection \<open>The table of one thread\<close>

record PROFILE_SAMPLE =
  pf_szName :: "u16 list"
  pf_lFlag :: bool
  pf_iTotalTime :: i64
  pf_iMin :: i64
  pf_iMax :: i64
  pf_iCall :: i64

definition new_PROFILE_SAMPLE :: PROFILE_SAMPLE where
  "new_PROFILE_SAMPLE =
     \<lparr>pf_szName = replicate MAX_NAME 0, pf_lFlag = False, pf_iTotalTime = 0, pf_iMin = 987654321, pf_iMax = - 1, pf_iCall = 0\<rparr>"

definition new_Profiler :: "PROFILE_SAMPLE list" where
  "new_Profiler = replicate MAX_ITEM new_PROFILE_SAMPLE"

definition ProfileReset :: "PROFILE_SAMPLE list \<Rightarrow> PROFILE_SAMPLE list" where
  "ProfileReset = map (pf_lFlag_update (\<lambda>_. False))"

text \<open>The loop over the items from item \<open>i\<close> on; \<^verbatim>\<open>-1\<close> when all are in use by other names.\<close>

fun GetItemNumber_from :: "nat \<Rightarrow> u16 list \<Rightarrow> PROFILE_SAMPLE list \<Rightarrow> (int \<times> PROFILE_SAMPLE list) res" where
  "GetItemNumber_from i name [] = Inr (- 1, [])"
| "GetItemNumber_from i name (s # ss) =
     (if \<not> pf_lFlag s then
        bind_res (copy_name (pf_szName s) name) (\<lambda>nm.
          Inr (int i, s\<lparr>pf_lFlag := True, pf_iCall := 0, pf_iTotalTime := 0, pf_iMin := 987654321, pf_iMax := - 1, pf_szName := nm\<rparr> # ss))
      else bind_res (wcscmp (pf_szName s) name) (\<lambda>c.
        if c = 0 then Inr (int i, s # ss)
        else bind_res (GetItemNumber_from (Suc i) name ss) (\<lambda>(r, ss'). Inr (r, s # ss'))))"

definition GetItemNumber :: "u16 list \<Rightarrow> PROFILE_SAMPLE list \<Rightarrow> (int \<times> PROFILE_SAMPLE list) res" where
  "GetItemNumber = GetItemNumber_from 0"

definition add_time :: "i64 \<Rightarrow> PROFILE_SAMPLE \<Rightarrow> PROFILE_SAMPLE" where
  "add_time time s =
     s\<lparr>pf_iCall := pf_iCall s + 1, pf_iTotalTime := pf_iTotalTime s + time,
       pf_iMax := (if sint time > sint (pf_iMax s) then time else pf_iMax s),
       pf_iMin := (if sint time < sint (pf_iMin s) then time else pf_iMin s)\<rparr>"

definition ApplyProfile :: "int \<Rightarrow> i64 \<Rightarrow> PROFILE_SAMPLE list \<Rightarrow> PROFILE_SAMPLE list res" where
  "ApplyProfile itemNumber time ss =
     (if itemNumber < 0 \<or> int (length ss) \<le> itemNumber then Inl OutOfBounds
      else Inr (ss[nat itemNumber := add_time time (ss ! nat itemNumber)]))"

subsection \<open>The manager\<close>

text \<open>\<^verbatim>\<open>_profilerList\<close> with the thread each profiler belongs to, whose \<^verbatim>\<open>TlsGetValue\<close> is the profiler.\<close>

record ProfileManager =
  pm_profilerList :: "(nat \<times> PROFILE_SAMPLE list) list"
  pm_optionalText :: "u16 list"

definition new_ProfileManager :: ProfileManager where
  "new_ProfileManager = \<lparr>pm_profilerList = [], pm_optionalText = []\<rparr>"

definition GetLocalProfiler :: "nat \<Rightarrow> ProfileManager \<Rightarrow> PROFILE_SAMPLE list \<times> ProfileManager" where
  "GetLocalProfiler t m =
     (case map_of (pm_profilerList m) t of
        Some p \<Rightarrow> (p, m)
      | None \<Rightarrow> (new_Profiler, m\<lparr>pm_profilerList := (t, new_Profiler) # pm_profilerList m\<rparr>))"

definition set_profiler :: "nat \<Rightarrow> PROFILE_SAMPLE list \<Rightarrow> ProfileManager \<Rightarrow> ProfileManager" where
  "set_profiler t p m = m\<lparr>pm_profilerList := map (\<lambda>(u, q). (u, if u = t then p else q)) (pm_profilerList m)\<rparr>"

text \<open>\<open>junk\<close> is what the array of the new item holds before.\<close>

definition new_ProfileItem :: "u16 list \<Rightarrow> u16 list \<Rightarrow> u16 list res" where
  "new_ProfileItem junk name = copy_name junk name"

definition delete_ProfileItem :: "nat \<Rightarrow> u16 list \<Rightarrow> i64 \<Rightarrow> ProfileManager \<Rightarrow> ProfileManager res" where
  "delete_ProfileItem t item elapsed m =
     (let (p, m1) = GetLocalProfiler t m
      in bind_res (GetItemNumber item p) (\<lambda>(n, p1). bind_res (ApplyProfile n elapsed p1) (\<lambda>p2. Inr (set_profiler t p2 m1))))"

definition pm_ProfileReset :: "ProfileManager \<Rightarrow> ProfileManager" where
  "pm_ProfileReset m = m\<lparr>pm_profilerList := map (\<lambda>(t, p). (t, ProfileReset p)) (pm_profilerList m)\<rparr>"

definition SetOptional :: "u16 list \<Rightarrow> ProfileManager \<Rightarrow> ProfileManager" where
  "SetOptional optional m = m\<lparr>pm_optionalText := optional\<rparr>"

subsection \<open>The report\<close>

text \<open>One line: the name, the total time, the number of calls, the shortest and the longest time; the average is the exact quotient.\<close>

record line =
  ln_name :: "u16 list"
  ln_tot :: i64
  ln_cnt :: i64
  ln_min :: i64
  ln_max :: i64

definition line_avg :: "line \<Rightarrow> rat option" where
  "line_avg l = (if ln_cnt l = 0 then None else Some (of_int (sint (ln_tot l)) / of_int (sint (ln_cnt l))))"

definition fresh_line :: "u16 list \<Rightarrow> line" where
  "fresh_line name = \<lparr>ln_name = name, ln_tot = 0, ln_cnt = 0, ln_min = 987654321, ln_max = - 1\<rparr>"

definition add_sample :: "PROFILE_SAMPLE \<Rightarrow> line \<Rightarrow> line" where
  "add_sample s l =
     (let l1 = (if sint (pf_iCall s) > 2 then l\<lparr>ln_tot := ln_tot l - pf_iMax s - pf_iMin s, ln_cnt := ln_cnt l - 2\<rparr> else l);
          l2 = (if sint (pf_iMax s) > sint (ln_max l1) then l1\<lparr>ln_max := pf_iMax s\<rparr> else l1);
          l3 = (if sint (pf_iMin s) < sint (ln_min l2) then l2\<lparr>ln_min := pf_iMin s\<rparr> else l2)
      in l3\<lparr>ln_tot := ln_tot l3 + pf_iTotalTime s, ln_cnt := ln_cnt l3 + pf_iCall s\<rparr>)"

text \<open>
  The loop over the sorted samples; a line is written when the name changes, so the last group is written when the
  empty sample that was appended comes up.
\<close>

fun report_loop :: "line \<Rightarrow> PROFILE_SAMPLE list \<Rightarrow> line list res" where
  "report_loop l [] = Inr []"
| "report_loop l (s # ss) =
     bind_res (wcscmp (ln_name l) (pf_szName s)) (\<lambda>c.
       if c = 0 then report_loop (add_sample s l) ss
       else bind_res (report_loop (add_sample s (fresh_line (pf_szName s))) ss) (\<lambda>ls. Inr (l # ls)))"

definition wstr_of :: "u16 list \<Rightarrow> u16 list" where
  "wstr_of xs = takeWhile (\<lambda>c. c \<noteq> 0) xs"

text \<open>
  \<^verbatim>\<open>std::ranges::sort\<close> with \<^verbatim>\<open>cmp\<close> (lemma \<open>wcscmp_spec\<close>: the order of the names as strings). It may leave samples
  of one name in any order; the model is the stable sort.
\<close>

definition sort_samples :: "PROFILE_SAMPLE list \<Rightarrow> PROFILE_SAMPLE list" where
  "sort_samples = sort_key (\<lambda>s. wstr_of (pf_szName s))"

text \<open>Nothing is written when no sample is in use or the file cannot be opened.\<close>

definition ProfileDataOutText :: "bool \<Rightarrow> ProfileManager \<Rightarrow> line list option res" where
  "ProfileDataOutText opens m =
     (let samples = concat (map (\<lambda>(t, p). filter pf_lFlag p) (pm_profilerList m))
      in if samples = [] \<or> \<not> opens then Inr None
         else (let sorted = sort_samples samples @ [new_PROFILE_SAMPLE]
               in bind_res (report_loop (fresh_line (pf_szName (hd sorted))) sorted) (\<lambda>ls. Inr (Some ls))))"

text \<open>
  \<^verbatim>\<open>Profiler::ProfileDataOutText\<close>: the lines of one table, up to the first item that is not in use. The average leaves out the
  shortest and the longest time like \<open>add_sample\<close>, the number of calls is printed in full.
\<close>

definition profiler_lines :: "bool \<Rightarrow> PROFILE_SAMPLE list \<Rightarrow> (u16 list \<times> rat option \<times> i64 \<times> i64 \<times> i64) list option" where
  "profiler_lines opens ss =
     (if \<not> opens then None
      else Some (map (\<lambda>s. (pf_szName s, line_avg (add_sample s (fresh_line [])), pf_iCall s, pf_iMin s, pf_iMax s)) (takeWhile pf_lFlag ss)))"

text \<open>\<^verbatim>\<open>DumpAndReset\<close>; the report goes to a file named after the time.\<close>

definition DumpAndReset :: "bool \<Rightarrow> ProfileManager \<Rightarrow> (line list option \<times> ProfileManager) res" where
  "DumpAndReset opens m = bind_res (ProfileDataOutText opens m) (\<lambda>r. Inr (r, pm_ProfileReset m))"

subsection \<open>Strings in arrays\<close>

lemma wstr_of_Cons: "wstr_of (x # xs) = (if x = 0 then [] else x # wstr_of xs)"
  by (simp add: wstr_of_def)

lemma wcscmp_spec:
  assumes "0 \<in> set xs" and "0 \<in> set ys"
  shows "wcscmp xs ys = Inr (if wstr_of xs < wstr_of ys then - 1 else if wstr_of ys < wstr_of xs then 1 else 0)"
  using assms
proof (induction xs ys rule: wcscmp.induct)
  case (1 x xs y ys)
  show ?case
  proof (cases "x = y \<and> x \<noteq> 0")
    case True
    then have "x = y" "x \<noteq> 0" "0 \<in> set xs" "0 \<in> set ys" using 1(2,3) by auto
    then have "wcscmp xs ys = Inr (if wstr_of xs < wstr_of ys then - 1 else if wstr_of ys < wstr_of xs then 1 else 0)"
      using 1(1) by blast
    then show ?thesis using True by (simp add: wstr_of_Cons)
  next
    case False
    have "x = 0 \<Longrightarrow> y \<noteq> 0 \<Longrightarrow> x < y" "y = 0 \<Longrightarrow> x \<noteq> 0 \<Longrightarrow> y < x" by (simp_all add: word_neq_0_conv)
    then show ?thesis using False by (auto simp: wstr_of_Cons dest: order.asym)
  qed
qed simp_all

lemma wcscmp_0: "0 \<in> set xs \<Longrightarrow> 0 \<in> set ys \<Longrightarrow> \<exists>c. wcscmp xs ys = Inr c \<and> (c = 0 \<longleftrightarrow> wstr_of xs = wstr_of ys)"
  using wcscmp_spec [of xs ys] by auto

text \<open>A name that fits in the half of the array that is copied.\<close>

definition name_ok :: "u16 list \<Rightarrow> bool" where
  "name_ok mem \<longleftrightarrow> 32 \<le> length mem \<and> 0 \<in> set (List.take 32 mem)"

lemma wstr_of_take: "0 \<in> set (List.take n xs) \<Longrightarrow> wstr_of (List.take n xs @ ys) = wstr_of xs"
  unfolding wstr_of_def
  by (metis (mono_tags, lifting) append_take_drop_id takeWhile_append1)

lemma copy_name_ok:
  assumes "name_ok mem" and "length dest = 64"
  obtains nm where "copy_name dest mem = Inr nm" "name_ok nm" "0 \<in> set nm" "length nm = 64" "wstr_of nm = wstr_of mem"
proof -
  let ?nm = "List.take 32 mem @ drop 32 dest"
  have z: "0 \<in> set (List.take 32 mem)" "32 \<le> length mem" using assms(1) by (simp_all add: name_ok_def)
  have "copy_name dest mem = Inr ?nm" using z by (simp add: copy_name_def MAX_NAME_def)
  moreover have "length ?nm = 64" "name_ok ?nm" "0 \<in> set ?nm" using z assms(2) by (simp_all add: name_ok_def)
  ultimately show ?thesis using that wstr_of_take [OF z(1)] by blast
qed

subsection \<open>What a sample holds\<close>

definition shortest :: "nat list \<Rightarrow> nat" where
  "shortest ks = foldr min ks 987654321"

definition longest :: "nat list \<Rightarrow> int" where
  "longest ks = foldr (\<lambda>k. max (int k)) ks (- 1)"

definition sample_rep :: "PROFILE_SAMPLE \<Rightarrow> u16 list \<Rightarrow> nat list \<Rightarrow> bool" where
  "sample_rep s n ks \<longleftrightarrow> length (pf_szName s) = 64 \<and> 0 \<in> set (pf_szName s) \<and> wstr_of (pf_szName s) = n \<and>
     (\<forall>k\<in>set ks. k < 987654321) \<and> length ks < 2 ^ 31 \<and> pf_iCall s = of_nat (length ks) \<and> pf_iTotalTime s = of_nat (sum_list ks) \<and>
     pf_iMin s = of_nat (shortest ks) \<and> pf_iMax s = of_int (longest ks)"

lemma sint_nat64: "k < 2 ^ 63 \<Longrightarrow> sint (of_nat k :: i64) = int k"
  by (simp add: signed_of_nat signed_take_bit_int_eq_self)

lemma sint_int64: "- (2 ^ 63) \<le> k \<Longrightarrow> k < 2 ^ 63 \<Longrightarrow> sint (of_int k :: i64) = k"
  by (simp add: signed_of_int signed_take_bit_int_eq_self)

lemma shortest_le: "shortest ks \<le> 987654321"
  by (induction ks) (auto simp: shortest_def min_le_iff_disj)

lemma longest_bound: "\<forall>k\<in>set ks. k < 987654321 \<Longrightarrow> - 1 \<le> longest ks \<and> longest ks < 987654321"
  by (induction ks) (auto simp: longest_def)

lemma shortest_snoc: "shortest (ks @ [k]) = min k (shortest ks)"
  by (induction ks) (auto simp: shortest_def min.left_commute min.assoc)

lemma longest_snoc: "longest (ks @ [k]) = max (int k) (longest ks)"
  by (induction ks) (auto simp: longest_def max.left_commute max.assoc)

lemma sample_sints:
  assumes "sample_rep s n ks"
  shows "sint (pf_iMin s) = int (shortest ks)" "sint (pf_iMax s) = longest ks" "sint (pf_iCall s) = int (length ks)"
  using assms shortest_le [of ks] longest_bound [of ks] by (auto simp: sample_rep_def sint_nat64 sint_int64)

lemma add_time_rep:
  assumes "sample_rep s n ks" and "k < 987654321" and "length ks < 2 ^ 31 - 1"
  shows "sample_rep (add_time (of_nat k) s) n (ks @ [k])"
  using assms sample_sints [OF assms(1)]
  by (auto simp: sample_rep_def add_time_def sint_nat64 shortest_snoc longest_snoc min_def max_def)

subsection \<open>The table of a thread\<close>

abbreviation times_of :: "'n \<Rightarrow> ('n \<times> 'k) list \<Rightarrow> 'k list" where
  "times_of n ts \<equiv> map snd (filter (\<lambda>p. fst p = n) ts)"

definition table_rep :: "PROFILE_SAMPLE list \<Rightarrow> u16 list list \<Rightarrow> (u16 list \<times> nat) list \<Rightarrow> bool" where
  "table_rep ss ns ts \<longleftrightarrow> (\<exists>us vs. ss = us @ vs \<and> length ss = 64 \<and> distinct ns \<and> set ns = fst ` set ts \<and>
     list_all2 (\<lambda>s n. pf_lFlag s \<and> sample_rep s n (times_of n ts)) us ns \<and> (\<forall>v\<in>set vs. \<not> pf_lFlag v \<and> length (pf_szName v) = 64))"

lemma table_repI:
  assumes "list_all2 (\<lambda>s n. pf_lFlag s \<and> sample_rep s n (times_of n ts)) us ns" and "length us + length vs = 64" and "distinct ns"
    and "set ns = fst ` set ts" and "\<forall>v\<in>set vs. \<not> pf_lFlag v \<and> length (pf_szName v) = 64"
  shows "table_rep (us @ vs) ns ts"
  using assms unfolding table_rep_def by (intro exI [of _ us] exI [of _ vs]) simp

lemma find_known:
  assumes "list_all2 (\<lambda>s n. pf_lFlag s \<and> sample_rep s n (f n)) us ns" and "n \<in> set ns" and "0 \<in> set item" and "wstr_of item = n"
  shows "\<exists>j<length ns. ns ! j = n \<and> GetItemNumber_from i item (us @ vs) = Inr (int (i + j), us @ vs)"
  using assms(1,2)
proof (induction arbitrary: i rule: list_all2_induct)
  case (Cons s us m ns)
  obtain c where c: "wcscmp (pf_szName s) item = Inr c" "c = 0 \<longleftrightarrow> m = n"
    using wcscmp_0 [of "pf_szName s" item] Cons(1) assms(3,4) by (auto simp: sample_rep_def)
  show ?case
  proof (cases "m = n")
    case True
    then show ?thesis using c Cons(1) by (intro exI [of _ 0]) simp
  next
    case False
    then obtain j where "j < length ns" "ns ! j = n" "GetItemNumber_from (Suc i) item (us @ vs) = Inr (int (Suc i + j), us @ vs)"
      using Cons(3) [of "Suc i"] Cons(4) by auto
    then show ?thesis using c False Cons(1) by (intro exI [of _ "Suc j"]) simp
  qed
qed simp

lemma find_new:
  assumes "list_all2 (\<lambda>s n. pf_lFlag s \<and> sample_rep s n (f n)) us ns" and "wstr_of item \<notin> set ns" and "name_ok item" and "0 \<in> set item"
    and "\<not> pf_lFlag v" and "length (pf_szName v) = 64"
  shows "\<exists>v'. GetItemNumber_from i item (us @ v # vs) = Inr (int (i + length us), us @ v' # vs) \<and> pf_lFlag v' \<and> sample_rep v' (wstr_of item) []"
  using assms(1,2)
proof (induction arbitrary: i rule: list_all2_induct)
  case Nil
  obtain nm where nm: "copy_name (pf_szName v) item = Inr nm" "0 \<in> set nm" "length nm = 64" "wstr_of nm = wstr_of item"
    using copy_name_ok [OF assms(3,6)] .
  then show ?case using assms(5) by (simp add: sample_rep_def shortest_def longest_def)
next
  case (Cons s us m ns)
  obtain c where c: "wcscmp (pf_szName s) item = Inr c" "c = 0 \<longleftrightarrow> m = wstr_of item"
    using wcscmp_0 [of "pf_szName s" item] Cons(1) assms(4) by (auto simp: sample_rep_def)
  then have "c \<noteq> 0" using Cons(4) by auto
  moreover obtain v' where "GetItemNumber_from (Suc i) item (us @ v # vs) = Inr (int (Suc i + length us), us @ v' # vs)"
      "pf_lFlag v'" "sample_rep v' (wstr_of item) []"
    using Cons(3) [of "Suc i"] Cons(4) by auto
  ultimately show ?case using c Cons(1) by (intro exI [of _ v']) simp
qed

lemma sample_mono: "list_all2 (\<lambda>s n. pf_lFlag s \<and> sample_rep s n (times_of n ts)) us ns \<Longrightarrow> m \<notin> set ns \<Longrightarrow>
    list_all2 (\<lambda>s n. pf_lFlag s \<and> sample_rep s n (times_of n (ts @ [(m, k)]))) us ns"
  by (rule list.rel_mono_strong [where R = "\<lambda>s n. pf_lFlag s \<and> sample_rep s n (times_of n ts)"]) auto

lemma add_time_flag [simp]: "pf_lFlag (add_time k s) = pf_lFlag s"
  by (simp add: add_time_def)

lemma table_step:
  assumes t: "table_rep ss ns ts" and item: "name_ok item" "0 \<in> set item" and k: "k < 987654321"
    and room: "card (insert (wstr_of item) (fst ` set ts)) \<le> 64" and len: "length ts < 2 ^ 31 - 1"
  shows "\<exists>ss' ns'. bind_res (GetItemNumber item ss) (\<lambda>(i, ss1). ApplyProfile i (of_nat k) ss1) = Inr ss' \<and>
    table_rep ss' ns' (ts @ [(wstr_of item, k)])"
proof -
  let ?n = "wstr_of item" and ?R = "\<lambda>ts s n. pf_lFlag s \<and> sample_rep s n (times_of n ts)" and ?ts = "ts @ [(wstr_of item, k)]"
  obtain us vs where ss: "ss = us @ vs" "length ss = 64" and ns: "distinct ns" "set ns = fst ` set ts"
      and us: "list_all2 (?R ts) us ns" and vs: "\<forall>v\<in>set vs. \<not> pf_lFlag v \<and> length (pf_szName v) = 64"
    using t unfolding table_rep_def by blast
  have small: "length (times_of ?n ts) < 2 ^ 31 - 1" using len le_less_trans [OF length_filter_le] by fastforce
  have lens: "length us = length ns" using us by (rule list_all2_lengthD)
  show ?thesis
  proof (cases "?n \<in> set ns")
    case True
    obtain j where j: "j < length ns" "ns ! j = ?n" "GetItemNumber item ss = Inr (int j, us @ vs)"
      using find_known [OF us True item(2) refl, of 0 vs] ss(1) by (auto simp: GetItemNumber_def)
    let ?us = "us[j := add_time (of_nat k) (us ! j)]"
    have "list_all2 (?R ?ts) ?us ns"
    proof (rule list_all2_all_nthI)
      show "?R ?ts (?us ! i) (ns ! i)" if "i < length ?us" for i
      proof (cases "i = j")
        case True
        then show ?thesis using list_all2_nthD2 [OF us j(1)] j lens add_time_rep [OF _ k small] by simp
      next
        case False
        then have "ns ! i \<noteq> ?n" using j(1,2) that lens nth_eq_iff_index_eq [OF ns(1), of i j] by auto
        then show ?thesis using list_all2_nthD [OF us] that False by simp
      qed
    qed (simp add: lens)
    moreover have "ApplyProfile (int j) (of_nat k) (us @ vs) = Inr (?us @ vs)"
      using j(1) lens by (simp add: ApplyProfile_def nth_append list_update_append)
    moreover have "set ns = fst ` set ?ts" using ns(2) True by auto
    ultimately show ?thesis
      using j(3) ss ns(1) vs by (intro exI [of _ "?us @ vs"] exI [of _ ns] conjI table_repI) (simp_all add: bind_res_def)
  next
    case False
    have "card (insert ?n (set ns)) = Suc (length ns)" using False ns(1) by (simp add: distinct_card)
    then have "length ns < 64" using room ns(2) by simp
    then obtain v ws where v: "vs = v # ws" using ss lens by (cases vs) auto
    obtain v' where v': "GetItemNumber item ss = Inr (int (length us), us @ v' # ws)" "pf_lFlag v'" "sample_rep v' ?n []"
      using find_new [OF us False item, of v 0 ws] vs ss(1) v by (auto simp: GetItemNumber_def)
    let ?v = "add_time (of_nat k) v'"
    have "\<forall>p\<in>set ts. fst p \<noteq> ?n" using False ns(2) by (metis image_eqI)
    then have none: "times_of ?n ts = []" by (simp add: filter_empty_conv)
    have "?R ?ts ?v ?n" using add_time_rep [OF v'(3) k] v'(2) none by simp
    then have "list_all2 (?R ?ts) (us @ [?v]) (ns @ [?n])" using sample_mono [OF us False] by (intro list_all2_appendI) simp_all
    moreover have "ApplyProfile (int (length us)) (of_nat k) (us @ v' # ws) = Inr (us @ ?v # ws)"
      by (simp add: ApplyProfile_def nth_append list_update_append)
    ultimately show ?thesis
      using v'(1) ss ns vs False v table_repI [of ?ts "us @ [?v]" "ns @ [?n]" ws]
      by (intro exI [of _ "us @ ?v # ws"] exI [of _ "ns @ [?n]"] conjI) (simp_all add: bind_res_def)
  qed
qed

lemma table_new: "table_rep new_Profiler [] []"
  by (auto simp: table_rep_def new_Profiler_def MAX_ITEM_def new_PROFILE_SAMPLE_def MAX_NAME_def)

subsection \<open>Measurements\<close>

text \<open>A measurement: the thread, what the item's array held before, the name and the time; \<open>event\<close> is what counts of it.\<close>

type_synonym measurement = "nat \<times> u16 list \<times> u16 list \<times> nat"

fun measure_all :: "measurement list \<Rightarrow> ProfileManager \<Rightarrow> ProfileManager res" where
  "measure_all [] m = Inr m"
| "measure_all ((t, junk, name, k) # ms) m =
     bind_res (new_ProfileItem junk name) (\<lambda>item. bind_res (delete_ProfileItem t item (of_nat k) m) (measure_all ms))"

fun event_of :: "measurement \<Rightarrow> nat \<times> u16 list \<times> nat" where
  "event_of (t, junk, name, k) = (t, wstr_of name, k)"

definition measurement_ok :: "measurement \<Rightarrow> bool" where
  "measurement_ok x \<longleftrightarrow> (case x of (t, junk, name, k) \<Rightarrow> length junk = 64 \<and> name_ok name \<and> hd name \<noteq> 0 \<and> k < 987654321)"

definition manager_rep :: "ProfileManager \<Rightarrow> (nat \<times> u16 list \<times> nat) list \<Rightarrow> bool" where
  "manager_rep m es \<longleftrightarrow> distinct (map fst (pm_profilerList m)) \<and> set (map fst (pm_profilerList m)) = fst ` set es \<and>
     (\<forall>(t, p)\<in>set (pm_profilerList m). \<exists>ns. table_rep p ns (times_of t es))"

lemma set_profiler_keys: "map fst (pm_profilerList (set_profiler t p m)) = map fst (pm_profilerList m)"
  by (simp add: set_profiler_def comp_def case_prod_beta)

lemma manager_step:
  assumes m: "manager_rep m es" and item: "name_ok item" "0 \<in> set item" and k: "k < 987654321"
    and room: "card (insert (wstr_of item) (fst ` set (times_of t es))) \<le> 64" and len: "length es < 2 ^ 31 - 1"
  shows "\<exists>m'. delete_ProfileItem t item (of_nat k) m = Inr m' \<and> manager_rep m' (es @ [(t, wstr_of item, k)])"
proof -
  obtain p m1 where g: "GetLocalProfiler t m = (p, m1)" by fastforce
  let ?e = "(wstr_of item, k)"
  have m1: "distinct (map fst (pm_profilerList m1))" "set (map fst (pm_profilerList m1)) = insert t (fst ` set es)"
      "\<exists>ns. table_rep p ns (times_of t es)" "\<forall>(u, q)\<in>set (pm_profilerList m1). u \<noteq> t \<longrightarrow> (\<exists>ns. table_rep q ns (times_of u es))"
  proof -
    have keys: "fst ` set (pm_profilerList m) = fst ` set es" using m by (simp add: manager_rep_def)
    show "distinct (map fst (pm_profilerList m1))"
      using m g by (auto simp: manager_rep_def GetLocalProfiler_def map_of_eq_None_iff split: option.splits)
    show "set (map fst (pm_profilerList m1)) = insert t (fst ` set es)"
    proof (cases "map_of (pm_profilerList m) t")
      case (Some q)
      then have "t \<in> fst ` set es" using keys by (metis map_of_eq_None_iff option.distinct(1))
      then show ?thesis using Some g keys by (auto simp: GetLocalProfiler_def)
    next
      case None
      then have "m1 = m\<lparr>pm_profilerList := (t, new_Profiler) # pm_profilerList m\<rparr>" using g by (simp add: GetLocalProfiler_def)
      then show ?thesis using keys by simp
    qed
    show "\<forall>(u, q)\<in>set (pm_profilerList m1). u \<noteq> t \<longrightarrow> (\<exists>ns. table_rep q ns (times_of u es))"
      using m g by (auto simp: manager_rep_def GetLocalProfiler_def split: option.splits)
    show "\<exists>ns. table_rep p ns (times_of t es)"
    proof (cases "map_of (pm_profilerList m) t")
      case None
      then have "\<forall>x\<in>set es. fst x \<noteq> t" using m by (auto simp: manager_rep_def map_of_eq_None_iff)
      then have "times_of t es = []" by (simp add: filter_empty_conv)
      then show ?thesis using None g table_new by (auto simp: GetLocalProfiler_def)
    next
      case (Some q)
      then show ?thesis using m g map_of_SomeD [OF Some] by (auto simp: manager_rep_def GetLocalProfiler_def)
    qed
  qed
  then obtain ns where ns: "table_rep p ns (times_of t es)" by blast
  have "length (times_of t es) < 2 ^ 31 - 1" using len le_less_trans [OF length_filter_le] by fastforce
  from table_step [OF ns item k room this] obtain p' ns' where
    p': "bind_res (GetItemNumber item p) (\<lambda>(i, ss1). ApplyProfile i (of_nat k) ss1) = Inr p'" "table_rep p' ns' (times_of t es @ [?e])"
    by (elim exE conjE)
  then have d: "delete_ProfileItem t item (of_nat k) m = Inr (set_profiler t p' m1)"
    using g by (auto simp: delete_ProfileItem_def bind_res_def split: sum.splits)
  have "manager_rep (set_profiler t p' m1) (es @ [(t, ?e)])"
    unfolding manager_rep_def set_profiler_keys
  proof (intro conjI)
    show "\<forall>(u, q)\<in>set (pm_profilerList (set_profiler t p' m1)). \<exists>ns. table_rep q ns (times_of u (es @ [(t, ?e)]))"
      using m1(4) p'(2) by (fastforce simp: set_profiler_def)
  qed (use m1(1,2) in auto)
  then show ?thesis using d by blast
qed

subsection \<open>What a line holds\<close>

text \<open>With more than two times the shortest and the longest are left out.\<close>

definition kept_sum :: "nat list \<Rightarrow> int" where
  "kept_sum ks = (if length ks > 2 then int (sum_list ks) - longest ks - int (shortest ks) else int (sum_list ks))"

definition kept_count :: "nat list \<Rightarrow> int" where
  "kept_count ks = (if length ks > 2 then int (length ks) - 2 else int (length ks))"

definition line_rep :: "line \<Rightarrow> u16 list \<Rightarrow> nat list list \<Rightarrow> bool" where
  "line_rep l n kss \<longleftrightarrow> 0 \<in> set (ln_name l) \<and> wstr_of (ln_name l) = n \<and> ln_tot l = of_int (sum_list (map kept_sum kss)) \<and>
     ln_cnt l = of_int (sum_list (map kept_count kss)) \<and> ln_min l = of_nat (shortest (concat kss)) \<and>
     ln_max l = of_int (longest (concat kss)) \<and> (\<forall>k\<in>set (concat kss). k < 987654321)"

lemma shortest_append: "shortest (xs @ ys) = min (shortest xs) (shortest ys)"
  using shortest_le [of ys] by (induction xs) (auto simp: shortest_def)

lemma longest_ge: "- 1 \<le> longest xs"
  by (induction xs) (auto simp: longest_def)

lemma longest_append: "longest (xs @ ys) = max (longest xs) (longest ys)"
  using longest_ge [of ys] by (induction xs) (auto simp: longest_def)

lemma line_sints:
  assumes "line_rep l n kss"
  shows "sint (ln_min l) = int (shortest (concat kss))" "sint (ln_max l) = longest (concat kss)"
  using assms shortest_le [of "concat kss"] longest_bound [of "concat kss"] by (auto simp: line_rep_def sint_nat64 sint_int64)

lemma add_sample_rep:
  assumes l: "line_rep l n kss" and s: "sample_rep s m ks"
  shows "line_rep (add_sample s l) n (kss @ [ks])"
proof -
  have "\<forall>k\<in>set (concat (kss @ [ks])). k < 987654321" using l s by (auto simp: line_rep_def sample_rep_def)
  then show ?thesis
    using l s line_sints [OF l] sample_sints [OF s]
    by (auto simp: line_rep_def sample_rep_def add_sample_def Let_def kept_sum_def kept_count_def shortest_append longest_append min_def max_def)
qed

lemma fresh_line_rep: "0 \<in> set nm \<Longrightarrow> line_rep (fresh_line nm) (wstr_of nm) []"
  by (simp add: line_rep_def fresh_line_def shortest_def longest_def)

subsection \<open>Groups of one name\<close>

fun groups :: "'n \<Rightarrow> 'k list \<Rightarrow> ('n \<times> 'k) list \<Rightarrow> ('n \<times> 'k list) list" where
  "groups n kss [] = []"
| "groups n kss ((m, ks) # ps) = (if m = n then groups n (kss @ [ks]) ps else (n, kss) # groups m [ks] ps)"

abbreviation sample_of :: "PROFILE_SAMPLE \<Rightarrow> u16 list \<times> nat list \<Rightarrow> bool" where
  "sample_of s p \<equiv> sample_rep s (fst p) (snd p)"

lemma report_loop_groups:
  assumes "list_all2 sample_of ss ps" and "line_rep l n kss"
  shows "\<exists>ls. report_loop l ss = Inr ls \<and> list_all2 (\<lambda>l p. line_rep l (fst p) (snd p)) ls (groups n kss ps)"
  using assms
proof (induction arbitrary: l n kss rule: list_all2_induct)
  case (Cons s ss p ps)
  obtain m ks where p: "p = (m, ks)" by fastforce
  then have s: "sample_rep s m ks" "0 \<in> set (pf_szName s)" "wstr_of (pf_szName s) = m" using Cons(1) by (auto simp: sample_rep_def)
  obtain c where c: "wcscmp (ln_name l) (pf_szName s) = Inr c" "c = 0 \<longleftrightarrow> n = m"
    using wcscmp_0 [of "ln_name l" "pf_szName s"] Cons(4) s(2,3) by (auto simp: line_rep_def)
  show ?case
  proof (cases "n = m")
    case True
    then show ?thesis using c Cons(3) [OF add_sample_rep [OF Cons(4) s(1)]] p by simp
  next
    case False
    have "line_rep (add_sample s (fresh_line (pf_szName s))) m [ks]"
      using add_sample_rep [OF fresh_line_rep [OF s(2)] s(1)] s(3) by simp
    from Cons(3) [OF this] obtain ls where "report_loop (add_sample s (fresh_line (pf_szName s))) ss = Inr ls"
        "list_all2 (\<lambda>l p. line_rep l (fst p) (snd p)) ls (groups m [ks] ps)" by blast
    then show ?thesis using c False p Cons(4) by simp
  qed
qed simp

lemma sorted_list_of_set_least:
  assumes "finite S" and "\<forall>y\<in>S. x < y"
  shows "sorted_list_of_set (insert x S) = x # sorted_list_of_set S"
proof -
  have "x \<notin> S" using assms(2) by blast
  then have "distinct (x # sorted_list_of_set S)" "sorted (x # sorted_list_of_set S)" "set (x # sorted_list_of_set S) = insert x S"
    using assms by (auto intro: less_imp_le)
  then show ?thesis using sorted_list_of_set.idem_if_sorted_distinct by metis
qed

text \<open>In a list sorted by name the groups are the names in order, each with all its entries.\<close>

lemma groups_sorted:
  fixes n :: "'n :: linorder"
  assumes "sorted (n # map fst ps)" and "z \<notin> insert n (fst ` set ps)"
  shows "groups n kss (ps @ [(z, ks0)]) =
    (n, kss @ times_of n ps) # map (\<lambda>m. (m, times_of m ps)) (sorted_list_of_set (fst ` set ps - {n}))"
  using assms
proof (induction ps arbitrary: n kss)
  case (Cons p ps)
  obtain m ks where p: "p = (m, ks)" by fastforce
  show ?case
  proof (cases "m = n")
    case True
    have "map (\<lambda>m. (m, times_of m ps)) (sorted_list_of_set (fst ` set ps - {n})) =
        map (\<lambda>m. (m, times_of m (p # ps))) (sorted_list_of_set (fst ` set (p # ps) - {n}))"
      using p True by (intro map_cong) auto
    then show ?thesis using Cons True p by simp
  next
    case False
    have lt: "\<forall>q\<in>set ps. n < fst q \<and> m \<le> fst q" "n < m" using Cons.prems(1) p False by fastforce+
    then have none: "filter (\<lambda>q. fst q = n) ps = []" by (auto simp: filter_empty_conv)
    have "n \<notin> fst ` set ps" using lt(1) by auto
    then have S: "fst ` set (p # ps) - {n} = insert m (fst ` set ps - {m})" using p False by auto
    have order: "sorted_list_of_set (fst ` set (p # ps) - {n}) = m # sorted_list_of_set (fst ` set ps - {m})"
      unfolding S by (rule sorted_list_of_set_least) (use lt(1) in force)+
    have "groups m [ks] (ps @ [(z, ks0)]) =
        (m, [ks] @ times_of m ps) # map (\<lambda>m. (m, times_of m ps)) (sorted_list_of_set (fst ` set ps - {m}))"
      using Cons p by (intro Cons.IH) auto
    moreover have "map (\<lambda>m. (m, times_of m ps)) (sorted_list_of_set (fst ` set ps - {m})) =
        map (\<lambda>m. (m, times_of m (p # ps))) (sorted_list_of_set (fst ` set ps - {m}))"
      using p by (intro map_cong) auto
    ultimately show ?thesis unfolding order using p False none by simp
  qed
qed simp

lemma groups_all:
  fixes ps :: "('n :: linorder \<times> 'k) list"
  assumes "sorted (map fst ps)" and "ps \<noteq> []" and "z \<notin> fst ` set ps"
  shows "groups (fst (hd ps)) [] (ps @ [(z, ks0)]) = map (\<lambda>m. (m, times_of m ps)) (sorted_list_of_set (fst ` set ps))"
proof -
  let ?n = "fst (hd ps)"
  have in_ps: "?n \<in> fst ` set ps" using assms(2) by simp
  have le: "\<forall>q\<in>set ps. ?n \<le> fst q" using assms(1,2) by (cases ps) auto
  then have "sorted (?n # map fst ps)" using assms(1) by auto
  then have "groups ?n [] (ps @ [(z, ks0)]) =
      (?n, times_of ?n ps) # map (\<lambda>m. (m, times_of m ps)) (sorted_list_of_set (fst ` set ps - {?n}))"
    using groups_sorted [of ?n ps z "[]"] in_ps assms(3) by (simp add: insert_absorb)
  moreover have "sorted_list_of_set (fst ` set ps) = ?n # sorted_list_of_set (fst ` set ps - {?n})"
  proof -
    have "insert ?n (fst ` set ps - {?n}) = fst ` set ps" using in_ps by blast
    moreover have "\<forall>y\<in>fst ` set ps - {?n}. ?n < y" using le by (auto simp: less_le)
    ultimately show ?thesis using sorted_list_of_set_least [of "fst ` set ps - {?n}" ?n] by simp
  qed
  ultimately show ?thesis by simp
qed

lemma sort_samples_rep:
  assumes "list_all2 sample_of ss ps"
  shows "list_all2 sample_of (sort_samples ss) (sort_key fst ps)"
proof -
  have ins: "list_all2 sample_of (insort_key (\<lambda>s. wstr_of (pf_szName s)) s ss) (insort_key fst p ps)"
    if "list_all2 sample_of ss ps" "sample_of s p" for s p ss ps
    using that by (induction rule: list_all2_induct) (auto simp: sample_rep_def)
  show ?thesis
    using assms unfolding sort_samples_def by (induction rule: list_all2_induct) (auto intro: ins)
qed

subsection \<open>Adding up over the threads\<close>

lemma list_all2_concat: "list_all2 (list_all2 P) xss yss \<Longrightarrow> list_all2 P (concat xss) (concat yss)"
  by (induction rule: list_all2_induct) (auto intro: list_all2_appendI)

lemma table_samples:
  assumes "table_rep ss ns ts"
  shows "list_all2 sample_of (filter pf_lFlag ss) (map (\<lambda>n. (n, times_of n ts)) ns)"
proof -
  obtain us vs where ss: "ss = us @ vs" and us: "list_all2 (\<lambda>s n. pf_lFlag s \<and> sample_rep s n (times_of n ts)) us ns"
      and vs: "\<forall>v\<in>set vs. \<not> pf_lFlag v"
    using assms unfolding table_rep_def by blast
  have "\<forall>u\<in>set us. pf_lFlag u" using us by (auto simp: list_all2_conv_all_nth in_set_conv_nth)
  then have "filter pf_lFlag ss = us" using ss vs by (simp add: filter_empty_conv filter_id_conv)
  then show ?thesis using us by (simp add: list_all2_map2 list.rel_mono_strong)
qed

text \<open>The entries of one name: one for each thread that used it.\<close>

lemma times_of_pairs:
  "distinct ns \<Longrightarrow> times_of n (map (\<lambda>m. (m, g m)) ns) = (if n \<in> set ns then [g n] else [])"
  by (induction ns) auto

lemma sum_lengths:
  fixes es :: "('t \<times> 'e) list"
  assumes "finite S" and "fst ` set es \<subseteq> S"
  shows "(\<Sum>t\<in>S. length (times_of t es)) = length es"
  using assms(2)
proof (induction es)
  case (Cons e es)
  have "(\<Sum>t\<in>S. length (times_of t (e # es))) = (\<Sum>t\<in>S. (if fst e = t then 1 else 0) + length (times_of t es))"
    by (intro sum.cong) auto
  also have "\<dots> = Suc (length es)" using Cons assms(1) by (simp add: sum.distrib)
  finally show ?case by simp
qed simp

lemma kept_bounds:
  assumes "\<forall>k\<in>set ks. k < 987654321"
  shows "- 2000000000 \<le> kept_sum ks" "kept_sum ks \<le> 987654321 * int (length ks) + 1" "0 \<le> kept_count ks" "kept_count ks \<le> int (length ks)"
proof -
  have "sum_list ks \<le> 987654321 * length ks" using assms by (induction ks) auto
  then have "int (sum_list ks) \<le> 987654321 * int (length ks)" by linarith
  then show "- 2000000000 \<le> kept_sum ks" "kept_sum ks \<le> 987654321 * int (length ks) + 1"
    using longest_bound [OF assms] shortest_le [of ks] by (auto simp: kept_sum_def)
qed (auto simp: kept_count_def)

lemma shortest_Min: "ks \<noteq> [] \<Longrightarrow> \<forall>k\<in>set ks. k < 987654321 \<Longrightarrow> shortest ks = Min (set ks)"
proof (induction ks)
  case (Cons k ks)
  then show ?case by (cases "ks = []") (auto simp: shortest_def)
qed simp

lemma longest_Max: "ks \<noteq> [] \<Longrightarrow> longest ks = int (Max (set ks))"
proof (induction ks)
  case (Cons k ks)
  then show ?case by (cases "ks = []") (auto simp: longest_def of_nat_max)
qed simp

definition line_exact :: "(nat \<times> u16 list \<times> nat) list \<Rightarrow> line \<Rightarrow> bool" where
  "line_exact es l \<longleftrightarrow> (let n = wstr_of (ln_name l); ks = times_of n (map snd es) in
     sint (ln_tot l) = (\<Sum>t\<in>fst ` set es. kept_sum (times_of n (times_of t es))) \<and>
     sint (ln_cnt l) = (\<Sum>t\<in>fst ` set es. kept_count (times_of n (times_of t es))) \<and>
     sint (ln_min l) = int (Min (set ks)) \<and> sint (ln_max l) = int (Max (set ks)))"

lemma line_rep_exact:
  assumes l: "line_rep l n kss" and small: "length es < 2 ^ 31" "\<forall>e\<in>set es. snd (snd e) < 987654321"
    and sums: "\<And>f :: nat list \<Rightarrow> int. f [] = 0 \<Longrightarrow> sum_list (map f kss) = (\<Sum>t\<in>fst ` set es. f (times_of n (times_of t es)))"
    and set: "set (concat kss) = set (times_of n (map snd es))" and used: "n \<in> fst ` snd ` set es"
  shows "line_exact es l"
proof -
  let ?T = "fst ` set es" and ?ks = "\<lambda>t. times_of n (times_of t es)"
  have n: "wstr_of (ln_name l) = n" using l by (simp add: line_rep_def)
  have lt: "\<forall>k\<in>set (?ks t). k < 987654321" for t using small(2) by auto
  have card: "card ?T \<le> length es" using card_image_le [of "set es" fst] card_length [of es] by simp
  have "(\<Sum>t\<in>?T. length (?ks t)) \<le> (\<Sum>t\<in>?T. length (times_of t es))"
    by (rule sum_mono) (use length_filter_le [of "\<lambda>p. fst p = n"] in \<open>metis length_map\<close>)
  then have lens: "(\<Sum>t\<in>?T. length (?ks t)) \<le> length es" using sum_lengths [of ?T es] by simp
  have tot: "(\<Sum>t\<in>?T. kept_sum (?ks t)) \<le> (\<Sum>t\<in>?T. 987654321 * int (length (?ks t)) + 1)"
      "(\<Sum>t\<in>?T. - 2000000000) \<le> (\<Sum>t\<in>?T. kept_sum (?ks t))"
    using kept_bounds(1,2) [OF lt] by (intro sum_mono; simp)+
  have cnt: "(\<Sum>t\<in>?T. kept_count (?ks t)) \<le> (\<Sum>t\<in>?T. int (length (?ks t)))" "0 \<le> (\<Sum>t\<in>?T. kept_count (?ks t))"
    using kept_bounds(3,4) [OF lt] by (intro sum_mono sum_nonneg; simp)+
  have up: "(\<Sum>t\<in>?T. 987654321 * int (length (?ks t)) + 1) = 987654321 * int (\<Sum>t\<in>?T. length (?ks t)) + int (card ?T)"
    by (simp add: sum.distrib sum_distrib_left)
  have low: "(\<Sum>t\<in>?T. - 2000000000) = - 2000000000 * int (card ?T)" by simp
  define A where "A = (\<Sum>t\<in>?T. kept_sum (?ks t))"
  define C where "C = (\<Sum>t\<in>?T. kept_count (?ks t))"
  define N where "N = (\<Sum>t\<in>?T. length (?ks t))"
  have nil: "kept_sum [] = 0" "kept_count [] = 0" by (simp_all add: kept_sum_def kept_count_def)
  have "ln_tot l = of_int A" "ln_cnt l = of_int C"
    using l unfolding line_rep_def A_def C_def sums [of kept_sum, OF nil(1), symmetric] sums [of kept_count, OF nil(2), symmetric] by blast+
  moreover have "- 2000000000 * int (card ?T) \<le> A" "A \<le> 987654321 * int N + int (card ?T)"
    using tot unfolding up low A_def [symmetric] N_def [symmetric] by blast+
  moreover have "0 \<le> C" "C \<le> int N" using cnt unfolding C_def [symmetric] of_nat_sum [symmetric] N_def [symmetric] by blast+
  moreover have "N \<le> length es" using lens by (simp only: N_def)
  ultimately have "sint (ln_tot l) = A" "sint (ln_cnt l) = C" using card small(1) by (simp_all add: sint_int64)
  moreover have "concat kss \<noteq> []"
  proof -
    obtain e where "e \<in> set es" "fst (snd e) = n" using used by blast
    then have "snd (snd e) \<in> set (times_of n (map snd es))" by auto
    then have "snd (snd e) \<in> set (concat kss)" using set by blast
    then show ?thesis by (metis empty_iff empty_set)
  qed
  moreover from this have "sint (ln_min l) = int (Min (set (concat kss)))" "sint (ln_max l) = int (Max (set (concat kss)))"
    using line_sints [OF l] l shortest_Min [of "concat kss"] longest_Max [of "concat kss"] by (simp_all add: line_rep_def)
  ultimately show ?thesis unfolding line_exact_def Let_def n set A_def C_def by simp
qed

lemma set_optional:
  "(\<And>x. x \<in> set xs \<Longrightarrow> \<not> P x \<Longrightarrow> g x = []) \<Longrightarrow>
   set (concat (concat (map (\<lambda>x. if P x then [g x] else []) xs))) = (\<Union>x\<in>set xs. set (g x))"
  by (induction xs) auto

lemma sum_optional:
  fixes h :: "'k list \<Rightarrow> int"
  assumes "h [] = 0" and "\<And>x. x \<in> set xs \<Longrightarrow> \<not> P x \<Longrightarrow> g x = []"
  shows "sum_list (map h (concat (map (\<lambda>x. if P x then [g x] else []) xs))) = sum_list (map (\<lambda>x. h (g x)) xs)"
  using assms(2) by (induction xs) (auto simp: assms(1))

text \<open>The samples in use, as pairs of a name and its times; the entries of a name are those of the threads that used it.\<close>

lemma manager_pairs:
  assumes m: "manager_rep m es"
  obtains pairs where
    "list_all2 sample_of (concat (map (\<lambda>(t, p). filter pf_lFlag p) (pm_profilerList m))) pairs"
    "fst ` set pairs = fst ` snd ` set es"
    "\<And>n. set (concat (times_of n pairs)) = set (times_of n (map snd es))"
    "\<And>n (g :: nat list \<Rightarrow> int). g [] = 0 \<Longrightarrow> sum_list (map g (times_of n pairs)) = (\<Sum>t\<in>fst ` set es. g (times_of n (times_of t es)))"
proof -
  define L where "L = pm_profilerList m"
  let ?ks = "\<lambda>n t. times_of n (times_of t es)"
  have keys: "distinct (map fst L)" "fst ` set L = fst ` set es" using m by (simp_all add: manager_rep_def L_def)
  have "\<forall>x\<in>set L. \<exists>ns. table_rep (snd x) ns (times_of (fst x) es)" using m by (auto simp: manager_rep_def L_def)
  then obtain f where f: "\<And>x. x \<in> set L \<Longrightarrow> table_rep (snd x) (f x) (times_of (fst x) es)" by metis
  have fx: "distinct (f x)" "set (f x) = fst ` set (times_of (fst x) es)" if "x \<in> set L" for x
    using f [OF that] by (auto simp: table_rep_def)
  define row where "row x = map (\<lambda>n. (n, ?ks n (fst x))) (f x)" for x
  have "list_all2 (list_all2 sample_of) (map (\<lambda>(t, p). filter pf_lFlag p) L) (map row L)"
    using table_samples [OF f] by (auto simp: row_def list.rel_map case_prod_beta intro!: list.rel_refl_strong)
  then have rep: "list_all2 sample_of (concat (map (\<lambda>(t, p). filter pf_lFlag p) L)) (concat (map row L))" by (rule list_all2_concat)
  have "fst ` set (concat (map row L)) = (\<Union>x\<in>set L. set (f x))" by (simp add: row_def image_UN image_comp)
  also have "\<dots> = (\<Union>x\<in>set L. fst ` set (times_of (fst x) es))" using fx(2) by (rule SUP_cong [OF refl])
  also have "\<dots> = (\<Union>t\<in>fst ` set es. fst ` set (times_of t es))" unfolding keys(2) [symmetric] by simp
  also have "\<dots> = fst ` snd ` set es" by force
  finally have names: "fst ` set (concat (map row L)) = fst ` snd ` set es" .
  have split: "times_of n (concat (map row L)) = concat (map (\<lambda>x. if n \<in> set (f x) then [?ks n (fst x)] else []) L)" for n
  proof -
    have "times_of n (concat (map row L)) = concat (map (\<lambda>x. times_of n (row x)) L)" by (simp add: filter_concat map_concat comp_def)
    also have "map (\<lambda>x. times_of n (row x)) L = map (\<lambda>x. if n \<in> set (f x) then [?ks n (fst x)] else []) L"
      by (intro map_cong refl) (simp only: row_def times_of_pairs [OF fx(1)])
    finally show ?thesis .
  qed
  have none: "?ks n (fst x) = []" if "x \<in> set L" "n \<notin> set (f x)" for x n
    using that fx(2) [OF that(1)] by (force simp: filter_empty_conv)
  have "set (concat (times_of n (concat (map row L)))) = (\<Union>x\<in>set L. set (?ks n (fst x)))" for n
    unfolding split by (rule set_optional) (rule none)
  also have "(\<Union>x\<in>set L. set (?ks n (fst x))) = (\<Union>t\<in>fst ` set es. set (?ks n t))" for n unfolding keys(2) [symmetric] by simp
  also have "(\<Union>t\<in>fst ` set es. set (?ks n t)) = set (times_of n (map snd es))" for n by force
  finally have sets: "set (concat (times_of n (concat (map row L)))) = set (times_of n (map snd es))" for n .
  have sums: "sum_list (map g (times_of n (concat (map row L)))) = (\<Sum>t\<in>fst ` set es. g (?ks n t))" if g: "g [] = 0" for g :: "nat list \<Rightarrow> int" and n
  proof -
    have "sum_list (map g (times_of n (concat (map row L)))) = sum_list (map (\<lambda>x. g (?ks n (fst x))) L)"
      unfolding split by (rule sum_optional) (simp_all add: g none)
    also have "\<dots> = sum_list (map (\<lambda>t. g (?ks n t)) (map fst L))" by (simp add: comp_def)
    also have "\<dots> = (\<Sum>t\<in>set (map fst L). g (?ks n t))" by (rule sum_list_distinct_conv_sum_set [OF keys(1)])
    finally show ?thesis using keys(2) by simp
  qed
  show ?thesis by (rule that [OF rep [unfolded L_def] names [unfolded L_def] sets [unfolded L_def] sums [unfolded L_def]])
qed

lemma report_exact:
  assumes m: "manager_rep m es" and es: "es \<noteq> []" "length es < 2 ^ 31" "\<forall>e\<in>set es. fst (snd e) \<noteq> [] \<and> snd (snd e) < 987654321"
  shows "\<exists>ls. ProfileDataOutText True m = Inr (Some ls) \<and>
    map (wstr_of \<circ> ln_name) ls = sorted_list_of_set (fst ` snd ` set es) \<and> (\<forall>l\<in>set ls. line_exact es l)"
proof -
  obtain pairs where rep: "list_all2 sample_of (concat (map (\<lambda>(t, p). filter pf_lFlag p) (pm_profilerList m))) pairs"
      and names: "fst ` set pairs = fst ` snd ` set es"
      and sets: "\<And>n. set (concat (times_of n pairs)) = set (times_of n (map snd es))"
      and sums: "\<And>n (g :: nat list \<Rightarrow> int). g [] = 0 \<Longrightarrow> sum_list (map g (times_of n pairs)) = (\<Sum>t\<in>fst ` set es. g (times_of n (times_of t es)))"
    using manager_pairs [OF m] by blast
  define samples where "samples = concat (map (\<lambda>(t, p). filter pf_lFlag p) (pm_profilerList m))"
  define ps where "ps = sort_key fst pairs"
  let ?S = "sort_samples samples @ [new_PROFILE_SAMPLE]" and ?N = "sorted_list_of_set (fst ` snd ` set es)"
  have "set ps = set pairs" "sorted (map fst ps)" by (simp_all add: ps_def)
  then have ps: "sorted (map fst ps)" "ps \<noteq> []" "fst ` set ps = fst ` snd ` set es" using names es(1) by auto
  have "length samples = length pairs" unfolding samples_def by (rule list_all2_lengthD [OF rep])
  then have ne: "samples \<noteq> []" using names es(1) by auto
  have no_nil: "[] \<notin> fst ` set ps" unfolding ps(3) image_image using es(3) by (metis (no_types, lifting) imageE)
  have "sample_of new_PROFILE_SAMPLE ([], [])"
    by (simp add: sample_rep_def new_PROFILE_SAMPLE_def MAX_NAME_def wstr_of_def shortest_def longest_def)
  moreover have reps: "list_all2 sample_of (sort_samples samples) ps"
    unfolding ps_def samples_def by (rule sort_samples_rep [OF rep])
  ultimately have reps': "list_all2 sample_of ?S (ps @ [([], [])])" by (intro list_all2_appendI) simp_all
  have "sample_of (hd ?S) (hd ps)" using reps ps(2) by (cases ps; cases "sort_samples samples") auto
  then have start: "line_rep (fresh_line (pf_szName (hd ?S))) (fst (hd ps)) []"
    using fresh_line_rep [of "pf_szName (hd ?S)"] by (simp add: sample_rep_def)
  obtain ls where ls: "report_loop (fresh_line (pf_szName (hd ?S))) ?S = Inr ls"
      "list_all2 (\<lambda>l p. line_rep l (fst p) (snd p)) ls (map (\<lambda>n. (n, times_of n ps)) ?N)"
    using report_loop_groups [OF reps' start] groups_all [OF ps(1,2) no_nil, of "[]"] ps(3) by auto
  have out: "ProfileDataOutText True m = Inr (Some ls)"
    using ls(1) ne by (simp add: ProfileDataOutText_def Let_def samples_def bind_res_def)
  have same: "times_of n ps = times_of n pairs" for n unfolding ps_def by (simp add: sort_key_stable)
  have "line_exact es l" if l: "l \<in> set ls" for l
  proof -
    obtain j where j: "j < length ls" "ls ! j = l" using l by (auto simp: in_set_conv_nth)
    then have r: "line_rep l (?N ! j) (times_of (?N ! j) pairs)" "j < length ?N"
      using list_all2_nthD [OF ls(2) j(1)] list_all2_lengthD [OF ls(2)] same by auto
    have "?N ! j \<in> set ?N" by (rule nth_mem [OF r(2)])
    then show ?thesis using es(3) by (intro line_rep_exact [OF r(1) es(2) _ sums sets]) auto
  qed
  moreover have "map (wstr_of \<circ> ln_name) ls = ?N"
    using ls(2) by (intro nth_equalityI) (auto simp: list_all2_conv_all_nth line_rep_def)
  ultimately show ?thesis using out by blast
qed

lemma manager_new: "manager_rep new_ProfileManager []"
  by (simp add: manager_rep_def new_ProfileManager_def)

lemma measure_all_rep:
  assumes "manager_rep m es" and "\<forall>x\<in>set ms. measurement_ok x" and "length es + length ms < 2 ^ 31"
    and "\<And>t. card (fst ` set (times_of t (es @ map event_of ms))) \<le> 64"
  shows "\<exists>m'. measure_all ms m = Inr m' \<and> manager_rep m' (es @ map event_of ms)"
  using assms
proof (induction ms arbitrary: m es)
  case (Cons x ms)
  obtain t junk nm k where x: "x = (t, junk, nm, k)" by (cases x)
  then have ok: "length junk = 64" "name_ok nm" "k < 987654321" using Cons.prems(2) by (auto simp: measurement_ok_def)
  obtain item where item: "new_ProfileItem junk nm = Inr item" "name_ok item" "0 \<in> set item" "wstr_of item = wstr_of nm"
    using copy_name_ok [OF ok(2,1)] by (metis new_ProfileItem_def)
  have sub: "insert (wstr_of item) (fst ` set (times_of t es)) \<subseteq> fst ` set (times_of t (es @ map event_of (x # ms)))"
    using x item(4) by auto
  have "card (insert (wstr_of item) (fst ` set (times_of t es))) \<le> 64"
    by (rule le_trans [OF card_mono [OF _ sub] Cons.prems(4)]) simp
  then obtain m1 where m1: "delete_ProfileItem t item (of_nat k) m = Inr m1" "manager_rep m1 (es @ [(t, wstr_of item, k)])"
    using manager_step [OF Cons.prems(1) item(2,3) ok(3)] Cons.prems(3) by auto
  have "\<exists>m'. measure_all ms m1 = Inr m' \<and> manager_rep m' ((es @ [(t, wstr_of item, k)]) @ map event_of ms)"
    using m1(2) Cons.prems x item(4) by (intro Cons.IH) auto
  then show ?case using m1(1) x item(1,4) by (simp add: bind_res_def)
qed simp

subsection \<open>Properties\<close>


definition demo_name :: "u16 \<Rightarrow> u16 list" where
  "demo_name c = c # replicate 31 0"

definition demo_measurements :: "measurement list" where
  "demo_measurements = (let junk = replicate 64 7 in
     [(1, junk, demo_name 98, 10), (2, junk, demo_name 97, 5), (1, junk, demo_name 97, 40), (1, junk, demo_name 97, 1), (1, junk, demo_name 97, 2)])"

lemma few_names: "card (fst ` set (times_of t xs)) \<le> length xs"
proof -
  have "card (fst ` set (times_of t xs)) \<le> length (times_of t xs)" using card_image_le card_length le_trans by blast
  also have "\<dots> \<le> length xs" by simp
  finally show ?thesis .
qed


end
