(* ===== verification/Logger.thy ===== *)
theory Logger
  imports Setting_Parser "HOL-Library.Monad_Syntax"
begin

section \<open>The log file\<close>

text \<open>
  \<^verbatim>\<open>CLogger\<close> (\<^verbatim>\<open>CLogger.h\<close>, \<^verbatim>\<open>CLogger.cpp\<close>): \<^verbatim>\<open>Write\<close> appends a record to a file named after the date and the type. Each of
  its three formatted texts goes into an array of fixed size, and when one does not fit, \<^verbatim>\<open>Write\<close> calls itself to log
  that. The recursion need not end, so the model is a partial function: \<open>None\<close> is a call that never returns (the
  stack overflows). The text the caller's format makes is an argument; the clock answers the \<open>n\<close>-th time it is asked.
\<close>

subsection \<open>Model\<close>

datatype LogLevel = LvDebug | LvInvalid | LvError | LvSystem

fun level_no :: "LogLevel \<Rightarrow> nat" where
  "level_no LvDebug = 0"
| "level_no LvInvalid = 1"
| "level_no LvError = 2"
| "level_no LvSystem = 3"

fun level_name :: "LogLevel \<Rightarrow> wstr" where
  "level_name LvDebug = wide ''Debug''"
| "level_name LvInvalid = wide ''Invalid''"
| "level_name LvError = wide ''Error''"
| "level_name LvSystem = wide ''System''"

record CLogger =
  lg_logLevel :: LogLevel
  lg_extraFileName :: wstr

definition new_CLogger :: "wstr \<Rightarrow> LogLevel \<Rightarrow> CLogger" where
  "new_CLogger fileName level = \<lparr>lg_logLevel = level, lg_extraFileName = fileName\<rparr>"

text \<open>\<^verbatim>\<open>struct tm\<close>: years since 1900, months from 0.\<close>

record tm =
  tm_year :: nat
  tm_mon :: nat
  tm_mday :: nat
  tm_hour :: nat
  tm_min :: nat
  tm_sec :: nat

text \<open>What was appended to which file, the files that could not be opened, and how often the clock was read.\<close>

record log_files =
  lf_records :: "(wstr \<times> wstr) list"
  lf_failed :: "wstr list"
  lf_reads :: nat

fun decimal :: "nat \<Rightarrow> wstr" where
  "decimal n = (if n < 10 then [of_nat (48 + n)] else decimal (n div 10) @ [of_nat (48 + n mod 10)])"

declare decimal.simps [simp del]

text \<open>\<^verbatim>\<open>StringCchPrintfW(dest, n, ...)\<close>: whether the text and its null fit, and what is in the array.\<close>

definition StringCchPrintfW :: "nat \<Rightarrow> wstr \<Rightarrow> bool \<times> wstr" where
  "StringCchPrintfW n msg = (length msg < n, List.take (n - 1) msg)"

definition date_text :: "tm \<Rightarrow> wstr" where
  "date_text t = decimal (tm_year t + 1900) @ wide ''-'' @ decimal (tm_mon t + 1) @ wide ''-'' @ decimal (tm_mday t)"

definition file_name :: "CLogger \<Rightarrow> tm \<Rightarrow> wstr \<Rightarrow> wstr" where
  "file_name lg t ty = date_text t @ wide ''_'' @ lg_extraFileName lg @ wide ''_'' @ ty @ wide ''.txt''"

definition header_text :: "tm \<Rightarrow> wstr \<Rightarrow> LogLevel \<Rightarrow> wstr" where
  "header_text t ty level = wide ''['' @ ty @ wide ''] ['' @ date_text t @ wide '' '' @ decimal (tm_hour t) @ wide '':'' @
     decimal (tm_min t) @ wide '':'' @ decimal (tm_sec t) @ wide '' / '' @ level_name level @ wide '']'' @ [10]"

definition SYSTEM :: wstr where
  "SYSTEM = wide ''SYSTEM''"

text \<open>The messages for a file name, a header and a text that do not fit.\<close>

definition msg_name :: wstr where
  "msg_name = [76, 79, 71, 71, 69, 82, 32, 58, 32, 54028, 51068, 32, 51060, 47492, 32, 48260, 54140, 48372, 45796, 32, 51060, 47492, 51060, 32, 53373, 45768, 45796, 46, 10]"

definition msg_header :: wstr where
  "msg_header = [76, 79, 71, 71, 69, 82, 32, 58, 32, 54756, 45908, 32, 48260, 54140, 48372, 45796, 32, 54756, 45908, 44032, 32, 53373, 45768, 45796, 46, 10]"

definition msg_text :: wstr where
  "msg_text = [47196, 44536, 32, 48260, 54140, 48372, 45796, 32, 47196, 44536, 44032, 32, 53373, 45768, 45796, 46, 10]"

definition read_clock :: "(nat \<Rightarrow> tm) \<Rightarrow> log_files \<Rightarrow> tm \<times> log_files" where
  "read_clock clock w = (clock (lf_reads w), w\<lparr>lf_reads := Suc (lf_reads w)\<rparr>)"

partial_function (option) Write ::
  "(nat \<Rightarrow> tm) \<Rightarrow> (wstr \<Rightarrow> bool) \<Rightarrow> CLogger \<Rightarrow> wstr \<Rightarrow> LogLevel \<Rightarrow> wstr \<Rightarrow> log_files \<Rightarrow> log_files option" where
  "Write clock can_open lg ty level msg w =
     (if level_no (lg_logLevel lg) > level_no level then Some w
      else
        (let (t, w0) = read_clock clock w;
             (nameFits, fileName) = StringCchPrintfW 40 (file_name lg t ty);
             (headFits, logHeader) = StringCchPrintfW 128 (header_text t ty level);
             (textFits, logBuffer) = StringCchPrintfW 2048 msg
         in Option.bind (if nameFits then Some w0 else Write clock can_open lg SYSTEM LvError msg_name w0) (\<lambda>w1.
            if \<not> can_open fileName then Some (w1\<lparr>lf_failed := lf_failed w1 @ [fileName]\<rparr>)
            else
              Option.bind (if headFits then Some w1 else Write clock can_open lg SYSTEM LvError msg_header w1) (\<lambda>w2.
              Option.bind (if textFits then Some w2 else Write clock can_open lg SYSTEM LvError msg_text w2) (\<lambda>w3.
                Some (w3\<lparr>lf_records := lf_records w3 @ [(fileName, logHeader @ wide '' '' @ logBuffer @ [10])]\<rparr>))))))"

subsection \<open>Lengths\<close>

lemma length_wide [simp]: "length (wide cs) = length cs"
  by (simp add: wide_def)

lemma decimal_digits: "n < 10 ^ Suc d \<Longrightarrow> 1 \<le> length (decimal n) \<and> length (decimal n) \<le> Suc d"
proof (induction d arbitrary: n)
  case 0
  then show ?case by (subst decimal.simps, subst (2) decimal.simps) simp
next
  case (Suc d)
  show ?case
  proof (cases "n < 10")
    case True
    then show ?thesis by (subst decimal.simps, subst (2) decimal.simps) simp
  next
    case False
    have "n div 10 < 10 ^ Suc d" using Suc.prems by (simp add: less_mult_imp_div_less)
    from Suc.IH [OF this] have "1 \<le> length (decimal (n div 10)) \<and> length (decimal (n div 10)) \<le> Suc d" .
    moreover have "length (decimal n) = Suc (length (decimal (n div 10)))" using False by (subst decimal.simps) simp
    ultimately show ?thesis by simp
  qed
qed

definition date_ok :: "tm \<Rightarrow> bool" where
  "date_ok t \<longleftrightarrow> tm_year t < 8100 \<and> tm_mon t < 12 \<and> tm_mday t < 32 \<and> tm_hour t < 24 \<and> tm_min t < 60 \<and> tm_sec t \<le> 60"

lemma decimal_at_least: "10 ^ d \<le> n \<Longrightarrow> Suc d \<le> length (decimal n)"
proof (induction d arbitrary: n)
  case 0
  then show ?case by (subst decimal.simps) simp
next
  case (Suc d)
  have "1 \<le> (10 :: nat) ^ d" by simp
  then have "10 \<le> n" using Suc.prems by (simp add: order.trans [of 10 "10 * 10 ^ d" n])
  moreover have "10 ^ d \<le> n div 10" using Suc.prems by (simp add: less_eq_div_iff_mult_less_eq mult.commute)
  ultimately show ?case using Suc.IH [of "n div 10"] by (subst decimal.simps) simp
qed

lemma decimal_year: "1000 \<le> n \<Longrightarrow> n < 10000 \<Longrightarrow> length (decimal n) = 4"
  using decimal_at_least [of 3 n] decimal_digits [of n 3] by simp

lemma date_length:
  assumes "date_ok t"
  shows "8 \<le> length (date_text t)" "length (date_text t) \<le> 10"
  using assms decimal_year [of "tm_year t + 1900"] decimal_digits [of "tm_mon t + 1" 1] decimal_digits [of "tm_mday t" 1]
  by (simp_all add: date_ok_def date_text_def)

text \<open>The name of the system log fits exactly when the extra name is short; the header of a system record always fits.\<close>

lemma system_name:
  assumes "date_ok t"
  shows "length (lg_extraFileName lg) \<le> 17 \<Longrightarrow> length (file_name lg t SYSTEM) < 40"
    and "20 \<le> length (lg_extraFileName lg) \<Longrightarrow> 6 \<le> length ty \<Longrightarrow> \<not> length (file_name lg t ty) < 40"
  using date_length [OF assms] by (simp_all add: file_name_def SYSTEM_def)

lemma system_header:
  assumes "date_ok t"
  shows "length (header_text t SYSTEM LvError) < 128"
  using date_length [OF assms] assms decimal_digits [of "tm_hour t" 1] decimal_digits [of "tm_min t" 1] decimal_digits [of "tm_sec t" 1]
  by (simp add: header_text_def SYSTEM_def date_ok_def)

definition system_record :: "CLogger \<Rightarrow> tm \<Rightarrow> wstr \<Rightarrow> wstr \<times> wstr" where
  "system_record lg t msg = (file_name lg t SYSTEM, header_text t SYSTEM LvError @ wide '' '' @ msg @ [10])"

subsection \<open>When the system log's name fits\<close>

text \<open>A nested call returns and adds at most one record, of the system log.\<close>

definition system_only :: "log_files \<Rightarrow> log_files \<Rightarrow> bool" where
  "system_only w w' \<longleftrightarrow> (\<exists>rs. lf_records w' = lf_records w @ rs \<and> length rs \<le> 1 \<and>
     (\<forall>r\<in>set rs. \<exists>d. fst r = d @ wide ''_SYSTEM.txt''))"

lemma nested_returns:
  assumes d: "\<forall>k. date_ok (clock k)" and e: "length (lg_extraFileName lg) \<le> 17" and m: "length msg < 2048"
  shows "\<exists>w'. Write clock can_open lg SYSTEM LvError msg w = Some w' \<and> system_only w w'"
proof -
  let ?t = "clock (lf_reads w)"
  have fits: "length (file_name lg ?t SYSTEM) < 40" "length (header_text ?t SYSTEM LvError) < 128"
    using system_name(1) [OF _ e] system_header d by blast+
  have "file_name lg ?t SYSTEM = (date_text ?t @ wide ''_'' @ lg_extraFileName lg) @ wide ''_SYSTEM.txt''"
    by (simp add: file_name_def SYSTEM_def wide_def)
  then show ?thesis
    using fits m
    by (subst Write.simps) (auto simp: read_clock_def StringCchPrintfW_def Let_def system_only_def)
qed

lemma messages_fit: "length msg_name < 2048" "length msg_header < 2048" "length msg_text < 2048"
  by (simp_all add: msg_name_def msg_header_def msg_text_def)

text \<open>A call adds the system records of what did not fit, and then its own record, cut to the arrays.\<close>

definition own_record :: "CLogger \<Rightarrow> tm \<Rightarrow> wstr \<Rightarrow> LogLevel \<Rightarrow> wstr \<Rightarrow> wstr \<times> wstr" where
  "own_record lg t ty level msg =
     (List.take 39 (file_name lg t ty), List.take 127 (header_text t ty level) @ wide '' '' @ List.take 2047 msg @ [10])"

definition written :: "(wstr \<Rightarrow> bool) \<Rightarrow> CLogger \<Rightarrow> tm \<Rightarrow> wstr \<Rightarrow> LogLevel \<Rightarrow> wstr \<Rightarrow> log_files \<Rightarrow> log_files \<Rightarrow> bool" where
  "written can_open lg t ty level msg w w' \<longleftrightarrow> (\<exists>rs. length rs \<le> 3 \<and> (\<forall>r\<in>set rs. \<exists>d. fst r = d @ wide ''_SYSTEM.txt'') \<and>
     lf_records w' = lf_records w @ rs @ (if can_open (List.take 39 (file_name lg t ty)) then [own_record lg t ty level msg] else []))"

lemma optional_system:
  assumes d: "\<forall>k. date_ok (clock k)" and e: "length (lg_extraFileName lg) \<le> 17" and m: "length msg < 2048"
  shows "\<exists>w' rs. (if fits then Some w else Write clock can_open lg SYSTEM LvError msg w) = Some w' \<and> lf_records w' = lf_records w @ rs \<and>
    length rs \<le> 1 \<and> (\<forall>r\<in>set rs. \<exists>d. fst r = d @ wide ''_SYSTEM.txt'')"
proof (cases fits)
  case False
  then show ?thesis using nested_returns [OF d e m, of can_open w] unfolding system_only_def by auto
qed auto

lemma Write_returns:
  assumes d: "\<forall>k. date_ok (clock k)" and e: "length (lg_extraFileName lg) \<le> 17" and l: "level_no (lg_logLevel lg) \<le> level_no level"
  shows "\<exists>w'. Write clock can_open lg ty level msg w = Some w' \<and> written can_open lg (clock (lf_reads w)) ty level msg w w'"
proof -
  let ?t = "clock (lf_reads w)"
  note sys = optional_system [OF d e]
  obtain w1 r1 where w1: "(if length (file_name lg ?t ty) < 40 then Some (w\<lparr>lf_reads := Suc (lf_reads w)\<rparr>)
      else Write clock can_open lg SYSTEM LvError msg_name (w\<lparr>lf_reads := Suc (lf_reads w)\<rparr>)) = Some w1"
      "lf_records w1 = lf_records w @ r1" "length r1 \<le> 1" "\<forall>r\<in>set r1. \<exists>d. fst r = d @ wide ''_SYSTEM.txt''"
    using sys [OF messages_fit(1), of "length (file_name lg ?t ty) < 40" "w\<lparr>lf_reads := Suc (lf_reads w)\<rparr>" can_open] by auto
  obtain w2 r2 where w2: "(if length (header_text ?t ty level) < 128 then Some w1 else Write clock can_open lg SYSTEM LvError msg_header w1) = Some w2"
      "lf_records w2 = lf_records w1 @ r2" "length r2 \<le> 1" "\<forall>r\<in>set r2. \<exists>d. fst r = d @ wide ''_SYSTEM.txt''"
    using sys [OF messages_fit(2), of "length (header_text ?t ty level) < 128" w1 can_open] by blast
  obtain w3 r3 where w3: "(if length msg < 2048 then Some w2 else Write clock can_open lg SYSTEM LvError msg_text w2) = Some w3"
      "lf_records w3 = lf_records w2 @ r3" "length r3 \<le> 1" "\<forall>r\<in>set r3. \<exists>d. fst r = d @ wide ''_SYSTEM.txt''"
    using sys [OF messages_fit(3), of "length msg < 2048" w2 can_open] by blast
  show ?thesis
  proof (cases "can_open (List.take 39 (file_name lg ?t ty))")
    case True
    have "Write clock can_open lg ty level msg w = Some (w3\<lparr>lf_records := lf_records w3 @ [own_record lg ?t ty level msg]\<rparr>)"
      using l True w1(1) w2(1) w3(1)
      by (subst Write.simps) (simp add: read_clock_def StringCchPrintfW_def own_record_def)
    moreover have "lf_records (w3\<lparr>lf_records := lf_records w3 @ [own_record lg ?t ty level msg]\<rparr>) =
        lf_records w @ (r1 @ r2 @ r3) @ [own_record lg ?t ty level msg]"
      using w1(2) w2(2) w3(2) by simp
    ultimately show ?thesis
      using True w1(3,4) w2(3,4) w3(3,4) unfolding written_def
      by (intro exI [of _ "w3\<lparr>lf_records := lf_records w3 @ [own_record lg ?t ty level msg]\<rparr>"] conjI exI [of _ "r1 @ r2 @ r3"]) auto
  next
    case False
    have "Write clock can_open lg ty level msg w = Some (w1\<lparr>lf_failed := lf_failed w1 @ [List.take 39 (file_name lg ?t ty)]\<rparr>)"
      using l False w1(1) by (subst Write.simps) (simp add: read_clock_def StringCchPrintfW_def)
    then show ?thesis using False w1(2-4) unfolding written_def by (auto intro!: exI [of _ r1])
  qed
qed

subsection \<open>When it does not\<close>

definition never_fits :: "(nat \<Rightarrow> tm) \<Rightarrow> CLogger \<Rightarrow> wstr \<Rightarrow> LogLevel \<Rightarrow> bool" where
  "never_fits clock lg ty level \<longleftrightarrow> (\<forall>k. date_ok (clock k)) \<and> 20 \<le> length (lg_extraFileName lg) \<and> 6 \<le> length ty \<and>
     level_no (lg_logLevel lg) \<le> 2 \<and> level_no (lg_logLevel lg) \<le> level_no level"

lemma Write_diverges:
  assumes "Write clock can_open lg ty level msg w = Some w'"
  shows "\<not> never_fits clock lg ty level"
proof (rule Write.raw_induct [where P = "\<lambda>clock can_open lg ty level msg w w'. \<not> never_fits clock lg ty level", OF _ assms])
  fix Write' clock can_open lg ty level msg w w'
  assume IH: "\<And>clock can_open lg ty level msg w w'. Write' clock can_open lg ty level msg w = Some w' \<Longrightarrow> \<not> never_fits clock lg ty level"
    and body: "(if level_no (lg_logLevel lg) > level_no level then Some w
      else
        (let (t, w0) = read_clock clock w;
             (nameFits, fileName) = StringCchPrintfW 40 (file_name lg t ty);
             (headFits, logHeader) = StringCchPrintfW 128 (header_text t ty level);
             (textFits, logBuffer) = StringCchPrintfW 2048 msg
         in Option.bind (if nameFits then Some w0 else Write' clock can_open lg SYSTEM LvError msg_name w0) (\<lambda>w1.
            if \<not> can_open fileName then Some (w1\<lparr>lf_failed := lf_failed w1 @ [fileName]\<rparr>)
            else
              Option.bind (if headFits then Some w1 else Write' clock can_open lg SYSTEM LvError msg_header w1) (\<lambda>w2.
              Option.bind (if textFits then Some w2 else Write' clock can_open lg SYSTEM LvError msg_text w2) (\<lambda>w3.
                Some (w3\<lparr>lf_records := lf_records w3 @ [(fileName, logHeader @ wide '' '' @ logBuffer @ [10])]\<rparr>)))))) = Some w'"
  let ?w = "w\<lparr>lf_reads := Suc (lf_reads w)\<rparr>"
  show "\<not> never_fits clock lg ty level"
  proof
    assume c: "never_fits clock lg ty level"
    then have "\<not> length (file_name lg (clock (lf_reads w)) ty) < 40" using system_name(2) unfolding never_fits_def by blast
    then obtain w1 where "Write' clock can_open lg SYSTEM LvError msg_name ?w = Some w1"
      using body c by (auto simp: never_fits_def read_clock_def StringCchPrintfW_def Let_def bind_eq_Some_conv split: if_splits)
    from IH [OF this] show False using c by (simp add: never_fits_def SYSTEM_def)
  qed
qed

subsection \<open>Properties\<close>


definition demo_tm :: tm where
  "demo_tm = \<lparr>tm_year = 124, tm_mon = 7, tm_mday = 16, tm_hour = 12, tm_min = 5, tm_sec = 9\<rparr>"


end
