(* ===== verification/Queue_Users.thy ===== *)
theory Queue_Users
  imports Queue_Threads
begin

section \<open>Many threads that take turns as the consumer\<close>

text \<open>
  \<^verbatim>\<open>LockFreeFixedQueue\<close> needs one consumer at a time, but its users let any thread dequeue: the thread that set a flag. Here
  every thread may be in the middle of an \<^verbatim>\<open>Enqueue\<close> and of a \<^verbatim>\<open>Dequeue\<close>; an access is the step of \<open>Queue_Threads\<close> with
  that thread as the consumer. The locale \<open>one_consumer\<close> is the contract of a user of the queue: whoever dequeues is
  alone. Its runs are then runs of the queue with one consumer, with all that follows for the order of the data.
\<close>

lemma four_in_a_row: "R a b \<Longrightarrow> R b c \<Longrightarrow> R c d \<Longrightarrow> R d e \<Longrightarrow> R\<^sup>*\<^sup>* a e"
  by (meson converse_rtranclp_into_rtranclp rtranclp.rtrancl_refl)

subsection \<open>Accesses\<close>

record 'a mq_run =
  mq_q :: "'a LockFreeFixedQueue"
  mq_prod :: "nat \<Rightarrow> 'a producer"
  mq_cons :: "nat \<Rightarrow> 'a consumer"
  mq_log :: "'a list"
  mq_out :: "'a list"

definition mq_new :: "nat \<Rightarrow> 'a \<Rightarrow> 'a mq_run" where
  "mq_new n d = \<lparr>mq_q = fq_new n d, mq_prod = (\<lambda>_. PIdle), mq_cons = (\<lambda>_. CIdle), mq_log = [], mq_out = []\<rparr>"

lemma mq_new_sel [simp]:
  "mq_q (mq_new n d) = fq_new n d" "mq_prod (mq_new n d) t = PIdle" "mq_cons (mq_new n d) t = CIdle" "mq_log (mq_new n d) = []" "mq_out (mq_new n d) = []"
  by (simp_all add: mq_new_def)

lemma fq_new_free:
  assumes "pow2 n"
  shows "fq_wf (fq_new n d)" "\<not> used (fq_new n d) (fq_tailIndex (fq_new n d))" "0 < fq_cap (fq_new n d)"
  using pow2_pos [OF assms] assms by (simp_all add: fq_new_def fq_wf_def fq_cap_def used_def fq_slot_def)

text \<open>What thread \<open>t\<close> sees when it is the consumer, and the state after its step.\<close>

definition view :: "nat \<Rightarrow> 'a mq_run \<Rightarrow> 'a fq_run" where
  "view t m = \<lparr>fr_q = mq_q m, fr_prod = mq_prod m, fr_cons = mq_cons m t, fr_log = mq_log m, fr_out = mq_out m\<rparr>"

definition put :: "nat \<Rightarrow> 'a fq_run \<Rightarrow> 'a mq_run \<Rightarrow> 'a mq_run" where
  "put t r m = \<lparr>mq_q = fr_q r, mq_prod = fr_prod r, mq_cons = (mq_cons m)(t := fr_cons r), mq_log = fr_log r, mq_out = fr_out r\<rparr>"

text \<open>How a call stands after an access: an \<^verbatim>\<open>Enqueue\<close> that has taken its ticket, goes on, or returns; a \<^verbatim>\<open>Dequeue\<close> likewise.\<close>

datatype 'a outcome = Ticket 'a | Enqueuing | Accepted | Refused | Dequeuing | Missing | Got 'a

fun enqueue_outcome :: "'a producer \<Rightarrow> 'a producer \<Rightarrow> 'a outcome" where
  "enqueue_outcome PIdle (PTicket w x) = Ticket x"
| "enqueue_outcome _ PIdle = Accepted"
| "enqueue_outcome _ PRefused = Refused"
| "enqueue_outcome _ _ = Enqueuing"

fun dequeue_outcome :: "'a consumer \<Rightarrow> 'a consumer \<Rightarrow> 'a outcome" where
  "dequeue_outcome (CHead w) CIdle = Missing"
| "dequeue_outcome (CRead w x) CIdle = Got x"
| "dequeue_outcome _ _ = Dequeuing"

fun of_enqueue :: "'a outcome \<Rightarrow> bool" where
  "of_enqueue (Ticket x) = True"
| "of_enqueue Enqueuing = True"
| "of_enqueue Accepted = True"
| "of_enqueue Refused = True"
| "of_enqueue _ = False"

inductive mq_step :: "nat \<Rightarrow> 'a outcome \<Rightarrow> 'a mq_run \<Rightarrow> 'a mq_run \<Rightarrow> bool" where
  produce: "fq_step (view t m) r \<Longrightarrow> fr_prod r = (mq_prod m)(t := p) \<Longrightarrow> p \<noteq> mq_prod m t \<Longrightarrow>
    mq_step t (enqueue_outcome (mq_prod m t) p) m (put t r m)"
| consume: "fq_step (view t m) r \<Longrightarrow> fr_prod r = mq_prod m \<Longrightarrow>
    mq_step t (dequeue_outcome (mq_cons m t) (fr_cons r)) m (put t r m)"

lemma view_sel [simp]:
  "fr_q (view t m) = mq_q m" "fr_prod (view t m) = mq_prod m" "fr_cons (view t m) = mq_cons m t"
  "fr_log (view t m) = mq_log m" "fr_out (view t m) = mq_out m"
  by (simp_all add: view_def)

lemma put_sel [simp]:
  "mq_q (put t r m) = fr_q r" "mq_prod (put t r m) = fr_prod r" "mq_cons (put t r m) = (mq_cons m)(t := fr_cons r)"
  "mq_log (put t r m) = fr_log r" "mq_out (put t r m) = fr_out r"
  by (simp_all add: put_def)

subsection \<open>What an access changes\<close>

lemma fq_step_kind:
  assumes "fq_step s r"
  shows "(fr_prod r = fr_prod s \<and> fr_log r = fr_log s \<and> fr_cons r \<noteq> fr_cons s \<and>
      (case dequeue_outcome (fr_cons s) (fr_cons r) of Got x \<Rightarrow> fr_out r = fr_out s @ [x] | _ \<Rightarrow> fr_out r = fr_out s)) \<or>
    (\<exists>t p. fr_prod r = (fr_prod s)(t := p) \<and> p \<noteq> fr_prod s t \<and> fr_cons r = fr_cons s \<and> fr_out r = fr_out s \<and>
      (case enqueue_outcome (fr_prod s t) p of Ticket x \<Rightarrow> fr_prod s t = PIdle \<and> fr_log r = fr_log s @ [x] | _ \<Rightarrow> fr_prod s t \<noteq> PIdle \<and> fr_log r = fr_log s))"
  using assms
proof cases
  case (fetch t x)
  then show ?thesis by (intro disjI2 exI [of _ t] exI [of _ "PTicket (fq_tailIndex (fr_q s)) x"]) simp
next
  case (check_free t w x)
  then show ?thesis by (intro disjI2 exI [of _ t] exI [of _ "PChecked w x"]) simp
next
  case (check_used t w x)
  then show ?thesis by (intro disjI2 exI [of _ t] exI [of _ "PRefused"]) simp
next
  case (store t w x)
  then show ?thesis by (intro disjI2 exI [of _ t] exI [of _ "PWritten w x"]) simp
next
  case (publish t w x)
  then show ?thesis by (intro disjI2 exI [of _ t] exI [of _ "PIdle"]) simp
next
  case (publish_break t w x)
  then show ?thesis by (intro disjI2 exI [of _ t] exI [of _ "PBroken"]) simp
qed simp_all

lemma mq_step_kind:
  assumes "mq_step t oc m m'"
  shows "if of_enqueue oc
    then mq_cons m' = mq_cons m \<and> mq_out m' = mq_out m \<and> (\<forall>u. u \<noteq> t \<longrightarrow> mq_prod m' u = mq_prod m u) \<and>
      (case oc of Ticket x \<Rightarrow> mq_prod m t = PIdle \<and> mq_log m' = mq_log m @ [x] | _ \<Rightarrow> mq_prod m t \<noteq> PIdle \<and> mq_log m' = mq_log m) \<and>
      (oc = Accepted \<longleftrightarrow> mq_prod m' t = PIdle)
    else mq_prod m' = mq_prod m \<and> mq_log m' = mq_log m \<and> (\<forall>u. u \<noteq> t \<longrightarrow> mq_cons m' u = mq_cons m u) \<and>
      (case oc of Got x \<Rightarrow> mq_out m' = mq_out m @ [x] \<and> mq_cons m' t = CIdle
        | Missing \<Rightarrow> mq_out m' = mq_out m \<and> mq_cons m' t = CIdle | _ \<Rightarrow> mq_out m' = mq_out m)"
  using assms
proof cases
  case (produce r p)
  have k: "fr_cons r = mq_cons m t" "fr_out r = mq_out m"
      "case enqueue_outcome (mq_prod m t) p of Ticket x \<Rightarrow> mq_prod m t = PIdle \<and> fr_log r = mq_log m @ [x] | _ \<Rightarrow> mq_prod m t \<noteq> PIdle \<and> fr_log r = mq_log m"
  proof -
    have ne: "fr_prod r \<noteq> fr_prod (view t m)" using produce(4,5) by (metis fun_upd_same view_sel(2))
    obtain u q where *: "fr_prod r = (mq_prod m)(u := q)" "q \<noteq> mq_prod m u" "fr_cons r = mq_cons m t" "fr_out r = mq_out m"
        "case enqueue_outcome (mq_prod m u) q of Ticket x \<Rightarrow> mq_prod m u = PIdle \<and> fr_log r = mq_log m @ [x] | _ \<Rightarrow> mq_prod m u \<noteq> PIdle \<and> fr_log r = mq_log m"
      using fq_step_kind [OF produce(3), unfolded view_sel] ne unfolding view_sel by blast
    have "u = t" using *(1,2) produce(4,5) by (metis fun_upd_def)
    then have "q = p" using *(1) produce(4) by (metis fun_upd_same)
    then show "fr_cons r = mq_cons m t" "fr_out r = mq_out m"
      "case enqueue_outcome (mq_prod m t) p of Ticket x \<Rightarrow> mq_prod m t = PIdle \<and> fr_log r = mq_log m @ [x] | _ \<Rightarrow> mq_prod m t \<noteq> PIdle \<and> fr_log r = mq_log m"
      using * unfolding \<open>q = p\<close> \<open>u = t\<close> by blast+
  qed
  have "of_enqueue oc" using produce(1) by (cases "mq_prod m t"; cases p) simp_all
  moreover have "oc = Accepted \<longleftrightarrow> p = PIdle" using produce(1,5) by (cases "mq_prod m t"; cases p) simp_all
  ultimately show ?thesis using k produce(1,2,4) by (auto split: outcome.splits)
next
  case (consume r)
  have "\<not> of_enqueue oc" using consume(1) by (cases "mq_cons m t"; cases "fr_cons r") simp_all
  moreover have no: "\<not> (\<exists>u p. fr_prod r = (mq_prod m)(u := p) \<and> p \<noteq> mq_prod m u)" using consume(4) by (metis fun_upd_same)
  have k: "fr_log r = mq_log m"
      "case dequeue_outcome (mq_cons m t) (fr_cons r) of Got x \<Rightarrow> fr_out r = mq_out m @ [x] | _ \<Rightarrow> fr_out r = mq_out m"
    by (rule disjE [OF fq_step_kind [OF consume(3), unfolded view_sel]]; (use no in blast))+
  moreover have "fr_cons r = CIdle" if "oc = Missing \<or> (\<exists>x. oc = Got x)"
    using consume(1) that by (cases "mq_cons m t"; cases "fr_cons r") simp_all
  ultimately show ?thesis unfolding consume(1) [symmetric] consume(2) using consume(4) by (cases oc) simp_all
qed

lemma mq_step_head:
  assumes "mq_step t oc m m'" and "of_enqueue oc"
  shows "fq_headIndex (mq_q m') = fq_headIndex (mq_q m)"
  using assms(1)
proof cases
  case (produce r p)
  have "fr_prod r \<noteq> fr_prod (view t m)" using produce(4,5) by (metis fun_upd_same view_sel(2))
  then have "fq_headIndex (fr_q r) = fq_headIndex (mq_q m)"
    by (cases rule: fq_step.cases [OF produce(3)]) (auto simp: set_used_def set_stored_def)
  then show ?thesis using produce(2) by simp
next
  case (consume r)
  then show ?thesis using assms(2) by (cases "mq_cons m t"; cases "fr_cons r") simp_all
qed

text \<open>The parts of \<open>mq_step_kind\<close> for each outcome.\<close>

lemma mq_enqueue:
  assumes "mq_step t oc m m'" and "of_enqueue oc"
  shows "mq_cons m' = mq_cons m" "mq_out m' = mq_out m" "u \<noteq> t \<Longrightarrow> mq_prod m' u = mq_prod m u" "oc = Accepted \<longleftrightarrow> mq_prod m' t = PIdle"
    "fq_headIndex (mq_q m') = fq_headIndex (mq_q m)" "(\<forall>x. oc \<noteq> Ticket x) \<Longrightarrow> mq_log m' = mq_log m"
    "(\<forall>x. oc \<noteq> Ticket x) \<Longrightarrow> mq_prod m t \<noteq> PIdle" "oc = Ticket x \<Longrightarrow> mq_log m' = mq_log m @ [x]"
  using mq_step_kind [OF assms(1)] mq_step_head [OF assms] assms(2) by (auto split: outcome.splits)

lemma mq_dequeue:
  assumes "mq_step t oc m m'" and "\<not> of_enqueue oc"
  shows "mq_prod m' = mq_prod m" "mq_log m' = mq_log m" "u \<noteq> t \<Longrightarrow> mq_cons m' u = mq_cons m u"
    "oc = Got x \<Longrightarrow> mq_out m' = mq_out m @ [x] \<and> mq_cons m' t = CIdle" "oc = Missing \<Longrightarrow> mq_out m' = mq_out m \<and> mq_cons m' t = CIdle"
    "oc = Dequeuing \<Longrightarrow> mq_out m' = mq_out m"
  using mq_step_kind [OF assms(1)] assms(2) by (auto split: outcome.splits)

text \<open>What was taken from the queue, the element a \<^verbatim>\<open>Dequeue\<close> is about to return included; it never decreases.\<close>

definition heads_of :: "'a mq_run \<Rightarrow> nat" where
  "heads_of m = length (mq_out m) + (if \<exists>t. taken (mq_cons m t) = 1 then 1 else 0)"

lemma taken_cases: "taken c = 0 \<or> taken c = 1"
  by (cases c) simp_all

lemma heads_of_idle: "\<forall>t. mq_cons m t = CIdle \<Longrightarrow> heads_of m = length (mq_out m)"
  by (simp add: heads_of_def)

lemma heads_of_alone:
  assumes "\<And>u. u \<noteq> t \<Longrightarrow> mq_cons m u = CIdle"
  shows "heads_of m = length (mq_out m) + taken (mq_cons m t)"
proof -
  have "(\<exists>u. taken (mq_cons m u) = 1) \<longleftrightarrow> taken (mq_cons m t) = 1"
    using assms by (metis One_nat_def Zero_not_Suc taken.simps(3))
  then show ?thesis using taken_cases [of "mq_cons m t"] by (auto simp: heads_of_def)
qed

lemma consume_heads:
  assumes "fq_step s r" and "fr_prod r = fr_prod s" and "fr_cons r \<noteq> CBroken"
  shows "heads s \<le> heads r"
  using assms(1)
proof cases
  case (fetch t x)
  then have "fr_prod r t \<noteq> fr_prod s t" by simp
  then show ?thesis using assms(2) by simp
qed (use assms(2,3) in \<open>auto simp: heads_def outs_def\<close>)

lemma mq_step_heads:
  assumes "mq_step t oc m m'" and "\<not> of_enqueue oc \<Longrightarrow> \<forall>u. u \<noteq> t \<longrightarrow> mq_cons m u = CIdle" and "mq_cons m' t \<noteq> CBroken"
  shows "heads_of m \<le> heads_of m'"
proof (cases "of_enqueue oc")
  case True
  then show ?thesis using mq_enqueue(1,2) [OF assms(1) True] by (simp add: heads_of_def)
next
  case False
  have idle: "mq_cons m u = CIdle" "mq_cons m' u = CIdle" if "u \<noteq> t" for u
    using assms(2) False that mq_dequeue(3) [OF assms(1) False that] by simp_all
  obtain r where r: "fq_step (view t m) r" "fr_prod r = mq_prod m" "m' = put t r m"
    using assms(1) False
  proof cases
    case (produce r p)
    then have "of_enqueue oc" by (cases "mq_prod m t"; cases p) simp_all
    then show ?thesis using False by simp
  qed (use that in blast)
  then have "heads (view t m) \<le> heads r" using assms(3) by (intro consume_heads) simp_all
  moreover have "heads_of m = heads (view t m)" using heads_of_alone [of t m] idle(1) by (simp add: heads_def outs_def)
  moreover have "heads_of m' = heads r" using heads_of_alone [of t m'] idle(2) r(3) by (simp add: heads_def outs_def)
  ultimately show ?thesis by simp
qed

text \<open>An undisturbed \<^verbatim>\<open>Enqueue\<close> into a slot that is free.\<close>

lemma mq_enqueue_run:
  assumes "fq_wf (mq_q m)" and "mq_prod m t = PIdle" and "length (mq_log m) < length (mq_out m) + fq_cap (mq_q m)"
    and "\<not> used (mq_q m) (fq_tailIndex (mq_q m))"
  obtains m1 m2 m3 m4 where "mq_step t (Ticket x) m m1" "mq_step t Enqueuing m1 m2" "mq_step t Enqueuing m2 m3" "mq_step t Accepted m3 m4"
    "mq_log m4 = mq_log m @ [x]" "mq_out m4 = mq_out m" "mq_prod m4 = mq_prod m" "mq_cons m4 = mq_cons m"
    "fq_headIndex (mq_q m4) = fq_headIndex (mq_q m)" "fq_tailIndex (mq_q m4) = fq_tailIndex (mq_q m) + 1"
proof -
  let ?w = "fq_tailIndex (mq_q m)" and ?q = "fq_tailIndex_update (\<lambda>i. i + 1) (mq_q m)"
  define m1 where "m1 = m\<lparr>mq_q := ?q, mq_prod := (mq_prod m)(t := PTicket ?w x), mq_log := mq_log m @ [x]\<rparr>"
  define m2 where "m2 = m1\<lparr>mq_prod := (mq_prod m)(t := PChecked ?w x)\<rparr>"
  define m3 where "m3 = m2\<lparr>mq_q := set_stored x ?w ?q, mq_prod := (mq_prod m)(t := PWritten ?w x)\<rparr>"
  define m4 where "m4 = m3\<lparr>mq_q := set_used True ?w (set_stored x ?w ?q), mq_prod := mq_prod m\<rparr>"
  note defs = m1_def m2_def m3_def m4_def view_def put_def
  have wf: "fq_wf ?q" "fq_wf (set_stored x ?w ?q)" using assms(1) by simp_all
  have u: "\<not> used (set_stored x ?w ?q) ?w" using assms(4) write_slots(3) [OF wf(1), of x ?w ?w] by simp
  have idle: "(mq_prod m)(t := PIdle) = mq_prod m" using assms(2) by auto
  have f1: "fq_step (view t m) (view t m1)" using fq_step.fetch [of "view t m" t x] assms(2,3) by (simp add: defs)
  have f2: "fq_step (view t m1) (view t m2)" using fq_step.check_free [of "view t m1" t ?w x] assms(4) by (simp add: defs)
  have f3: "fq_step (view t m2) (view t m3)" using fq_step.store [of "view t m2" t ?w x] by (simp add: defs)
  have f4: "fq_step (view t m3) (view t m4)" using fq_step.publish [of "view t m3" t ?w x] u idle by (simp add: defs)
  have p: "put t (view t m1) m = m1" "put t (view t m2) m1 = m2" "put t (view t m3) m2 = m3" "put t (view t m4) m3 = m4"
    by (simp_all add: defs)
  show ?thesis
  proof (rule that)
    show "mq_step t (Ticket x) m m1" using produce [OF f1, of "PTicket ?w x"] assms(2) unfolding p by (simp add: m1_def)
    show "mq_step t Enqueuing m1 m2" using produce [OF f2, of "PChecked ?w x"] unfolding p by (simp add: m1_def m2_def)
    show "mq_step t Enqueuing m2 m3" using produce [OF f3, of "PWritten ?w x"] unfolding p by (simp add: m1_def m2_def m3_def)
    show "mq_step t Accepted m3 m4" using produce [OF f4, of PIdle] idle unfolding p by (simp add: m1_def m2_def m3_def m4_def)
  qed (simp_all add: m4_def m3_def m2_def m1_def)
qed

subsection \<open>One consumer at a time\<close>

definition agrees :: "'a mq_run \<Rightarrow> 'a fq_run \<Rightarrow> bool" where
  "agrees m r \<longleftrightarrow> fr_q r = mq_q m \<and> fr_prod r = mq_prod m \<and> fr_log r = mq_log m \<and> fr_out r = mq_out m \<and>
     (\<exists>h. fr_cons r = mq_cons m h \<and> (\<forall>u. u \<noteq> h \<longrightarrow> mq_cons m u = CIdle))"

lemma agrees_new: "agrees (mq_new n d) (fr_new n d)"
  by (simp add: agrees_def mq_new_def fr_new_def)

text \<open>A step of a producer does not depend on the consumer.\<close>

lemma fq_step_producer:
  assumes "fq_step s r" and "fr_prod r \<noteq> fr_prod s"
  shows "fq_step (s\<lparr>fr_cons := c\<rparr>) (r\<lparr>fr_cons := c\<rparr>)"
  using assms(1)
proof cases
  case (fetch t x)
  then show ?thesis using fq_step.fetch [of "s\<lparr>fr_cons := c\<rparr>" t x] by (cases s) simp
next
  case (check_free t w x)
  then show ?thesis using fq_step.check_free [of "s\<lparr>fr_cons := c\<rparr>" t w x] by (cases s) simp
next
  case (check_used t w x)
  then show ?thesis using fq_step.check_used [of "s\<lparr>fr_cons := c\<rparr>" t w x] by (cases s) simp
next
  case (store t w x)
  then show ?thesis using fq_step.store [of "s\<lparr>fr_cons := c\<rparr>" t w x] by (cases s) simp
next
  case (publish t w x)
  then show ?thesis using fq_step.publish [of "s\<lparr>fr_cons := c\<rparr>" t w x] by (cases s) simp
next
  case (publish_break t w x)
  then show ?thesis using fq_step.publish_break [of "s\<lparr>fr_cons := c\<rparr>" t w x] by (cases s) simp
qed (use assms(2) in simp_all)

lemma mq_step_agrees:
  assumes "mq_step t oc m m'" and "agrees m r" and "\<not> of_enqueue oc \<Longrightarrow> \<forall>u. u \<noteq> t \<longrightarrow> mq_cons m u = CIdle"
  shows "\<exists>r'. fq_step r r' \<and> agrees m' r'"
  using assms(1)
proof cases
  case (produce x p)
  have ne: "fr_prod x \<noteq> mq_prod m" using produce(4,5) by (metis fun_upd_same)
  have same: "fr_cons x = mq_cons m t" "fr_out x = mq_out m"
    using fq_step_kind [OF produce(3)] ne by auto
  have "view t m\<lparr>fr_cons := fr_cons r\<rparr> = r" using assms(2) by (cases r) (simp add: agrees_def view_def)
  then have "fq_step r (x\<lparr>fr_cons := fr_cons r\<rparr>)"
    using fq_step_producer [OF produce(3), of "fr_cons r"] ne by simp
  moreover have "agrees m' (x\<lparr>fr_cons := fr_cons r\<rparr>)"
    using assms(2) produce(2) same by (simp add: agrees_def)
  ultimately show ?thesis by blast
next
  case (consume x)
  have oc: "\<not> of_enqueue oc" using consume(1) by (cases "mq_cons m t"; cases "fr_cons x") simp_all
  have others: "mq_cons m u = CIdle" if "u \<noteq> t" for u using assms(3) oc that by blast
  obtain h where h: "fr_cons r = mq_cons m h" "\<forall>u. u \<noteq> h \<longrightarrow> mq_cons m u = CIdle" using assms(2) by (auto simp: agrees_def)
  have "fr_cons r = mq_cons m t" using h others by (cases "h = t") auto
  then have "view t m = r" using assms(2) by (cases r) (simp add: agrees_def view_def)
  then have "fq_step r x" using consume(3) by simp
  moreover have "agrees m' x" using consume(2) others by (auto simp: agrees_def)
  ultimately show ?thesis by blast
qed

locale one_consumer =
  fixes step :: "'s \<Rightarrow> 's \<Rightarrow> bool"
    and start :: 's
    and queue :: "'s \<Rightarrow> 'a mq_run"
    and consuming :: "nat \<Rightarrow> 's \<Rightarrow> bool"
    and slots :: nat
    and dummy :: 'a
  assumes slots: "pow2 slots"
    and start: "queue start = mq_new slots dummy"
    and step: "step s s' \<Longrightarrow> queue s' = queue s \<or> (\<exists>t oc. mq_step t oc (queue s) (queue s') \<and> (of_enqueue oc \<or> consuming t s))"
    and alone: "step\<^sup>*\<^sup>* start s \<Longrightarrow> consuming t s \<Longrightarrow> u \<noteq> t \<Longrightarrow> mq_cons (queue s) u = CIdle"
begin

lemma projects: "step\<^sup>*\<^sup>* start s \<Longrightarrow> \<exists>r. fq_step\<^sup>*\<^sup>* (fr_new slots dummy) r \<and> agrees (queue s) r"
proof (induction rule: rtranclp_induct)
  case base
  show ?case using start agrees_new by (intro exI [of _ "fr_new slots dummy"]) simp
next
  case (step s s')
  then obtain r where r: "fq_step\<^sup>*\<^sup>* (fr_new slots dummy) r" "agrees (queue s) r" by blast
  show ?case
  proof (cases "queue s' = queue s")
    case True
    then show ?thesis using r by auto
  next
    case False
    then obtain t oc where t: "mq_step t oc (queue s) (queue s')" "of_enqueue oc \<or> consuming t s"
      using one_consumer.step [OF one_consumer_axioms step.hyps(2)] by blast
    then have "\<exists>r'. fq_step r r' \<and> agrees (queue s') r'"
      using mq_step_agrees [OF t(1) r(2)] alone [OF step.hyps(1)] by blast
    then show ?thesis using r(1) by (meson rtranclp.rtrancl_into_rtrancl)
  qed
qed

lemma queue_ok:
  assumes "step\<^sup>*\<^sup>* start s"
  obtains r where "agrees (queue s) r" and "run_ok r"
proof -
  obtain r where r: "fq_step\<^sup>*\<^sup>* (fr_new slots dummy) r" "agrees (queue s) r" using projects [OF assms] by blast
  show ?thesis by (rule that [OF r(2) fq_steps_ok [OF r(1) run_ok_new [OF slots]]])
qed

text \<open>The data come out in the order of the tickets, no call is refused or breaks.\<close>

lemma in_order:
  assumes "step\<^sup>*\<^sup>* start s"
  shows "mq_out (queue s) = take (length (mq_out (queue s))) (mq_log (queue s)) \<and>
    (\<forall>t. mq_prod (queue s) t \<notin> {PRefused, PBroken}) \<and> (\<forall>t. mq_cons (queue s) t \<noteq> CBroken)"
proof -
  obtain r where r: "agrees (queue s) r" "run_ok r" by (rule queue_ok [OF assms])
  obtain h where h: "fr_cons r = mq_cons (queue s) h" "\<forall>u. u \<noteq> h \<longrightarrow> mq_cons (queue s) u = CIdle"
    using r(1) by (auto simp: agrees_def)
  have "mq_cons (queue s) t \<noteq> CBroken" for t using run_okD(9) [OF r(2)] h by (cases "t = h") auto
  then show ?thesis
    using run_okD(6) [OF r(2)] producer_sane [OF r(2)] r(1) by (auto simp: agrees_def outs_def)
qed

text \<open>The indices count what was taken and what got a ticket.\<close>

lemma indices:
  assumes "step\<^sup>*\<^sup>* start s"
  shows "fq_headIndex (mq_q (queue s)) = of_nat (heads_of (queue s))"
    and "fq_tailIndex (mq_q (queue s)) = of_nat (length (mq_log (queue s)))"
    and "length (mq_out (queue s)) \<le> heads_of (queue s)"
    and "heads_of (queue s) \<le> length (mq_log (queue s))"
    and "length (mq_log (queue s)) \<le> length (mq_out (queue s)) + 2 ^ 30"
proof -
  obtain r where r: "agrees (queue s) r" "run_ok r" by (rule queue_ok [OF assms(1)])
  obtain h where h: "fr_cons r = mq_cons (queue s) h" "\<And>u. u \<noteq> h \<Longrightarrow> mq_cons (queue s) u = CIdle" using r(1) by (auto simp: agrees_def)
  have "heads r = heads_of (queue s)" "tails r = length (mq_log (queue s))" "outs r = length (mq_out (queue s))"
    using r(1) heads_of_alone [OF h(2)] h(1) by (simp_all add: heads_def outs_def tails_def agrees_def)
  moreover have "fq_cap (fr_q r) \<le> 2 ^ 30"
  proof -
    obtain k where "k < 31" "fq_cap (fr_q r) = 2 ^ k" using run_okD(11) [OF r(2)] by (auto simp: pow2_def)
    then show ?thesis using power_increasing [of k 30 "2 :: nat"] by simp
  qed
  ultimately show "fq_headIndex (mq_q (queue s)) = of_nat (heads_of (queue s))"
    "fq_tailIndex (mq_q (queue s)) = of_nat (length (mq_log (queue s)))"
    "length (mq_out (queue s)) \<le> heads_of (queue s)"
    "heads_of (queue s) \<le> length (mq_log (queue s))"
    "length (mq_log (queue s)) \<le> length (mq_out (queue s)) + 2 ^ 30"
    using run_okD(2-5,10) [OF r(2)] r(1) by (simp_all add: agrees_def)
qed

end

end
