(* ===== verification/Group_Threads.thy ===== *)
theory Group_Threads
  imports Queue_Users
begin

section \<open>A group and the threads that run it\<close>

text \<open>
  \<^verbatim>\<open>Group::Enqueue\<close>, \<^verbatim>\<open>Group::Update\<close> and \<^verbatim>\<open>Group::HandleJob\<close> (\<^verbatim>\<open>src/Group.cpp\<close>), run by any number of threads, one shared access
  per step: the accesses of the job queue, the reads and exchanges of \<^verbatim>\<open>_isRun\<close>. The answers of the clock
  are arbitrary. The handler of a job and \<^verbatim>\<open>OnUpdate\<close> take any time, and may enqueue to the group they run in. A worker may call \<^verbatim>\<open>Update\<close>
  at any time (\<^verbatim>\<open>GroupExecutable\<close>, posted when \<^verbatim>\<open>NeedUpdate\<close>). As in \<open>Queue_Threads\<close>, a job is only enqueued while the queue has room.
\<close>

subsection \<open>Threads\<close>

text \<open>Where a thread is when it is not inside a call on the group: outside, in the handler of a job (the \<open>k\<close>-th of this \<^verbatim>\<open>HandleJob\<close>), in \<^verbatim>\<open>OnUpdate\<close>.\<close>

datatype 'a place = Outside | InJob nat 'a | InUpdate

text \<open>
  \<open>GPush\<close>: in \<^verbatim>\<open>_jobs->Enqueue\<close>, with the argument \<^verbatim>\<open>update\<close>; \<open>GAsk\<close>: before the read of \<^verbatim>\<open>_isRun\<close>; \<open>GTry\<close>: before the exchange in
  \<^verbatim>\<open>Update\<close>; \<open>GLoop\<close>, \<open>GHead\<close>, \<open>GClock\<close>: in the condition of the loop, before the loads of \<^verbatim>\<open>headIndex\<close> and \<^verbatim>\<open>tailIndex\<close> and before
  \<^verbatim>\<open>NeedUpdate\<close>; \<open>GDeq\<close>: in \<^verbatim>\<open>_jobs->Dequeue\<close> after \<open>k\<close> jobs; \<open>GTick\<close>: before the \<^verbatim>\<open>NeedUpdate\<close> behind \<^verbatim>\<open>HandleJob\<close>; \<open>GEnd\<close>: before
  \<^verbatim>\<open>_isRun\<close> is cleared; \<open>GNested\<close>: in a second \<^verbatim>\<open>Update\<close> inside the first.
\<close>

datatype 'a gpc =
    GAt "'a place"
  | GPush "'a place" bool
  | GAsk "'a place"
  | GTry "'a place"
  | GLoop
  | GHead i32
  | GClock
  | GDeq nat
  | GTick
  | GEnd
  | GNested

record 'a group_run =
  gg_queue :: "'a mq_run"
  gg_isRun :: bool
  gg_pc :: "nat \<Rightarrow> 'a gpc"

definition JOB_QUEUE_SIZE :: nat where
  "JOB_QUEUE_SIZE = 8192"

definition gg_new :: "'a \<Rightarrow> 'a group_run" where
  "gg_new d = \<lparr>gg_queue = mq_new JOB_QUEUE_SIZE d, gg_isRun = False, gg_pc = (\<lambda>_. GAt Outside)\<rparr>"

abbreviation gto :: "nat \<Rightarrow> 'a gpc \<Rightarrow> 'a group_run \<Rightarrow> 'a group_run" where
  "gto t p s \<equiv> s\<lparr>gg_pc := (gg_pc s)(t := p)\<rparr>"

abbreviation gtq :: "nat \<Rightarrow> 'a gpc \<Rightarrow> 'a mq_run \<Rightarrow> 'a group_run \<Rightarrow> 'a group_run" where
  "gtq t p q s \<equiv> s\<lparr>gg_queue := q, gg_pc := (gg_pc s)(t := p)\<rparr>"

inductive group_step :: "'a group_run \<Rightarrow> 'a group_run \<Rightarrow> bool" where
  enqueue: "gg_pc s t = GAt c \<Longrightarrow> mq_step t (Ticket x) (gg_queue s) q \<Longrightarrow> group_step s (gtq t (GPush c u) q s)"
| enqueue_on: "gg_pc s t = GPush c u \<Longrightarrow> mq_step t oc (gg_queue s) q \<Longrightarrow> oc = Enqueuing \<or> oc = Refused \<Longrightarrow> group_step s (gtq t (GPush c u) q s)"
| enqueued: "gg_pc s t = GPush c u \<Longrightarrow> mq_step t Accepted (gg_queue s) q \<Longrightarrow> group_step s (gtq t (if u then GAsk c else GAt c) q s)"
| is_running: "gg_pc s t = GAsk c \<Longrightarrow> gg_isRun s \<Longrightarrow> group_step s (gto t (GAt c) s)"
| not_running: "gg_pc s t = GAsk c \<Longrightarrow> \<not> gg_isRun s \<Longrightarrow> group_step s (gto t (GTry c) s)"
| execute: "gg_pc s t = GAt Outside \<Longrightarrow> group_step s (gto t (GTry Outside) s)"
| busy: "gg_pc s t = GTry c \<Longrightarrow> gg_isRun s \<Longrightarrow> group_step s (gto t (GAt c) s)"
| acquire: "gg_pc s t = GTry c \<Longrightarrow> \<not> gg_isRun s \<Longrightarrow>
    group_step s ((gto t (if c = Outside then GLoop else GNested) s)\<lparr>gg_isRun := True\<rparr>)"
| load_head: "gg_pc s t = GLoop \<Longrightarrow> group_step s (gto t (GHead (fq_headIndex (mq_q (gg_queue s)))) s)"
| has_job: "gg_pc s t = GHead h \<Longrightarrow> sint (fq_tailIndex (mq_q (gg_queue s)) - h) > 0 \<Longrightarrow> group_step s (gto t (GDeq 0) s)"
| no_job: "gg_pc s t = GHead h \<Longrightarrow> \<not> sint (fq_tailIndex (mq_q (gg_queue s)) - h) > 0 \<Longrightarrow> group_step s (gto t GClock s)"
| due: "gg_pc s t = GClock \<Longrightarrow> group_step s (gto t (GDeq 0) s)"
| not_due: "gg_pc s t = GClock \<Longrightarrow> group_step s (gto t GEnd s)"
| dequeue: "gg_pc s t = GDeq k \<Longrightarrow> mq_step t Dequeuing (gg_queue s) q \<Longrightarrow> group_step s (gtq t (GDeq k) q s)"
| dequeued: "gg_pc s t = GDeq k \<Longrightarrow> mq_step t (Got x) (gg_queue s) q \<Longrightarrow> group_step s (gtq t (GAt (InJob (Suc k) x)) q s)"
| no_more: "gg_pc s t = GDeq k \<Longrightarrow> mq_step t Missing (gg_queue s) q \<Longrightarrow> group_step s (gtq t GTick q s)"
| handled: "gg_pc s t = GAt (InJob k x) \<Longrightarrow> skipped \<or> k \<noteq> 1000 \<Longrightarrow> group_step s (gto t (GDeq k) s)"
| handled_last: "gg_pc s t = GAt (InJob 1000 x) \<Longrightarrow> group_step s (gto t GTick s)"
| tick: "gg_pc s t = GTick \<Longrightarrow> group_step s (gto t (GAt InUpdate) s)"
| no_tick: "gg_pc s t = GTick \<Longrightarrow> group_step s (gto t GLoop s)"
| updated: "gg_pc s t = GAt InUpdate \<Longrightarrow> group_step s (gto t GLoop s)"
| finish: "gg_pc s t = GEnd \<Longrightarrow> group_step s ((gto t (GAt Outside) s)\<lparr>gg_isRun := False\<rparr>)"

subsection \<open>The thread that runs the group\<close>

fun place_of :: "'a gpc \<Rightarrow> 'a place option" where
  "place_of (GAt c) = Some c"
| "place_of (GPush c u) = Some c"
| "place_of (GAsk c) = Some c"
| "place_of (GTry c) = Some c"
| "place_of _ = None"

definition runs :: "'a gpc \<Rightarrow> bool" where
  "runs p \<longleftrightarrow> place_of p \<noteq> Some Outside"

fun dequeuing :: "'a gpc \<Rightarrow> bool" where
  "dequeuing (GDeq k) = True"
| "dequeuing _ = False"

fun pushing :: "'a gpc \<Rightarrow> bool" where
  "pushing (GPush c u) = True"
| "pushing _ = False"

definition group_ok :: "'a group_run \<Rightarrow> bool" where
  "group_ok s \<longleftrightarrow>
     (\<forall>t u. runs (gg_pc s t) \<longrightarrow> runs (gg_pc s u) \<longrightarrow> t = u) \<and>
     (gg_isRun s \<longleftrightarrow> (\<exists>t. runs (gg_pc s t))) \<and>
     (\<forall>t. gg_pc s t \<noteq> GNested \<and> (\<forall>c. gg_pc s t = GTry c \<longrightarrow> c = Outside)) \<and>
     (\<forall>t. mq_cons (gg_queue s) t \<noteq> CIdle \<longrightarrow> dequeuing (gg_pc s t)) \<and>
     (\<forall>t. mq_prod (gg_queue s) t \<noteq> PIdle \<longleftrightarrow> pushing (gg_pc s t)) \<and>
     (\<forall>t h. gg_pc s t = GHead h \<longrightarrow> h = fq_headIndex (mq_q (gg_queue s))) \<and>
     (\<forall>t k x. place_of (gg_pc s t) = Some (InJob k x) \<longrightarrow> mq_out (gg_queue s) \<noteq> [] \<and> last (mq_out (gg_queue s)) = x)"

lemma group_okD:
  assumes "group_ok s"
  shows "runs (gg_pc s t) \<Longrightarrow> runs (gg_pc s u) \<Longrightarrow> t = u" "runs (gg_pc s t) \<Longrightarrow> gg_isRun s" "gg_isRun s \<Longrightarrow> \<exists>t. runs (gg_pc s t)"
    "gg_pc s t \<noteq> GNested" "gg_pc s t = GTry c \<Longrightarrow> c = Outside" "\<not> dequeuing (gg_pc s t) \<Longrightarrow> mq_cons (gg_queue s) t = CIdle"
    "mq_prod (gg_queue s) t \<noteq> PIdle \<longleftrightarrow> pushing (gg_pc s t)" "gg_pc s t = GHead h \<Longrightarrow> h = fq_headIndex (mq_q (gg_queue s))"
    "place_of (gg_pc s t) = Some (InJob k x) \<Longrightarrow> mq_out (gg_queue s) \<noteq> [] \<and> last (mq_out (gg_queue s)) = x"
  using assms unfolding group_ok_def by blast+

lemma group_ok_new: "group_ok (gg_new d)"
  by (simp add: group_ok_def gg_new_def mq_new_def runs_def)

lemma group_ok_move:
  assumes ok: "group_ok s" and runs: "runs p \<longleftrightarrow> runs (gg_pc s t)"
    and sane: "p \<noteq> GNested" "\<And>c. p = GTry c \<Longrightarrow> c = Outside"
    and cons: "\<And>u. u \<noteq> t \<Longrightarrow> mq_cons q u = mq_cons (gg_queue s) u" "mq_cons q t \<noteq> CIdle \<Longrightarrow> dequeuing p"
    and prod: "\<And>u. u \<noteq> t \<Longrightarrow> mq_prod q u = mq_prod (gg_queue s) u" "mq_prod q t \<noteq> PIdle \<longleftrightarrow> pushing p"
    and head: "runs (gg_pc s t) \<or> fq_headIndex (mq_q q) = fq_headIndex (mq_q (gg_queue s))" "\<And>h. p = GHead h \<Longrightarrow> h = fq_headIndex (mq_q q)"
    and out: "runs (gg_pc s t) \<or> mq_out q = mq_out (gg_queue s)"
      "\<And>k x. place_of p = Some (InJob k x) \<Longrightarrow> mq_out q \<noteq> [] \<and> last (mq_out q) = x"
  shows "group_ok (gtq t p q s)"
proof -
  let ?s = "gtq t p q s"
  note D = group_okD [OF ok]
  have r: "runs (gg_pc ?s u) \<longleftrightarrow> runs (gg_pc s u)" for u using runs by simp
  have alone: "\<not> runs (gg_pc s u)" if "runs (gg_pc s t)" "u \<noteq> t" for u using D(1) that by blast
  have "h = fq_headIndex (mq_q q)" if "gg_pc ?s u = GHead h" for u h
  proof (cases "u = t")
    case False
    then have u: "gg_pc s u = GHead h" using that by simp
    then have "\<not> runs (gg_pc s t)" using alone [OF _ False] by (auto simp: runs_def)
    then show ?thesis using D(8) [OF u] head(1) by simp
  qed (use that head(2) in simp)
  moreover have "mq_out q \<noteq> [] \<and> last (mq_out q) = x" if "place_of (gg_pc ?s u) = Some (InJob k x)" for u k x
  proof (cases "u = t")
    case False
    then have u: "place_of (gg_pc s u) = Some (InJob k x)" using that by simp
    then have "\<not> runs (gg_pc s t)" using alone [OF _ False] by (auto simp: runs_def)
    then show ?thesis using D(9) [OF u] out(1) by simp
  qed (use that out(2) in simp)
  moreover have "mq_cons q u \<noteq> CIdle \<longrightarrow> dequeuing (gg_pc ?s u)" for u using cons D(6) [of u] by (cases "u = t") auto
  moreover have "mq_prod q u \<noteq> PIdle \<longleftrightarrow> pushing (gg_pc ?s u)" for u using prod D(7) [of u] by (cases "u = t") auto
  moreover have "gg_pc ?s u \<noteq> GNested \<and> (\<forall>c. gg_pc ?s u = GTry c \<longrightarrow> c = Outside)" for u
    using sane D(4,5) [of u] by (cases "u = t") auto
  moreover have "gg_isRun ?s \<longleftrightarrow> (\<exists>u. runs (gg_pc ?s u))" unfolding r using D(2,3) by auto
  moreover have "runs (gg_pc ?s u) \<longrightarrow> runs (gg_pc ?s v) \<longrightarrow> u = v" for u v unfolding r using D(1) by blast
  moreover have q: "gg_queue ?s = q" by simp
  ultimately show ?thesis unfolding group_ok_def q by blast
qed

text \<open>A move that leaves the queue alone.\<close>

lemma group_ok_goto:
  assumes "group_ok s" and "runs p \<longleftrightarrow> runs (gg_pc s t)" and "p \<noteq> GNested" and "\<And>c. p = GTry c \<Longrightarrow> c = Outside"
    and "\<not> pushing (gg_pc s t)" and "\<not> pushing p" and "\<not> dequeuing (gg_pc s t)"
    and "\<And>h. p = GHead h \<Longrightarrow> h = fq_headIndex (mq_q (gg_queue s))"
    and "\<And>k x. place_of p = Some (InJob k x) \<Longrightarrow> place_of (gg_pc s t) = Some (InJob k x)"
  shows "group_ok (gto t p s)"
proof -
  have c: "mq_cons (gg_queue s) t = CIdle" by (rule group_okD(6) [OF assms(1,7)])
  have p: "mq_prod (gg_queue s) t \<noteq> PIdle \<longleftrightarrow> pushing p" using group_okD(7) [OF assms(1)] assms(5,6) by blast
  have "group_ok (gtq t p (gg_queue s) s)"
  proof (rule group_ok_move [OF assms(1-4) _ _ _ p _ assms(8)])
    show "mq_out (gg_queue s) \<noteq> [] \<and> last (mq_out (gg_queue s)) = x" if "place_of p = Some (InJob k x)" for k x
      by (rule group_okD(9) [OF assms(1) assms(9) [OF that]])
  qed (use c in blast)+
  then show ?thesis by simp
qed

lemma group_step_ok:
  assumes "group_step s s'" and ok: "group_ok s"
  shows "group_ok s'"
  using assms(1)
proof cases
  case (enqueue t c x q)
  note m = mq_enqueue [OF enqueue(3)]
  show ?thesis unfolding enqueue(1)
    using m group_okD(6,9) [OF ok, of t] enqueue(2) by (intro group_ok_move [OF ok]) (auto simp: runs_def)
next
  case (enqueue_on t c u oc q)
  then have e: "of_enqueue oc" "oc \<noteq> Accepted" by auto
  note m = mq_enqueue [OF enqueue_on(3) e(1)]
  show ?thesis unfolding enqueue_on(1)
    using m e group_okD(6,9) [OF ok, of t] enqueue_on(2) by (intro group_ok_move [OF ok]) (auto simp: runs_def)
next
  case (enqueued t c u q)
  note m = mq_enqueue [OF enqueued(3)]
  show ?thesis unfolding enqueued(1)
    using m group_okD(6,9) [OF ok, of t] enqueued(2) by (intro group_ok_move [OF ok]) (auto simp: runs_def split: if_splits)
next
  case (is_running t c)
  show ?thesis unfolding is_running(1) using is_running(2) by (intro group_ok_goto [OF ok]) (simp_all add: runs_def)
next
  case (not_running t c)
  have "c = Outside" using group_okD(2) [OF ok, of t] not_running(2,3) by (auto simp: runs_def)
  then show ?thesis unfolding not_running(1) using not_running(2) by (intro group_ok_goto [OF ok]) (simp_all add: runs_def)
next
  case (execute t)
  show ?thesis unfolding execute(1) using execute(2) by (intro group_ok_goto [OF ok]) (simp_all add: runs_def)
next
  case (busy t c)
  show ?thesis unfolding busy(1) using busy(2) by (intro group_ok_goto [OF ok]) (simp_all add: runs_def)
next
  case (acquire t c)
  have c: "c = Outside" by (rule group_okD(5) [OF ok acquire(2)])
  have none: "\<not> runs (gg_pc s u)" for u using group_okD(2) [OF ok, of u] acquire(3) by blast
  have "group_ok (gto t GLoop s\<lparr>gg_isRun := True\<rparr>)"
    using ok none acquire(2) unfolding group_ok_def by (auto simp: runs_def)
  then show ?thesis unfolding acquire(1) using c by simp
next
  case (load_head t)
  show ?thesis unfolding load_head(1) using load_head(2) by (intro group_ok_goto [OF ok]) (simp_all add: runs_def)
next
  case (has_job t h)
  show ?thesis unfolding has_job(1) using has_job(2) by (intro group_ok_goto [OF ok]) (simp_all add: runs_def)
next
  case (no_job t h)
  show ?thesis unfolding no_job(1) using no_job(2) by (intro group_ok_goto [OF ok]) (simp_all add: runs_def)
next
  case (due t)
  show ?thesis unfolding due(1) using due(2) by (intro group_ok_goto [OF ok]) (simp_all add: runs_def)
next
  case (not_due t)
  show ?thesis unfolding not_due(1) using not_due(2) by (intro group_ok_goto [OF ok]) (simp_all add: runs_def)
next
  case (dequeue t k q)
  note m = mq_dequeue [OF dequeue(3)]
  show ?thesis unfolding dequeue(1)
    using m group_okD(6,7,9) [OF ok, of t] dequeue(2) by (intro group_ok_move [OF ok]) (auto simp: runs_def)
next
  case (dequeued t k x q)
  note m = mq_dequeue [OF dequeued(3)]
  show ?thesis unfolding dequeued(1)
    using m group_okD(6,7,9) [OF ok, of t] dequeued(2) by (intro group_ok_move [OF ok]) (auto simp: runs_def)
next
  case (no_more t k q)
  note m = mq_dequeue [OF no_more(3)]
  show ?thesis unfolding no_more(1)
    using m group_okD(6,7,9) [OF ok, of t] no_more(2) by (intro group_ok_move [OF ok]) (auto simp: runs_def)
next
  case (handled t k x sk)
  show ?thesis unfolding handled(1) using handled(2) by (intro group_ok_goto [OF ok]) (simp_all add: runs_def)
next
  case (handled_last t x)
  show ?thesis unfolding handled_last(1) using handled_last(2) by (intro group_ok_goto [OF ok]) (simp_all add: runs_def)
next
  case (tick t)
  show ?thesis unfolding tick(1) using tick(2) by (intro group_ok_goto [OF ok]) (simp_all add: runs_def)
next
  case (no_tick t)
  show ?thesis unfolding no_tick(1) using no_tick(2) by (intro group_ok_goto [OF ok]) (simp_all add: runs_def)
next
  case (updated t)
  show ?thesis unfolding updated(1) using updated(2) by (intro group_ok_goto [OF ok]) (simp_all add: runs_def)
next
  case (finish t)
  have none: "\<not> runs (gg_pc s u)" if "u \<noteq> t" for u using group_okD(1) [OF ok, of t u] finish(2) that by (auto simp: runs_def)
  show ?thesis unfolding finish(1) using ok none finish(2) unfolding group_ok_def by (auto simp: runs_def)
qed

lemma group_steps_ok: "group_step\<^sup>*\<^sup>* (gg_new d) s \<Longrightarrow> group_ok s"
  by (induction rule: rtranclp_induct) (auto intro: group_ok_new group_step_ok)

text \<open>\<^verbatim>\<open>_isRun\<close> makes the group a user of its queue as the queue expects it.\<close>

lemma job_slots: "pow2 JOB_QUEUE_SIZE"
  by (auto simp: pow2_def JOB_QUEUE_SIZE_def intro: bexI [of _ 13])

interpretation jobs: one_consumer group_step "gg_new d" gg_queue "\<lambda>t s. dequeuing (gg_pc s t)" JOB_QUEUE_SIZE d for d :: 'a
proof
  show "pow2 JOB_QUEUE_SIZE" by (rule job_slots)
  show "gg_queue (gg_new d) = mq_new JOB_QUEUE_SIZE d" by (simp add: gg_new_def)
  show "gg_queue s' = gg_queue s \<or> (\<exists>t oc. mq_step t oc (gg_queue s) (gg_queue s') \<and> (of_enqueue oc \<or> dequeuing (gg_pc s t)))"
    if "group_step s s'" for s s' :: "'a group_run"
    using that by cases fastforce+
  show "mq_cons (gg_queue s) u = CIdle" if "group_step\<^sup>*\<^sup>* (gg_new d) s" "dequeuing (gg_pc s t)" "u \<noteq> t" for s t u
  proof -
    note D = group_okD [OF group_steps_ok [OF that(1)]]
    have "runs (gg_pc s t)" using that(2) by (cases "gg_pc s t") (simp_all add: runs_def)
    then have "\<not> runs (gg_pc s u)" using D(1) that(3) by blast
    then have "\<not> dequeuing (gg_pc s u)" by (cases "gg_pc s u") (simp_all add: runs_def)
    then show ?thesis by (rule D(6))
  qed
qed

lemma quiet_when_checking:
  assumes "group_step\<^sup>*\<^sup>* (gg_new d) s" and "gg_pc s t = GHead h"
  shows "mq_cons (gg_queue s) u = CIdle"
proof -
  note D = group_okD [OF group_steps_ok [OF assms(1)]]
  have "\<not> dequeuing (gg_pc s u)"
  proof (cases "u = t")
    case False
    then have "\<not> runs (gg_pc s u)" using D(1) [of t u] assms(2) by (auto simp: runs_def)
    then show ?thesis by (cases "gg_pc s u") (simp_all add: runs_def)
  qed (simp add: assms(2))
  then show ?thesis by (rule D(6))
qed

lemma sint_of_nat_zero: "n \<le> 2 ^ 30 \<Longrightarrow> \<not> sint (of_nat n :: i32) > 0 \<Longrightarrow> n = 0"
  using i32_of_nat_small [of n] by simp

lemma all_handled:
  assumes "group_step\<^sup>*\<^sup>* (gg_new d) s" and "gg_pc s t = GHead h" and "\<not> sint (fq_tailIndex (mq_q (gg_queue s)) - h) > 0"
  shows "mq_out (gg_queue s) = mq_log (gg_queue s)"
proof -
  let ?out = "mq_out (gg_queue s)" and ?log = "mq_log (gg_queue s)"
  note i = jobs.indices [OF assms(1)] and h = group_okD(8) [OF group_steps_ok [OF assms(1)] assms(2)]
  have idle: "\<forall>u. mq_cons (gg_queue s) u = CIdle" using quiet_when_checking [OF assms(1,2)] by blast
  have n: "heads_of (gg_queue s) = length ?out" by (rule heads_of_idle [OF idle])
  have "fq_tailIndex (mq_q (gg_queue s)) - h = of_nat (length ?log - length ?out)"
    using i h n by (simp add: of_nat_diff)
  then have "length ?log - length ?out = 0" using assms(3) i(3-5) n by (intro sint_of_nat_zero) simp_all
  then show ?thesis using jobs.in_order [OF assms(1)] by (metis diff_is_0_eq take_all)
qed

text \<open>The first thread of a new group in the loop of \<^verbatim>\<open>Update\<close>, when it has loaded the head of the queue.\<close>

definition looking :: "nat group_run" where
  "looking = (gto 0 (GHead 0) (gg_new 0))\<lparr>gg_isRun := True\<rparr>"

abbreviation asked_step :: "'a group_run \<Rightarrow> 'a group_run \<Rightarrow> bool" where
  "asked_step a b \<equiv> group_step a b \<and> \<not> (\<exists>t c. gg_pc b t = GPush c False)"

lemma gg_new_sel:
  "gg_pc (gg_new d) t = GAt Outside" "\<not> gg_isRun (gg_new d)" "gg_queue (gg_new d) = mq_new JOB_QUEUE_SIZE d"
  by (simp_all add: gg_new_def)

lemma looking_reached: "asked_step\<^sup>*\<^sup>* (gg_new 0) looking"
proof -
  let ?s0 = "gg_new (0 :: nat)"
  let ?s1 = "gto 0 (GTry Outside) ?s0" let ?s2 = "(gto 0 GLoop ?s1)\<lparr>gg_isRun := True\<rparr>"
  have "group_step ?s0 ?s1" by (rule group_step.execute) (simp add: gg_new_sel)
  moreover have "group_step ?s1 ?s2" using acquire [of ?s1 0 Outside] by (simp add: gg_new_sel)
  moreover have "group_step ?s2 looking"
    using load_head [of ?s2 0] by (simp add: looking_def gg_new_def mq_new_def fq_new_def)
  moreover have "gg_pc ?s1 t \<noteq> GPush c u" "gg_pc ?s2 t \<noteq> GPush c u" "gg_pc looking t \<noteq> GPush c u" for t c u
    by (simp_all add: gg_new_sel looking_def)
  ultimately have s: "asked_step ?s0 ?s1" "asked_step ?s1 ?s2" "asked_step ?s2 looking" by blast+
  show ?thesis
    by (rule rtranclp.rtrancl_into_rtrancl [of asked_step, OF _ s(3)], rule rtranclp.rtrancl_into_rtrancl [of asked_step, OF _ s(2)],
        rule r_into_rtranclp [of asked_step, OF s(1)])
qed

lemma looking_sel:
  "gg_pc looking t = (if t = 0 then GHead 0 else GAt Outside)" "gg_isRun looking" "gg_queue looking = mq_new JOB_QUEUE_SIZE 0"
  by (simp_all add: looking_def gg_new_def)

lemma asked_steps: "asked_step\<^sup>*\<^sup>* a b \<Longrightarrow> group_step\<^sup>*\<^sup>* a b"
  by (induction rule: rtranclp_induct) (auto intro: rtranclp.rtrancl_into_rtrancl)

subsection \<open>Properties\<close>



text \<open>
  C17. A job can be left behind although every \<^verbatim>\<open>Enqueue\<close> asks for an update: a run exists in which a thread enqueues between the last
  look at the queue and the clearing of \<^verbatim>\<open>_isRun\<close> by another, sees the flag set and returns; then all threads are outside,
  the flag is clear and the job is in the queue. Only the next \<^verbatim>\<open>Enqueue\<close> or the periodic update takes it.
\<close>

theorem job_can_be_left:
  "\<exists>s. asked_step\<^sup>*\<^sup>* (gg_new (0 :: nat)) s \<and> (\<forall>t. gg_pc s t = GAt Outside) \<and> \<not> gg_isRun s \<and>
     mq_log (gg_queue s) = [7] \<and> mq_out (gg_queue s) = []"
proof -
  let ?q = "mq_new JOB_QUEUE_SIZE (0 :: nat)"
  let ?a1 = "gto 0 GClock looking" let ?a2 = "gto 0 GEnd ?a1"
  obtain m1 m2 m3 m4 where m: "mq_step 1 (Ticket 7) ?q m1" "mq_step 1 Enqueuing m1 m2" "mq_step 1 Enqueuing m2 m3"
      "mq_step 1 Accepted m3 m4" "mq_log m4 = [7]" "mq_out m4 = []"
    using mq_enqueue_run [of ?q 1 7 thesis] fq_new_free [OF job_slots, of "0 :: nat"] by (simp del: One_nat_def)
  let ?b1 = "gtq 1 (GPush Outside True) m1 ?a2" let ?b2 = "gtq 1 (GPush Outside True) m2 ?b1" let ?b3 = "gtq 1 (GPush Outside True) m3 ?b2"
  let ?b4 = "gtq 1 (GAsk Outside) m4 ?b3" let ?b5 = "gto 1 (GAt Outside) ?b4" let ?b6 = "(gto 0 (GAt Outside) ?b5)\<lparr>gg_isRun := False\<rparr>"
  have e1: "asked_step looking ?a1" using no_job [of looking 0 0] by (simp add: looking_sel mq_new_def fq_new_def)
  have e2: "asked_step ?a1 ?a2" using not_due [of ?a1 0] by (simp add: looking_sel)
  have e3: "asked_step ?a2 ?b1" using enqueue [of ?a2 1 Outside 7 m1 True] m(1) by (simp add: looking_sel)
  have e4: "asked_step ?b1 ?b2" using enqueue_on [of ?b1 1 Outside True Enqueuing m2] m(2) by (simp add: looking_sel)
  have e5: "asked_step ?b2 ?b3" using enqueue_on [of ?b2 1 Outside True Enqueuing m3] m(3) by (simp add: looking_sel)
  have e6: "asked_step ?b3 ?b4" using enqueued [of ?b3 1 Outside True m4] m(4) by (simp add: looking_sel)
  have e7: "asked_step ?b4 ?b5" using is_running [of ?b4 1 Outside] by (simp add: looking_sel)
  have e8: "asked_step ?b5 ?b6" using finish [of ?b5 0] by (simp add: looking_sel)
  have "asked_step\<^sup>*\<^sup>* looking ?b6"
    by (rule rtranclp_trans [OF four_in_a_row [of asked_step, OF e1 e2 e3 e4] four_in_a_row [of asked_step, OF e5 e6 e7 e8]])
  then have "asked_step\<^sup>*\<^sup>* (gg_new 0) ?b6" by (rule rtranclp_trans [OF looking_reached])
  moreover have "\<forall>t. gg_pc ?b6 t = GAt Outside" by (simp add: looking_sel)
  ultimately show ?thesis using m(5,6) by (intro exI [of _ ?b6]) simp
qed

end
