(* ===== verification/Send_Threads.thy ===== *)
theory Send_Threads
  imports Queue_Users
begin

section \<open>The threads that send on one connection\<close>

text \<open>
  \<^verbatim>\<open>IOCP::SendPacket\<close>, \<^verbatim>\<open>SendPackets\<close>, \<^verbatim>\<open>SendPacketBlocking\<close>, \<^verbatim>\<open>Session::CanSend\<close>, \<^verbatim>\<open>TrySend\<close>, \<^verbatim>\<open>RealSend\<close>, \<^verbatim>\<open>SendExecutable\<close> and
  \<^verbatim>\<open>PostSendExecutable\<close> on one connection, run by any number of threads, one shared access per step: the accesses of the send
  queue, of \<^verbatim>\<open>_isSending\<close>, \<^verbatim>\<open>_connect\<close> and the release flag of \<^verbatim>\<open>_refCount\<close>. The connection may be closed and released at any time, a
  \<^verbatim>\<open>WSASend\<close> may fail, at once or later. What the threads enqueue, that no send is lost: after a thread has given up \<^verbatim>\<open>_isSending\<close> it looks
  at the queue again. As in \<open>Queue_Threads\<close> a buffer is only enqueued while the queue has room; a full queue disconnects.
\<close>

subsection \<open>Threads\<close>

text \<open>What a caller of \<^verbatim>\<open>CanSend\<close> does when it may send: post the request to the port, or send at once.\<close>

datatype mode = Post | Direct

text \<open>
  \<open>SMore\<close>: in a call of the library, before the next \<^verbatim>\<open>ProcessBuffer\<close> or \<^verbatim>\<open>CanSend\<close>; \<open>SPush\<close>: in \<^verbatim>\<open>_sendQ.Enqueue\<close>; \<open>SCan\<close>, \<open>SFlag\<close>: in \<^verbatim>\<open>CanSend\<close> before the read
  of \<^verbatim>\<open>_connect\<close>, of \<^verbatim>\<open>_refCount\<close>; \<open>SLoad\<close>, \<open>SHead\<close>: before the loads of the first \<^verbatim>\<open>Size()\<close> (the number is how many tickets had been taken
  at the first load); \<open>SXchg\<close>: before the exchange; \<open>SLoad2\<close>, \<open>SHead2\<close>: in the second \<^verbatim>\<open>Size()\<close>; \<open>SUndo\<close>: before \<^verbatim>\<open>_isSending\<close> is cleared
  again; \<open>SPost\<close>: before the request is posted; \<open>SReal\<close>: at the start of \<^verbatim>\<open>RealSend\<close>; \<open>SSize\<close>, \<open>SSizeHead\<close>: in its \<^verbatim>\<open>Size()\<close>; \<open>SDeq\<close>: in
  its loops; \<open>SWsa\<close>: before \<^verbatim>\<open>WSASend\<close>; \<open>SClear\<close>: in \<^verbatim>\<open>PostSendExecutable\<close> before \<^verbatim>\<open>_isSending\<close> is cleared; \<open>SBreak\<close>: at the \<^verbatim>\<open>__debugbreak\<close> for an empty queue.
\<close>

datatype spc =
    SIdle
  | SMore mode
  | SPush mode
  | SCan mode
  | SFlag mode
  | SLoad mode
  | SHead mode i32 nat
  | SXchg mode
  | SLoad2 mode
  | SHead2 mode i32
  | SUndo mode
  | SPost
  | SReal
  | SSize
  | SSizeHead i32
  | SDeq
  | SWsa
  | SClear
  | SBreak

text \<open>
  \<open>sd_posted\<close>: send requests in the port; \<open>sd_sending\<close>: \<^verbatim>\<open>_sendingQ\<close> up to \<^verbatim>\<open>dataNotSend\<close>; \<open>sd_inflight\<close>: a \<^verbatim>\<open>WSASend\<close> has started and its
  completion was not taken; \<open>sd_dropped\<close>: the sending has stopped for good (the session is released, or a \<^verbatim>\<open>WSASend\<close> failed);
  \<open>sd_sent\<close>: a history of what the calls of \<^verbatim>\<open>WSASend\<close> that started were given.
\<close>

record 'a send_run =
  sd_queue :: "'a mq_run"
  sd_pc :: "nat \<Rightarrow> spc"
  sd_isSending :: bool
  sd_connect :: bool
  sd_released :: bool
  sd_posted :: nat
  sd_sending :: "'a list"
  sd_inflight :: bool
  sd_dropped :: bool
  sd_sent :: "'a list list"

definition SEND_QUEUE_SIZE :: nat where
  "SEND_QUEUE_SIZE = 512"

definition sd_new :: "'a \<Rightarrow> 'a send_run" where
  "sd_new d =
     \<lparr>sd_queue = mq_new SEND_QUEUE_SIZE d, sd_pc = (\<lambda>_. SIdle), sd_isSending = False, sd_connect = True, sd_released = False,
      sd_posted = 0, sd_sending = [], sd_inflight = False, sd_dropped = False, sd_sent = []\<rparr>"

abbreviation sto :: "nat \<Rightarrow> spc \<Rightarrow> 'a send_run \<Rightarrow> 'a send_run" where
  "sto t p s \<equiv> s\<lparr>sd_pc := (sd_pc s)(t := p)\<rparr>"

abbreviation stq :: "nat \<Rightarrow> spc \<Rightarrow> 'a mq_run \<Rightarrow> 'a send_run \<Rightarrow> 'a send_run" where
  "stq t p q s \<equiv> s\<lparr>sd_queue := q, sd_pc := (sd_pc s)(t := p)\<rparr>"

abbreviation heads_word :: "'a send_run \<Rightarrow> i32" where
  "heads_word s \<equiv> fq_headIndex (mq_q (sd_queue s))"

abbreviation tails_word :: "'a send_run \<Rightarrow> i32" where
  "tails_word s \<equiv> fq_tailIndex (mq_q (sd_queue s))"

abbreviation tickets :: "'a send_run \<Rightarrow> nat" where
  "tickets s \<equiv> length (mq_log (sd_queue s))"

text \<open>\<open>empty\<close> and \<open>some\<close>: fewer than \<open>2 ^ 31\<close> buffers are enqueued between the two loads of one \<^verbatim>\<open>Size()\<close>.\<close>

inductive send_step :: "'a send_run \<Rightarrow> 'a send_run \<Rightarrow> bool" where
  call: "sd_pc s t = SIdle \<Longrightarrow> send_step s (sto t (SMore m) s)"
| push: "sd_pc s t = SMore m \<Longrightarrow> mq_step t (Ticket x) (sd_queue s) q \<Longrightarrow> send_step s (stq t (SPush m) q s)"
| push_on: "sd_pc s t = SPush m \<Longrightarrow> mq_step t oc (sd_queue s) q \<Longrightarrow> oc = Enqueuing \<or> oc = Refused \<Longrightarrow> send_step s (stq t (SPush m) q s)"
| pushed: "sd_pc s t = SPush m \<Longrightarrow> mq_step t Accepted (sd_queue s) q \<Longrightarrow> send_step s (stq t (SMore m) q s)"
| can_send: "sd_pc s t = SMore m \<Longrightarrow> send_step s (sto t (SCan m) s)"
| connected: "sd_pc s t = SCan m \<Longrightarrow> sd_connect s \<Longrightarrow> send_step s (sto t (SFlag m) s)"
| not_connected: "sd_pc s t = SCan m \<Longrightarrow> \<not> sd_connect s \<Longrightarrow> send_step s (sto t SIdle s)"
| flag_clear: "sd_pc s t = SFlag m \<Longrightarrow> \<not> sd_released s \<Longrightarrow> send_step s (sto t (SLoad m) s)"
| flag_set: "sd_pc s t = SFlag m \<Longrightarrow> sd_released s \<Longrightarrow> send_step s (sto t SIdle s)"
| load: "sd_pc s t = SLoad m \<Longrightarrow> send_step s (sto t (SHead m (heads_word s) (tickets s)) s)"
| empty: "sd_pc s t = SHead m h k \<Longrightarrow> tickets s < k + 2 ^ 31 \<Longrightarrow> tails_word s - h = 0 \<Longrightarrow> send_step s (sto t SIdle s)"
| some: "sd_pc s t = SHead m h k \<Longrightarrow> tickets s < k + 2 ^ 31 \<Longrightarrow> tails_word s - h \<noteq> 0 \<Longrightarrow> send_step s (sto t (SXchg m) s)"
| sending: "sd_pc s t = SXchg m \<Longrightarrow> sd_isSending s \<Longrightarrow> send_step s (sto t SIdle s)"
| exchanged: "sd_pc s t = SXchg m \<Longrightarrow> \<not> sd_isSending s \<Longrightarrow> send_step s ((sto t (SLoad2 m) s)\<lparr>sd_isSending := True\<rparr>)"
| load2: "sd_pc s t = SLoad2 m \<Longrightarrow> send_step s (sto t (SHead2 m (heads_word s)) s)"
| empty2: "sd_pc s t = SHead2 m h \<Longrightarrow> tails_word s - h = 0 \<Longrightarrow> send_step s (sto t (SUndo m) s)"
| some2: "sd_pc s t = SHead2 m h \<Longrightarrow> tails_word s - h \<noteq> 0 \<Longrightarrow> send_step s (sto t (if m = Post then SPost else SReal) s)"
| undo: "sd_pc s t = SUndo m \<Longrightarrow> send_step s ((sto t (SFlag m) s)\<lparr>sd_isSending := False\<rparr>)"
| post: "sd_pc s t = SPost \<Longrightarrow> send_step s ((sto t SIdle s)\<lparr>sd_posted := sd_posted s + 1\<rparr>)"
| take_request: "sd_pc s t = SIdle \<Longrightarrow> sd_posted s > 0 \<Longrightarrow> send_step s ((sto t SReal s)\<lparr>sd_posted := sd_posted s - 1\<rparr>)"
| real_released: "sd_pc s t = SReal \<Longrightarrow> sd_released s \<Longrightarrow> send_step s ((sto t SIdle s)\<lparr>sd_dropped := True\<rparr>)"
| real: "sd_pc s t = SReal \<Longrightarrow> \<not> sd_released s \<Longrightarrow> send_step s (sto t SSize s)"
| size_load: "sd_pc s t = SSize \<Longrightarrow> send_step s (sto t (SSizeHead (heads_word s)) s)"
| size_zero: "sd_pc s t = SSizeHead h \<Longrightarrow> sint (tails_word s - h) < 1 \<Longrightarrow> send_step s (sto t SBreak s)"
| size_some: "sd_pc s t = SSizeHead h \<Longrightarrow> \<not> sint (tails_word s - h) < 1 \<Longrightarrow> send_step s ((sto t SDeq s)\<lparr>sd_sending := []\<rparr>)"
| take: "sd_pc s t = SDeq \<Longrightarrow> mq_step t Dequeuing (sd_queue s) q \<Longrightarrow> send_step s (stq t SDeq q s)"
| taken: "sd_pc s t = SDeq \<Longrightarrow> mq_step t (Got x) (sd_queue s) q \<Longrightarrow>
    send_step s ((stq t (if length (sd_sending s) + 1 = SEND_QUEUE_SIZE then SWsa else SDeq) q s)\<lparr>sd_sending := sd_sending s @ [x]\<rparr>)"
| none: "sd_pc s t = SDeq \<Longrightarrow> mq_step t Missing (sd_queue s) q \<Longrightarrow> send_step s (stq t (if sd_sending s = [] then SDeq else SWsa) q s)"
| started: "sd_pc s t = SWsa \<Longrightarrow> send_step s ((sto t SIdle s)\<lparr>sd_inflight := True, sd_sent := sd_sent s @ [sd_sending s]\<rparr>)"
| send_failed: "sd_pc s t = SWsa \<Longrightarrow> send_step s ((sto t SIdle s)\<lparr>sd_dropped := True\<rparr>)"
| complete: "sd_pc s t = SIdle \<Longrightarrow> sd_inflight s \<Longrightarrow> send_step s ((sto t SClear s)\<lparr>sd_inflight := False, sd_sending := []\<rparr>)"
| complete_failed: "sd_inflight s \<Longrightarrow> send_step s (s\<lparr>sd_inflight := False, sd_dropped := True\<rparr>)"
| clear: "sd_pc s t = SClear \<Longrightarrow> send_step s ((sto t (SCan Direct) s)\<lparr>sd_isSending := False\<rparr>)"
| close: "send_step s (s\<lparr>sd_connect := False\<rparr>)"
| release: "send_step s (s\<lparr>sd_released := True\<rparr>)"

subsection \<open>Whose turn it is to send\<close>

text \<open>While \<^verbatim>\<open>_isSending\<close> is set, exactly one has it: a thread, the request in the port, the \<^verbatim>\<open>WSASend\<close> in flight, or nobody any more.\<close>

datatype holder = Thr nat | Port | Wire | Lost

fun holds :: "spc \<Rightarrow> bool" where
  "holds (SLoad2 m) = True"
| "holds (SHead2 m h) = True"
| "holds (SUndo m) = True"
| "holds SPost = True"
| "holds SReal = True"
| "holds SSize = True"
| "holds (SSizeHead h) = True"
| "holds SDeq = True"
| "holds SWsa = True"
| "holds SClear = True"
| "holds SBreak = True"
| "holds _ = False"

fun turn :: "'a send_run \<Rightarrow> holder \<Rightarrow> bool" where
  "turn s (Thr t) = holds (sd_pc s t)"
| "turn s Port = (sd_posted s > 0)"
| "turn s Wire = sd_inflight s"
| "turn s Lost = sd_dropped s"

definition turn_ok :: "'a send_run \<Rightarrow> bool" where
  "turn_ok s \<longleftrightarrow> sd_posted s \<le> 1 \<and> (if sd_isSending s then \<exists>a. turn s = (\<lambda>x. x = a) else turn s = (\<lambda>_. False))"

lemma turn_eqI:
  assumes "\<And>t. holds (sd_pc s t) \<longleftrightarrow> f (Thr t)" and "sd_posted s > 0 \<longleftrightarrow> f Port" and "sd_inflight s \<longleftrightarrow> f Wire" and "sd_dropped s \<longleftrightarrow> f Lost"
  shows "turn s = f"
proof
  show "turn s x = f x" for x using assms by (cases x) simp_all
qed

lemma turn_alone:
  assumes "turn_ok s" and "turn s a"
  shows "turn s = (\<lambda>x. x = a)" and "sd_isSending s" and "sd_posted s = (if a = Port then 1 else 0)" and "sd_inflight s \<longleftrightarrow> a = Wire"
    and "sd_dropped s \<longleftrightarrow> a = Lost" and "holds (sd_pc s t) \<longleftrightarrow> a = Thr t"
proof -
  show i: "sd_isSending s" using assms by (auto simp: turn_ok_def split: if_splits)
  then obtain b where b: "turn s = (\<lambda>x. x = b)" using assms(1) by (auto simp: turn_ok_def)
  then have "b = a" using assms(2) by simp
  then show e: "turn s = (\<lambda>x. x = a)" using b by simp
  show "sd_inflight s \<longleftrightarrow> a = Wire" "sd_dropped s \<longleftrightarrow> a = Lost" "holds (sd_pc s t) \<longleftrightarrow> a = Thr t"
    using fun_cong [OF e, of Wire] fun_cong [OF e, of Lost] fun_cong [OF e, of "Thr t"] by auto
  have "sd_posted s > 0 \<longleftrightarrow> a = Port" using fun_cong [OF e, of Port] by auto
  then show "sd_posted s = (if a = Port then 1 else 0)" using assms(1) by (auto simp: turn_ok_def)
qed

lemma turn_ok_same:
  assumes "turn_ok s" and "sd_isSending s' = sd_isSending s" and "sd_posted s' = sd_posted s" and "sd_inflight s' = sd_inflight s"
    and "sd_dropped s' = sd_dropped s" and "\<And>u. holds (sd_pc s' u) \<longleftrightarrow> holds (sd_pc s u)"
  shows "turn_ok s'"
proof -
  have "turn s' = turn s" using assms by (intro turn_eqI) simp_all
  then show ?thesis using assms by (simp add: turn_ok_def)
qed

lemma turn_ok_move:
  assumes "turn_ok s" and "turn s a" and "sd_isSending s'" and "sd_posted s' = (if b = Port then 1 else 0)"
    and "sd_inflight s' \<longleftrightarrow> b = Wire" and "sd_dropped s' \<longleftrightarrow> b = Lost" and "\<And>u. holds (sd_pc s' u) \<longleftrightarrow> b = Thr u"
  shows "turn_ok s'"
proof -
  have "turn s' = (\<lambda>x. x = b)" using assms(4-7) by (intro turn_eqI) (auto split: if_splits)
  then show ?thesis using assms(3,4) by (auto simp: turn_ok_def)
qed

lemma turn_ok_give_up:
  assumes "turn_ok s" and "turn s a" and "\<not> sd_isSending s'" and "sd_posted s' = 0" and "\<not> sd_inflight s'" and "\<not> sd_dropped s'"
    and "\<And>u. \<not> holds (sd_pc s' u)"
  shows "turn_ok s'"
proof -
  have "turn s' = (\<lambda>_. False)" using assms(4-7) by (intro turn_eqI) simp_all
  then show ?thesis using assms(3,4) by (simp add: turn_ok_def)
qed

lemma turn_ok_idle: "turn_ok s \<Longrightarrow> \<not> sd_isSending s \<Longrightarrow> \<not> turn s a"
  by (simp add: turn_ok_def)

lemma turn_ok_new: "turn_ok (sd_new d)"
proof -
  have "turn (sd_new d) = (\<lambda>_. False)" by (intro turn_eqI) (simp_all add: sd_new_def)
  then show ?thesis by (simp add: turn_ok_def) (simp add: sd_new_def)
qed

lemma send_step_turn:
  assumes "send_step s s'" and ok: "turn_ok s"
  shows "turn_ok s'"
  using assms(1)
proof cases
  case (exchanged t m)
  note none = turn_ok_idle [OF ok exchanged(3)]
  have "turn s' = (\<lambda>x. x = Thr t)"
    using none [of Port] none [of Wire] none [of Lost] none [of "Thr u" for u] exchanged by (intro turn_eqI) auto
  then show ?thesis using none [of Port] exchanged(1) by (auto simp: turn_ok_def)
next
  case (undo t m)
  have a: "turn s (Thr t)" using undo(2) by simp
  show ?thesis using turn_alone [OF ok a] undo(1) by (intro turn_ok_give_up [OF ok a]) auto
next
  case (clear t)
  have a: "turn s (Thr t)" using clear(2) by simp
  show ?thesis using turn_alone [OF ok a] clear(1) by (intro turn_ok_give_up [OF ok a]) auto
next
  case (post t)
  have a: "turn s (Thr t)" using post(2) by simp
  show ?thesis using turn_alone [OF ok a] post(1) by (intro turn_ok_move [OF ok a, where b = Port]) auto
next
  case (take_request t)
  have a: "turn s Port" using take_request(3) by simp
  show ?thesis using turn_alone [OF ok a] take_request(1) by (intro turn_ok_move [OF ok a, where b = "Thr t"]) auto
next
  case (real_released t)
  have a: "turn s (Thr t)" using real_released(2) by simp
  show ?thesis using turn_alone [OF ok a] real_released(1) by (intro turn_ok_move [OF ok a, where b = Lost]) auto
next
  case (started t)
  have a: "turn s (Thr t)" using started(2) by simp
  show ?thesis using turn_alone [OF ok a] started(1) by (intro turn_ok_move [OF ok a, where b = Wire]) auto
next
  case (send_failed t)
  have a: "turn s (Thr t)" using send_failed(2) by simp
  show ?thesis using turn_alone [OF ok a] send_failed(1) by (intro turn_ok_move [OF ok a, where b = Lost]) auto
next
  case (complete t)
  have a: "turn s Wire" using complete(3) by simp
  show ?thesis using turn_alone [OF ok a] complete(1) by (intro turn_ok_move [OF ok a, where b = "Thr t"]) auto
next
  case complete_failed
  have a: "turn s Wire" using complete_failed(2) by simp
  show ?thesis using turn_alone [OF ok a] complete_failed(1) by (intro turn_ok_move [OF ok a, where b = Lost]) auto
qed (rule turn_ok_same [OF ok]; auto split: if_splits)+

subsection \<open>Only the sender dequeues\<close>

fun pushes :: "spc \<Rightarrow> bool" where
  "pushes (SPush m) = True"
| "pushes _ = False"

definition calls_ok :: "'a send_run \<Rightarrow> bool" where
  "calls_ok s \<longleftrightarrow> (\<forall>t. mq_cons (sd_queue s) t \<noteq> CIdle \<longrightarrow> sd_pc s t = SDeq) \<and> (\<forall>t. mq_prod (sd_queue s) t \<noteq> PIdle \<longleftrightarrow> pushes (sd_pc s t))"

lemma calls_okD:
  assumes "calls_ok s"
  shows "sd_pc s t \<noteq> SDeq \<Longrightarrow> mq_cons (sd_queue s) t = CIdle" "mq_prod (sd_queue s) t \<noteq> PIdle \<longleftrightarrow> pushes (sd_pc s t)"
  using assms unfolding calls_ok_def by blast+

lemma calls_ok_move:
  assumes "calls_ok s" and "sd_pc s' = (sd_pc s)(t := p)"
    and "\<And>u. u \<noteq> t \<Longrightarrow> mq_cons (sd_queue s') u = mq_cons (sd_queue s) u" and "mq_cons (sd_queue s') t \<noteq> CIdle \<longrightarrow> p = SDeq"
    and "\<And>u. u \<noteq> t \<Longrightarrow> mq_prod (sd_queue s') u = mq_prod (sd_queue s) u" and "mq_prod (sd_queue s') t \<noteq> PIdle \<longleftrightarrow> pushes p"
  shows "calls_ok s'"
  unfolding calls_ok_def
proof (intro conjI allI)
  show "mq_cons (sd_queue s') u \<noteq> CIdle \<longrightarrow> sd_pc s' u = SDeq" for u
    using assms(2-4) calls_okD(1) [OF assms(1), of u] by (cases "u = t") auto
  show "mq_prod (sd_queue s') u \<noteq> PIdle \<longleftrightarrow> pushes (sd_pc s' u)" for u
    using assms(2,5,6) calls_okD(2) [OF assms(1), of u] by (cases "u = t") auto
qed

lemma calls_ok_goto:
  assumes "calls_ok s" and "sd_pc s' = (sd_pc s)(t := p)" and "sd_queue s' = sd_queue s" and "sd_pc s t \<noteq> SDeq" and "\<not> pushes (sd_pc s t)" and "\<not> pushes p"
  shows "calls_ok s'"
  using calls_okD [OF assms(1), of t] assms(3-6) by (intro calls_ok_move [OF assms(1,2)]) simp_all

lemma calls_ok_new: "calls_ok (sd_new d)"
  by (simp add: calls_ok_def sd_new_def)

lemma send_step_calls:
  assumes "send_step s s'" and ok: "calls_ok s"
  shows "calls_ok s'"
  using assms(1)
proof cases
  case (push t m x q)
  note k = mq_enqueue [OF push(3)]
  show ?thesis using k calls_okD [OF ok, of t] push(1,2) by (intro calls_ok_move [OF ok, of _ t "SPush m"]) auto
next
  case (push_on t m oc q)
  then have e: "of_enqueue oc" "oc \<noteq> Accepted" by auto
  note k = mq_enqueue [OF push_on(3) e(1)]
  show ?thesis using k e calls_okD [OF ok, of t] push_on(1,2) by (intro calls_ok_move [OF ok, of _ t "SPush m"]) auto
next
  case (pushed t m q)
  note k = mq_enqueue [OF pushed(3)]
  show ?thesis using k calls_okD [OF ok, of t] pushed(1,2) by (intro calls_ok_move [OF ok, of _ t "SMore m"]) auto
next
  case (take t q)
  note k = mq_dequeue [OF take(3)]
  show ?thesis using k calls_okD [OF ok, of t] take(1,2) by (intro calls_ok_move [OF ok, of _ t SDeq]) auto
next
  case (taken t x q)
  note k = mq_dequeue [OF taken(3)]
  show ?thesis using k calls_okD [OF ok, of t] taken(1,2) by (intro calls_ok_move [OF ok, of _ t "sd_pc s' t"]) auto
next
  case (none t q)
  note k = mq_dequeue [OF none(3)]
  show ?thesis using k calls_okD [OF ok, of t] none(1,2) by (intro calls_ok_move [OF ok, of _ t "sd_pc s' t"]) auto
next
  case complete_failed
  then show ?thesis using ok by (simp add: calls_ok_def)
next
  case close
  then show ?thesis using ok by (simp add: calls_ok_def)
next
  case release
  then show ?thesis using ok by (simp add: calls_ok_def)
qed (use ok in \<open>auto intro: calls_ok_goto\<close>)

lemma send_steps_ok:
  assumes "send_step\<^sup>*\<^sup>* (sd_new d) s"
  shows "turn_ok s" and "calls_ok s"
  using assms by (induction rule: rtranclp_induct) (auto intro: turn_ok_new send_step_turn calls_ok_new send_step_calls)

lemma sender_alone:
  assumes "turn_ok s" and "calls_ok s" and "holds (sd_pc s t)" and "u \<noteq> t"
  shows "mq_cons (sd_queue s) u = CIdle"
proof -
  have "\<not> holds (sd_pc s u)" using turn_alone(6) [OF assms(1), of "Thr t" u] assms(3,4) by auto
  then have "sd_pc s u \<noteq> SDeq" by auto
  then show ?thesis by (rule calls_okD(1) [OF assms(2)])
qed

lemma send_slots: "pow2 SEND_QUEUE_SIZE"
  by (auto simp: pow2_def SEND_QUEUE_SIZE_def intro: bexI [of _ 9])

interpretation sendq: one_consumer send_step "sd_new d" sd_queue "\<lambda>t s. sd_pc s t = SDeq" SEND_QUEUE_SIZE d for d :: 'a
proof
  show "pow2 SEND_QUEUE_SIZE" by (rule send_slots)
  show "sd_queue (sd_new d) = mq_new SEND_QUEUE_SIZE d" by (simp add: sd_new_def)
  show "sd_queue s' = sd_queue s \<or> (\<exists>t oc. mq_step t oc (sd_queue s) (sd_queue s') \<and> (of_enqueue oc \<or> sd_pc s t = SDeq))"
    if "send_step s s'" for s s' :: "'a send_run"
    using that by cases fastforce+
  show "mq_cons (sd_queue s) u = CIdle" if "send_step\<^sup>*\<^sup>* (sd_new d) s" "sd_pc s t = SDeq" "u \<noteq> t" for s t u
    using sender_alone [OF send_steps_ok [OF that(1)], of t u] that(2,3) by simp
qed

subsection \<open>What is sent, and what is still to be sent\<close>

abbreviation outq :: "'a send_run \<Rightarrow> 'a list" where
  "outq s \<equiv> mq_out (sd_queue s)"

fun pc_ok :: "'a send_run \<Rightarrow> spc \<Rightarrow> bool" where
  "pc_ok s (SHead m h k) \<longleftrightarrow> (\<exists>n. h = of_nat n \<and> n \<le> heads_of (sd_queue s) \<and> k \<le> n + 2 ^ 30)"
| "pc_ok s (SHead2 m h) \<longleftrightarrow> h = heads_word s"
| "pc_ok s SPost \<longleftrightarrow> length (outq s) < tickets s"
| "pc_ok s SReal \<longleftrightarrow> length (outq s) < tickets s"
| "pc_ok s SSize \<longleftrightarrow> length (outq s) < tickets s"
| "pc_ok s (SSizeHead h) \<longleftrightarrow> h = heads_word s \<and> length (outq s) < tickets s"
| "pc_ok s SDeq \<longleftrightarrow> length (sd_sending s) < SEND_QUEUE_SIZE \<and> (sd_sending s = [] \<longrightarrow> length (outq s) < tickets s) \<and>
     outq s = concat (sd_sent s) @ sd_sending s"
| "pc_ok s SWsa \<longleftrightarrow> sd_sending s \<noteq> [] \<and> length (sd_sending s) \<le> SEND_QUEUE_SIZE \<and> outq s = concat (sd_sent s) @ sd_sending s"
| "pc_ok s SBreak \<longleftrightarrow> False"
| "pc_ok s _ \<longleftrightarrow> True"

fun watches :: "spc \<Rightarrow> bool" where
  "watches (SMore m) = True"
| "watches (SPush m) = True"
| "watches (SCan m) = True"
| "watches (SFlag m) = True"
| "watches (SLoad m) = True"
| "watches (SHead m h k) = True"
| "watches (SXchg m) = True"
| "watches _ = False"

definition sent_ok :: "'a send_run \<Rightarrow> bool" where
  "sent_ok s \<longleftrightarrow> (sd_posted s > 0 \<longrightarrow> length (outq s) < tickets s) \<and> (\<forall>b\<in>set (sd_sent s). b \<noteq> [] \<and> length b \<le> SEND_QUEUE_SIZE) \<and>
     (\<exists>rest. outq s = concat (sd_sent s) @ rest) \<and>
     (\<not> sd_dropped s \<longrightarrow> (\<forall>t. sd_pc s t \<noteq> SDeq \<and> sd_pc s t \<noteq> SWsa) \<longrightarrow> outq s = concat (sd_sent s))"

text \<open>Somebody will look at the queue again, or somebody has the turn.\<close>

definition watch_ok :: "'a send_run \<Rightarrow> bool" where
  "watch_ok s \<longleftrightarrow> (sd_connect s \<longrightarrow> \<not> sd_released s \<longrightarrow> \<not> sd_isSending s \<longrightarrow> length (outq s) < tickets s \<longrightarrow> (\<exists>t. watches (sd_pc s t)))"

lemma pc_ok_keep:
  assumes "pc_ok s p" and "heads_of (sd_queue s) \<le> heads_of (sd_queue s')"
    and "holds p \<Longrightarrow> heads_word s' = heads_word s \<and> outq s' = outq s \<and> tickets s \<le> tickets s' \<and> sd_sending s' = sd_sending s \<and> sd_sent s' = sd_sent s"
  shows "pc_ok s' p"
proof (cases p)
  case (SHead m h k)
  then show ?thesis using assms(1,2) by (auto intro: order.trans)
qed (use assms(1,3) in auto)

lemma word_distance:
  assumes "(of_nat a :: i32) - of_nat b = 0" and "b \<le> a" and "a < b + 2 ^ 32"
  shows "a = b"
proof -
  have "(of_nat (a - b) :: i32) = 0" using assms(1,2) by (simp add: of_nat_diff)
  moreover have "unat (of_nat (a - b) :: i32) = a - b" using assms(3) by (intro unat_of_nat_small) simp
  ultimately show ?thesis using assms(2) by simp
qed

lemmas words = sendq.indices

text \<open>Between two calls of \<^verbatim>\<open>Dequeue\<close> the loads of both indices tell the number of elements.\<close>

lemma all_idle:
  assumes "send_step\<^sup>*\<^sup>* (sd_new d) s" and "holds (sd_pc s t) \<or> \<not> sd_isSending s" and "sd_pc s t \<noteq> SDeq"
  shows "mq_cons (sd_queue s) u = CIdle" and "heads_of (sd_queue s) = length (outq s)"
proof -
  note ok = send_steps_ok [OF assms(1)]
  have i: "mq_cons (sd_queue s) u = CIdle" for u
  proof (cases "holds (sd_pc s t)")
    case True
    then show ?thesis using sender_alone [OF ok True, of u] calls_okD(1) [OF ok(2) assms(3)] by (cases "u = t") auto
  next
    case False
    then have "\<not> holds (sd_pc s u)" using turn_ok_idle [OF ok(1), of "Thr u"] assms(2) by simp
    then have "sd_pc s u \<noteq> SDeq" by auto
    then show ?thesis by (rule calls_okD(1) [OF ok(2)])
  qed
  then show "mq_cons (sd_queue s) u = CIdle" "heads_of (sd_queue s) = length (outq s)" by (simp_all add: heads_of_idle)
qed

lemma send_step_heads:
  assumes "send_step\<^sup>*\<^sup>* (sd_new d) s" and "send_step s s'"
  shows "heads_of (sd_queue s) \<le> heads_of (sd_queue s')"
proof -
  note ok = send_steps_ok [OF assms(1)]
  have sane: "mq_cons (sd_queue s') u \<noteq> CBroken" for u
    using sendq.in_order [OF rtranclp.rtrancl_into_rtrancl [of send_step, OF assms]] by blast
  consider "sd_queue s' = sd_queue s"
    | t oc where "mq_step t oc (sd_queue s) (sd_queue s')" "of_enqueue oc \<or> sd_pc s t = SDeq"
    using sendq.step [OF assms(2)] by blast
  then show ?thesis
  proof cases
    case 2
    have "\<forall>u. u \<noteq> t \<longrightarrow> mq_cons (sd_queue s) u = CIdle" if "\<not> of_enqueue oc"
      using sender_alone [OF ok, of t] 2(2) that by simp
    then show ?thesis using mq_step_heads [OF 2(1)] sane by blast
  qed simp
qed

lemma size_positive:
  assumes "send_step\<^sup>*\<^sup>* (sd_new d) s" and "holds (sd_pc s t)" and "sd_pc s t \<noteq> SDeq" and "h = heads_word s"
  shows "tails_word s - h \<noteq> 0 \<Longrightarrow> length (outq s) < tickets s" and "length (outq s) < tickets s \<Longrightarrow> \<not> sint (tails_word s - h) < 1"
proof -
  note w = words [OF assms(1)] and n = all_idle(2) [OF assms(1) disjI1 [OF assms(2)] assms(3)]
  have e: "tails_word s - h = of_nat (tickets s - length (outq s))" using w(1,2,4) n assms(4) by (simp add: of_nat_diff)
  show "length (outq s) < tickets s" if "tails_word s - h \<noteq> 0"
    using that unfolding e by (cases "length (outq s) < tickets s") simp_all
  have "tickets s - length (outq s) < 2 ^ 31" using w(5) by simp
  then have "sint (tails_word s - h) = int (tickets s - length (outq s))" unfolding e by (rule i32_of_nat_small(2))
  then show "length (outq s) < tickets s \<Longrightarrow> \<not> sint (tails_word s - h) < 1" by simp
qed

lemma stale_empty:
  assumes "send_step\<^sup>*\<^sup>* (sd_new d) s" and "pc_ok s (SHead m h k)" and "tickets s < k + 2 ^ 31" and "tails_word s - h = 0"
  shows "heads_of (sd_queue s) = tickets s"
proof -
  obtain n where n: "h = of_nat n" "n \<le> heads_of (sd_queue s)" "k \<le> n + 2 ^ 30" using assms(2) by auto
  note w = words [OF assms(1)]
  have "tickets s = n" using assms(3,4) n w(2,4) by (intro word_distance) simp_all
  then show ?thesis using n(2) w(4) by simp
qed

lemma sent_okD:
  assumes "sent_ok s"
  shows "sd_posted s > 0 \<Longrightarrow> length (outq s) < tickets s" "b \<in> set (sd_sent s) \<Longrightarrow> b \<noteq> [] \<and> length b \<le> SEND_QUEUE_SIZE"
    "\<exists>rest. outq s = concat (sd_sent s) @ rest"
    "\<not> sd_dropped s \<Longrightarrow> (\<And>t. sd_pc s t \<noteq> SDeq \<and> sd_pc s t \<noteq> SWsa) \<Longrightarrow> outq s = concat (sd_sent s)"
  using assms unfolding sent_ok_def by blast+

definition data_ok :: "'a send_run \<Rightarrow> bool" where
  "data_ok s \<longleftrightarrow> (\<forall>t. pc_ok s (sd_pc s t)) \<and> sent_ok s \<and> watch_ok s"

text \<open>The moves of one thread that leave what is sent alone.\<close>

lemma pcs_move:
  assumes "\<forall>u. pc_ok s (sd_pc s u)" and "sd_pc s' = (sd_pc s)(t := p)" and "pc_ok s' p"
    and "heads_of (sd_queue s) \<le> heads_of (sd_queue s')"
    and "\<And>u. u \<noteq> t \<Longrightarrow> holds (sd_pc s u) \<Longrightarrow> heads_word s' = heads_word s \<and> outq s' = outq s \<and> tickets s \<le> tickets s' \<and>
      sd_sending s' = sd_sending s \<and> sd_sent s' = sd_sent s"
  shows "\<forall>u. pc_ok s' (sd_pc s' u)"
proof
  fix u
  show "pc_ok s' (sd_pc s' u)"
  proof (cases "u = t")
    case False
    then show ?thesis using assms(2) pc_ok_keep [OF _ assms(4), of "sd_pc s u"] assms(1) assms(5) [OF False] by simp
  qed (use assms(2,3) in simp)
qed

lemma sent_ok_move:
  assumes "sent_ok s" and "sd_sent s' = sd_sent s" and "outq s' = outq s" and "tickets s \<le> tickets s'"
    and "sd_posted s' > 0 \<Longrightarrow> sd_posted s > 0 \<or> length (outq s') < tickets s'" and "\<not> sd_dropped s' \<Longrightarrow> \<not> sd_dropped s"
    and pc: "sd_pc s' = (sd_pc s)(t := p)" "sd_pc s t = SDeq \<or> sd_pc s t = SWsa \<Longrightarrow> p = SDeq \<or> p = SWsa"
  shows "sent_ok s'"
  unfolding sent_ok_def
proof (intro conjI impI)
  note D = sent_okD [OF assms(1)]
  show "length (outq s') < tickets s'" if "sd_posted s' > 0"
    using assms(5) [OF that] D(1) assms(3,4) by (auto intro: order.strict_trans2)
  show "\<forall>b\<in>set (sd_sent s'). b \<noteq> [] \<and> length b \<le> SEND_QUEUE_SIZE" using D(2) assms(2) by simp
  show "\<exists>rest. outq s' = concat (sd_sent s') @ rest" using D(3) assms(2,3) by simp
  show "outq s' = concat (sd_sent s')" if "\<not> sd_dropped s'" "\<forall>t. sd_pc s' t \<noteq> SDeq \<and> sd_pc s' t \<noteq> SWsa"
  proof -
    have "sd_pc s u \<noteq> SDeq \<and> sd_pc s u \<noteq> SWsa" for u
      using pc that(2) [rule_format, of u] that(2) [rule_format, of t] by (cases "u = t") auto
    then show ?thesis using D(4) assms(6) [OF that(1)] assms(2,3) by simp
  qed
qed

text \<open>A thread that has the turn moves: no other thread depends on what it changes.\<close>

lemma pcs_holder:
  fixes s s' :: "'a send_run"
  assumes "turn_ok s" and "\<forall>u. pc_ok s (sd_pc s u)" and "holds (sd_pc s t)" and "sd_pc s' = (sd_pc s)(t := p)" and "pc_ok s' p"
    and "heads_of (sd_queue s) \<le> heads_of (sd_queue s')"
  shows "\<forall>u. pc_ok s' (sd_pc s' u)"
proof (rule pcs_move [OF assms(2,4,5,6)])
  have t: "turn s (Thr t)" using assms(3) by simp
  show "heads_word s' = heads_word s \<and> outq s' = outq s \<and> tickets s \<le> tickets s' \<and> sd_sending s' = sd_sending s \<and> sd_sent s' = sd_sent s"
    if "u \<noteq> t" "holds (sd_pc s u)" for u
    using turn_alone(6) [OF assms(1) t, of u] that by simp
qed

text \<open>A thread moves and leaves the queue and what is sent alone.\<close>

lemma pcs_goto:
  assumes "\<forall>u. pc_ok s (sd_pc s u)" and "sd_pc s' = (sd_pc s)(t := p)" and "sd_queue s' = sd_queue s"
    and "sd_sending s' = sd_sending s" and "sd_sent s' = sd_sent s" and "pc_ok s' p"
  shows "\<forall>u. pc_ok s' (sd_pc s' u)"
  using assms(3-5) by (intro pcs_move [OF assms(1,2,6)]) simp_all

lemma pcs_sto:
  assumes "s' = sto t p s" and "\<forall>u. pc_ok s (sd_pc s u)" and "pc_ok s p"
  shows "\<forall>u. pc_ok s' (sd_pc s' u)"
proof (rule pcs_goto [OF assms(2)])
  show "sd_pc s' = (sd_pc s)(t := p)" using assms(1) by simp
  show "pc_ok s' p" using assms(1,3) by (cases p) auto
qed (simp_all add: assms(1))

lemma send_step_pcs:
  assumes reach: "send_step\<^sup>*\<^sup>* (sd_new d) s" and step: "send_step s s'" and pcs: "\<forall>u. pc_ok s (sd_pc s u)" and sent: "sent_ok s"
  shows "\<forall>u. pc_ok s' (sd_pc s' u)"
proof -
  note ok = send_steps_ok [OF reach] and H = send_step_heads [OF reach step] and D = sent_okD [OF sent]
  have at: "pc_ok s p" if "sd_pc s t = p" for t p using pcs that by blast
  show ?thesis
    using step
  proof cases
    case (push t m x q)
    note k = mq_enqueue [OF push(3)]
    show ?thesis using k push(1) by (intro pcs_move [OF pcs _ _ H, of t "SPush m"]) auto
  next
    case (push_on t m oc q)
    then have e: "of_enqueue oc" "\<forall>x. oc \<noteq> Ticket x" by auto
    note k = mq_enqueue [OF push_on(3) e(1)]
    show ?thesis using k e push_on(1) by (intro pcs_move [OF pcs _ _ H, of t "SPush m"]) auto
  next
    case (pushed t m q)
    note k = mq_enqueue [OF pushed(3)]
    show ?thesis using k pushed(1) by (intro pcs_move [OF pcs _ _ H, of t "SMore m"]) auto
  next
    case (load t m)
    have "pc_ok s (SHead m (heads_word s) (tickets s))"
      using words [OF reach] by (auto intro!: exI [of _ "heads_of (sd_queue s)"])
    then show ?thesis using load(1) by (intro pcs_goto [OF pcs, of _ t "SHead m (heads_word s) (tickets s)"]) simp_all
  next
    case (some2 t m h)
    have "length (outq s) < tickets s"
      using size_positive(1) [OF reach, of t h] at [OF some2(2)] some2(2,3) by simp
    then show ?thesis using some2(1) by (intro pcs_goto [OF pcs, of _ t "sd_pc s' t"]) simp_all
  next
    case (take_request t)
    show ?thesis using take_request(1) D(1) [OF take_request(3)] by (intro pcs_goto [OF pcs, of _ t SReal]) simp_all
  next
    case (size_zero t h)
    then show ?thesis using size_positive(2) [OF reach, of t h] at [OF size_zero(2)] by simp
  next
    case (size_some t h)
    have t: "turn s (Thr t)" using size_some(2) by simp
    have "sd_pc s u \<noteq> SDeq \<and> sd_pc s u \<noteq> SWsa" for u using turn_alone(6) [OF ok(1) t, of u] size_some(2) by auto
    then have "outq s = concat (sd_sent s)" using D(4) turn_alone(5) [OF ok(1) t] by simp
    then show ?thesis using size_some(1,2) at [OF size_some(2)]
      by (intro pcs_holder [OF ok(1) pcs, of t _ SDeq]) (simp_all add: SEND_QUEUE_SIZE_def)
  next
    case (take t q)
    note k = mq_dequeue [OF take(3)]
    show ?thesis using take(1,2) k at [OF take(2)] H by (intro pcs_holder [OF ok(1) pcs, of t _ SDeq]) auto
  next
    case (taken t x q)
    note k = mq_dequeue [OF taken(3)]
    show ?thesis using taken(1,2) k at [OF taken(2)] H by (intro pcs_holder [OF ok(1) pcs, of t _ "sd_pc s' t"]) auto
  next
    case (none t q)
    note k = mq_dequeue [OF none(3)]
    show ?thesis using none(1,2) k at [OF none(2)] H by (intro pcs_holder [OF ok(1) pcs, of t _ "sd_pc s' t"]) auto
  next
    case (started t)
    show ?thesis using started(1,2) H by (intro pcs_holder [OF ok(1) pcs, of t _ SIdle]) simp_all
  next
    case (complete t)
    have w: "turn s Wire" using complete(3) by simp
    have "\<not> holds (sd_pc s u)" for u using turn_alone(6) [OF ok(1) w, of u] by simp
    then show ?thesis using complete(1) H by (intro pcs_move [OF pcs, of _ t SClear]) simp_all
  next
    case (call t)
    then show ?thesis by (intro pcs_goto [OF pcs, of _ t "sd_pc s' t"]) simp_all
  next
    case complete_failed
    then show ?thesis using pcs pc_ok_keep [of s _ s'] by simp
  next
    case close
    then show ?thesis using pcs pc_ok_keep [of s _ s'] by simp
  next
    case release
    then show ?thesis using pcs pc_ok_keep [of s _ s'] by simp
  next
    case (exchanged t m)
    then show ?thesis by (intro pcs_goto [OF pcs, of _ t "SLoad2 m"]) simp_all
  next
    case (undo t m)
    then show ?thesis by (intro pcs_goto [OF pcs, of _ t "SFlag m"]) simp_all
  next
    case (post t)
    then show ?thesis by (intro pcs_goto [OF pcs, of _ t SIdle]) simp_all
  next
    case (real_released t)
    then show ?thesis by (intro pcs_goto [OF pcs, of _ t SIdle]) simp_all
  next
    case (send_failed t)
    then show ?thesis by (intro pcs_goto [OF pcs, of _ t SIdle]) simp_all
  next
    case (clear t)
    then show ?thesis by (intro pcs_goto [OF pcs, of _ t "SCan Direct"]) simp_all
  next
    case (real t)
    then show ?thesis using at [OF real(2)] by (intro pcs_sto [OF real(1) pcs]) simp
  next
    case (size_load t)
    then show ?thesis using at [OF size_load(2)] by (intro pcs_sto [OF size_load(1) pcs]) simp
  qed (erule pcs_sto [OF _ pcs], use at in force)+
qed

text \<open>What was sent stays a prefix of what was taken from the queue.\<close>

lemma sent_ok_step:
  assumes "s' = (sto t p r)" and "sent_ok s" and "sd_sent r = sd_sent s" and "sd_queue r = sd_queue s" and "sd_pc r = sd_pc s"
    and "sd_posted r > 0 \<Longrightarrow> sd_posted s > 0" and "sd_dropped s \<Longrightarrow> sd_dropped r" and "sd_pc s t = SDeq \<or> sd_pc s t = SWsa \<Longrightarrow> p = SDeq \<or> p = SWsa"
  shows "sent_ok s'"
  using assms by (intro sent_ok_move [OF assms(2), of _ t p]) auto

lemma send_step_sent:
  assumes reach: "send_step\<^sup>*\<^sup>* (sd_new d) s" and step: "send_step s s'" and pcs: "\<forall>u. pc_ok s (sd_pc s u)" and sent: "sent_ok s"
  shows "sent_ok s'"
proof -
  note ok = send_steps_ok [OF reach] and D = sent_okD [OF sent]
  have at: "pc_ok s p" if "sd_pc s t = p" for t p using pcs that by blast
  have others: "sd_pc s u \<noteq> SDeq \<and> sd_pc s u \<noteq> SWsa" if "holds (sd_pc s t)" "u \<noteq> t" for t u
    using turn_alone(6) [OF ok(1), of "Thr t" u] that by auto
  show ?thesis
    using step
  proof cases
    case (push t m x q)
    note k = mq_enqueue [OF push(3)]
    show ?thesis using k push(1,2) by (intro sent_ok_move [OF sent, of _ t "sd_pc s' t"]) auto
  next
    case (push_on t m oc q)
    then have e: "of_enqueue oc" "\<forall>x. oc \<noteq> Ticket x" by auto
    note k = mq_enqueue [OF push_on(3) e(1)]
    show ?thesis using k e push_on(1,2) by (intro sent_ok_move [OF sent, of _ t "sd_pc s' t"]) auto
  next
    case (pushed t m q)
    note k = mq_enqueue [OF pushed(3)]
    show ?thesis using k pushed(1,2) by (intro sent_ok_move [OF sent, of _ t "sd_pc s' t"]) auto
  next
    case (take t q)
    note k = mq_dequeue [OF take(3)]
    show ?thesis using k take(1,2) by (intro sent_ok_move [OF sent, of _ t "sd_pc s' t"]) auto
  next
    case (none t q)
    note k = mq_dequeue [OF none(3)]
    show ?thesis using k none(1,2) by (intro sent_ok_move [OF sent, of _ t "sd_pc s' t"]) auto
  next
    case (post t)
    show ?thesis using post(1,2) at [OF post(2)] by (intro sent_ok_move [OF sent, of _ t "sd_pc s' t"]) auto
  next
    case (taken t x q)
    note k = mq_dequeue [OF taken(3)]
    have t: "turn s (Thr t)" using taken(2) by simp
    have "sd_posted s = 0" using turn_alone(3) [OF ok(1) t] by simp
    then show ?thesis
      using k(4) taken(1) at [OF taken(2)] D(2) by (auto simp: sent_ok_def split: if_splits)
  next
    case (started t)
    have t: "turn s (Thr t)" using started(2) by simp
    have "sd_posted s = 0" using turn_alone(3) [OF ok(1) t] by simp
    then show ?thesis using started(1) at [OF started(2)] D(2) by (auto simp: sent_ok_def)
  next
    case (send_failed t)
    then show ?thesis using D(1-3) by (auto simp: sent_ok_def)
  next
    case (size_some t h)
    show ?thesis using size_some(1,2) others [of t] by (intro sent_ok_move [OF sent, of _ t "sd_pc s' t"]) auto
  next
    case complete_failed
    then show ?thesis using D(1-3) by (auto simp: sent_ok_def)
  next
    case close
    then show ?thesis using sent by (simp add: sent_ok_def)
  next
    case release
    then show ?thesis using sent by (simp add: sent_ok_def)
  next
    case (exchanged t m)
    then show ?thesis by (intro sent_ok_move [OF sent, of _ t "sd_pc s' t"]) auto
  next
    case (undo t m)
    then show ?thesis by (intro sent_ok_move [OF sent, of _ t "sd_pc s' t"]) auto
  next
    case (take_request t)
    then show ?thesis by (intro sent_ok_move [OF sent, of _ t "sd_pc s' t"]) auto
  next
    case (real_released t)
    then show ?thesis by (intro sent_ok_move [OF sent, of _ t "sd_pc s' t"]) auto
  next
    case (complete t)
    then show ?thesis by (intro sent_ok_move [OF sent, of _ t "sd_pc s' t"]) auto
  next
    case (clear t)
    then show ?thesis by (intro sent_ok_move [OF sent, of _ t "sd_pc s' t"]) auto
  qed (erule sent_ok_step [OF _ sent]; auto)+
qed

text \<open>Somebody keeps watching.\<close>

lemma send_step_watch:
  assumes reach: "send_step\<^sup>*\<^sup>* (sd_new d) s" and step: "send_step s s'" and pcs: "\<forall>u. pc_ok s (sd_pc s u)"
  shows "watch_ok s'"
  unfolding watch_ok_def
proof (intro impI)
  assume live: "sd_connect s'" "\<not> sd_released s'" "\<not> sd_isSending s'" "length (outq s') < tickets s'"
  note ok = send_steps_ok [OF reach]
  have turn: "sd_isSending s" if "turn s a" for a using turn_alone(2) [OF ok(1) that] .
  have holder: "sd_isSending s" if "sd_pc s t = p" "holds p" for t p using turn [of "Thr t"] that by simp
  show "\<exists>u. watches (sd_pc s' u)"
    using step
  proof cases
    case (empty t m h k)
    have "pc_ok s (SHead m h k)" using pcs empty(2) by metis
    then have "heads_of (sd_queue s) = tickets s" using stale_empty [OF reach _ empty(3,4)] by simp
    moreover have "heads_of (sd_queue s) = length (outq s)" using all_idle(2) [OF reach, of t] empty(1,2) live(3) by simp
    ultimately show ?thesis using live(4) empty(1) by simp
  next
    case (take_request t)
    then show ?thesis using turn [of Port] live(3) by simp
  next
    case (complete t)
    then show ?thesis using turn [of Wire] live(3) by simp
  next
    case complete_failed
    then show ?thesis using turn [of Wire] live(3) by simp
  next
    case (undo t m)
    then show ?thesis by (intro exI [of _ t]) simp
  next
    case (clear t)
    then show ?thesis by (intro exI [of _ t]) simp
  qed (use live holder in \<open>force+\<close>)
qed

lemma data_ok_new: "data_ok (sd_new d)"
  by (simp add: data_ok_def sent_ok_def watch_ok_def sd_new_def)

lemma send_steps_data: "send_step\<^sup>*\<^sup>* (sd_new d) s \<Longrightarrow> data_ok s"
proof (induction rule: rtranclp_induct)
  case base
  show ?case by (rule data_ok_new)
next
  case (step s s')
  have pcs: "\<forall>u. pc_ok s (sd_pc s u)" and sent: "sent_ok s" using step.IH by (simp_all add: data_ok_def)
  show ?case unfolding data_ok_def
    using send_step_pcs [OF step.hyps pcs sent] send_step_sent [OF step.hyps pcs sent] send_step_watch [OF step.hyps pcs] by blast
qed

lemma sent_prefix:
  assumes "send_step\<^sup>*\<^sup>* (sd_new d) s"
  shows "concat (sd_sent s) = List.take (length (concat (sd_sent s))) (mq_log (sd_queue s))"
proof -
  obtain rest where r: "outq s = concat (sd_sent s) @ rest" using send_steps_data [OF assms] by (auto simp: data_ok_def sent_ok_def)
  have o: "outq s = List.take (length (outq s)) (mq_log (sd_queue s))" using sendq.in_order [OF assms] by blast
  have "concat (sd_sent s) = List.take (length (concat (sd_sent s))) (outq s)" by (simp add: r)
  also have "\<dots> = List.take (length (concat (sd_sent s))) (mq_log (sd_queue s))"
    by (subst o) (simp add: r min_absorb1)
  finally show ?thesis .
qed

text \<open>A run in which one thread enqueues a buffer and posts the request.\<close>

lemma one_request:
  obtains s where "send_step\<^sup>*\<^sup>* (sd_new (0 :: nat)) s" "\<forall>t. sd_pc s t = SIdle" "sd_connect s" "\<not> sd_released s" "\<not> sd_dropped s"
    "mq_log (sd_queue s) = [7]" "sd_sent s = []" "\<not> sd_inflight s"
proof -
  let ?q = "mq_new SEND_QUEUE_SIZE (0 :: nat)" and ?s = "sd_new (0 :: nat)"
  obtain m1 m2 m3 m4 where m: "mq_step 0 (Ticket 7) ?q m1" "mq_step 0 Enqueuing m1 m2" "mq_step 0 Enqueuing m2 m3"
      "mq_step 0 Accepted m3 m4" "mq_log m4 = [7]" "fq_headIndex (mq_q m4) = 0" "fq_tailIndex (mq_q m4) = 1"
    using mq_enqueue_run [of ?q 0 7 thesis] fq_new_free [OF send_slots, of "0 :: nat"] by (simp add: fq_new_def)
  define b where "b = ?s\<lparr>sd_queue := m4\<rparr>"
  define c where "c = b\<lparr>sd_isSending := True\<rparr>"
  have sel: "sd_pc b = (\<lambda>_. SIdle)" "sd_queue b = m4" "sd_connect b" "\<not> sd_released b" "\<not> sd_isSending b" "sd_posted b = 0"
    "sd_pc c = (\<lambda>_. SIdle)" "sd_queue c = m4" "sd_posted c = 0"
    by (simp_all add: b_def c_def sd_new_def)
  note more = rtranclp.rtrancl_into_rtrancl [of send_step ?s]
  let ?a1 = "sto 0 (SMore Post) ?s" let ?a2 = "stq 0 (SPush Post) m1 ?s" let ?a3 = "stq 0 (SPush Post) m2 ?s" let ?a4 = "stq 0 (SPush Post) m3 ?s"
  have "send_step ?s ?a1" using call [of ?s 0 Post] by (simp add: sd_new_def)
  then have r: "send_step\<^sup>*\<^sup>* ?s ?a1" by (rule r_into_rtranclp [of send_step])
  have r: "send_step\<^sup>*\<^sup>* ?s ?a2" by (rule more [OF r]) (use push [of ?a1 0 Post 7 m1] m(1) in \<open>simp add: sd_new_def\<close>)
  have r: "send_step\<^sup>*\<^sup>* ?s ?a3" by (rule more [OF r]) (use push_on [of ?a2 0 Post Enqueuing m2] m(2) in simp)
  have r: "send_step\<^sup>*\<^sup>* ?s ?a4" by (rule more [OF r]) (use push_on [of ?a3 0 Post Enqueuing m3] m(3) in simp)
  have r: "send_step\<^sup>*\<^sup>* ?s (sto 0 (SMore Post) b)" by (rule more [OF r]) (use pushed [of ?a4 0 Post m4] m(4) in \<open>simp add: b_def\<close>)
  have r: "send_step\<^sup>*\<^sup>* ?s (sto 0 (SCan Post) b)" by (rule more [OF r]) (use can_send [of "sto 0 (SMore Post) b" 0 Post] in simp)
  have r: "send_step\<^sup>*\<^sup>* ?s (sto 0 (SFlag Post) b)" by (rule more [OF r]) (use connected [of "sto 0 (SCan Post) b" 0 Post] sel in simp)
  have r: "send_step\<^sup>*\<^sup>* ?s (sto 0 (SLoad Post) b)" by (rule more [OF r]) (use flag_clear [of "sto 0 (SFlag Post) b" 0 Post] sel in simp)
  have r: "send_step\<^sup>*\<^sup>* ?s (sto 0 (SHead Post 0 1) b)" by (rule more [OF r]) (use load [of "sto 0 (SLoad Post) b" 0 Post] sel m in simp)
  have r: "send_step\<^sup>*\<^sup>* ?s (sto 0 (SXchg Post) b)" by (rule more [OF r]) (use some [of "sto 0 (SHead Post 0 1) b" 0 Post 0 1] sel m in simp)
  have r: "send_step\<^sup>*\<^sup>* ?s (sto 0 (SLoad2 Post) c)" by (rule more [OF r]) (use exchanged [of "sto 0 (SXchg Post) b" 0 Post] sel in \<open>cases b; simp add: c_def\<close>)
  have r: "send_step\<^sup>*\<^sup>* ?s (sto 0 (SHead2 Post 0) c)" by (rule more [OF r]) (use load2 [of "sto 0 (SLoad2 Post) c" 0 Post] sel m in simp)
  have r: "send_step\<^sup>*\<^sup>* ?s (sto 0 SPost c)" by (rule more [OF r]) (use some2 [of "sto 0 (SHead2 Post 0) c" 0 Post 0] sel m in simp)
  have r: "send_step\<^sup>*\<^sup>* ?s ((sto 0 SIdle c)\<lparr>sd_posted := 1\<rparr>)" by (rule more [OF r]) (use post [of "sto 0 SPost c" 0] sel in simp)
  show ?thesis using that [OF r] sel m(5) by (simp add: b_def c_def sd_new_def)
qed

subsection \<open>Properties\<close>



text \<open>
  C5. No send is left: when no thread is inside a call, the connection is open and no send has failed, buffers in the queue are
  on their way: \<^verbatim>\<open>_isSending\<close> is set, and either the request is in the port or a \<^verbatim>\<open>WSASend\<close> is in flight, whose completion looks at
  the queue again.
\<close>

theorem no_send_is_left:
  assumes "send_step\<^sup>*\<^sup>* (sd_new d) s" and "\<forall>t. sd_pc s t = SIdle" and "sd_connect s" and "\<not> sd_released s" and "\<not> sd_dropped s"
    and "length (concat (sd_sent s)) < length (mq_log (sd_queue s))"
  shows "sd_isSending s \<and> (sd_posted s = 1 \<or> sd_inflight s)"
proof -
  note ok = send_steps_ok [OF assms(1)] and D = send_steps_data [OF assms(1), unfolded data_ok_def]
  have "outq s = concat (sd_sent s)" using D assms(2,5) by (simp add: sent_ok_def)
  then have i: "sd_isSending s" using D assms(2-4,6) by (auto simp: watch_ok_def)
  then obtain a where a: "turn s a" using ok(1) by (auto simp: turn_ok_def)
  show ?thesis using i a assms(2,5) turn_alone(3) [OF ok(1) a] by (cases a) simp_all
qed

theorem no_send_is_left_witness:
  "\<exists>s. send_step\<^sup>*\<^sup>* (sd_new (0 :: nat)) s \<and> (\<forall>t. sd_pc s t = SIdle) \<and> mq_log (sd_queue s) = [7] \<and> sd_isSending s \<and> sd_posted s = 1"
proof -
  obtain s where s: "send_step\<^sup>*\<^sup>* (sd_new (0 :: nat)) s" "\<forall>t. sd_pc s t = SIdle" "sd_connect s" "\<not> sd_released s" "\<not> sd_dropped s"
    "mq_log (sd_queue s) = [7]" "sd_sent s = []" "\<not> sd_inflight s" by (rule one_request)
  then show ?thesis using no_send_is_left [OF s(1-5)] by auto
qed

end
